(* ===== verification/Prelude.thy ===== *)
theory Prelude
  imports Main "HOL-Library.Word" "HOL-Library.Char_ord"
begin

unbundle bit_operations_syntax

text \<open>
  Shared vocabulary of the development.

  \<^item> \<open>err\<close> and \<open>'a res\<close>: every operation that can throw returns a sum. \<open>Throw m\<close> is a
    \<^verbatim>\<open>std::runtime_error\<close> whose message is \<open>m\<close>, up to the run-time values the code formats
    into it. \<open>UB m\<close> marks a point where the C++ would have undefined behaviour (a read outside a
    buffer, a copy through a null pointer); the theorems of the development show that the code
    does not reach it.
  \<^item> \<open>bnd\<close>, \<open>guard\<close>: sequencing of fallible steps and an early \<^verbatim>\<open>if (cond) throw\<close>.
  \<^item> \<open>byte\<close>: a byte is HOL's 8-bit \<open>char\<close>, so that file contents, tensor storage and text share
    one type; \<open>le_nat\<close> and \<open>nat_le\<close> are the little-endian readings of a byte run.
  \<^item> \<open>size_max\<close>, \<open>int64_max\<close>, \<open>int32_max\<close>: the limits of the 64-bit target.
\<close>

section \<open>Errors and sequencing\<close>

datatype err = Throw string | UB string

type_synonym 'a res = "err + 'a"

definition bnd :: "'a res \<Rightarrow> ('a \<Rightarrow> 'b res) \<Rightarrow> 'b res" where
  "bnd m f = (case m of Inl e \<Rightarrow> Inl e | Inr x \<Rightarrow> f x)"

definition guard :: "bool \<Rightarrow> string \<Rightarrow> 'a res \<Rightarrow> 'a res" where
  "guard b msg k = (if b then Inl (Throw msg) else k)"

named_theorems res_simps \<open>computation rules for fallible code\<close>

lemma bnd_Inl [simp, res_simps]: "bnd (Inl e) f = Inl e"
  by (simp add: bnd_def)

lemma bnd_Inr [simp, res_simps]: "bnd (Inr x) f = f x"
  by (simp add: bnd_def)

lemma bnd_assoc: "bnd (bnd m f) g = bnd m (\<lambda>x. bnd (f x) g)"
  by (cases m) auto

lemma bnd_eq_Inr [simp]: "bnd m f = Inr y \<longleftrightarrow> (\<exists>x. m = Inr x \<and> f x = Inr y)"
  by (cases m) auto

lemma bnd_eq_Inl: "bnd m f = Inl e \<longleftrightarrow> m = Inl e \<or> (\<exists>x. m = Inr x \<and> f x = Inl e)"
  by (cases m) auto

lemma bnd_cong [fundef_cong]:
  "m = m' \<Longrightarrow> (\<And>x. m' = Inr x \<Longrightarrow> f x = f' x) \<Longrightarrow> bnd m f = bnd m' f'"
  by (cases m') auto

lemma guard_True [simp, res_simps]: "guard True msg k = Inl (Throw msg)"
  by (simp add: guard_def)

lemma guard_False [simp, res_simps]: "guard False msg k = k"
  by (simp add: guard_def)

lemma guard_eq_Inr [simp]: "guard b msg k = Inr y \<longleftrightarrow> \<not> b \<and> k = Inr y"
  by (simp add: guard_def)

lemma guard_eq_Inl: "guard b msg k = Inl e \<longleftrightarrow> (b \<and> e = Throw msg) \<or> (\<not> b \<and> k = Inl e)"
  by (auto simp: guard_def)

lemma guard_cong [fundef_cong]:
  "b = b' \<Longrightarrow> msg = msg' \<Longrightarrow> (\<not> b' \<Longrightarrow> k = k') \<Longrightarrow> guard b msg k = guard b' msg' k'"
  by (simp add: guard_def)

text \<open>A computation that never reaches undefined behaviour.\<close>

definition safe :: "'a res \<Rightarrow> bool" where
  "safe r \<longleftrightarrow> (\<forall>m. r \<noteq> Inl (UB m))"

lemma safe_Inr [simp, intro]: "safe (Inr x)"
  by (simp add: safe_def)

lemma safe_Throw [simp, intro]: "safe (Inl (Throw m))"
  by (simp add: safe_def)

lemma safe_UB [simp]: "\<not> safe (Inl (UB m))"
  by (simp add: safe_def)

lemma safe_bnd: "safe m \<Longrightarrow> (\<And>x. m = Inr x \<Longrightarrow> safe (f x)) \<Longrightarrow> safe (bnd m f)"
  by (cases m) (auto simp: safe_def)

lemma safe_guard: "(\<not> b \<Longrightarrow> safe k) \<Longrightarrow> safe (guard b msg k)"
  by (auto simp: guard_def)

section \<open>Limits of the target\<close>

definition size_max :: nat where
  "size_max = 18446744073709551615"

definition int64_max :: int where
  "int64_max = 9223372036854775807"

definition int32_max :: int where
  "int32_max = 2147483647"

text \<open>\<^verbatim>\<open>std::size_t\<close> arithmetic wraps; products and sums are taken modulo \<open>2 ^ 64\<close>.\<close>

definition size_wrap :: "nat \<Rightarrow> nat" where
  "size_wrap n = n mod 18446744073709551616"

lemma size_wrap_id: "n \<le> size_max \<Longrightarrow> size_wrap n = n"
  by (simp add: size_wrap_def size_max_def)

lemma size_wrap_le: "size_wrap n \<le> size_max"
proof -
  have "n mod 18446744073709551616 < 18446744073709551616" by simp
  then show ?thesis by (simp add: size_wrap_def size_max_def)
qed

text \<open>A C++ \<^verbatim>\<open>int\<close> (32 bits) and an \<^verbatim>\<open>int64_t\<close>.\<close>

definition is_int32 :: "int \<Rightarrow> bool" where
  "is_int32 i \<longleftrightarrow> - 2147483648 \<le> i \<and> i \<le> int32_max"

definition is_int64 :: "int \<Rightarrow> bool" where
  "is_int64 i \<longleftrightarrow> - 9223372036854775808 \<le> i \<and> i \<le> int64_max"

section \<open>Bytes\<close>

type_synonym byte = char

primrec le_nat :: "byte list \<Rightarrow> nat" where
  "le_nat [] = 0"
| "le_nat (b # bs) = of_char b + 256 * le_nat bs"

primrec nat_le :: "nat \<Rightarrow> nat \<Rightarrow> byte list" where
  "nat_le 0 n = []"
| "nat_le (Suc k) n = char_of n # nat_le k (n div 256)"

lemma length_nat_le [simp]: "length (nat_le k n) = k"
  by (induction k arbitrary: n) auto

lemma le_nat_nat_le [simp]: "le_nat (nat_le k n) = n mod 256 ^ k"
proof (induction k arbitrary: n)
  case (Suc k)
  have "n mod 256 ^ Suc k = n mod 256 + 256 * (n div 256 mod 256 ^ k)"
    by (metis mod_mult2_eq power_Suc add.commute)
  then show ?case by (simp add: Suc)
qed simp

lemma le_nat_bound: "le_nat bs < 256 ^ length bs"
proof (induction bs)
  case (Cons b bs)
  have "le_nat (b # bs) < 256 * Suc (le_nat bs)" by simp
  also have "\<dots> \<le> 256 * 256 ^ length bs" using Cons by (intro mult_le_mono) simp_all
  finally show ?case by simp
qed simp

lemma nat_le_le_nat [simp]: "nat_le (length bs) (le_nat bs) = bs"
proof (induction bs)
  case (Cons b bs)
  have lt: "(of_char b :: nat) < 256" by simp
  then have "(of_char b + 256 * le_nat bs) div 256 = le_nat bs" by simp
  moreover have "char_of (of_char b + 256 * le_nat bs) = b"
  proof -
    have "char_of (of_char b + 256 * le_nat bs) = (char_of ((of_char b + 256 * le_nat bs) mod 256) :: char)"
      by (simp only: char_of_mod_256)
    also have "(of_char b + 256 * le_nat bs) mod 256 = of_char b" using lt by simp
    finally show ?thesis by simp
  qed
  ultimately show ?case using Cons by simp
qed simp

section \<open>Windows\<close>

text \<open>\<open>window off n xs\<close>: the \<open>n\<close> elements from \<open>off\<close> on.\<close>

definition window :: "nat \<Rightarrow> nat \<Rightarrow> 'a list \<Rightarrow> 'a list" where
  "window off n xs = take n (drop off xs)"

lemma length_window [simp]: "off + n \<le> length xs \<Longrightarrow> length (window off n xs) = n"
  by (simp add: window_def)

lemma window_append_skip [simp]: "window (length xs + off) n (xs @ ys) = window off n ys"
  by (simp add: window_def)

lemma window_append_take: "window 0 (length xs) (xs @ ys) = xs"
  by (simp add: window_def)

text \<open>\<open>overlay off src xs\<close>: \<open>memcpy\<close> of \<open>src\<close> over \<open>xs\<close> at \<open>off\<close>.\<close>

definition overlay :: "nat \<Rightarrow> 'a list \<Rightarrow> 'a list \<Rightarrow> 'a list" where
  "overlay off src xs = take off xs @ src @ drop (off + length src) xs"

lemma length_overlay [simp]:
  "off + length src \<le> length xs \<Longrightarrow> length (overlay off src xs) = length xs"
  by (simp add: overlay_def)

lemma window_overlay_same:
  "off + length src \<le> length xs \<Longrightarrow> window off (length src) (overlay off src xs) = src"
  by (simp add: window_def overlay_def)

lemma window_overlay_other:
  assumes "off + length src \<le> length xs" "o' + n \<le> off \<or> off + length src \<le> o'"
  shows "window o' n (overlay off src xs) = window o' n xs"
proof -
  have "overlay off src xs ! i = xs ! i" if "i < off \<or> off + length src \<le> i" "i < length xs" for i
    using assms(1) that by (auto simp: overlay_def nth_append)
  then show ?thesis using assms
    by (intro nth_equalityI) (auto simp: window_def)
qed

lemma overlay_0_full: "length src = length xs \<Longrightarrow> overlay 0 src xs = src"
  by (simp add: overlay_def)

lemma int_div_less_iff: "0 < d \<Longrightarrow> (k :: int) div d < n \<longleftrightarrow> k < n * d"
proof -
  assume d: "0 < d"
  have k: "k = k div d * d + k mod d" "0 \<le> k mod d" "k mod d < d" using d by simp_all
  show ?thesis
  proof
    assume "k div d < n"
    then have "(k div d + 1) * d \<le> n * d" by (intro mult_right_mono) (use d in auto)
    then show "k < n * d" using k unfolding distrib_right by linarith
  next
    assume "k < n * d"
    then have "k div d * d < n * d" using k by linarith
    then show "k div d < n" using d by simp
  qed
qed

section \<open>Safety together with a postcondition\<close>

definition wp :: "'a res \<Rightarrow> ('a \<Rightarrow> bool) \<Rightarrow> bool" where
  "wp r Q \<longleftrightarrow> safe r \<and> (\<forall>x. r = Inr x \<longrightarrow> Q x)"

lemma wp_Inr [simp]: "wp (Inr x) Q \<longleftrightarrow> Q x"
  by (simp add: wp_def)

lemma wp_Throw [simp]: "wp (Inl (Throw m)) Q"
  by (simp add: wp_def)

lemma wp_bnd: "safe m \<Longrightarrow> (\<And>x. m = Inr x \<Longrightarrow> wp (f x) Q) \<Longrightarrow> wp (bnd m f) Q"
  by (auto simp: wp_def intro: safe_bnd)

lemma wp_guard: "(\<not> b \<Longrightarrow> wp k Q) \<Longrightarrow> wp (guard b msg k) Q"
  by (auto simp: guard_def)

lemma wp_if: "(b \<Longrightarrow> wp m Q) \<Longrightarrow> (\<not> b \<Longrightarrow> wp n Q) \<Longrightarrow> wp (if b then m else n) Q"
  by simp

end
