(* ===== verification/Dtypes.thy ===== *)
theory Dtypes
  imports Prelude "HOL-Library.While_Combinator"
begin

unbundle bit_operations_syntax

text \<open>
  The dtype and device tags of \<^verbatim>\<open>include/brotensor/tensor.h\<close> and the helpers of
  \<^verbatim>\<open>src/tensor.cpp\<close> on them: element and block sizes, storage sizes, and the host-side
  conversions between FP32 and the 16-bit formats. A \<^verbatim>\<open>float\<close> is its 32-bit pattern
  (\<open>32 word\<close>): the code itself works on the pattern it obtains with \<^verbatim>\<open>memcpy\<close>.
\<close>

section \<open>Dtype\<close>

datatype Dtype =
    FP32 | FP16 | INT8 | INT32 | BF16 | F64 | FP8_E4M3
  | Q4_0 | Q4_1 | Q5_0 | Q5_1 | Q8_0 | Q8_1
  | Q2_K | Q3_K | Q4_K | Q5_K | Q6_K | Q8_K

text \<open>The enumerators' values; they enter the trace signature.\<close>

primrec dtype_enum :: "Dtype \<Rightarrow> nat" where
  "dtype_enum FP32 = 0" | "dtype_enum FP16 = 1" | "dtype_enum INT8 = 2" | "dtype_enum INT32 = 3"
| "dtype_enum BF16 = 4" | "dtype_enum F64 = 5" | "dtype_enum FP8_E4M3 = 6"
| "dtype_enum Q4_0 = 10" | "dtype_enum Q4_1 = 11" | "dtype_enum Q5_0 = 12" | "dtype_enum Q5_1 = 13"
| "dtype_enum Q8_0 = 14" | "dtype_enum Q8_1 = 15"
| "dtype_enum Q2_K = 20" | "dtype_enum Q3_K = 21" | "dtype_enum Q4_K = 22" | "dtype_enum Q5_K = 23"
| "dtype_enum Q6_K = 24" | "dtype_enum Q8_K = 25"

primrec dtype_size_bytes :: "Dtype \<Rightarrow> nat" where
  "dtype_size_bytes FP32 = 4"
| "dtype_size_bytes FP16 = 2"
| "dtype_size_bytes BF16 = 2"
| "dtype_size_bytes INT8 = 1"
| "dtype_size_bytes FP8_E4M3 = 1"
| "dtype_size_bytes INT32 = 4"
| "dtype_size_bytes F64 = 8"
| "dtype_size_bytes Q4_0 = 0" | "dtype_size_bytes Q4_1 = 0"
| "dtype_size_bytes Q5_0 = 0" | "dtype_size_bytes Q5_1 = 0"
| "dtype_size_bytes Q8_0 = 0" | "dtype_size_bytes Q8_1 = 0"
| "dtype_size_bytes Q2_K = 0" | "dtype_size_bytes Q3_K = 0"
| "dtype_size_bytes Q4_K = 0" | "dtype_size_bytes Q5_K = 0"
| "dtype_size_bytes Q6_K = 0" | "dtype_size_bytes Q8_K = 0"

definition dtype_is_quant :: "Dtype \<Rightarrow> bool" where
  "dtype_is_quant d \<longleftrightarrow> (case d of
      Q4_0 \<Rightarrow> True | Q4_1 \<Rightarrow> True | Q5_0 \<Rightarrow> True | Q5_1 \<Rightarrow> True | Q8_0 \<Rightarrow> True | Q8_1 \<Rightarrow> True
    | Q2_K \<Rightarrow> True | Q3_K \<Rightarrow> True | Q4_K \<Rightarrow> True | Q5_K \<Rightarrow> True | Q6_K \<Rightarrow> True | Q8_K \<Rightarrow> True
    | _ \<Rightarrow> False)"

primrec dtype_name :: "Dtype \<Rightarrow> string" where
  "dtype_name FP32 = ''FP32''"
| "dtype_name FP16 = ''FP16''"
| "dtype_name BF16 = ''BF16''"
| "dtype_name INT8 = ''INT8''"
| "dtype_name INT32 = ''INT32''"
| "dtype_name F64 = ''F64''"
| "dtype_name FP8_E4M3 = ''FP8_E4M3''"
| "dtype_name Q4_0 = ''Q4_0''"
| "dtype_name Q4_1 = ''Q4_1''"
| "dtype_name Q5_0 = ''Q5_0''"
| "dtype_name Q5_1 = ''Q5_1''"
| "dtype_name Q8_0 = ''Q8_0''"
| "dtype_name Q8_1 = ''Q8_1''"
| "dtype_name Q2_K = ''Q2_K''"
| "dtype_name Q3_K = ''Q3_K''"
| "dtype_name Q4_K = ''Q4_K''"
| "dtype_name Q5_K = ''Q5_K''"
| "dtype_name Q6_K = ''Q6_K''"
| "dtype_name Q8_K = ''Q8_K''"

definition dtype_block_size :: "Dtype \<Rightarrow> nat" where
  "dtype_block_size d = (case d of
      Q4_0 \<Rightarrow> 32 | Q4_1 \<Rightarrow> 32 | Q5_0 \<Rightarrow> 32 | Q5_1 \<Rightarrow> 32 | Q8_0 \<Rightarrow> 32 | Q8_1 \<Rightarrow> 32
    | Q2_K \<Rightarrow> 256 | Q3_K \<Rightarrow> 256 | Q4_K \<Rightarrow> 256 | Q5_K \<Rightarrow> 256 | Q6_K \<Rightarrow> 256 | Q8_K \<Rightarrow> 256
    | _ \<Rightarrow> 1)"

definition dtype_block_bytes :: "Dtype \<Rightarrow> nat" where
  "dtype_block_bytes d = (case d of
      Q4_0 \<Rightarrow> 18 | Q4_1 \<Rightarrow> 20 | Q5_0 \<Rightarrow> 22 | Q5_1 \<Rightarrow> 24 | Q8_0 \<Rightarrow> 34 | Q8_1 \<Rightarrow> 36
    | Q2_K \<Rightarrow> 82 | Q3_K \<Rightarrow> 110 | Q4_K \<Rightarrow> 144 | Q5_K \<Rightarrow> 176 | Q6_K \<Rightarrow> 210 | Q8_K \<Rightarrow> 292
    | _ \<Rightarrow> dtype_size_bytes d)"

text \<open>
  \<^verbatim>\<open>dtype_storage_bytes\<close>: \<open>numel\<close> is an \<^verbatim>\<open>int64_t\<close>, the result a \<^verbatim>\<open>size_t\<close>; the products
  are computed in \<^verbatim>\<open>size_t\<close> and wrap.
\<close>

definition dtype_storage_bytes :: "Dtype \<Rightarrow> int \<Rightarrow> nat res" where
  "dtype_storage_bytes d numel =
     guard (numel < 0) ''brotensor: dtype_storage_bytes: negative numel'' (
     if \<not> dtype_is_quant d then Inr (size_wrap (nat numel * dtype_size_bytes d))
     else
       let bs = dtype_block_size d; bb = dtype_block_bytes d in
       guard (numel mod int bs \<noteq> 0)
         ''brotensor: dtype_storage_bytes: numel not a multiple of block size'' (
       Inr (size_wrap (nat numel div bs * bb))))"

named_theorems dtype_defs \<open>definitions of the dtype helpers\<close>

declare dtype_is_quant_def [dtype_defs] dtype_block_size_def [dtype_defs]
  dtype_block_bytes_def [dtype_defs]

lemma dtype_block_size_pos [simp]: "0 < dtype_block_size d"
  by (cases d) (simp_all add: dtype_defs)

lemma dtype_block_bytes_pos [simp]: "0 < dtype_block_bytes d"
  by (cases d) (simp_all add: dtype_defs)

lemma dtype_block_size_plain: "\<not> dtype_is_quant d \<Longrightarrow> dtype_block_size d = 1"
  by (cases d) (simp_all add: dtype_defs)

lemma dtype_block_bytes_plain: "\<not> dtype_is_quant d \<Longrightarrow> dtype_block_bytes d = dtype_size_bytes d"
  by (cases d) (simp_all add: dtype_defs)

lemma dtype_size_bytes_eq_0: "dtype_size_bytes d = 0 \<longleftrightarrow> dtype_is_quant d"
  by (cases d) (simp_all add: dtype_defs)

lemma dtype_block_bytes_le: "dtype_block_bytes d \<le> 8 * dtype_block_size d"
  by (cases d) (simp_all add: dtype_defs)

lemma inj_dtype_enum: "dtype_enum d = dtype_enum d' \<longleftrightarrow> d = d'"
  by (cases d; cases d') simp_all

text \<open>
  The uniform description of storage: whole blocks, for quantised and plain dtypes alike.
\<close>

lemma dtype_storage_bytes_blocks:
  "dtype_storage_bytes d numel =
     (if numel < 0 then Inl (Throw ''brotensor: dtype_storage_bytes: negative numel'')
      else if numel mod int (dtype_block_size d) \<noteq> 0
      then Inl (Throw ''brotensor: dtype_storage_bytes: numel not a multiple of block size'')
      else Inr (size_wrap (nat numel div dtype_block_size d * dtype_block_bytes d)))"
  by (simp add: dtype_storage_bytes_def Let_def guard_def dtype_block_size_plain
      dtype_block_bytes_plain)

lemma safe_dtype_storage_bytes [simp, intro]: "safe (dtype_storage_bytes d n)"
  by (simp add: dtype_storage_bytes_blocks)

section \<open>Devices\<close>

datatype DeviceType = CPU | CUDA | Metal | VULKAN

primrec devtype_enum :: "DeviceType \<Rightarrow> nat" where
  "devtype_enum CPU = 0"
| "devtype_enum CUDA = 1"
| "devtype_enum Metal = 2"
| "devtype_enum VULKAN = 4"

datatype Device = Device (devtype: DeviceType) (index: int)

abbreviation cpu :: Device where
  "cpu \<equiv> Device CPU 0"

abbreviation cuda :: "int \<Rightarrow> Device" where
  "cuda i \<equiv> Device CUDA i"

abbreviation metal :: "int \<Rightarrow> Device" where
  "metal i \<equiv> Device Metal i"

abbreviation vulkan :: "int \<Rightarrow> Device" where
  "vulkan i \<equiv> Device VULKAN i"

definition is_cpu :: "Device \<Rightarrow> bool" where "is_cpu d \<longleftrightarrow> devtype d = CPU"

definition is_cuda :: "Device \<Rightarrow> bool" where "is_cuda d \<longleftrightarrow> devtype d = CUDA"

definition is_metal :: "Device \<Rightarrow> bool" where "is_metal d \<longleftrightarrow> devtype d = Metal"

definition is_vulkan :: "Device \<Rightarrow> bool" where "is_vulkan d \<longleftrightarrow> devtype d = VULKAN"

definition is_gpu :: "Device \<Rightarrow> bool" where "is_gpu d \<longleftrightarrow> devtype d \<noteq> CPU"

lemmas device_test_defs = is_cpu_def is_cuda_def is_metal_def is_vulkan_def is_gpu_def

text \<open>\<^verbatim>\<open>Device::operator<\<close>: by type, then by index. It is a linear order.\<close>

lemma inj_devtype_enum: "devtype_enum a = devtype_enum b \<longleftrightarrow> a = b"
  by (cases a; cases b) simp_all

definition device_less :: "Device \<Rightarrow> Device \<Rightarrow> bool" where
  "device_less a b \<longleftrightarrow>
     (if devtype a \<noteq> devtype b then devtype_enum (devtype a) < devtype_enum (devtype b)
      else index a < index b)"

instantiation Device :: linorder
begin

definition less_Device :: "Device \<Rightarrow> Device \<Rightarrow> bool" where
  "less_Device = device_less"

definition less_eq_Device :: "Device \<Rightarrow> Device \<Rightarrow> bool" where
  "less_eq_Device a b \<longleftrightarrow> a < b \<or> a = (b :: Device)"

instance
proof
  fix x y z :: Device
  show "(x < y) = (x \<le> y \<and> \<not> y \<le> x)"
    by (auto simp: device_less_def less_Device_def less_eq_Device_def split: if_splits)
  show "x \<le> x" by (simp add: less_eq_Device_def)
  show "x \<le> y \<Longrightarrow> y \<le> z \<Longrightarrow> x \<le> z"
    by (auto simp: device_less_def less_Device_def less_eq_Device_def split: if_splits)
  show "x \<le> y \<Longrightarrow> y \<le> x \<Longrightarrow> x = y"
    by (auto simp: device_less_def less_Device_def less_eq_Device_def split: if_splits)
  show "x \<le> y \<or> y \<le> x"
    by (auto simp: device_less_def less_Device_def less_eq_Device_def inj_devtype_enum neq_iff
        intro: Device.expand split: if_splits)
qed

end

text \<open>\<^verbatim>\<open>std::hash<Device>\<close>: type in the high part, the low 16 bits of the index below it.\<close>

definition hash_Device :: "Device \<Rightarrow> 64 word" where
  "hash_Device d = push_bit 16 (of_nat (devtype_enum (devtype d))) OR (of_int (index d) AND 0xFFFF)"

definition compute_dtype :: "Device \<Rightarrow> Dtype" where
  "compute_dtype d = (if is_cpu d then FP32 else FP16)"

end
