(* ===== verification/Memory.thy ===== *)
theory Memory
  imports Prelude
begin

text \<open>
  Byte storage behind tensors and the per-backend allocation table
  (\<^verbatim>\<open>AllocVTable\<close> of \<^verbatim>\<open>include/brotensor/detail/dispatch.h\<close>) with the CPU backend's table
  (\<^verbatim>\<open>src/cpu/alloc.cpp\<close>).

  A pointer is null or a block and an offset into it. \<^verbatim>\<open>malloc\<close> returns a block that was never
  used before, with contents the program cannot predict (\<open>garbage\<close>), or fails (\<open>malloc_fails\<close>).
  Copying outside a live block, and freeing anything but the base of a live block, is
  undefined behaviour and shows as \<open>UB\<close>.
\<close>

section \<open>Blocks and pointers\<close>

datatype ptr = Null | Ptr nat nat

record mem =
  blocks :: "nat \<rightharpoonup> byte list"
  next_block :: nat
  garbage :: "nat \<Rightarrow> nat \<Rightarrow> byte"
  malloc_fails :: "nat \<Rightarrow> bool"

definition mem_inv :: "mem \<Rightarrow> bool" where
  "mem_inv m \<longleftrightarrow> (\<forall>b. next_block m \<le> b \<longrightarrow> blocks m b = None)"

definition malloc :: "nat \<Rightarrow> mem \<Rightarrow> (ptr \<times> mem) res" where
  "malloc n m = guard (malloc_fails m n) ''bad_alloc'' (
     let b = next_block m in
     Inr (Ptr b 0, m\<lparr>blocks := (blocks m)(b \<mapsto> map (garbage m b) [0..<n]), next_block := Suc b\<rparr>))"

definition mfree :: "ptr \<Rightarrow> mem \<Rightarrow> mem res" where
  "mfree p m = (case p of
      Null \<Rightarrow> Inr m
    | Ptr b off \<Rightarrow>
        if off \<noteq> 0 \<or> blocks m b = None then Inl (UB ''free'')
        else Inr (m\<lparr>blocks := (blocks m)(b := None)\<rparr>))"

text \<open>\<open>valid m p n\<close>: the \<open>n\<close> bytes at \<open>p\<close> lie in one live block.\<close>

definition valid :: "mem \<Rightarrow> ptr \<Rightarrow> nat \<Rightarrow> bool" where
  "valid m p n \<longleftrightarrow> (case p of Null \<Rightarrow> False
     | Ptr b off \<Rightarrow> (case blocks m b of None \<Rightarrow> False | Some bs \<Rightarrow> off + n \<le> length bs))"

definition load :: "ptr \<Rightarrow> nat \<Rightarrow> mem \<Rightarrow> byte list res" where
  "load p n m = (case p of Null \<Rightarrow> Inl (UB ''load'')
     | Ptr b off \<Rightarrow> (case blocks m b of None \<Rightarrow> Inl (UB ''load'')
        | Some bs \<Rightarrow> if off + n \<le> length bs then Inr (window off n bs) else Inl (UB ''load'')))"

definition store :: "ptr \<Rightarrow> byte list \<Rightarrow> mem \<Rightarrow> mem res" where
  "store p src m = (case p of Null \<Rightarrow> Inl (UB ''store'')
     | Ptr b off \<Rightarrow> (case blocks m b of None \<Rightarrow> Inl (UB ''store'')
        | Some bs \<Rightarrow> if off + length src \<le> length bs
            then Inr (m\<lparr>blocks := (blocks m)(b \<mapsto> overlay off src bs)\<rparr>) else Inl (UB ''store'')))"

text \<open>\<^verbatim>\<open>std::memcpy\<close> and \<^verbatim>\<open>std::memset(dst, 0, n)\<close>.\<close>

definition memcpy :: "ptr \<Rightarrow> ptr \<Rightarrow> nat \<Rightarrow> mem \<Rightarrow> mem res" where
  "memcpy dst src n m = bnd (load src n m) (\<lambda>bs. store dst bs m)"

definition memset0 :: "ptr \<Rightarrow> nat \<Rightarrow> mem \<Rightarrow> mem res" where
  "memset0 dst n m = store dst (replicate n (CHR 0x00)) m"

lemma load_valid: "valid m p n \<Longrightarrow> \<exists>bs. load p n m = Inr bs \<and> length bs = n"
  by (auto simp: valid_def load_def split: ptr.splits option.splits)

lemma load_eq_Inr: "load p n m = Inr bs \<Longrightarrow> valid m p n \<and> length bs = n"
  by (auto simp: valid_def load_def split: ptr.splits option.splits if_splits)

lemma store_valid: "valid m p (length src) \<Longrightarrow> \<exists>m'. store p src m = Inr m'"
  by (auto simp: valid_def store_def split: ptr.splits option.splits)

lemma store_eq_Inr: "store p src m = Inr m' \<Longrightarrow> valid m p (length src)"
  by (auto simp: valid_def store_def split: ptr.splits option.splits if_splits)

lemma load_store_same: "store p src m = Inr m' \<Longrightarrow> load p (length src) m' = Inr src"
  by (auto simp: load_def store_def window_overlay_same split: ptr.splits option.splits if_splits)

lemma load_store_other:
  "store (Ptr b off) src m = Inr m' \<Longrightarrow> b' \<noteq> b \<Longrightarrow> load (Ptr b' off') n m' = load (Ptr b' off') n m"
  by (auto simp: load_def store_def split: option.splits if_splits)

lemma store_frame:
  "store (Ptr b off) src m = Inr m' \<Longrightarrow>
     (\<forall>b'. b' \<noteq> b \<longrightarrow> blocks m' b' = blocks m b') \<and> next_block m' = next_block m
     \<and> (\<exists>old new. blocks m b = Some old \<and> blocks m' b = Some new \<and> length new = length old)"
  by (auto simp: store_def split: option.splits if_splits)

lemma store_inv: "store p src m = Inr m' \<Longrightarrow> mem_inv m \<Longrightarrow> mem_inv m'"
  by (auto simp: store_def mem_inv_def split: ptr.splits option.splits if_splits)

lemma store_blocks_length:
  "store p src m = Inr m' \<Longrightarrow> map_option length (blocks m' b) = map_option length (blocks m b)"
  by (auto simp: store_def split: ptr.splits option.splits if_splits)

lemma memcpy_valid:
  "valid m dst n \<Longrightarrow> valid m src n \<Longrightarrow> \<exists>m'. memcpy dst src n m = Inr m'"
  using load_valid store_valid unfolding memcpy_def by fastforce

lemma memcpy_load: "memcpy dst src n m = Inr m' \<Longrightarrow> load src n m = Inr bs \<Longrightarrow> load dst n m' = Inr bs"
  unfolding memcpy_def using load_store_same load_eq_Inr by fastforce

lemma malloc_fresh:
  "malloc n m = Inr (p, m') \<Longrightarrow> mem_inv m \<Longrightarrow>
     \<exists>b. p = Ptr b 0 \<and> blocks m b = None \<and> mem_inv m' \<and>
       (\<exists>bs. length bs = n \<and> blocks m' = (blocks m)(b \<mapsto> bs))"
  by (rule exI [of _ "next_block m"])
    (auto simp: malloc_def mem_inv_def Let_def intro!: exI [of _ "map (garbage m (next_block m)) [0..<n]"])

lemma mfree_inv: "mfree p m = Inr m' \<Longrightarrow> mem_inv m \<Longrightarrow> mem_inv m'"
  by (auto simp: mfree_def mem_inv_def split: ptr.splits if_splits)

section \<open>AllocVTable\<close>

text \<open>
  One field per function pointer of \<^verbatim>\<open>AllocVTable\<close>; the optional ones may be null. Each
  takes the memory and returns the new one. The last argument before the memory is the device index.
\<close>

record AllocVTable =
  alloc :: "nat \<Rightarrow> int \<Rightarrow> mem \<Rightarrow> (ptr \<times> mem) res"
  free :: "ptr \<Rightarrow> int \<Rightarrow> mem \<Rightarrow> mem res"
  memcpy_h2d :: "ptr \<Rightarrow> ptr \<Rightarrow> nat \<Rightarrow> int \<Rightarrow> mem \<Rightarrow> mem res"
  memcpy_d2h :: "ptr \<Rightarrow> ptr \<Rightarrow> nat \<Rightarrow> int \<Rightarrow> mem \<Rightarrow> mem res"
  memcpy_d2d :: "ptr \<Rightarrow> ptr \<Rightarrow> nat \<Rightarrow> int \<Rightarrow> mem \<Rightarrow> mem res"
  memcpy_peer :: "(ptr \<Rightarrow> int \<Rightarrow> ptr \<Rightarrow> int \<Rightarrow> nat \<Rightarrow> mem \<Rightarrow> mem res) option"
  memset_zero :: "ptr \<Rightarrow> nat \<Rightarrow> int \<Rightarrow> mem \<Rightarrow> mem res"
  sync_fn :: "int \<Rightarrow> mem \<Rightarrow> mem"
  mem_info :: "(int \<Rightarrow> mem \<Rightarrow> (nat \<times> nat) option) option"
  mem_trim :: "(nat \<Rightarrow> int \<Rightarrow> mem \<Rightarrow> bool \<times> mem) option"
  device_name_fn :: "(int \<Rightarrow> mem \<Rightarrow> string option) option"
  idle_fn :: "(int \<Rightarrow> mem \<Rightarrow> bool) option"

section \<open>The CPU backend's table\<close>

definition cpu_alloc :: "nat \<Rightarrow> int \<Rightarrow> mem \<Rightarrow> (ptr \<times> mem) res" where
  "cpu_alloc bytes i m = (if bytes = 0 then Inr (Null, m) else malloc bytes m)"

definition cpu_free :: "ptr \<Rightarrow> int \<Rightarrow> mem \<Rightarrow> mem res" where
  "cpu_free p i m = (if p \<noteq> Null then mfree p m else Inr m)"

definition cpu_memcpy_h2d :: "ptr \<Rightarrow> ptr \<Rightarrow> nat \<Rightarrow> int \<Rightarrow> mem \<Rightarrow> mem res" where
  "cpu_memcpy_h2d dst src n i m = (if n \<noteq> 0 then memcpy dst src n m else Inr m)"

definition cpu_memcpy_d2h :: "ptr \<Rightarrow> ptr \<Rightarrow> nat \<Rightarrow> int \<Rightarrow> mem \<Rightarrow> mem res" where
  "cpu_memcpy_d2h dst src n i m = (if n \<noteq> 0 then memcpy dst src n m else Inr m)"

definition cpu_memcpy_d2d :: "ptr \<Rightarrow> ptr \<Rightarrow> nat \<Rightarrow> int \<Rightarrow> mem \<Rightarrow> mem res" where
  "cpu_memcpy_d2d dst src n i m = (if n \<noteq> 0 then memcpy dst src n m else Inr m)"

definition cpu_memcpy_peer :: "ptr \<Rightarrow> int \<Rightarrow> ptr \<Rightarrow> int \<Rightarrow> nat \<Rightarrow> mem \<Rightarrow> mem res" where
  "cpu_memcpy_peer dst di src si n m = (if n \<noteq> 0 then memcpy dst src n m else Inr m)"

definition cpu_memset_zero :: "ptr \<Rightarrow> nat \<Rightarrow> int \<Rightarrow> mem \<Rightarrow> mem res" where
  "cpu_memset_zero dst n i m = (if n \<noteq> 0 then memset0 dst n m else Inr m)"

definition cpu_sync :: "int \<Rightarrow> mem \<Rightarrow> mem" where
  "cpu_sync i m = m"

definition cpu_alloc_table :: AllocVTable where
  "cpu_alloc_table = \<lparr>
     alloc = cpu_alloc, free = cpu_free, memcpy_h2d = cpu_memcpy_h2d, memcpy_d2h = cpu_memcpy_d2h,
     memcpy_d2d = cpu_memcpy_d2d, memcpy_peer = Some cpu_memcpy_peer, memset_zero = cpu_memset_zero,
     sync_fn = cpu_sync, mem_info = None, mem_trim = None, device_name_fn = None, idle_fn = None\<rparr>"

section \<open>The contract of an allocation table\<close>

text \<open>
  What the tensor layer relies on, for any backend: \<open>alloc(0)\<close> is null, a non-empty allocation
  is a fresh block of the requested size that disturbs nothing else, \<open>free\<close> of a live block
  removes it and of null does nothing, and the copy and fill hooks are byte copies and fills.
\<close>

locale alloc_backend =
  fixes V :: AllocVTable
  assumes alloc_zero: "alloc V 0 i m = Inr (Null, m)"
    and alloc_fresh: "0 < n \<Longrightarrow> mem_inv m \<Longrightarrow> alloc V n i m = Inr (p, m') \<Longrightarrow>
      \<exists>b bs. p = Ptr b 0 \<and> blocks m b = None \<and> length bs = n \<and> blocks m' = (blocks m)(b \<mapsto> bs) \<and> mem_inv m'"
    and alloc_safe: "safe (alloc V n i m)"
    and free_null: "free V Null i m = Inr m"
    and free_live: "blocks m b \<noteq> None \<Longrightarrow> \<exists>m'. free V (Ptr b 0) i m = Inr m' \<and>
      blocks m' = (blocks m)(b := None) \<and> (mem_inv m \<longrightarrow> mem_inv m')"
    and h2d: "0 < n \<Longrightarrow> memcpy_h2d V d s n i m = memcpy d s n m"
    and d2h: "0 < n \<Longrightarrow> memcpy_d2h V d s n i m = memcpy d s n m"
    and d2d: "0 < n \<Longrightarrow> memcpy_d2d V d s n i m = memcpy d s n m"
    and peer: "memcpy_peer V = Some f \<Longrightarrow> 0 < n \<Longrightarrow> f d di s si n m = memcpy d s n m"
    and zero: "0 < n \<Longrightarrow> memset_zero V d n i m = memset0 d n m"
begin

lemma alloc_valid:
  assumes "mem_inv m" "alloc V n i m = Inr (p, m')" "0 < n"
  shows "valid m' p n"
  using alloc_fresh [OF assms(3,1,2)] by (auto simp: valid_def)

lemma alloc_keeps_load:
  assumes "mem_inv m" "alloc V n i m = Inr (p, m')" "load q k m = Inr bs"
  shows "load q k m' = Inr bs"
proof (cases "n = 0")
  case True
  then show ?thesis using assms alloc_zero by auto
next
  case False
  then obtain b xs where "blocks m b = None" "blocks m' = (blocks m)(b \<mapsto> xs)"
    using alloc_fresh [OF _ assms(1,2)] by auto
  then show ?thesis using assms(3)
    by (auto simp: load_def split: ptr.splits option.splits if_splits)
qed

lemma alloc_inv: "mem_inv m \<Longrightarrow> alloc V n i m = Inr (p, m') \<Longrightarrow> mem_inv m'"
  by (cases "n = 0") (use alloc_zero [of i m] alloc_fresh [of n m i p m'] in auto)

lemma upload_then_download:
  assumes "0 < n" "valid m d n" "load s n m = Inr bs"
  shows "\<exists>m'. memcpy_h2d V d s n i m = Inr m' \<and> load d n m' = Inr bs"
  using assms memcpy_valid [of m d n s] memcpy_load load_eq_Inr h2d by metis

end

lemma cpu_backend_laws:
  "cpu_alloc 0 i m = Inr (Null, m)"
  "0 < n \<Longrightarrow> cpu_alloc n i m = malloc n m"
  "0 < n \<Longrightarrow> cpu_memcpy_h2d d s n i m = memcpy d s n m"
  "0 < n \<Longrightarrow> cpu_memcpy_d2h d s n i m = memcpy d s n m"
  "0 < n \<Longrightarrow> cpu_memcpy_d2d d s n i m = memcpy d s n m"
  "0 < n \<Longrightarrow> cpu_memcpy_peer d di s si n m = memcpy d s n m"
  "0 < n \<Longrightarrow> cpu_memset_zero d n i m = memset0 d n m"
  by (simp_all add: cpu_alloc_def cpu_memcpy_h2d_def cpu_memcpy_d2h_def cpu_memcpy_d2d_def
      cpu_memcpy_peer_def cpu_memset_zero_def)

lemma alloc_backend_cpu: "alloc_backend cpu_alloc_table"
proof unfold_locales
  fix n :: nat and m m' p and i :: int
  assume "0 < n" "mem_inv m" "alloc cpu_alloc_table n i m = Inr (p, m')"
  then show "\<exists>b bs. p = Ptr b 0 \<and> blocks m b = None \<and> length bs = n \<and> blocks m' = (blocks m)(b \<mapsto> bs) \<and> mem_inv m'"
    using malloc_fresh [of n m p m'] by (auto simp: cpu_alloc_table_def cpu_backend_laws)
next
  fix n m and i :: int
  show "safe (alloc cpu_alloc_table n i m)"
    by (cases "n = 0") (auto simp: cpu_alloc_table_def cpu_backend_laws malloc_def Let_def safe_guard)
next
  fix m :: mem and b and i :: int
  assume "blocks m b \<noteq> None"
  then show "\<exists>m'. free cpu_alloc_table (Ptr b 0) i m = Inr m' \<and> blocks m' = (blocks m)(b := None) \<and> (mem_inv m \<longrightarrow> mem_inv m')"
    by (auto simp: cpu_alloc_table_def cpu_free_def mfree_def mem_inv_def)
qed (auto simp: cpu_alloc_table_def cpu_backend_laws cpu_free_def)

interpretation cpu: alloc_backend cpu_alloc_table
  by (rule alloc_backend_cpu)

end
