(* ===== verification/Runtime.thy ===== *)
theory Runtime
  imports Dtypes Memory
begin

text \<open>
  Backend registry, device aliasing, operand dispatch (\<^verbatim>\<open>src/dispatch.cpp\<close>,
  \<^verbatim>\<open>include/brotensor/detail/dispatch.h\<close>), default-device policy and \<^verbatim>\<open>DeviceScope\<close>
  (\<^verbatim>\<open>src/init.cpp\<close>), and graph capture (\<^verbatim>\<open>src/graph.cpp\<close>).

  The process-wide and thread-local variables those files keep are the fields of one record.
  A backend's op table is opaque (\<open>'o\<close>); its allocation table is that of theory \<open>Memory\<close>. The
  GPU probes, the environment and the graph factories are arguments.
\<close>

section \<open>Tensors\<close>

text \<open>The fields of \<^verbatim>\<open>struct Tensor\<close>; storage behaviour is in theory \<open>Tensors\<close>.\<close>

record Tensor =
  data :: ptr
  rows :: int
  cols :: int
  dtype :: Dtype
  device :: Device
  jit_slot :: int
  owns :: bool
  cap_bytes :: nat

definition empty_tensor :: Tensor where
  "empty_tensor = \<lparr>data = Null, rows = 0, cols = 0, dtype = FP32, device = cpu, jit_slot = - 1,
     owns = False, cap_bytes = 0\<rparr>"

section \<open>The runtime's state\<close>

record 'o runtime =
  slots :: "DeviceType \<Rightarrow> ('o \<times> AllocVTable) option"
  cuda_count :: int
  vulkan_count :: int
  init_done :: bool
  global_default :: Device
  default_set :: bool
  scope_override :: "Device option"
  scope_had_prev :: "bool list"
  cuda_current :: int
  graph_factories :: "DeviceType \<Rightarrow> (int \<Rightarrow> int option) option"

definition registered :: "'o runtime \<Rightarrow> DeviceType \<Rightarrow> bool" where
  "registered s t \<longleftrightarrow> slots s t \<noteq> None"

definition register_backend :: "DeviceType \<Rightarrow> 'o \<Rightarrow> AllocVTable \<Rightarrow> 'o runtime \<Rightarrow> 'o runtime" where
  "register_backend t ops al s = s\<lparr>slots := (slots s)(t := Some (ops, al))\<rparr>"

definition set_cuda_device_count :: "int \<Rightarrow> 'o runtime \<Rightarrow> 'o runtime" where
  "set_cuda_device_count n s = s\<lparr>cuda_count := n\<rparr>"

definition set_vulkan_device_count :: "int \<Rightarrow> 'o runtime \<Rightarrow> 'o runtime" where
  "set_vulkan_device_count n s = s\<lparr>vulkan_count := n\<rparr>"

definition is_registered :: "'o runtime \<Rightarrow> Device \<Rightarrow> bool" where
  "is_registered s d = (
     if is_cpu d then registered s CPU
     else if is_cuda d then
       (if \<not> registered s CUDA then False
        else let count = (if cuda_count s \<le> 0 then 1 else cuda_count s) in 0 \<le> index d \<and> index d < count)
     else if is_metal d then registered s Metal \<and> index d = 0
     else if is_vulkan d then
       (if \<not> registered s VULKAN then False else 0 \<le> index d \<and> index d < vulkan_count s)
     else False)"

section \<open>Default device\<close>

definition pick_default_from_available :: "'o runtime \<Rightarrow> Device" where
  "pick_default_from_available s =
     (if is_registered s (cuda 0) then cuda 0
      else if is_registered s (metal 0) then metal 0
      else if is_registered s (vulkan 0) then vulkan 0
      else cpu)"

definition default_device :: "'o runtime \<Rightarrow> Device" where
  "default_device s = (case scope_override s of
      Some d \<Rightarrow> d
    | None \<Rightarrow> if \<not> default_set s then pick_default_from_available s else global_default s)"

definition resolve_device_alias :: "'o runtime \<Rightarrow> Device \<Rightarrow> Device" where
  "resolve_device_alias s d = (
     if is_cuda d \<and> \<not> registered s CUDA then
       (let has_metal = registered s Metal; has_vulkan = registered s VULKAN in
        if has_metal \<and> has_vulkan \<and> is_vulkan (default_device s) then vulkan (index d)
        else if has_metal then metal 0
        else if has_vulkan then vulkan (index d)
        else d)
     else d)"

definition ops_for :: "'o runtime \<Rightarrow> Device \<Rightarrow> 'o res" where
  "ops_for s d = (case slots s (devtype (resolve_device_alias s d)) of
      None \<Rightarrow> Inl (Throw ''brotensor: backend not registered'')
    | Some (ops, al) \<Rightarrow> Inr ops)"

definition alloc_for :: "'o runtime \<Rightarrow> Device \<Rightarrow> AllocVTable res" where
  "alloc_for s d = (case slots s (devtype (resolve_device_alias s d)) of
      None \<Rightarrow> Inl (Throw ''brotensor: backend not registered'')
    | Some (ops, al) \<Rightarrow> Inr al)"

section \<open>Operand dispatch\<close>

text \<open>An operand is a tensor pointer; \<open>None\<close> is the null pointer of a skipped optional operand.\<close>

definition committed :: "Tensor \<Rightarrow> bool" where
  "committed t \<longleftrightarrow> data t \<noteq> Null"

text \<open>\<^verbatim>\<open>cudaSetDevice\<close> is called only in a build with CUDA (\<open>has_cuda\<close>).\<close>

definition activate_device_context :: "bool \<Rightarrow> Device \<Rightarrow> 'o runtime \<Rightarrow> 'o runtime" where
  "activate_device_context has_cuda d s = (
     let d' = resolve_device_alias s d in
     if has_cuda \<and> is_cuda d' then s\<lparr>cuda_current := index d'\<rparr> else s)"

fun first_committed :: "Tensor option list \<Rightarrow> Device option" where
  "first_committed [] = None"
| "first_committed (None # ts) = first_committed ts"
| "first_committed (Some t # ts) = (if committed t then Some (device t) else first_committed ts)"

fun check_operands :: "Device \<Rightarrow> Tensor option list \<Rightarrow> unit res" where
  "check_operands dev [] = Inr ()"
| "check_operands dev (None # ts) = check_operands dev ts"
| "check_operands dev (Some t # ts) =
     (if committed t \<and> device t \<noteq> dev then Inl (Throw ''brotensor: dispatch: operand device mismatch'')
      else check_operands dev ts)"

definition dispatch_v :: "bool \<Rightarrow> Tensor option list \<Rightarrow> 'o runtime \<Rightarrow> ('o \<times> 'o runtime) res" where
  "dispatch_v has_cuda ts s = (
     let dev = (case first_committed ts of
           Some d \<Rightarrow> d
         | None \<Rightarrow> (case ts of Some t # _ \<Rightarrow> device t | _ \<Rightarrow> cpu)) in
     bnd (check_operands dev ts) (\<lambda>_.
     let s' = activate_device_context has_cuda dev s in
     bnd (ops_for s' dev) (\<lambda>ops. Inr (ops, s'))))"

fun first_nonnull :: "Tensor option list \<Rightarrow> Device option" where
  "first_nonnull [] = None"
| "first_nonnull (None # ts) = first_nonnull ts"
| "first_nonnull (Some t # ts) = Some (device t)"

definition resolve_over :: "bool \<Rightarrow> Tensor option list \<Rightarrow> 'o runtime \<Rightarrow> ('o \<times> 'o runtime) res" where
  "resolve_over has_cuda all s = (
     let dev = (case first_committed all of
           Some d \<Rightarrow> d
         | None \<Rightarrow> (case first_nonnull all of Some d \<Rightarrow> d | None \<Rightarrow> cpu)) in
     bnd (check_operands dev all) (\<lambda>_.
     let s' = activate_device_context has_cuda dev s in
     bnd (ops_for s' dev) (\<lambda>ops. Inr (ops, s'))))"

definition kMaxOperands :: nat where
  "kMaxOperands = 32"

definition dispatch_with_opts :: "bool \<Rightarrow> Tensor \<Rightarrow> Tensor option list \<Rightarrow> 'o runtime \<Rightarrow> ('o \<times> 'o runtime) res" where
  "dispatch_with_opts has_cuda a opts s =
     guard (kMaxOperands < 1 + length opts) ''brotensor: dispatch: operand count exceeds the fixed dispatch buffer'' (
     resolve_over has_cuda (Some a # opts) s)"

definition dispatch_with_opts2 :: "bool \<Rightarrow> Tensor \<Rightarrow> Tensor \<Rightarrow> Tensor option list \<Rightarrow> 'o runtime \<Rightarrow> ('o \<times> 'o runtime) res" where
  "dispatch_with_opts2 has_cuda a b opts s =
     guard (kMaxOperands < 2 + length opts) ''brotensor: dispatch: operand count exceeds the fixed dispatch buffer'' (
     resolve_over has_cuda (Some a # Some b # opts) s)"

definition adopt_output :: "'o runtime \<Rightarrow> Device \<Rightarrow> Tensor \<Rightarrow> Tensor" where
  "adopt_output s d t = (if data t = Null then t\<lparr>device := resolve_device_alias s d\<rparr> else t)"

section \<open>Dimension guards\<close>

definition check_spatial_1d :: "Tensor \<Rightarrow> int \<Rightarrow> int \<Rightarrow> int \<Rightarrow> unit res" where
  "check_spatial_1d t N C L =
     (if N \<le> 0 \<or> C \<le> 0 \<or> L \<le> 0 \<or> rows t * cols t \<noteq> N * C * L
      then (if N \<le> 0 \<or> C \<le> 0 \<or> L \<le> 0 then Inl (Throw ''non-positive spatial dimensions'')
            else Inl (Throw ''shape mismatch''))
      else Inr ())"

definition check_spatial_2d :: "Tensor \<Rightarrow> int \<Rightarrow> int \<Rightarrow> int \<Rightarrow> int \<Rightarrow> unit res" where
  "check_spatial_2d t N C H W =
     (if N \<le> 0 \<or> C \<le> 0 \<or> H \<le> 0 \<or> W \<le> 0 \<or> rows t * cols t \<noteq> N * C * H * W
      then (if N \<le> 0 \<or> C \<le> 0 \<or> H \<le> 0 \<or> W \<le> 0 then Inl (Throw ''non-positive spatial dimensions'')
            else Inl (Throw ''shape mismatch''))
      else Inr ())"

definition check_spatial_3d :: "Tensor \<Rightarrow> int \<Rightarrow> int \<Rightarrow> int \<Rightarrow> int \<Rightarrow> int \<Rightarrow> unit res" where
  "check_spatial_3d t N C T H W =
     (if N \<le> 0 \<or> C \<le> 0 \<or> T \<le> 0 \<or> H \<le> 0 \<or> W \<le> 0 \<or> rows t * cols t \<noteq> N * C * T * H * W
      then (if N \<le> 0 \<or> C \<le> 0 \<or> T \<le> 0 \<or> H \<le> 0 \<or> W \<le> 0 then Inl (Throw ''non-positive spatial dimensions'')
            else Inl (Throw ''shape mismatch''))
      else Inr ())"

definition check_quant_cols_op :: "Tensor \<Rightarrow> unit res" where
  "check_quant_cols_op t =
     (if dtype_is_quant (dtype t) \<and>
         (rows t \<le> 0 \<or> cols t \<le> 0 \<or> cols t mod int (dtype_block_size (dtype t)) \<noteq> 0)
      then Inl (Throw ''block-quant tensor requires positive rows and cols with cols a multiple of block size'')
      else Inr ())"

section \<open>Default-device policy\<close>

text \<open>\<^verbatim>\<open>std::atoi\<close>: optional white space and sign, then the longest run of digits.\<close>

fun digits_value :: "int \<Rightarrow> string \<Rightarrow> int" where
  "digits_value acc [] = acc"
| "digits_value acc (c # cs) =
     (if CHR ''0'' \<le> c \<and> c \<le> CHR ''9'' then digits_value (10 * acc + (of_char c - 48)) cs else acc)"

definition atoi :: "string \<Rightarrow> int" where
  "atoi s = (case dropWhile (\<lambda>c. c = CHR '' '' \<or> (CHR 0x09 \<le> c \<and> c \<le> CHR 0x0D)) s of
      [] \<Rightarrow> 0
    | c # cs \<Rightarrow> if c = CHR ''-'' then - digits_value 0 cs
                else if c = CHR ''+'' then digits_value 0 cs
                else digits_value 0 (c # cs))"

definition lower :: "char \<Rightarrow> char" where
  "lower c = (if CHR ''A'' \<le> c \<and> c \<le> CHR ''Z'' then char_of (of_char c + 32 :: nat) else c)"

definition has_prefix :: "string \<Rightarrow> string \<Rightarrow> bool" where
  "has_prefix p s \<longleftrightarrow> take (length p) s = p"

text \<open>The value of \<^verbatim>\<open>BROTENSOR_DEFAULT_DEVICE\<close> is an argument (\<open>None\<close>: not set).\<close>

definition parse_env_device :: "string option \<Rightarrow> Device option" where
  "parse_env_device env = (case env of None \<Rightarrow> None
    | Some raw \<Rightarrow> (
       let s = map lower raw in
       if s = ''cpu'' then Some cpu
       else if s = ''cuda'' \<or> s = ''cuda:0'' then Some (cuda 0)
       else if has_prefix ''cuda:'' s then Some (cuda (atoi (drop 5 s)))
       else if s = ''vulkan'' then Some (vulkan 0)
       else if has_prefix ''vulkan:'' s then Some (vulkan (atoi (drop 7 s)))
       else if s = ''vk'' then Some (vulkan 0)
       else if has_prefix ''vk:'' s then Some (vulkan (atoi (drop 3 s)))
       else if s = ''metal'' \<or> s = ''metal:0'' then Some (metal 0)
       else if has_prefix ''metal:'' s then Some (metal (atoi (drop 6 s)))
       else None))"

text \<open>
  \<^verbatim>\<open>init()\<close>: the compiled-in probes run in the order CUDA, Metal, Vulkan (an exception in one is
  swallowed, so a probe is just a state change), then the default device is fixed once.
\<close>

definition init_default :: "string option \<Rightarrow> 'o runtime \<Rightarrow> 'o runtime" where
  "init_default env s =
     (if default_set s then s
      else
        let pick = pick_default_from_available s;
            d = (case parse_env_device env of
                   Some e \<Rightarrow> (let want = resolve_device_alias s e in if is_registered s want then want else pick)
                 | None \<Rightarrow> pick)
        in s\<lparr>global_default := d, default_set := True\<rparr>)"

definition init :: "('o runtime \<Rightarrow> 'o runtime) list \<Rightarrow> string option \<Rightarrow> 'o runtime \<Rightarrow> 'o runtime" where
  "init probes env s =
     (if init_done s then s
      else (init_default env (fold (\<lambda>p. p) probes s))\<lparr>init_done := True\<rparr>)"

definition set_default_device :: "Device \<Rightarrow> 'o runtime \<Rightarrow> 'o runtime res" where
  "set_default_device d s = (
     let d' = resolve_device_alias s d in
     guard (\<not> is_registered s d') ''brotensor: set_default_device: backend is not available'' (
     Inr (s\<lparr>global_default := d', default_set := True\<rparr>)))"

definition available_devices :: "'o runtime \<Rightarrow> Device list" where
  "available_devices s =
     (if is_registered s cpu then [cpu] else [])
     @ (if is_registered s (cuda 0)
        then let count = (if cuda_count s \<le> 0 then 1 else cuda_count s) in map cuda [0..count - 1]
        else [])
     @ (if is_registered s (metal 0) then [metal 0] else [])
     @ filter (is_registered s) (map vulkan [0..vulkan_count s - 1])"

section \<open>DeviceScope\<close>

text \<open>The constructor returns the scope object's \<^verbatim>\<open>prev_\<close>.\<close>

definition DeviceScope_ctor :: "Device \<Rightarrow> 'o runtime \<Rightarrow> (Device \<times> 'o runtime) res" where
  "DeviceScope_ctor d s = (
     let d' = resolve_device_alias s d in
     guard (\<not> is_registered s d') ''brotensor: DeviceScope: backend is not available'' (
     case scope_override s of
       Some prev \<Rightarrow> Inr (prev, s\<lparr>scope_had_prev := True # scope_had_prev s, scope_override := Some d'\<rparr>)
     | None \<Rightarrow> Inr (cpu, s\<lparr>scope_had_prev := False # scope_had_prev s, scope_override := Some d'\<rparr>)))"

definition DeviceScope_dtor :: "Device \<Rightarrow> 'o runtime \<Rightarrow> 'o runtime" where
  "DeviceScope_dtor prev s = (
     let had = (case scope_had_prev s of [] \<Rightarrow> False | h # _ \<Rightarrow> h) in
     s\<lparr>scope_had_prev := (case scope_had_prev s of [] \<Rightarrow> [] | _ # hs \<Rightarrow> hs),
       scope_override := (if had then Some prev else None)\<rparr>)"

section \<open>Synchronisation and memory queries\<close>

definition sync :: "Device \<Rightarrow> 'o runtime \<Rightarrow> mem \<Rightarrow> mem res" where
  "sync d s m = (
     let d' = resolve_device_alias s d in
     guard (\<not> is_registered s d') ''brotensor: sync: backend is not available'' (
     bnd (alloc_for s d') (\<lambda>V. Inr (sync_fn V (index d') m))))"

fun sync_list :: "Device list \<Rightarrow> 'o runtime \<Rightarrow> mem \<Rightarrow> mem res" where
  "sync_list [] s m = Inr m"
| "sync_list (d # ds) s m = bnd (alloc_for s d) (\<lambda>V. sync_list ds s (sync_fn V (index d) m))"

definition sync_all :: "'o runtime \<Rightarrow> mem \<Rightarrow> mem res" where
  "sync_all s m = sync_list (available_devices s) s m"

definition idle :: "Device \<Rightarrow> 'o runtime \<Rightarrow> mem \<Rightarrow> (bool \<times> mem) res" where
  "idle d s m = (
     let d' = resolve_device_alias s d in
     if \<not> is_registered s d' then Inr (True, m)
     else bnd (alloc_for s d') (\<lambda>V. case idle_fn V of
         Some f \<Rightarrow> Inr (f (index d') m, m)
       | None \<Rightarrow> Inr (True, sync_fn V (index d') m)))"

definition device_mem_info :: "Device \<Rightarrow> 'o runtime \<Rightarrow> mem \<Rightarrow> (nat \<times> nat) option res" where
  "device_mem_info d s m = (
     let d' = resolve_device_alias s d in
     if \<not> is_registered s d' then Inr None
     else bnd (alloc_for s d') (\<lambda>V. case mem_info V of
         None \<Rightarrow> Inr None
       | Some f \<Rightarrow> Inr (f (index d') m)))"

definition device_mem_trim :: "Device \<Rightarrow> nat \<Rightarrow> 'o runtime \<Rightarrow> mem \<Rightarrow> (bool \<times> mem) res" where
  "device_mem_trim d keep s m = (
     let d' = resolve_device_alias s d in
     if \<not> is_registered s d' then Inr (False, m)
     else bnd (alloc_for s d') (\<lambda>V. case mem_trim V of
         None \<Rightarrow> Inr (False, m)
       | Some f \<Rightarrow> Inr (f keep (index d') m)))"

definition device_product_name :: "Device \<Rightarrow> 'o runtime \<Rightarrow> mem \<Rightarrow> string res" where
  "device_product_name d s m = (
     let d' = resolve_device_alias s d in
     if \<not> is_registered s d' then Inr ''''
     else bnd (alloc_for s d') (\<lambda>V. case device_name_fn V of
         None \<Rightarrow> Inr ''''
       | Some f \<Rightarrow> (case f (index d') m of None \<Rightarrow> Inr '''' | Some n \<Rightarrow> Inr n)))"

section \<open>Graph capture\<close>

text \<open>
  A recorder factory takes the device index (-1: the backend's current device) and returns the
  index the recorder records on, or \<open>None\<close> when the backend refuses.
\<close>

definition register_graph_backend :: "DeviceType \<Rightarrow> (int \<Rightarrow> int option) \<Rightarrow> 'o runtime \<Rightarrow> 'o runtime" where
  "register_graph_backend t f s = s\<lparr>graph_factories := (graph_factories s)(t := Some f)\<rparr>"

definition capturable :: "'o runtime \<Rightarrow> Device \<Rightarrow> bool" where
  "capturable s d \<longleftrightarrow> is_gpu d \<and> graph_factories s (devtype d) \<noteq> None \<and> is_registered s d"

definition pick_capture_device :: "'o runtime \<Rightarrow> Device res" where
  "pick_capture_device s = (
     let d = resolve_device_alias s (default_device s) in
     if capturable s d then Inr d
     else if capturable s (cuda 0) then Inr (Device CUDA (- 1))
     else if capturable s (vulkan 0) then Inr (vulkan 0)
     else Inl (Throw ''brotensor: CudaGraphCapture: no GPU with graph capture (CUDA or Vulkan) is registered''))"

definition graph_capture_available_on :: "'o runtime \<Rightarrow> Device \<Rightarrow> bool" where
  "graph_capture_available_on s d \<longleftrightarrow> capturable s (resolve_device_alias s d)"

definition graph_capture_available :: "'o runtime \<Rightarrow> bool" where
  "graph_capture_available s \<longleftrightarrow> (case pick_capture_device s of Inr _ \<Rightarrow> True | Inl _ \<Rightarrow> False)"

text \<open>\<^verbatim>\<open>CudaGraphCapture::Impl\<close> and \<^verbatim>\<open>CudaGraph::Impl\<close>: the recorder or the executable may be gone.\<close>

record Capture =
  cap_device :: Device
  recorder :: "int option"

record Graph =
  graph_device :: Device
  exec :: "int option"

definition open_recorder :: "'o runtime \<Rightarrow> Device \<Rightarrow> int res" where
  "open_recorder s d = (case graph_factories s (devtype d) of
      None \<Rightarrow> Inl (Throw ''brotensor: CudaGraphCapture: device has no graph capture'')
    | Some f \<Rightarrow> (case f (index d) of
          None \<Rightarrow> Inl (Throw ''brotensor: CudaGraphCapture: the backend refused to capture'')
        | Some r \<Rightarrow> Inr r))"

definition CudaGraphCapture_default :: "'o runtime \<Rightarrow> Capture res" where
  "CudaGraphCapture_default s =
     bnd (pick_capture_device s) (\<lambda>d.
     bnd (open_recorder s d) (\<lambda>r.
     Inr \<lparr>cap_device = Device (devtype d) r, recorder = Some r\<rparr>))"

definition CudaGraphCapture_on :: "Device \<Rightarrow> 'o runtime \<Rightarrow> Capture res" where
  "CudaGraphCapture_on d0 s = (
     let d = resolve_device_alias s d0 in
     guard (\<not> capturable s d) ''brotensor: CudaGraphCapture: not a registered GPU with graph capture'' (
     bnd (open_recorder s d) (\<lambda>r.
     Inr \<lparr>cap_device = Device (devtype d) r, recorder = Some r\<rparr>)))"

text \<open>\<^verbatim>\<open>finish()\<close> moves the recorder out, so a second call finds none.\<close>

definition finish :: "Capture \<Rightarrow> (Graph \<times> Capture) res" where
  "finish c = (case recorder c of
      None \<Rightarrow> Inl (Throw ''brotensor: CudaGraphCapture::finish: not capturing'')
    | Some r \<Rightarrow> Inr (\<lparr>graph_device = cap_device c, exec = Some r\<rparr>, c\<lparr>recorder := None\<rparr>))"

definition launch :: "Graph \<Rightarrow> int res" where
  "launch g = (case exec g of
      None \<Rightarrow> Inl (Throw ''brotensor: CudaGraph::launch: no captured graph'')
    | Some r \<Rightarrow> Inr r)"

section \<open>Lemmas: registry and aliasing\<close>

lemma resolve_not_cuda [simp]: "devtype d \<noteq> CUDA \<Longrightarrow> resolve_device_alias s d = d"
  by (simp add: resolve_device_alias_def is_cuda_def)

lemma resolve_cuda_registered [simp]: "registered s CUDA \<Longrightarrow> resolve_device_alias s d = d"
  by (simp add: resolve_device_alias_def)

lemma resolve_cases:
  "resolve_device_alias s d = d \<or>
   (is_cuda d \<and> \<not> registered s CUDA \<and> registered s Metal \<and> resolve_device_alias s d = metal 0) \<or>
   (is_cuda d \<and> \<not> registered s CUDA \<and> registered s VULKAN \<and> resolve_device_alias s d = vulkan (index d))"
  by (auto simp: resolve_device_alias_def Let_def)

lemma resolve_idem [simp]: "resolve_device_alias s (resolve_device_alias s d) = resolve_device_alias s d"
  using resolve_cases [of s d] by (elim disjE conjE) simp_all

lemma is_registered_devtype: "is_registered s d \<Longrightarrow> registered s (devtype d)"
  by (auto simp: is_registered_def device_test_defs split: if_splits)

lemma resolve_registered: "is_registered s d \<Longrightarrow> resolve_device_alias s d = d"
  using is_registered_devtype [of s d] by (cases "devtype d = CUDA") simp_all

lemma alloc_for_registered: "is_registered s d \<Longrightarrow> \<exists>V. alloc_for s d = Inr V"
  using is_registered_devtype [of s d] resolve_registered [of s d]
  by (auto simp: alloc_for_def registered_def)

lemma pick_default_registered: "registered s CPU \<Longrightarrow> is_registered s (pick_default_from_available s)"
  by (simp add: pick_default_from_available_def is_registered_def is_cpu_def)

lemma safe_check_operands: "safe (check_operands d ts)"
  by (induction d ts rule: check_operands.induct) auto

lemma check_operands_ok:
  "check_operands d ts = Inr () \<longleftrightarrow> (\<forall>t. Some t \<in> set ts \<and> committed t \<longrightarrow> device t = d)"
  by (induction d ts rule: check_operands.induct) auto

lemma first_committed_None:
  "first_committed ts = None \<longleftrightarrow> (\<forall>t. Some t \<in> set ts \<longrightarrow> \<not> committed t)"
  by (induction ts rule: first_committed.induct) auto

lemma first_committed_Some:
  "first_committed ts = Some d \<Longrightarrow> \<exists>t. Some t \<in> set ts \<and> committed t \<and> device t = d"
  by (induction ts rule: first_committed.induct) (auto split: if_splits)

lemma registered_activate [simp]:
  "slots (activate_device_context h d s) = slots s"
  by (simp add: activate_device_context_def Let_def)

lemma is_registered_frame [simp]:
  "is_registered (s\<lparr>cuda_current := i\<rparr>) d = is_registered s d"
  "is_registered (s\<lparr>global_default := g\<rparr>) d = is_registered s d"
  "is_registered (s\<lparr>default_set := b\<rparr>) d = is_registered s d"
  "is_registered (s\<lparr>scope_override := ov\<rparr>) d = is_registered s d"
  "is_registered (s\<lparr>scope_had_prev := hp\<rparr>) d = is_registered s d"
  "is_registered (s\<lparr>init_done := b\<rparr>) d = is_registered s d"
  by (simp_all add: is_registered_def registered_def)

lemma default_device_cuda_current:
  "default_device (s\<lparr>cuda_current := i\<rparr>) = default_device s"
  by (cases "scope_override s") (simp_all add: default_device_def pick_default_from_available_def)

lemma default_device_activate [simp]:
  "default_device (activate_device_context h d s) = default_device s"
  by (simp add: activate_device_context_def Let_def default_device_cuda_current)

lemma resolve_activate [simp]:
  "resolve_device_alias (activate_device_context h d s) = resolve_device_alias s"
  by (rule ext) (simp add: resolve_device_alias_def registered_def Let_def)

lemma ops_for_activate [simp]: "ops_for (activate_device_context h d s) = ops_for s"
  by (rule ext) (simp add: ops_for_def)

section \<open>Properties: registry and dispatch\<close>

text \<open>
  device aliasing. A device other than CUDA, and any device once CUDA is registered, is its own
  alias; otherwise a CUDA device becomes Metal 0 or the Vulkan device of the same index, only if that
  backend is registered; resolving twice is resolving once, and the op and allocation tables
  of a device are those of its alias.
\<close>

theorem resolve_device_alias_correct:
  "(devtype d \<noteq> CUDA \<or> registered s CUDA \<longrightarrow> resolve_device_alias s d = d)
   \<and> (resolve_device_alias s d \<noteq> d \<longrightarrow>
        registered s (devtype (resolve_device_alias s d))
        \<and> resolve_device_alias s d \<in> {metal 0, vulkan (index d)})
   \<and> (devtype d = CUDA \<and> \<not> registered s CUDA \<and> (registered s Metal \<or> registered s VULKAN) \<longrightarrow>
        resolve_device_alias s d \<noteq> d)
   \<and> resolve_device_alias s (resolve_device_alias s d) = resolve_device_alias s d
   \<and> ops_for s (resolve_device_alias s d) = ops_for s d
   \<and> alloc_for s (resolve_device_alias s d) = alloc_for s d"
proof -
  have "devtype d = CUDA \<and> \<not> registered s CUDA \<and> (registered s Metal \<or> registered s VULKAN) \<Longrightarrow>
        resolve_device_alias s d \<noteq> d"
    by (cases d) (auto simp: resolve_device_alias_def is_cuda_def Let_def)
  moreover have "ops_for s (resolve_device_alias s d) = ops_for s d"
    and "alloc_for s (resolve_device_alias s d) = alloc_for s d"
    by (simp_all only: ops_for_def alloc_for_def resolve_idem)
  ultimately show ?thesis using resolve_cases [of s d] by auto
qed

definition demo_rt :: "unit runtime" where
  "demo_rt = \<lparr>slots = (\<lambda>t. if t = CPU \<or> t = VULKAN then Some ((), cpu_alloc_table) else None),
     cuda_count = 0, vulkan_count = 2, init_done = False, global_default = cpu, default_set = False,
     scope_override = None, scope_had_prev = [], cuda_current = 0,
     graph_factories = (\<lambda>t. if t = VULKAN then Some (\<lambda>i. Some i) else None)\<rparr>"

lemma demo_rt_simps [simp]:
  "registered demo_rt CPU" "registered demo_rt VULKAN"
  "\<not> registered demo_rt CUDA" "\<not> registered demo_rt Metal"
  "vulkan_count demo_rt = 2" "cuda_count demo_rt = 0" "\<not> default_set demo_rt" "\<not> init_done demo_rt"
  "scope_override demo_rt = None" "graph_factories demo_rt VULKAN = Some (\<lambda>i. Some i)"
  by (simp_all add: demo_rt_def registered_def)

theorem resolve_device_alias_correct_witness:
  "devtype (cuda 1) = CUDA \<and> \<not> registered demo_rt CUDA \<and> registered demo_rt VULKAN
   \<and> resolve_device_alias demo_rt (cuda 1) \<in> {metal 0, vulkan 1}
   \<and> resolve_device_alias demo_rt (vulkan 0) = vulkan 0"
  using resolve_device_alias_correct [of "cuda 1" demo_rt] resolve_device_alias_correct [of "vulkan 0" demo_rt]
  by simp

text \<open>
  C34: operand dispatch. When \<^verbatim>\<open>dispatch\<close> returns a table, every committed operand is on one
  device and the table is that of this device's (alias-resolved, registered) backend; it throws,
  and never anything worse, exactly when two committed operands disagree or that backend is not
  registered; and the optional-operand path resolves the same way as the plain one.
\<close>

theorem dispatch_correct:
  fixes a :: Tensor and ts :: "Tensor option list" and s :: "'o runtime"
  defines "dev \<equiv> (case first_committed (Some a # ts) of Some d \<Rightarrow> d | None \<Rightarrow> device a)"
  shows "(\<forall>ops s'. dispatch_v h (Some a # ts) s = Inr (ops, s') \<longleftrightarrow>
            (\<forall>t. Some t \<in> set (Some a # ts) \<and> committed t \<longrightarrow> device t = dev)
            \<and> (\<exists>V. slots s (devtype (resolve_device_alias s dev)) = Some (ops, V))
            \<and> s' = activate_device_context h dev s)
     \<and> safe (dispatch_v h (Some a # ts) s)
     \<and> (Suc (length ts) \<le> kMaxOperands \<longrightarrow> dispatch_with_opts h a ts s = dispatch_v h (Some a # ts) s)"
proof -
  have r: "resolve_over h (Some a # ts) s = dispatch_v h (Some a # ts) s"
    by (cases "first_committed (Some a # ts)") (simp_all only: resolve_over_def dispatch_v_def
        Let_def option.case first_nonnull.simps list.case)
  have d: "dispatch_v h (Some a # ts) s =
      bnd (check_operands dev (Some a # ts)) (\<lambda>_. bnd (ops_for s dev) (\<lambda>ops. Inr (ops, activate_device_context h dev s)))"
    by (cases "first_committed (Some a # ts)") (simp_all only: dispatch_v_def dev_def
        Let_def option.case list.case ops_for_activate)
  have iff: "dispatch_v h (Some a # ts) s = Inr (ops, s') \<longleftrightarrow>
      check_operands dev (Some a # ts) = Inr () \<and> ops_for s dev = Inr ops \<and> s' = activate_device_context h dev s"
    for ops s' unfolding d by auto
  have o: "ops_for s dev = Inr ops \<longleftrightarrow> (\<exists>V. slots s (devtype (resolve_device_alias s dev)) = Some (ops, V))" for ops
    by (auto simp: ops_for_def split: option.splits)
  have "safe (dispatch_v h (Some a # ts) s)"
    unfolding d by (intro safe_bnd safe_check_operands) (auto simp: ops_for_def split: option.splits)
  then show ?thesis
    unfolding iff o check_operands_ok using r by (auto simp: dispatch_with_opts_def)
qed

theorem dispatch_correct_witness:
  "dispatch_with_opts False (empty_tensor\<lparr>device := cpu\<rparr>)
      [None, Some (empty_tensor\<lparr>data := Ptr 0 0, device := vulkan 0\<rparr>)] demo_rt = Inr ((), demo_rt)"
proof -
  let ?a = "empty_tensor\<lparr>device := cpu\<rparr>" and ?b = "empty_tensor\<lparr>data := Ptr 0 0, device := vulkan 0\<rparr>"
  have c: "\<not> committed ?a" "committed ?b" by (simp_all add: committed_def empty_tensor_def)
  then have f: "first_committed [Some ?a, None, Some ?b] = Some (vulkan 0)" by simp
  have r: "resolve_device_alias demo_rt (vulkan 0) = vulkan 0"
    by (simp add: resolve_device_alias_def device_test_defs)
  have s: "slots demo_rt VULKAN = Some ((), cpu_alloc_table)" by (simp add: demo_rt_def)
  have "dispatch_v False [Some ?a, None, Some ?b] demo_rt = Inr ((), demo_rt)"
    using dispatch_correct [of False ?a "[None, Some ?b]" demo_rt] c
    by (auto simp: f r s activate_device_context_def)
  then show ?thesis
    using dispatch_correct [of False ?a "[None, Some ?b]" demo_rt] by (simp add: kMaxOperands_def)
qed

lemma is_registered_cuda:
  "is_registered s (cuda i) \<longleftrightarrow> is_registered s (cuda 0) \<and> 0 \<le> i
     \<and> i < (if cuda_count s \<le> 0 then 1 else cuda_count s)"
  by (simp add: is_registered_def device_test_defs Let_def)

lemma is_registered_metal: "is_registered s (metal i) \<longleftrightarrow> is_registered s (metal 0) \<and> i = 0"
  by (simp add: is_registered_def device_test_defs)

lemma is_registered_vulkan:
  "is_registered s (vulkan i) \<longleftrightarrow> registered s VULKAN \<and> 0 \<le> i \<and> i < vulkan_count s"
  by (simp add: is_registered_def device_test_defs)

lemma set_available_devices:
  "set (available_devices s) =
     {d. is_registered s d \<and> (is_cpu d \<longrightarrow> index d = 0)}"
proof (rule set_eqI)
  fix d
  obtain t i where d: "d = Device t i" by (cases d)
  show "d \<in> set (available_devices s) \<longleftrightarrow> d \<in> {d. is_registered s d \<and> (is_cpu d \<longrightarrow> index d = 0)}"
  proof (cases t)
    case CPU
    have "is_registered s (Device CPU i) = is_registered s cpu" by (simp add: is_registered_def is_cpu_def)
    then show ?thesis using CPU by (auto simp: d available_devices_def is_cpu_def Let_def)
  next
    case CUDA
    then show ?thesis using is_registered_cuda [of s i]
      by (auto simp: d available_devices_def is_cpu_def Let_def)
  next
    case Metal
    then show ?thesis using is_registered_metal [of s i]
      by (auto simp: d available_devices_def is_cpu_def Let_def)
  next
    case VULKAN
    then show ?thesis using is_registered_vulkan [of s i]
      by (auto simp: d available_devices_def is_cpu_def Let_def)
  qed
qed

lemma distinct_available_devices: "distinct (available_devices s)"
  by (auto simp: available_devices_def Let_def distinct_map inj_on_def)

lemma sync_list_ok:
  "\<forall>d\<in>set ds. is_registered s d \<Longrightarrow> \<exists>m'. sync_list ds s m = Inr m'"
proof (induction ds arbitrary: m)
  case (Cons d ds)
  then obtain V where "alloc_for s d = Inr V" using alloc_for_registered [of s d] by auto
  then show ?case using Cons by simp
qed simp

text \<open>
  \<^verbatim>\<open>available_devices\<close> lists exactly the registered devices, each once (the CPU device under
  its only index 0), and \<^verbatim>\<open>sync_all\<close>, which walks that list, never throws.
\<close>

theorem available_devices_exact:
  "set (available_devices s) = {d. is_registered s d \<and> (is_cpu d \<longrightarrow> index d = 0)}
   \<and> distinct (available_devices s)
   \<and> (\<exists>m'. sync_all s m = Inr m')"
  using set_available_devices [of s] distinct_available_devices [of s]
    sync_list_ok [of "available_devices s" s m] by (simp add: sync_all_def)

theorem available_devices_exact_witness:
  "available_devices demo_rt = [cpu, vulkan 0, vulkan 1] \<and> is_registered demo_rt (vulkan 1)"
proof -
  have a: "available_devices demo_rt = [cpu, vulkan 0, vulkan 1]"
    by (simp add: available_devices_def is_registered_def device_test_defs upto.simps)
  have "vulkan 1 \<in> set (available_devices demo_rt)" by (simp add: a)
  then show ?thesis using a available_devices_exact [of demo_rt] by blast
qed

section \<open>Properties: default device and scopes\<close>

text \<open>
  A thread's use of the policy: global overrides and lexically nested scopes. An exception
  leaves the rest of the block unexecuted and runs the destructors of the scopes it leaves.
\<close>

datatype action = SetDefault Device | InScope Device "action list"

fun run_action :: "action \<Rightarrow> 'o runtime \<Rightarrow> err option \<times> 'o runtime"
  and run_actions :: "action list \<Rightarrow> 'o runtime \<Rightarrow> err option \<times> 'o runtime"
where
  "run_action (SetDefault d) s = (case set_default_device d s of Inl e \<Rightarrow> (Some e, s) | Inr s' \<Rightarrow> (None, s'))"
| "run_action (InScope d as) s = (case DeviceScope_ctor d s of
      Inl e \<Rightarrow> (Some e, s)
    | Inr (prev, s1) \<Rightarrow> (case run_actions as s1 of (e, s2) \<Rightarrow> (e, DeviceScope_dtor prev s2)))"
| "run_actions [] s = (None, s)"
| "run_actions (a # as) s = (case run_action a s of
      (Some e, s') \<Rightarrow> (Some e, s')
    | (None, s') \<Rightarrow> run_actions as s')"

definition rt_inv :: "'o runtime \<Rightarrow> bool" where
  "rt_inv s \<longleftrightarrow> registered s CPU \<and> (default_set s \<longrightarrow> is_registered s (global_default s))
     \<and> (\<forall>d. scope_override s = Some d \<longrightarrow> is_registered s d)"

lemma rt_inv_default: "rt_inv s \<Longrightarrow> is_registered s (default_device s)"
  by (cases "scope_override s") (auto simp: rt_inv_def default_device_def pick_default_registered)

text \<open>What a scope constructor does, and what its destructor undoes.\<close>

lemma DeviceScope_ctor_ok:
  assumes "DeviceScope_ctor d s = Inr (prev, s1)"
  shows "is_registered s (resolve_device_alias s d)"
    and "s1 = s\<lparr>scope_had_prev := (scope_override s \<noteq> None) # scope_had_prev s,
                 scope_override := Some (resolve_device_alias s d)\<rparr>"
    and "\<And>p. scope_override s = Some p \<Longrightarrow> prev = p"
  using assms by (auto simp: DeviceScope_ctor_def Let_def split: option.splits)

lemma DeviceScope_dtor_restores:
  assumes "DeviceScope_ctor d s = Inr (prev, s1)"
    and "scope_override s2 = scope_override s1" "scope_had_prev s2 = scope_had_prev s1"
  shows "scope_override (DeviceScope_dtor prev s2) = scope_override s"
    and "scope_had_prev (DeviceScope_dtor prev s2) = scope_had_prev s"
  using DeviceScope_ctor_ok [OF assms(1)] assms(2,3)
  by (cases "scope_override s"; simp add: DeviceScope_dtor_def Let_def)+

definition same_registry :: "'o runtime \<Rightarrow> 'o runtime \<Rightarrow> bool" where
  "same_registry s s' \<longleftrightarrow> slots s' = slots s \<and> cuda_count s' = cuda_count s \<and> vulkan_count s' = vulkan_count s"

lemma is_registered_same_registry:
  "same_registry s s' \<Longrightarrow> is_registered s' d = is_registered s d"
  by (simp add: same_registry_def is_registered_def registered_def)

definition scope_frame :: "'o runtime \<Rightarrow> 'o runtime \<Rightarrow> bool" where
  "scope_frame s s' \<longleftrightarrow> same_registry s s' \<and> scope_override s' = scope_override s
     \<and> scope_had_prev s' = scope_had_prev s \<and> (rt_inv s \<longrightarrow> rt_inv s')"

lemma scope_frame_refl [simp]: "scope_frame s s"
  by (simp add: scope_frame_def same_registry_def)

lemma scope_frame_trans: "scope_frame s t \<Longrightarrow> scope_frame t u \<Longrightarrow> scope_frame s u"
  by (simp add: scope_frame_def same_registry_def)

lemma set_default_frame: "set_default_device d s = Inr s' \<Longrightarrow> scope_frame s s'"
  by (auto simp: set_default_device_def Let_def scope_frame_def same_registry_def rt_inv_def registered_def)

lemma scope_frame_block:
  assumes c: "DeviceScope_ctor d s = Inr (prev, s1)" and f: "scope_frame s1 s2"
  shows "scope_frame s (DeviceScope_dtor prev s2)"
proof -
  let ?s3 = "DeviceScope_dtor prev s2"
  have e: "scope_override s2 = scope_override s1" "scope_had_prev s2 = scope_had_prev s1"
    using f by (simp_all add: scope_frame_def)
  note r = DeviceScope_dtor_restores(1) [OF c e] DeviceScope_dtor_restores(2) [OF c e]
  have g: "same_registry s ?s3" using f DeviceScope_ctor_ok(2) [OF c]
    by (simp add: scope_frame_def same_registry_def DeviceScope_dtor_def Let_def)
  have "rt_inv ?s3" if i: "rt_inv s"
  proof -
    have "rt_inv s1" using i DeviceScope_ctor_ok(1,2) [OF c] by (simp add: rt_inv_def registered_def)
    then have i2: "rt_inv s2" using f by (simp add: scope_frame_def)
    have "registered ?s3 CPU" and "default_set ?s3 \<longrightarrow> is_registered ?s3 (global_default ?s3)"
      using i2 by (simp_all add: rt_inv_def DeviceScope_dtor_def Let_def registered_def)
    moreover have "is_registered ?s3 p" if "scope_override ?s3 = Some p" for p
      using i that r is_registered_same_registry [OF g] by (simp add: rt_inv_def)
    ultimately show ?thesis by (simp add: rt_inv_def)
  qed
  then show ?thesis using r g by (simp add: scope_frame_def)
qed

lemma run_frame:
  "scope_frame s (snd (run_action a s))" "scope_frame s (snd (run_actions as s))"
proof (induction a s and as s rule: run_action_run_actions.induct)
  case (1 d s)
  then show ?case by (auto split: sum.splits intro: set_default_frame)
next
  case (2 d as s)
  then show ?case by (auto split: sum.splits prod.splits intro!: scope_frame_block)
next
  case (4 a as s)
  then show ?case by (auto split: prod.splits option.splits intro: scope_frame_trans)
qed simp

text \<open>
  \<^verbatim>\<open>DeviceScope\<close> restores what it found. Whatever a block of nested scopes and
  \<^verbatim>\<open>set_default_device\<close> calls does, and whether it ends normally or by an exception, afterwards the
  thread's override and its scope stack are what they were, no backend was registered or lost,
  and if the default device was a registered one, it still is.
\<close>

theorem DeviceScope_restores:
  assumes "run_actions as s = (e, s')" and "rt_inv s"
  shows "scope_override s' = scope_override s \<and> scope_had_prev s' = scope_had_prev s
    \<and> slots s' = slots s \<and> rt_inv s' \<and> is_registered s' (default_device s')"
  using run_frame(2) [of s as] assms rt_inv_default [of s']
  by (simp add: scope_frame_def same_registry_def)

theorem DeviceScope_restores_witness:
  "rt_inv demo_rt \<and> (\<exists>e s'. run_actions [InScope (cuda 1) [SetDefault (vulkan 0), InScope cpu [SetDefault (metal 0)]]] demo_rt
      = (Some e, s') \<and> scope_override s' = None \<and> rt_inv s')"
proof -
  have i: "rt_inv demo_rt" by (simp add: rt_inv_def)
  let ?as = "[InScope (cuda 1) [SetDefault (vulkan 0), InScope cpu [SetDefault (metal 0)]]]"
  have "fst (run_actions ?as demo_rt) \<noteq> None"
    by (simp add: DeviceScope_ctor_def set_default_device_def Let_def resolve_device_alias_def
        is_registered_def device_test_defs guard_def registered_def demo_rt_def split: prod.splits)
  then obtain e s' where r: "run_actions ?as demo_rt = (Some e, s')"
    by (cases "run_actions ?as demo_rt") auto
  from DeviceScope_restores [OF r i] r i show ?thesis by auto
qed

text \<open>
  \<^verbatim>\<open>init\<close> fixes the default once. After probes that only add backends, and with no scope
  open, the default device is registered; without an environment override it is the best one
  available in the order CUDA, Metal, Vulkan, CPU; and a second \<^verbatim>\<open>init\<close> changes nothing.
\<close>

theorem init_default_policy:
  assumes "\<not> init_done s" "\<not> default_set (fold (\<lambda>p. p) probes s)"
    and "registered (fold (\<lambda>p. p) probes s) CPU"
    and "scope_override (fold (\<lambda>p. p) probes s) = None"
  shows "is_registered (init probes env s) (default_device (init probes env s))
    \<and> (parse_env_device env = None \<longrightarrow> (\<forall>d. is_registered (init probes env s) d \<and> index d = 0 \<and> is_gpu d \<longrightarrow>
         is_gpu (default_device (init probes env s)) \<and> \<not> d < default_device (init probes env s)))
    \<and> init probes env (init probes env s) = init probes env s"
proof -
  define s1 where "s1 = fold (\<lambda>p. p) probes s"
  define g where "g = (case parse_env_device env of
      Some e \<Rightarrow> (let want = resolve_device_alias s1 e in if is_registered s1 want then want else pick_default_from_available s1)
    | None \<Rightarrow> pick_default_from_available s1)"
  have i: "init probes env s = s1\<lparr>global_default := g, default_set := True, init_done := True\<rparr>"
    using assms(1) assms(2) [folded s1_def]
    by (simp add: init_def init_default_def Let_def g_def flip: s1_def)
  have "is_registered s1 g"
    using pick_default_registered [of s1] assms(3) [folded s1_def]
    by (auto simp: g_def Let_def split: option.splits)
  then have r: "is_registered (init probes env s) g" by (simp add: i)
  have d: "default_device (init probes env s) = g"
    using assms(4) [folded s1_def] by (simp add: i default_device_def)
  have p: "is_gpu (pick_default_from_available s1) \<and> \<not> d < pick_default_from_available s1"
    if "is_registered (init probes env s) d" "index d = 0" "is_gpu d" for d
    using that by (cases d; cases "devtype d")
      (auto simp: i pick_default_from_available_def is_gpu_def less_Device_def device_less_def)
  have "init probes env (init probes env s) = init probes env s"
    by (subst init_def) (simp add: i)
  moreover have "g = pick_default_from_available s1" if "parse_env_device env = None"
    using that by (simp add: g_def)
  ultimately show ?thesis using r p unfolding d by metis
qed

theorem init_default_policy_witness:
  "\<not> init_done demo_rt \<and> registered demo_rt CPU
   \<and> is_registered (init [] (Some ''VK:1'') demo_rt) (default_device (init [] (Some ''VK:1'') demo_rt))
   \<and> is_gpu (default_device (init [] None demo_rt))"
proof -
  have v: "is_registered (init [] None demo_rt) (vulkan 0)"
    by (simp add: init_def init_default_def Let_def parse_env_device_def is_registered_vulkan registered_def demo_rt_def)
  have p: "parse_env_device None = None" by (simp add: parse_env_device_def)
  have a: "fold (\<lambda>p. p) [] demo_rt = demo_rt" by simp
  from init_default_policy [of demo_rt "[]" "Some ''VK:1''"] init_default_policy [of demo_rt "[]" None] v p
  show ?thesis by (auto simp: is_gpu_def)
qed

section \<open>Properties: graph capture\<close>

text \<open>
  graph capture. A capture opens without an argument only where \<^verbatim>\<open>graph_capture_available()\<close>
  says so; it records on a GPU backend that has a recorder, on the default device whenever that can
  capture; \<^verbatim>\<open>finish()\<close> succeeds exactly once and gives a graph that launches.
\<close>

theorem graph_capture_correct:
  assumes "CudaGraphCapture_default s = Inr c"
  shows "graph_capture_available s \<and> is_gpu (cap_device c) \<and> graph_factories s (devtype (cap_device c)) \<noteq> None
    \<and> (capturable s (resolve_device_alias s (default_device s)) \<longrightarrow>
         devtype (cap_device c) = devtype (resolve_device_alias s (default_device s)))
    \<and> (\<exists>g c'. finish c = Inr (g, c') \<and> graph_device g = cap_device c \<and> (\<exists>r. launch g = Inr r)
         \<and> finish c' = Inl (Throw ''brotensor: CudaGraphCapture::finish: not capturing''))"
proof -
  from assms obtain d r where d: "pick_capture_device s = Inr d" and "open_recorder s d = Inr r"
    and c: "c = \<lparr>cap_device = Device (devtype d) r, recorder = Some r\<rparr>"
    by (auto simp: CudaGraphCapture_default_def)
  then have f: "graph_factories s (devtype d) \<noteq> None" by (auto simp: open_recorder_def split: option.splits)
  have "is_gpu d" using d by (auto simp: pick_capture_device_def capturable_def is_gpu_def Let_def split: if_splits)
  moreover have "d = resolve_device_alias s (default_device s)"
    if "capturable s (resolve_device_alias s (default_device s))"
    using d that by (simp add: pick_capture_device_def Let_def)
  ultimately show ?thesis using d c f
    by (auto simp: graph_capture_available_def finish_def launch_def is_gpu_def)
qed

theorem graph_capture_correct_witness:
  "\<exists>c. CudaGraphCapture_default demo_rt = Inr c \<and> is_gpu (cap_device c) \<and> graph_capture_available demo_rt"
proof -
  have "default_device demo_rt = vulkan 0"
    by (simp add: default_device_def pick_default_from_available_def is_registered_def device_test_defs)
  then have "CudaGraphCapture_default demo_rt = Inr \<lparr>cap_device = vulkan 0, recorder = Some 0\<rparr>"
    by (simp add: CudaGraphCapture_default_def pick_capture_device_def capturable_def open_recorder_def
        is_registered_def device_test_defs Let_def)
  with graph_capture_correct [OF this] show ?thesis by blast
qed

end
