(* ===== verification/Tensors.thy ===== *)
theory Tensors
  imports Runtime
begin

text \<open>
  \<^verbatim>\<open>brotensor::Tensor\<close> (\<^verbatim>\<open>src/tensor.cpp\<close>, \<^verbatim>\<open>include/brotensor/tensor.h\<close>): storage, ownership,
  factories, migration between devices, \<^verbatim>\<open>resize\<close> and the host accessors.

  The world holds the runtime, the memory, the allocation counters, the Tensor objects by
  address (\<open>objs\<close>) and the jit's table from trace slots to the objects that hold them. An operation
  takes a world and returns its result, or the exception, together with the world it leaves
  behind, so that what an exception leaves is part of the model: a local that goes out of scope
  on unwinding is destroyed there.
\<close>

section \<open>The world and its actions\<close>

record 'o world =
  rt :: "'o runtime"
  heap :: mem
  g_alloc_count :: nat
  g_alloc_bytes :: nat
  objs :: "nat \<rightharpoonup> Tensor"
  retarget_hook :: bool
  slot_to_tensor :: "int \<rightharpoonup> nat"

type_synonym ('o, 'a) act = "'o world \<Rightarrow> 'a res \<times> 'o world"

definition ret :: "'a \<Rightarrow> ('o, 'a) act" where
  "ret x w = (Inr x, w)"

definition lift :: "'a res \<Rightarrow> ('o, 'a) act" where
  "lift r w = (r, w)"

definition sbnd :: "('o, 'a) act \<Rightarrow> ('a \<Rightarrow> ('o, 'b) act) \<Rightarrow> ('o, 'b) act" where
  "sbnd m f w = (case m w of (Inl e, w') \<Rightarrow> (Inl e, w') | (Inr x, w') \<Rightarrow> f x w')"

definition reading :: "('o world \<Rightarrow> ('o, 'a) act) \<Rightarrow> ('o, 'a) act" where
  "reading f w = f w w"

definition heap_act :: "(mem \<Rightarrow> mem res) \<Rightarrow> ('o, unit) act" where
  "heap_act f w = (case f (heap w) of Inl e \<Rightarrow> (Inl e, w) | Inr m \<Rightarrow> (Inr (), w\<lparr>heap := m\<rparr>))"

text \<open>A memory operation of the backend that serves device \<open>d\<close>.\<close>

definition backend_act :: "Device \<Rightarrow> (AllocVTable \<Rightarrow> mem \<Rightarrow> mem res) \<Rightarrow> ('o, unit) act" where
  "backend_act d f w = (case alloc_for (rt w) d of Inl e \<Rightarrow> (Inl e, w) | Inr V \<Rightarrow> heap_act (f V) w)"

section \<open>Checks\<close>

definition check_host :: "Tensor \<Rightarrow> string \<Rightarrow> unit res" where
  "check_host t who = guard (device t \<noteq> cpu) (''brotensor: '' @ who @ '': tensor is not on CPU'') (Inr ())"

definition check_dims :: "int \<Rightarrow> int \<Rightarrow> string \<Rightarrow> unit res" where
  "check_dims r c who = guard (r < 0 \<or> c < 0) (''brotensor: '' @ who @ '': negative dimension'') (Inr ())"

definition check_quant_cols :: "Dtype \<Rightarrow> int \<Rightarrow> string \<Rightarrow> unit res" where
  "check_quant_cols dt c who = (
     if \<not> dtype_is_quant dt \<or> c \<le> 0 then Inr ()
     else guard (c mod int (dtype_block_size dt) \<noteq> 0)
       (''brotensor: '' @ who @ '': '' @ dtype_name dt @ '' cols is not a multiple of block size'') (Inr ()))"

definition check_dtype :: "Tensor \<Rightarrow> Dtype \<Rightarrow> string \<Rightarrow> unit res" where
  "check_dtype t expected who =
     guard (dtype t \<noteq> expected) (''brotensor: '' @ who @ '': dtype mismatch'') (Inr ())"

definition check_not_symbolic :: "Tensor \<Rightarrow> string \<Rightarrow> unit res" where
  "check_not_symbolic t who =
     guard (0 \<le> jit_slot t) (''brotensor: '' @ who @ '': this Tensor is a traced intermediate'') (Inr ())"

section \<open>Sizes\<close>

text \<open>\<^verbatim>\<open>size()\<close> multiplies two \<^verbatim>\<open>int\<close>s; outside the range of \<^verbatim>\<open>int\<close> this is undefined.\<close>

definition tsize :: "Tensor \<Rightarrow> int res" where
  "tsize t = (if is_int32 (rows t * cols t) then Inr (rows t * cols t) else Inl (UB ''int overflow in size()''))"

definition tempty :: "Tensor \<Rightarrow> bool res" where
  "tempty t = (if data t = Null then Inr True else bnd (tsize t) (\<lambda>n. Inr (n = 0)))"

definition bytes :: "Tensor \<Rightarrow> nat res" where
  "bytes t = bnd (check_dims (rows t) (cols t) ''bytes'') (\<lambda>_.
     bnd (if 0 < rows t \<and> 0 < cols t then check_quant_cols (dtype t) (cols t) ''Tensor::bytes'' else Inr ()) (\<lambda>_.
     dtype_storage_bytes (dtype t) (rows t * cols t)))"

definition row_bytes :: "Tensor \<Rightarrow> nat res" where
  "row_bytes t = bnd (check_dims (rows t) (cols t) ''row_bytes'') (\<lambda>_.
     bnd (check_quant_cols (dtype t) (cols t) ''Tensor::row_bytes'') (\<lambda>_.
     dtype_storage_bytes (dtype t) (cols t)))"

section \<open>Backend storage\<close>

definition backend_alloc :: "Device \<Rightarrow> nat \<Rightarrow> ('o, ptr) act" where
  "backend_alloc d n w = (
     if n = 0 then (Inr Null, w)
     else let w1 = w\<lparr>g_alloc_count := size_wrap (g_alloc_count w + 1),
                     g_alloc_bytes := size_wrap (g_alloc_bytes w + n)\<rparr> in
       case alloc_for (rt w1) d of
         Inl e \<Rightarrow> (Inl e, w1)
       | Inr V \<Rightarrow> (case alloc V n (index d) (heap w1) of
             Inl e \<Rightarrow> (Inl e, w1)
           | Inr (p, m) \<Rightarrow> (Inr p, w1\<lparr>heap := m\<rparr>)))"

definition backend_free :: "Device \<Rightarrow> ptr \<Rightarrow> ('o, unit) act" where
  "backend_free d p = (if p = Null then ret () else backend_act d (\<lambda>V. free V p (index d)))"

definition backend_zero :: "Device \<Rightarrow> ptr \<Rightarrow> nat \<Rightarrow> ('o, unit) act" where
  "backend_zero d p n = (if n = 0 \<or> p = Null then ret () else backend_act d (\<lambda>V. memset_zero V p n (index d)))"

text \<open>\<^verbatim>\<open>release\<close>; when the backend is gone the exception leaves the tensor as it was.\<close>

definition release :: "Tensor \<Rightarrow> ('o, Tensor) act" where
  "release t = sbnd (if owns t \<and> data t \<noteq> Null then backend_free (device t) (data t) else ret ()) (\<lambda>_.
     ret (t\<lparr>data := Null, owns := False, cap_bytes := 0\<rparr>))"

text \<open>A local tensor \<open>t\<close> is destroyed when the rest of its scope throws.\<close>

definition owning :: "Tensor \<Rightarrow> ('o, 'a) act \<Rightarrow> ('o, 'a) act" where
  "owning t m w = (case m w of
      (Inl e, w') \<Rightarrow> (Inl e, snd (release t w'))
    | (Inr x, w') \<Rightarrow> (Inr x, w'))"

section \<open>Factories\<close>

definition empty_on :: "Device \<Rightarrow> int \<Rightarrow> int \<Rightarrow> Dtype \<Rightarrow> ('o, Tensor) act" where
  "empty_on d r c dt =
     sbnd (lift (check_dims r c ''empty_on'')) (\<lambda>_.
     sbnd (lift (check_quant_cols dt c ''Tensor::empty_on'')) (\<lambda>_.
     reading (\<lambda>w. let d' = resolve_device_alias (rt w) d;
              t = empty_tensor\<lparr>device := d', dtype := dt, rows := r, cols := c\<rparr> in
          sbnd (lift (bytes t)) (\<lambda>n.
          sbnd (backend_alloc d' n) (\<lambda>p.
          ret (t\<lparr>data := p, owns := p \<noteq> Null, cap_bytes := (if p \<noteq> Null then n else 0)\<rparr>))))))"

definition zeros_on :: "Device \<Rightarrow> int \<Rightarrow> int \<Rightarrow> Dtype \<Rightarrow> ('o, Tensor) act" where
  "zeros_on d r c dt = sbnd (empty_on d r c dt) (\<lambda>t.
     owning t (sbnd (lift (bytes t)) (\<lambda>n. sbnd (backend_zero d (data t) n) (\<lambda>_. ret t))))"

definition empty :: "int \<Rightarrow> int \<Rightarrow> Dtype \<Rightarrow> ('o, Tensor) act" where
  "empty r c dt w = empty_on (default_device (rt w)) r c dt w"

definition zeros :: "int \<Rightarrow> int \<Rightarrow> Dtype \<Rightarrow> ('o, Tensor) act" where
  "zeros r c dt w = zeros_on (default_device (rt w)) r c dt w"

definition mat :: "int \<Rightarrow> int \<Rightarrow> ('o, Tensor) act" where
  "mat r c = zeros_on cpu r c FP32"

definition vec :: "int \<Rightarrow> ('o, Tensor) act" where
  "vec n = zeros_on cpu n 1 FP32"

text \<open>Host bytes into a tensor's storage: a \<^verbatim>\<open>memcpy\<close> on the CPU, the backend's upload elsewhere.\<close>

definition upload :: "Device \<Rightarrow> ptr \<Rightarrow> ptr \<Rightarrow> nat \<Rightarrow> ('o, unit) act" where
  "upload d dst src n = (if d = cpu then heap_act (memcpy dst src n)
     else backend_act d (\<lambda>V. memcpy_h2d V dst src n (index d)))"

definition from_host_typed :: "Device \<Rightarrow> ptr \<Rightarrow> int \<Rightarrow> int \<Rightarrow> Dtype \<Rightarrow> ('o, Tensor) act" where
  "from_host_typed d src r c dt = sbnd (empty_on d r c dt) (\<lambda>t.
     owning t (sbnd (lift (bytes t)) (\<lambda>n.
       if n = 0 then ret t else sbnd (upload d (data t) src n) (\<lambda>_. ret t))))"

definition from_host_on :: "Device \<Rightarrow> ptr \<Rightarrow> int \<Rightarrow> int \<Rightarrow> ('o, Tensor) act" where
  "from_host_on d src r c = from_host_typed d src r c FP32"

definition from_host_fp16_on :: "Device \<Rightarrow> ptr \<Rightarrow> int \<Rightarrow> int \<Rightarrow> ('o, Tensor) act" where
  "from_host_fp16_on d src r c = from_host_typed d src r c FP16"

definition from_host_bf16_on :: "Device \<Rightarrow> ptr \<Rightarrow> int \<Rightarrow> int \<Rightarrow> ('o, Tensor) act" where
  "from_host_bf16_on d src r c = from_host_typed d src r c BF16"

definition from_host_int8_on :: "Device \<Rightarrow> ptr \<Rightarrow> int \<Rightarrow> int \<Rightarrow> ('o, Tensor) act" where
  "from_host_int8_on d src r c = sbnd (empty_on d r c INT8) (\<lambda>t.
     owning t (sbnd (lift (bytes t)) (\<lambda>n.
       if n = 0 then ret t else sbnd (upload d (data t) src n) (\<lambda>_. ret t))))"

definition from_raw_bytes_on :: "Device \<Rightarrow> ptr \<Rightarrow> int \<Rightarrow> int \<Rightarrow> Dtype \<Rightarrow> nat \<Rightarrow> ('o, Tensor) act" where
  "from_raw_bytes_on target src r c dt nbytes = sbnd (empty_on target r c dt) (\<lambda>t.
     owning t (sbnd (lift (bytes t)) (\<lambda>n.
       if n \<noteq> nbytes then lift (Inl (Throw ''brotensor: from_raw_bytes_on: nbytes does not match tensor size''))
       else if nbytes = 0 then ret t
       else sbnd (upload target (data t) src nbytes) (\<lambda>_. ret t))))"

definition from_host :: "ptr \<Rightarrow> int \<Rightarrow> int \<Rightarrow> ('o, Tensor) act" where
  "from_host src r c w = from_host_on (default_device (rt w)) src r c w"

definition from_host_fp16 :: "ptr \<Rightarrow> int \<Rightarrow> int \<Rightarrow> ('o, Tensor) act" where
  "from_host_fp16 src r c w = from_host_fp16_on (default_device (rt w)) src r c w"

definition from_host_bf16 :: "ptr \<Rightarrow> int \<Rightarrow> int \<Rightarrow> ('o, Tensor) act" where
  "from_host_bf16 src r c w = from_host_bf16_on (default_device (rt w)) src r c w"

definition from_host_int8 :: "ptr \<Rightarrow> int \<Rightarrow> int \<Rightarrow> ('o, Tensor) act" where
  "from_host_int8 src r c w = from_host_int8_on (default_device (rt w)) src r c w"

definition view :: "Device \<Rightarrow> ptr \<Rightarrow> int \<Rightarrow> int \<Rightarrow> Dtype \<Rightarrow> ('o, Tensor) act" where
  "view d p r c dt =
     sbnd (lift (check_dims r c ''view'')) (\<lambda>_.
     sbnd (lift (check_quant_cols dt c ''Tensor::view'')) (\<lambda>_.
     reading (\<lambda>w. ret (empty_tensor\<lparr>device := resolve_device_alias (rt w) d, dtype := dt, rows := r, cols := c,
                 data := p, owns := False\<rparr>))))"

section \<open>Migration\<close>

definition clone :: "Tensor \<Rightarrow> ('o, Tensor) act" where
  "clone s = sbnd (lift (check_not_symbolic s ''clone'')) (\<lambda>_.
     sbnd (empty_on (device s) (rows s) (cols s) (dtype s)) (\<lambda>t.
     owning t (sbnd (lift (bytes s)) (\<lambda>n.
       if n = 0 \<or> data s = Null then ret t
       else sbnd (if device s = cpu then heap_act (memcpy (data t) (data s) n)
                  else backend_act (device s) (\<lambda>V. memcpy_d2d V (data t) (data s) n (index (device s)))) (\<lambda>_.
         ret t)))))"

text \<open>
  The bounce through a host buffer \<^verbatim>\<open>std::unique_ptr<unsigned char[]>\<close>: allocated, used, and
  freed at the end of its scope, exception or not.
\<close>

definition via_staging :: "nat \<Rightarrow> (ptr \<Rightarrow> ('o, unit) act) \<Rightarrow> ('o, unit) act" where
  "via_staging n body w = (case malloc n (heap w) of
      Inl e \<Rightarrow> (Inl e, w)
    | Inr (p, m) \<Rightarrow> (case body p (w\<lparr>heap := m\<rparr>) of (r, w') \<Rightarrow>
        (case heap_act (mfree p) w' of (Inl e, w'') \<Rightarrow> (Inl e, w'') | (Inr _, w'') \<Rightarrow> (r, w''))))"

definition bounce :: "Device \<Rightarrow> ptr \<Rightarrow> Device \<Rightarrow> ptr \<Rightarrow> nat \<Rightarrow> ('o, unit) act" where
  "bounce target dst source src n = via_staging n (\<lambda>staging.
     sbnd (backend_act source (\<lambda>V. memcpy_d2h V staging src n (index source))) (\<lambda>_.
     backend_act target (\<lambda>V. memcpy_h2d V dst staging n (index target))))"

definition to_copy :: "Device \<Rightarrow> ptr \<Rightarrow> Device \<Rightarrow> ptr \<Rightarrow> nat \<Rightarrow> ('o, unit) act" where
  "to_copy target dst source src n w = (
     if is_cpu source then backend_act target (\<lambda>V. memcpy_h2d V dst src n (index target)) w
     else if is_cpu target then backend_act source (\<lambda>V. memcpy_d2h V dst src n (index source)) w
     else if devtype source = devtype target then
       (case alloc_for (rt w) target of
          Inl e \<Rightarrow> (Inl e, w)
        | Inr V \<Rightarrow> (case memcpy_peer V of
             Some peer_fn \<Rightarrow> heap_act (peer_fn dst (index target) src (index source) n) w
           | None \<Rightarrow> bounce target dst source src n w))
     else bounce target dst source src n w)"

definition to_device :: "Tensor \<Rightarrow> Device \<Rightarrow> ('o, Tensor) act" where
  "to_device s target = sbnd (lift (check_not_symbolic s ''to'')) (\<lambda>_.
     if target = device s then clone s
     else sbnd (empty_on target (rows s) (cols s) (dtype s)) (\<lambda>t.
       owning t (sbnd (lift (bytes s)) (\<lambda>n.
         if n = 0 \<or> data s = Null then ret t
         else sbnd (to_copy target (data t) (device s) (data s) n) (\<lambda>_. ret t)))))"

section \<open>Mutators\<close>

definition zero_fill :: "Tensor \<Rightarrow> ('o, unit) act" where
  "zero_fill t = sbnd (lift (bytes t)) (\<lambda>n. backend_zero (device t) (data t) n)"

text \<open>
  \<^verbatim>\<open>resize\<close> returns the tensor it leaves next to the result: an allocation failure leaves the
  tensor released, with its old shape.
\<close>

definition resize :: "int \<Rightarrow> int \<Rightarrow> Dtype \<Rightarrow> Tensor \<Rightarrow> 'o world \<Rightarrow> (unit res \<times> Tensor) \<times> 'o world" where
  "resize r c dt t w = (
     case bnd (check_not_symbolic t ''resize'') (\<lambda>_.
          bnd (check_dims r c ''resize'') (\<lambda>_. check_quant_cols dt c ''Tensor::resize'')) of
       Inl e \<Rightarrow> ((Inl e, t), w)
     | Inr _ \<Rightarrow>
       if r = rows t \<and> c = cols t \<and> dt = dtype t \<and> data t \<noteq> Null then ((Inr (), t), w)
       else case dtype_storage_bytes dt (r * c) of
         Inl e \<Rightarrow> ((Inl e, t), w)
       | Inr new_bytes \<Rightarrow>
         if \<not> owns t \<and> data t \<noteq> Null then
           ((Inl (Throw ''brotensor: resize: cannot reshape a non-owning view; allocate a fresh tensor or re-view() with the new shape''), t), w)
         else if cap_bytes t < new_bytes \<or> \<not> owns t then
           (case release t w of
              (Inl e, w1) \<Rightarrow> ((Inl e, t), w1)
            | (Inr t1, w1) \<Rightarrow>
                let t2 = t1\<lparr>device := resolve_device_alias (rt w1) (device t1)\<rparr> in
                (case backend_alloc (device t2) new_bytes w1 of
                   (Inl e, w2) \<Rightarrow> ((Inl e, t2), w2)
                 | (Inr p, w2) \<Rightarrow>
                     ((Inr (), t2\<lparr>data := p, owns := p \<noteq> Null, cap_bytes := (if p \<noteq> Null then new_bytes else 0),
                                  rows := r, cols := c, dtype := dt\<rparr>), w2)))
         else ((Inr (), t\<lparr>rows := r, cols := c, dtype := dt\<rparr>), w))"

section \<open>Object lifetime\<close>

text \<open>
  \<open>construct i m\<close>: the prvalue a factory computes initialises the object at \<open>i\<close> (copy elision).
\<close>

definition construct :: "nat \<Rightarrow> ('o, Tensor) act \<Rightarrow> ('o, unit) act" where
  "construct i m = sbnd m (\<lambda>t w. (Inr (), w\<lparr>objs := (objs w)(i \<mapsto> t)\<rparr>))"

text \<open>\<^verbatim>\<open>TraceContext::retarget\<close>, reached through \<^verbatim>\<open>detail::jit_slot_retarget\<close>.\<close>

definition retarget :: "int \<Rightarrow> nat \<Rightarrow> nat option \<Rightarrow> 'o world \<Rightarrow> 'o world" where
  "retarget slot from to w = (
     if slot_to_tensor w slot \<noteq> Some from then w
     else case to of
       Some p \<Rightarrow> w\<lparr>slot_to_tensor := (slot_to_tensor w)(slot \<mapsto> p)\<rparr>
     | None \<Rightarrow> w\<lparr>slot_to_tensor := (slot_to_tensor w)(slot := None)\<rparr>)"

definition hook :: "int \<Rightarrow> nat \<Rightarrow> nat option \<Rightarrow> 'o world \<Rightarrow> 'o world" where
  "hook slot from to w = (if 0 \<le> slot \<and> retarget_hook w then retarget slot from to w else w)"

text \<open>An action on the live object at \<open>i\<close>; using a dead one is undefined.\<close>

definition with_obj :: "nat \<Rightarrow> (Tensor \<Rightarrow> ('o, 'a) act) \<Rightarrow> ('o, 'a) act" where
  "with_obj i f w = (case objs w i of None \<Rightarrow> (Inl (UB ''dead object''), w) | Some t \<Rightarrow> f t w)"

definition set_obj :: "nat \<Rightarrow> Tensor option \<Rightarrow> 'o world \<Rightarrow> 'o world" where
  "set_obj i t w = w\<lparr>objs := (objs w)(i := t)\<rparr>"

definition dtor :: "nat \<Rightarrow> ('o, unit) act" where
  "dtor i = with_obj i (\<lambda>t w. sbnd (release t) (\<lambda>_ w'. (Inr (), set_obj i None w')) (hook (jit_slot t) i None w))"

definition moved_from :: "Tensor \<Rightarrow> Tensor" where
  "moved_from o1 = o1\<lparr>data := Null, rows := 0, cols := 0, owns := False, cap_bytes := 0, jit_slot :=
     (if 0 \<le> jit_slot o1 then - 1 else jit_slot o1)\<rparr>"

definition move_ctor :: "nat \<Rightarrow> nat \<Rightarrow> ('o, unit) act" where
  "move_ctor this src = with_obj src (\<lambda>t w.
     (Inr (), hook (jit_slot t) src (Some this) (set_obj this (Some t) (set_obj src (Some (moved_from t)) w))))"

definition move_assign :: "nat \<Rightarrow> nat \<Rightarrow> ('o, unit) act" where
  "move_assign this src = (if this = src then ret () else
     with_obj this (\<lambda>t. with_obj src (\<lambda>s w.
       sbnd (release (t\<lparr>jit_slot := - 1\<rparr>)) (\<lambda>_ w'.
         (Inr (), hook (jit_slot s) src (Some this)
            (set_obj src (Some (moved_from s))
            (set_obj this (Some (s\<lparr>jit_slot := (if 0 \<le> jit_slot s then jit_slot s else - 1)\<rparr>)) w'))))
       (hook (jit_slot t) this None w))))"

text \<open>\<^verbatim>\<open>*this = o.clone()\<close>: the clone lives in the temporary \<open>tmp\<close> until the end of the statement.\<close>

definition assign_clone :: "nat \<Rightarrow> nat \<Rightarrow> nat \<Rightarrow> ('o, unit) act" where
  "assign_clone this src tmp = with_obj src (\<lambda>s.
     sbnd (lift (check_not_symbolic s ''copy'')) (\<lambda>_.
     sbnd (construct tmp (clone s)) (\<lambda>_.
     sbnd (move_assign this tmp) (\<lambda>_. dtor tmp))))"

definition copy_assign :: "nat \<Rightarrow> nat \<Rightarrow> nat \<Rightarrow> ('o, unit) act" where
  "copy_assign this src tmp = (if this = src then ret () else assign_clone this src tmp)"

text \<open>When the copy constructor throws, no object comes to life.\<close>

definition copy_ctor :: "nat \<Rightarrow> nat \<Rightarrow> nat \<Rightarrow> ('o, unit) act" where
  "copy_ctor this src tmp w = (case assign_clone this src tmp (set_obj this (Some empty_tensor) w) of
      (Inl e, w') \<Rightarrow> (Inl e, set_obj this None w')
    | (Inr _, w') \<Rightarrow> (Inr (), w'))"

definition resize_obj :: "nat \<Rightarrow> int \<Rightarrow> int \<Rightarrow> Dtype \<Rightarrow> ('o, unit) act" where
  "resize_obj i r c dt = with_obj i (\<lambda>t w. (case resize r c dt t w of ((res, t'), w') \<Rightarrow> (res, set_obj i (Some t') w')))"

section \<open>Host accessors\<close>

definition host_f32 :: "Tensor \<Rightarrow> ptr res" where
  "host_f32 t = bnd (check_host t ''host_f32'') (\<lambda>_. bnd (check_dtype t FP32 ''host_f32'') (\<lambda>_. Inr (data t)))"

definition host_fp16 :: "Tensor \<Rightarrow> ptr res" where
  "host_fp16 t = bnd (check_host t ''host_fp16'') (\<lambda>_. bnd (check_dtype t FP16 ''host_fp16'') (\<lambda>_. Inr (data t)))"

definition host_bf16 :: "Tensor \<Rightarrow> ptr res" where
  "host_bf16 t = bnd (check_host t ''host_bf16'') (\<lambda>_. bnd (check_dtype t BF16 ''host_bf16'') (\<lambda>_. Inr (data t)))"

definition host_raw :: "Tensor \<Rightarrow> ptr res" where
  "host_raw t = bnd (check_host t ''host_raw'') (\<lambda>_. Inr (data t))"

text \<open>\<open>p + k\<close> bytes; arithmetic on a null pointer is undefined.\<close>

definition ptr_add :: "ptr \<Rightarrow> nat \<Rightarrow> ptr res" where
  "ptr_add p k = (case p of Null \<Rightarrow> Inl (UB ''null pointer'') | Ptr b off \<Rightarrow> Inr (Ptr b (off + k)))"

text \<open>\<^verbatim>\<open>at(r, c)\<close>: the address of the element (the mutable overload) and its value.\<close>

definition at_addr :: "Tensor \<Rightarrow> int \<Rightarrow> int \<Rightarrow> ptr res" where
  "at_addr t r c = bnd (check_host t ''at'') (\<lambda>_. bnd (check_dtype t FP32 ''at'') (\<lambda>_.
     guard (r < 0 \<or> rows t \<le> r \<or> c < 0 \<or> cols t \<le> c) ''brotensor: at: index out of range'' (
     ptr_add (data t) (4 * size_wrap (nat (r * cols t + c))))))"

definition at :: "Tensor \<Rightarrow> int \<Rightarrow> int \<Rightarrow> mem \<Rightarrow> byte list res" where
  "at t r c m = bnd (at_addr t r c) (\<lambda>p. load p 4 m)"

definition at_set :: "Tensor \<Rightarrow> int \<Rightarrow> int \<Rightarrow> byte list \<Rightarrow> mem \<Rightarrow> mem res" where
  "at_set t r c v m = bnd (at_addr t r c) (\<lambda>p. store p v m)"

section \<open>Host round trips\<close>

definition download :: "Device \<Rightarrow> ptr \<Rightarrow> ptr \<Rightarrow> nat \<Rightarrow> ('o, unit) act" where
  "download d dst src n = (if is_cpu d then heap_act (memcpy dst src n)
     else backend_act d (\<lambda>V. memcpy_d2h V dst src n (index d)))"

text \<open>
  The three \<^verbatim>\<open>to_host_vector\<close> functions: a \<^verbatim>\<open>std::vector\<close> of \<open>rows * cols\<close> zeroed elements, filled
  by the download, returned by value as its bytes.
\<close>

definition to_host_vector_as :: "Dtype \<Rightarrow> string \<Rightarrow> Tensor \<Rightarrow> ('o, byte list) act" where
  "to_host_vector_as dt msg t = sbnd (lift (guard (dtype t \<noteq> dt) msg (Inr ()))) (\<lambda>_ w.
     let k = size_wrap (nat (rows t mod 18446744073709551616) * nat (cols t mod 18446744073709551616))
               * dtype_size_bytes dt in
     if int64_max < int k then (Inl (Throw ''vector''), w)
     else case malloc k (heap w) of
       Inl e \<Rightarrow> (Inl e, w)
     | Inr (p, m) \<Rightarrow>
        (case sbnd (heap_act (if k = 0 then Inr else memset0 p k)) (\<lambda>_.
              sbnd (lift (bytes t)) (\<lambda>n. if n = 0 then ret () else download (device t) p (data t) n)) (w\<lparr>heap := m\<rparr>) of
           (Inl e, w') \<Rightarrow> (Inl e, snd (heap_act (mfree p) w'))
         | (Inr _, w') \<Rightarrow> (case load p k (heap w') of
              Inl e \<Rightarrow> (Inl e, w')
            | Inr bs \<Rightarrow> (Inr bs, snd (heap_act (mfree p) w')))))"

definition to_host_vector :: "Tensor \<Rightarrow> ('o, byte list) act" where
  "to_host_vector = to_host_vector_as FP32 ''brotensor: to_host_vector: dtype not FP32''"

definition to_host_vector_fp16 :: "Tensor \<Rightarrow> ('o, byte list) act" where
  "to_host_vector_fp16 = to_host_vector_as FP16 ''brotensor: to_host_vector_fp16: dtype not FP16''"

definition to_host_vector_bf16 :: "Tensor \<Rightarrow> ('o, byte list) act" where
  "to_host_vector_bf16 = to_host_vector_as BF16 ''brotensor: to_host_vector_bf16: dtype not BF16''"

definition copy_to_host_as :: "Dtype \<Rightarrow> string \<Rightarrow> Tensor \<Rightarrow> ptr \<Rightarrow> ('o, unit) act" where
  "copy_to_host_as dt msg t dst = sbnd (lift (guard (dtype t \<noteq> dt) msg (Inr ()))) (\<lambda>_.
     sbnd (lift (bytes t)) (\<lambda>n. if n = 0 then ret () else download (device t) dst (data t) n))"

definition copy_to_host :: "Tensor \<Rightarrow> ptr \<Rightarrow> ('o, unit) act" where
  "copy_to_host = copy_to_host_as FP32 ''brotensor: copy_to_host: dtype not FP32''"

definition copy_to_host_fp16 :: "Tensor \<Rightarrow> ptr \<Rightarrow> ('o, unit) act" where
  "copy_to_host_fp16 = copy_to_host_as FP16 ''brotensor: copy_to_host_fp16: dtype not FP16''"

definition copy_to_host_bf16 :: "Tensor \<Rightarrow> ptr \<Rightarrow> ('o, unit) act" where
  "copy_to_host_bf16 = copy_to_host_as BF16 ''brotensor: copy_to_host_bf16: dtype not BF16''"

definition copy_from_host_raw :: "Tensor \<Rightarrow> ptr \<Rightarrow> nat \<Rightarrow> ('o, unit) act" where
  "copy_from_host_raw t src nbytes = sbnd (lift (bytes t)) (\<lambda>n.
     if n < nbytes then lift (Inl (Throw ''brotensor: copy_from_host_raw: nbytes exceeds the tensor's size''))
     else if nbytes = 0 then ret ()
     else if is_cpu (device t) then heap_act (memcpy (data t) src nbytes)
     else backend_act (device t) (\<lambda>V. memcpy_h2d V (data t) src nbytes (index (device t))))"

definition copy_to_host_raw :: "Tensor \<Rightarrow> ptr \<Rightarrow> nat \<Rightarrow> ('o, unit) act" where
  "copy_to_host_raw t dst nbytes = sbnd (lift (bytes t)) (\<lambda>n.
     if n < nbytes then lift (Inl (Throw ''brotensor: copy_to_host_raw: nbytes exceeds the tensor's size''))
     else if nbytes = 0 then ret () else download (device t) dst (data t) nbytes)"

definition alloc_stats :: "'o world \<Rightarrow> nat \<times> nat" where
  "alloc_stats w = (g_alloc_count w, g_alloc_bytes w)"

end
