(* ===== verification/TensorInv.thy ===== *)
theory TensorInv
  imports Tensors
begin

text \<open>
  Memory safety and ownership of \<^verbatim>\<open>brotensor::Tensor\<close>: the invariant every operation of theory
  \<open>Tensors\<close> keeps, and the properties that rest on it. A live block is owned either by the
  caller (the set \<open>E\<close>) or by exactly one Tensor object, whose capacity is the block's size.
\<close>

section \<open>Specifications of actions\<close>

text \<open>
  \<open>spec m w Q R\<close>: run in \<open>w\<close>, the action \<open>m\<close> returns a result and a world with \<open>Q\<close>, or
  throws and leaves a world with \<open>R\<close>; it never runs into undefined behaviour.
\<close>

definition spec :: "('o, 'a) act \<Rightarrow> 'o world \<Rightarrow> ('a \<Rightarrow> 'o world \<Rightarrow> bool) \<Rightarrow> ('o world \<Rightarrow> bool) \<Rightarrow> bool" where
  "spec m w Q R \<longleftrightarrow> (case m w of (Inr x, w') \<Rightarrow> Q x w' | (Inl (Throw e), w') \<Rightarrow> R w' | (Inl (UB e), w') \<Rightarrow> False)"

lemma spec_ret [simp]: "spec (ret x) w Q R \<longleftrightarrow> Q x w"
  by (simp add: spec_def ret_def)

lemma spec_reading [simp]: "spec (reading f) w Q R \<longleftrightarrow> spec (f w) w Q R"
  by (simp add: spec_def reading_def)

lemma spec_lift: "safe r \<Longrightarrow> (\<And>x. r = Inr x \<Longrightarrow> Q x w) \<Longrightarrow> R w \<Longrightarrow> spec (lift r) w Q R"
  by (auto simp: spec_def lift_def safe_def split: sum.splits err.splits)

lemma spec_sbnd: "spec m w (\<lambda>x w'. spec (f x) w' Q R) R \<Longrightarrow> spec (sbnd m f) w Q R"
  by (auto simp: spec_def sbnd_def split: prod.splits sum.splits err.splits)

lemma spec_mono:
  "spec m w Q R \<Longrightarrow> (\<And>x w'. Q x w' \<Longrightarrow> Q' x w') \<Longrightarrow> (\<And>w'. R w' \<Longrightarrow> R' w') \<Longrightarrow> spec m w Q' R'"
  by (auto simp: spec_def split: prod.splits sum.splits err.splits)

lemma spec_seq:
  "spec m w Q0 R0 \<Longrightarrow> (\<And>x w'. Q0 x w' \<Longrightarrow> spec (f x) w' Q R) \<Longrightarrow> (\<And>w'. R0 w' \<Longrightarrow> R w')
     \<Longrightarrow> spec (sbnd m f) w Q R"
  by (rule spec_sbnd) (erule spec_mono, auto)

lemma spec_lift_seq:
  "safe r \<Longrightarrow> (\<And>x. r = Inr x \<Longrightarrow> spec (f x) w Q R) \<Longrightarrow> R w \<Longrightarrow> spec (sbnd (lift r) f) w Q R"
  by (intro spec_sbnd spec_lift)

lemma spec_result: "spec m w Q R \<Longrightarrow> m w = (Inr x, w') \<Longrightarrow> Q x w'"
  by (simp add: spec_def)

lemma spec_throws: "spec m w Q R \<Longrightarrow> m w = (Inl e, w') \<Longrightarrow> R w' \<and> (\<exists>s. e = Throw s)"
  by (cases e) (simp_all add: spec_def)

lemma spec_safe: "spec m w Q R \<Longrightarrow> safe (fst (m w))"
  by (auto simp: spec_def safe_def split: prod.splits sum.splits err.splits)

lemma safe_checks [simp]:
  "safe (check_dims r c who)" "safe (check_quant_cols dt c who)" "safe (check_host t who)"
  "safe (check_dtype t dt who)" "safe (check_not_symbolic t who)" "safe (dtype_storage_bytes dt n)"
  by (simp_all add: check_dims_def check_quant_cols_def check_host_def check_dtype_def
      check_not_symbolic_def dtype_storage_bytes_def guard_def Let_def)

lemma safe_bytes [simp]: "safe (bytes t)" "safe (row_bytes t)"
  by (simp_all add: bytes_def row_bytes_def safe_bnd)

lemma check_eq_Inr [simp]:
  "check_dims r c who = Inr u \<longleftrightarrow> 0 \<le> r \<and> 0 \<le> c"
  "check_not_symbolic t who = Inr u \<longleftrightarrow> jit_slot t < 0"
  "check_host t who = Inr u \<longleftrightarrow> device t = cpu"
  "check_dtype t dt who = Inr u \<longleftrightarrow> dtype t = dt"
  "check_quant_cols dt c who = Inr u \<longleftrightarrow> (dtype_is_quant dt \<and> 0 < c \<longrightarrow> c mod int (dtype_block_size dt) = 0)"
  by (auto simp: check_dims_def check_not_symbolic_def check_host_def check_dtype_def check_quant_cols_def)

section \<open>Ownership\<close>

definition backends_ok :: "'o runtime \<Rightarrow> bool" where
  "backends_ok s \<longleftrightarrow> (\<forall>t ops V. slots s t = Some (ops, V) \<longrightarrow> alloc_backend V)"

definition tset :: "Tensor \<Rightarrow> nat set" where
  "tset t = (case data t of Ptr b off \<Rightarrow> if owns t then {b} else {} | Null \<Rightarrow> {})"

definition tensor_ok :: "'o runtime \<Rightarrow> mem \<Rightarrow> Tensor \<Rightarrow> bool" where
  "tensor_ok s m t \<longleftrightarrow> 0 \<le> rows t \<and> 0 \<le> cols t \<and> is_int32 (rows t) \<and> is_int32 (cols t)
     \<and> (0 \<le> jit_slot t \<longrightarrow> data t = Null)
     \<and> (if owns t then
          registered s (devtype (device t))
          \<and> (\<exists>b bs n. data t = Ptr b 0 \<and> blocks m b = Some bs \<and> length bs = cap_bytes t
               \<and> 0 < cap_bytes t \<and> bytes t = Inr n \<and> n \<le> cap_bytes t)
        else cap_bytes t = 0)"

definition world_inv :: "nat set \<Rightarrow> 'o world \<Rightarrow> bool" where
  "world_inv E w \<longleftrightarrow> mem_inv (heap w) \<and> backends_ok (rt w)
     \<and> (\<forall>i t. objs w i = Some t \<longrightarrow> tensor_ok (rt w) (heap w) t \<and> tset t \<inter> E = {})
     \<and> dom (blocks (heap w)) = E \<union> (\<Union>t\<in>ran (objs w). tset t)
     \<and> (\<forall>i j t u. objs w i = Some t \<longrightarrow> objs w j = Some u \<longrightarrow> i \<noteq> j \<longrightarrow> tset t \<inter> tset u = {})"

text \<open>What an operation on one tensor leaves alone.\<close>

definition keeps :: "'o world \<Rightarrow> 'o world \<Rightarrow> bool" where
  "keeps w w' \<longleftrightarrow> rt w' = rt w \<and> objs w' = objs w \<and> slot_to_tensor w' = slot_to_tensor w
     \<and> retarget_hook w' = retarget_hook w"

lemma keeps_refl [simp]: "keeps w w"
  by (simp add: keeps_def)

lemma keeps_trans: "keeps w w' \<Longrightarrow> keeps w' w'' \<Longrightarrow> keeps w w''"
  by (simp add: keeps_def)

lemma keeps_update [simp]:
  "keeps w (w\<lparr>heap := m\<rparr>)" "keeps w (w\<lparr>g_alloc_count := a, g_alloc_bytes := b\<rparr>)"
  "keeps w (w\<lparr>heap := m, g_alloc_count := a, g_alloc_bytes := b\<rparr>)"
  by (simp_all add: keeps_def)

definition extends :: "mem \<Rightarrow> mem \<Rightarrow> bool" where
  "extends m m' \<longleftrightarrow> (\<forall>b. blocks m b \<noteq> None \<longrightarrow> blocks m' b = blocks m b)"

lemma extends_refl [simp]: "extends m m"
  by (simp add: extends_def)

lemma extends_trans: "extends m m' \<Longrightarrow> extends m' m'' \<Longrightarrow> extends m m''"
  by (auto simp: extends_def)

lemma extends_load: "extends m m' \<Longrightarrow> load p n m = Inr bs \<Longrightarrow> load p n m' = Inr bs"
  by (force simp: extends_def load_def split: ptr.splits option.splits if_splits)

lemma tset_Null [simp]: "data t = Null \<Longrightarrow> tset t = {}"
  by (simp add: tset_def)

lemma tset_not_owned [simp]: "\<not> owns t \<Longrightarrow> tset t = {}"
  by (simp add: tset_def split: ptr.splits)

lemma tset_owned [simp]: "data t = Ptr b off \<Longrightarrow> owns t \<Longrightarrow> tset t = {b}"
  by (simp add: tset_def)

lemma tset_updates [simp]:
  "tset (t\<lparr>rows := r\<rparr>) = tset t" "tset (t\<lparr>cols := c\<rparr>) = tset t" "tset (t\<lparr>dtype := d\<rparr>) = tset t"
  "tset (t\<lparr>jit_slot := j\<rparr>) = tset t" "tset (t\<lparr>device := dv\<rparr>) = tset t" "tset (t\<lparr>cap_bytes := n\<rparr>) = tset t"
  by (simp_all add: tset_def split: ptr.split)

text \<open>Only the sizes of the blocks matter to the invariant.\<close>

definition same_shape :: "mem \<Rightarrow> mem \<Rightarrow> bool" where
  "same_shape m m' \<longleftrightarrow> (\<forall>b. map_option length (blocks m' b) = map_option length (blocks m b))
     \<and> (mem_inv m \<longrightarrow> mem_inv m')"

lemma tensor_ok_blocks:
  "tensor_ok s m t \<Longrightarrow> (\<And>b. b \<in> tset t \<Longrightarrow> map_option length (blocks m' b) = map_option length (blocks m b))
     \<Longrightarrow> tensor_ok s m' t"
  unfolding tensor_ok_def tset_def by (fastforce split: if_splits)

lemma same_shape_dom: "same_shape m m' \<Longrightarrow> dom (blocks m') = dom (blocks m)"
  unfolding same_shape_def dom_def by (metis option.map_disc_iff)

lemma inv_same_shape: "world_inv E w \<Longrightarrow> same_shape (heap w) m' \<Longrightarrow> world_inv E (w\<lparr>heap := m'\<rparr>)"
  using tensor_ok_blocks same_shape_dom [of "heap w" m']
  unfolding world_inv_def same_shape_def by (simp, metis)

lemma inv_counters [simp]: "world_inv E (w\<lparr>g_alloc_count := a, g_alloc_bytes := b\<rparr>) = world_inv E w"
  by (simp add: world_inv_def)

lemma tensor_ok_tset:
  "tensor_ok s m t \<Longrightarrow> owns t \<Longrightarrow> \<exists>b bs. data t = Ptr b 0 \<and> tset t = {b} \<and> blocks m b = Some bs"
  by (auto simp: tensor_ok_def tset_def)

subsection \<open>Taking an object's tensor out and putting one in\<close>

lemma invD:
  assumes "world_inv E w"
  shows "mem_inv (heap w)" "backends_ok (rt w)"
    and "\<And>i t. objs w i = Some t \<Longrightarrow> tensor_ok (rt w) (heap w) t"
    and "\<And>i t. objs w i = Some t \<Longrightarrow> tset t \<inter> E = {}"
    and "dom (blocks (heap w)) = E \<union> (\<Union>t\<in>ran (objs w). tset t)"
    and "\<And>i j t u. objs w i = Some t \<Longrightarrow> objs w j = Some u \<Longrightarrow> i \<noteq> j \<Longrightarrow> tset t \<inter> tset u = {}"
  using assms by (auto simp: world_inv_def)

lemma invI:
  assumes "mem_inv (heap w)" "backends_ok (rt w)"
    and "\<And>i t. objs w i = Some t \<Longrightarrow> tensor_ok (rt w) (heap w) t"
    and "\<And>i t. objs w i = Some t \<Longrightarrow> tset t \<inter> E = {}"
    and "dom (blocks (heap w)) = E \<union> (\<Union>t\<in>ran (objs w). tset t)"
    and "\<And>i j t u. objs w i = Some t \<Longrightarrow> objs w j = Some u \<Longrightarrow> i \<noteq> j \<Longrightarrow> tset t \<inter> tset u = {}"
  shows "world_inv E w"
  using assms unfolding world_inv_def by metis

lemma set_obj_simps [simp]:
  "objs (set_obj i x w) = (objs w)(i := x)" "heap (set_obj i x w) = heap w" "rt (set_obj i x w) = rt w"
  "slot_to_tensor (set_obj i x w) = slot_to_tensor w" "retarget_hook (set_obj i x w) = retarget_hook w"
  by (simp_all add: set_obj_def)

lemma inv_take:
  assumes i: "world_inv E w" and t: "objs w i = Some t"
  shows "world_inv (tset t \<union> E) (set_obj i None w)" "tset t \<inter> E = {}" "tensor_ok (rt w) (heap w) t"
proof -
  have "ran (objs w) = insert t (ran ((objs w)(i := None)))"
    using t ran_map_upd [of "(objs w)(i := None)" i t] fun_upd_triv [of "objs w" i] by simp
  then have d: "dom (blocks (heap w)) = (tset t \<union> E) \<union> (\<Union>u\<in>ran ((objs w)(i := None)). tset u)"
    using invD(5) [OF i] by auto
  have "tset u \<inter> (tset t \<union> E) = {}" if "((objs w)(i := None)) j = Some u" for j u
  proof -
    from that have j: "objs w j = Some u" "j \<noteq> i" by (auto split: if_splits)
    show ?thesis using invD(4) [OF i j(1)] invD(6) [OF i j(1) t j(2)] by (simp add: Int_Un_distrib)
  qed
  then show "world_inv (tset t \<union> E) (set_obj i None w)"
    using d invD(1,2,3,6) [OF i] by (intro invI) (auto split: if_splits)
  show "tset t \<inter> E = {}" "tensor_ok (rt w) (heap w) t" using invD(3,4) [OF i t] by auto
qed

lemma inv_put:
  assumes i: "world_inv (tset t \<union> E) w" and n: "objs w i = None"
    and e: "tset t \<inter> E = {}" and k: "tensor_ok (rt w) (heap w) t"
  shows "world_inv E (set_obj i (Some t) w)"
proof (rule invI, simp_all)
  have "ran ((objs w)(i \<mapsto> t)) = insert t (ran (objs w))" using n by (rule ran_map_upd)
  then show "dom (blocks (heap w)) = E \<union> (\<Union>u\<in>ran ((objs w)(i \<mapsto> t)). tset u)"
    using invD(5) [OF i] by auto
  have d: "tset u \<inter> tset t = {}" "tset u \<inter> E = {}" if "objs w j = Some u" for j u
    using invD(4) [OF i that] by auto
  show "tset u \<inter> E = {}" if "(if j = i then Some t else objs w j) = Some u" for j u
    using that e d by (auto split: if_splits)
  show "tset u \<inter> tset v = {}"
    if "(if j = i then Some t else objs w j) = Some u" "(if l = i then Some t else objs w l) = Some v" "j \<noteq> l" for j l u v
    using that d invD(6) [OF i] by (auto split: if_splits)
qed (use invD(1,2,3) [OF i] k in \<open>auto split: if_splits\<close>)

section \<open>Storage operations\<close>

lemma registered_resolve:
  "registered s (devtype d) \<Longrightarrow> resolve_device_alias s d = d"
  by (cases d) (auto simp: resolve_device_alias_def device_test_defs)

lemma alloc_for_backend_of:
  "backends_ok s \<Longrightarrow> registered s (devtype d) \<Longrightarrow> \<exists>V. alloc_for s d = Inr V \<and> alloc_backend V"
  by (auto simp: alloc_for_def registered_resolve registered_def backends_ok_def)

lemma alloc_for_backend: "backends_ok s \<Longrightarrow> alloc_for s d = Inr V \<Longrightarrow> alloc_backend V"
  by (auto simp: alloc_for_def backends_ok_def split: option.splits)

lemma safe_alloc_for [simp]: "safe (alloc_for s d)"
  by (simp add: alloc_for_def split: option.splits)

lemma alloc_for_resolved_registered:
  "alloc_for s d = Inr V \<Longrightarrow> registered s (devtype (resolve_device_alias s d))"
  by (auto simp: alloc_for_def registered_def split: option.splits)

lemma inv_new_block:
  assumes "world_inv E w" "blocks (heap w) b = None" "blocks m' = (blocks (heap w))(b \<mapsto> bs)" "mem_inv m'"
  shows "world_inv (insert b E) (w\<lparr>heap := m'\<rparr>)"
proof -
  have nb: "b \<notin> tset t" if "objs w i = Some t" for i t
    using invD(5) [OF assms(1)] assms(2) ranI [where m = "objs w", OF that] by (auto simp: domIff)
  have d: "tset t \<inter> insert b E = {}" if "objs w i = Some t" for i t
    using nb [OF that] invD(4) [OF assms(1) that] by auto
  have k: "tensor_ok (rt w) m' t" if "objs w i = Some t" for i t
    by (rule tensor_ok_blocks [OF invD(3) [OF assms(1) that]]) (use nb [OF that] assms(3) in auto)
  have m: "dom (blocks m') = insert b E \<union> (\<Union>t\<in>ran (objs w). tset t)"
    using invD(5) [OF assms(1)] assms(3) by auto
  show ?thesis using invD(2,6) [OF assms(1)] assms(4) k d m by (simp add: world_inv_def)
qed

lemma inv_drop_block:
  assumes "world_inv (insert b E) w" "b \<notin> E" "blocks m' = (blocks (heap w))(b := None)" "mem_inv m'"
  shows "world_inv E (w\<lparr>heap := m'\<rparr>)"
proof (rule invI, simp_all)
  have nb: "b \<notin> tset t" "tset t \<inter> E = {}" if "objs w i = Some t" for i t
    using invD(4) [OF assms(1) that] by auto
  show "tset t \<inter> E = {}" if "objs w i = Some t" for i t using nb(2) [OF that] .
  show "tensor_ok (rt w) m' t" if "objs w i = Some t" for i t
    by (rule tensor_ok_blocks [OF invD(3) [OF assms(1) that]]) (use nb(1) [OF that] assms(3) in auto)
  have "b \<notin> (\<Union>t\<in>ran (objs w). tset t)" using nb(1) by (auto simp: ran_def)
  then show "dom (blocks m') = E \<union> (\<Union>t\<in>ran (objs w). tset t)"
    using invD(5) [OF assms(1)] assms(2,3) by auto
qed (use assms invD(2,6) [OF assms(1)] in auto)

lemma spec_backend_alloc:
  assumes "world_inv E w"
  shows "spec (backend_alloc d n) w
     (\<lambda>p w'. keeps w w' \<and> extends (heap w) (heap w') \<and>
        (if n = 0 then p = Null \<and> w' = w
         else \<exists>b bs. p = Ptr b 0 \<and> blocks (heap w) b = None \<and> blocks (heap w') b = Some bs \<and> length bs = n
           \<and> world_inv (insert b E) w' \<and> registered (rt w) (devtype (resolve_device_alias (rt w) d))))
     (\<lambda>w'. keeps w w' \<and> heap w' = heap w \<and> world_inv E w')"
proof (cases "n = 0")
  case False
  let ?w1 = "w\<lparr>g_alloc_count := size_wrap (g_alloc_count w + 1), g_alloc_bytes := size_wrap (g_alloc_bytes w + n)\<rparr>"
  show ?thesis
  proof (cases "alloc_for (rt w) d")
    case (Inl e)
    then show ?thesis using assms safe_alloc_for [of "rt w" d] False
      by (cases e) (auto simp: spec_def backend_alloc_def Let_def)
  next
    case (Inr V)
    then have V: "alloc_backend V" using alloc_for_backend invD(2) [OF assms] by blast
    have reg: "registered (rt w) (devtype (resolve_device_alias (rt w) d))"
      using Inr by (rule alloc_for_resolved_registered)
    show ?thesis
    proof (cases "alloc V n (index d) (heap w)")
      case (Inl e)
      then show ?thesis using assms alloc_backend.alloc_safe [OF V, of n "index d" "heap w"] False Inr
        by (cases e) (auto simp: spec_def backend_alloc_def Let_def)
    next
      case r: (Inr x)
      obtain p m' where x: "x = (p, m')" by force
      from alloc_backend.alloc_fresh [OF V _ invD(1) [OF assms] r [unfolded x]] False
      obtain b bs where b: "p = Ptr b 0" "blocks (heap w) b = None" "length bs = n"
        "blocks m' = (blocks (heap w))(b \<mapsto> bs)" "mem_inv m'" by auto
      have "world_inv (insert b E) (?w1\<lparr>heap := m'\<rparr>)"
        by (rule inv_new_block) (use assms b in simp_all)
      then show ?thesis using False Inr r b reg x
        by (auto simp: spec_def backend_alloc_def Let_def extends_def keeps_def)
    qed
  qed
qed (simp add: spec_def backend_alloc_def)

lemma spec_release:
  assumes i: "world_inv (tset t \<union> E) w" and e: "tset t \<inter> E = {}" and k: "tensor_ok (rt w) (heap w) t"
  shows "spec (release t) w
     (\<lambda>t' w'. t' = t\<lparr>data := Null, owns := False, cap_bytes := 0\<rparr> \<and> keeps w w' \<and> world_inv E w'
        \<and> (\<forall>b. b \<notin> tset t \<longrightarrow> blocks (heap w') b = blocks (heap w) b)
        \<and> g_alloc_count w' = g_alloc_count w \<and> g_alloc_bytes w' = g_alloc_bytes w) (\<lambda>_. False)"
proof (cases "owns t")
  case False
  then show ?thesis using i by (simp add: release_def spec_def sbnd_def ret_def)
next
  case True
  with k obtain b bs where b: "data t = Ptr b 0" "tset t = {b}" "blocks (heap w) b = Some bs"
    using tensor_ok_tset by blast
  from True k have reg: "registered (rt w) (devtype (device t))" by (simp add: tensor_ok_def)
  with alloc_for_backend_of [OF invD(2) [OF i]] obtain V
    where V: "alloc_for (rt w) (device t) = Inr V" "alloc_backend V" by blast
  from alloc_backend.free_live [OF V(2)] b(3) obtain m' where
    m: "free V (Ptr b 0) (index (device t)) (heap w) = Inr m'" "blocks m' = (blocks (heap w))(b := None)"
      "mem_inv (heap w) \<longrightarrow> mem_inv m'" by blast
  have "world_inv E (w\<lparr>heap := m'\<rparr>)"
    by (rule inv_drop_block [OF _ _ m(2)]) (use i e b(2) m(3) invD(1) [OF i] in auto)
  then show ?thesis using True b V m
    by (simp add: release_def backend_free_def backend_act_def heap_act_def spec_def sbnd_def ret_def)
qed

text \<open>A scope that throws after it created \<open>t\<close> leaves the caller's blocks alone and leaks nothing.\<close>

lemma spec_owning:
  assumes "spec m w Q (\<lambda>w'. world_inv (tset t \<union> E) w' \<and> tensor_ok (rt w') (heap w') t \<and> P w')"
    and "tset t \<inter> E = {}"
    and "\<And>w1 w2. P w1 \<Longrightarrow> keeps w1 w2 \<Longrightarrow> world_inv E w2 \<Longrightarrow>
      (\<forall>b. b \<notin> tset t \<longrightarrow> blocks (heap w2) b = blocks (heap w1) b) \<Longrightarrow> R w2"
  shows "spec (owning t m) w Q R"
proof (cases "m w")
  case (Pair r w')
  show ?thesis
  proof (cases r)
    case (Inr x)
    then show ?thesis using assms(1) Pair by (simp add: spec_def owning_def)
  next
    case (Inl e)
    with assms(1) Pair obtain s where s: "e = Throw s" "world_inv (tset t \<union> E) w'" "tensor_ok (rt w') (heap w') t" "P w'"
      by (cases e) (auto simp: spec_def)
    from spec_release [OF s(2) assms(2) s(3)] have "R (snd (release t w'))"
      using assms(3) [OF s(4)] by (auto simp: spec_def split: prod.splits sum.splits err.splits)
    then show ?thesis using Inl Pair s(1) by (simp add: spec_def owning_def)
  qed
qed

section \<open>Factories\<close>

text \<open>
  \<open>fresh_tensor E w t w'\<close>: between \<open>w\<close> and \<open>w'\<close> the tensor value \<open>t\<close> came to life, in storage of
  its own, and nothing else changed. \<open>failed E w w'\<close>: nothing changed but counters.
\<close>

definition fresh_tensor :: "nat set \<Rightarrow> 'o world \<Rightarrow> Tensor \<Rightarrow> 'o world \<Rightarrow> bool" where
  "fresh_tensor E w t w' \<longleftrightarrow> keeps w w' \<and> extends (heap w) (heap w') \<and> world_inv (tset t \<union> E) w'
     \<and> tset t \<inter> dom (blocks (heap w)) = {} \<and> tensor_ok (rt w') (heap w') t"

definition failed :: "nat set \<Rightarrow> 'o world \<Rightarrow> 'o world \<Rightarrow> bool" where
  "failed E w w' \<longleftrightarrow> keeps w w' \<and> world_inv E w' \<and> blocks (heap w') = blocks (heap w)"

lemma fresh_tensor_disjoint: "fresh_tensor E w t w' \<Longrightarrow> world_inv E w \<Longrightarrow> tset t \<inter> E = {}"
  using invD(5) by (fastforce simp: fresh_tensor_def)

lemma empty_tensor_simps [simp]:
  "data empty_tensor = Null" "rows empty_tensor = 0" "cols empty_tensor = 0" "device empty_tensor = cpu"
  "jit_slot empty_tensor = - 1" "\<not> owns empty_tensor" "cap_bytes empty_tensor = 0" "dtype empty_tensor = FP32"
  by (simp_all add: empty_tensor_def)

lemma bytes_cong:
  "rows t = rows u \<Longrightarrow> cols t = cols u \<Longrightarrow> dtype t = dtype u \<Longrightarrow> bytes t = bytes u"
  by (simp add: bytes_def)

lemma bytes_updates [simp]:
  "bytes (t\<lparr>data := p\<rparr>) = bytes t" "bytes (t\<lparr>owns := ow\<rparr>) = bytes t" "bytes (t\<lparr>cap_bytes := n\<rparr>) = bytes t"
  "bytes (t\<lparr>jit_slot := j\<rparr>) = bytes t" "bytes (t\<lparr>device := d\<rparr>) = bytes t"
  by (simp_all add: bytes_def)

lemma failed_blocks:
  assumes "world_inv E w" "keeps w w'" "world_inv E w'" "extends (heap w) m" "tset t \<inter> dom (blocks (heap w)) = {}"
    and "\<forall>b. b \<notin> tset t \<longrightarrow> blocks (heap w') b = blocks m b"
  shows "failed E w w'"
proof -
  have d: "dom (blocks (heap w')) = dom (blocks (heap w))"
    using invD(5) [OF assms(1)] invD(5) [OF assms(3)] assms(2) by (simp add: keeps_def)
  have "blocks (heap w') b = blocks (heap w) b" for b
  proof (cases "b \<in> dom (blocks (heap w))")
    case True
    then show ?thesis using assms(4-6) unfolding extends_def by (metis domIff disjoint_iff)
  next
    case False
    then show ?thesis using d by (metis domIff)
  qed
  then show ?thesis using assms(2,3) by (auto simp: failed_def)
qed

lemma spec_owning_fresh:
  assumes "world_inv E w" "spec m w1 Q (fresh_tensor E w t)" "tset t \<inter> E = {}"
  shows "spec (owning t m) w1 Q (failed E w)"
proof (rule spec_owning [OF _ assms(3), where P = "fresh_tensor E w t"])
  show "spec m w1 Q (\<lambda>w'. world_inv (tset t \<union> E) w' \<and> tensor_ok (rt w') (heap w') t \<and> fresh_tensor E w t w')"
    by (rule spec_mono [OF assms(2)]) (auto simp: fresh_tensor_def)
  fix w1 w2
  assume f: "fresh_tensor E w t w1" and k: "keeps w1 w2" and i: "world_inv E w2"
    and b: "\<forall>b. b \<notin> tset t \<longrightarrow> blocks (heap w2) b = blocks (heap w1) b"
  show "failed E w w2"
    by (rule failed_blocks [OF assms(1) _ i _ _ b]) (use f k keeps_trans in \<open>auto simp: fresh_tensor_def\<close>)
qed

text \<open>What the factories promise of the tensor they return.\<close>

definition made :: "nat set \<Rightarrow> 'o world \<Rightarrow> Device \<Rightarrow> int \<Rightarrow> int \<Rightarrow> Dtype \<Rightarrow> Tensor \<Rightarrow> 'o world \<Rightarrow> bool" where
  "made E w d r c dt t w' \<longleftrightarrow> fresh_tensor E w t w' \<and> rows t = r \<and> cols t = c \<and> dtype t = dt
     \<and> device t = resolve_device_alias (rt w) d \<and> jit_slot t = - 1
     \<and> (\<exists>n. bytes t = Inr n \<and> (if n = 0 then data t = Null else
          owns t \<and> cap_bytes t = n \<and> (\<exists>b. data t = Ptr b 0)))"

lemma spec_empty_on:
  assumes "world_inv E w" "is_int32 r" "is_int32 c"
  shows "spec (empty_on d r c dt) w (made E w d r c dt) (failed E w)"
  unfolding empty_on_def
proof (rule spec_lift_seq, simp, rule spec_lift_seq, simp, unfold Let_def spec_reading, rule spec_lift_seq, simp)
  fix n u v
  let ?t = "empty_tensor\<lparr>device := resolve_device_alias (rt w) d, dtype := dt, rows := r, cols := c\<rparr>"
  let ?u = "\<lambda>p. ?t\<lparr>data := p, owns := p \<noteq> Null, cap_bytes := if p \<noteq> Null then n else 0\<rparr>"
  assume "check_dims r c ''empty_on'' = Inr u" and n: "bytes ?t = Inr n"
  then have rc: "0 \<le> r" "0 \<le> c" by simp_all
  show "spec (sbnd (backend_alloc (resolve_device_alias (rt w) d) n) (\<lambda>p. ret (?u p))) w
          (made E w d r c dt) (failed E w)"
  proof (rule spec_seq [OF spec_backend_alloc [OF assms(1)]], unfold spec_ret)
    fix p w'
    assume p: "keeps w w' \<and> extends (heap w) (heap w') \<and> (if n = 0 then p = Null \<and> w' = w
         else \<exists>b bs. p = Ptr b 0 \<and> blocks (heap w) b = None \<and> blocks (heap w') b = Some bs \<and> length bs = n
           \<and> world_inv (insert b E) w' \<and> registered (rt w) (devtype (resolve_device_alias (rt w) (resolve_device_alias (rt w) d))))"
    show "made E w d r c dt (?u p) w'"
    proof (cases "n = 0")
      case True
      then show ?thesis using p rc assms n
        by (auto simp: made_def fresh_tensor_def tensor_ok_def)
    next
      case False
      with p obtain b bs where b: "p = Ptr b 0" "blocks (heap w) b = None" "blocks (heap w') b = Some bs" "length bs = n"
        "world_inv (insert b E) w'" "registered (rt w) (devtype (resolve_device_alias (rt w) d))"
        by auto
      have "tensor_ok (rt w') (heap w') (?u p)"
        using b rc assms(2,3) n False p by (simp add: tensor_ok_def keeps_def)
      then have "fresh_tensor E w (?u p) w'" using p b by (simp add: fresh_tensor_def domIff)
      then show ?thesis using b n False by (simp add: made_def)
    qed
  qed (auto simp: failed_def)
qed (use assms in \<open>auto simp: failed_def\<close>)

section \<open>Copies into fresh storage\<close>

lemma backend_act_cases:
  assumes "backends_ok (rt w)" "\<And>V m. alloc_backend V \<Longrightarrow> f V m = g m"
  shows "backend_act d f w = heap_act g w \<or> (\<exists>s. backend_act d f w = (Inl (Throw s), w))"
proof (cases "alloc_for (rt w) d")
  case (Inl e)
  then show ?thesis using safe_alloc_for [of "rt w" d] by (cases e) (auto simp: backend_act_def)
next
  case (Inr V)
  then have "f V m = g m" for m using assms alloc_for_backend by blast
  then show ?thesis using Inr by (simp add: backend_act_def heap_act_def)
qed

lemma spec_backend_act:
  assumes "backends_ok (rt w)" "\<And>V m. alloc_backend V \<Longrightarrow> f V m = g m" "spec (heap_act g) w Q R" "R w"
  shows "spec (backend_act d f) w Q R"
  using backend_act_cases [of w f g d] assms by (auto simp: spec_def)

lemma store_same_shape: "store p src m = Inr m' \<Longrightarrow> same_shape m m'"
  using store_blocks_length store_inv by (simp add: same_shape_def)

lemma fresh_store:
  assumes f: "fresh_tensor E w t w'" and o: "owns t" and s: "store (data t) xs (heap w') = Inr m'"
  shows "fresh_tensor E w t (w'\<lparr>heap := m'\<rparr>)"
proof -
  from f have "tensor_ok (rt w') (heap w') t" by (simp add: fresh_tensor_def)
  from tensor_ok_tset [OF this o] obtain b where b: "data t = Ptr b 0" "tset t = {b}" by blast
  have "extends (heap w) m'"
    using store_frame [OF s [unfolded b(1)]] f b(2) unfolding fresh_tensor_def extends_def
    by (metis domIff disjoint_iff singletonI)
  moreover have "tensor_ok (rt w') m' t"
    using tensor_ok_blocks [of "rt w'" "heap w'" t m'] f store_blocks_length [OF s] by (simp add: fresh_tensor_def)
  ultimately show ?thesis using f inv_same_shape [OF _ store_same_shape [OF s]] keeps_trans [of w w']
    by (simp add: fresh_tensor_def)
qed

lemma fresh_valid:
  "fresh_tensor E w t w' \<Longrightarrow> owns t \<Longrightarrow> n \<le> cap_bytes t \<Longrightarrow> valid (heap w') (data t) n"
  by (auto simp: fresh_tensor_def tensor_ok_def valid_def)

lemma spec_copy_fresh:
  assumes f: "fresh_tensor E w t w'" and o: "owns t" "n \<le> cap_bytes t" and l: "load src n (heap w) = Inr bs"
  shows "spec (heap_act (memcpy (data t) src n)) w'
    (\<lambda>_ w2. fresh_tensor E w t w2 \<and> load (data t) n (heap w2) = Inr bs) (fresh_tensor E w t)"
proof -
  have l': "load src n (heap w') = Inr bs" using f l extends_load by (auto simp: fresh_tensor_def)
  then have n: "length bs = n" using load_eq_Inr by blast
  with fresh_valid [OF f o] obtain m' where s: "store (data t) bs (heap w') = Inr m'"
    using store_valid by blast
  then have "memcpy (data t) src n (heap w') = Inr m'" by (simp add: memcpy_def l')
  then show ?thesis using fresh_store [OF f o(1) s] load_store_same [OF s] n by (simp add: spec_def heap_act_def)
qed

lemma spec_zero_fresh:
  assumes f: "fresh_tensor E w t w'" and o: "owns t" "n \<le> cap_bytes t"
  shows "spec (heap_act (memset0 (data t) n)) w'
    (\<lambda>_ w2. fresh_tensor E w t w2 \<and> load (data t) n (heap w2) = Inr (replicate n (CHR 0x00))) (fresh_tensor E w t)"
proof -
  obtain m' where s: "store (data t) (replicate n (CHR 0x00)) (heap w') = Inr m'"
    using store_valid [of "heap w'" "data t" "replicate n (CHR 0x00)"] fresh_valid [OF f o] by auto
  then show ?thesis using fresh_store [OF f o(1) s] load_store_same [OF s] by (simp add: spec_def heap_act_def memset0_def)
qed

lemma spec_zeros_on:
  assumes i: "world_inv E w" and rc: "is_int32 r" "is_int32 c"
  shows "spec (zeros_on d r c dt) w
    (\<lambda>t w'. made E w d r c dt t w' \<and> (\<forall>n. bytes t = Inr n \<and> 0 < n \<longrightarrow> load (data t) n (heap w') = Inr (replicate n (CHR 0x00))))
    (failed E w)"
  unfolding zeros_on_def
proof (rule spec_seq [OF spec_empty_on [OF i rc]])
  fix t w1
  assume m: "made E w d r c dt t w1"
  then obtain n where n: "bytes t = Inr n" by (auto simp: made_def)
  from m have f: "fresh_tensor E w t w1" by (simp add: made_def)
  let ?Q = "\<lambda>t w'. made E w d r c dt t w' \<and> (\<forall>n. bytes t = Inr n \<and> 0 < n \<longrightarrow> load (data t) n (heap w') = Inr (replicate n (CHR 0x00)))"
  have "spec (sbnd (backend_zero d (data t) n) (\<lambda>_. ret t)) w1 ?Q (fresh_tensor E w t)"
  proof (cases "n = 0")
    case True
    then show ?thesis using m n by (simp add: backend_zero_def spec_def sbnd_def ret_def)
  next
    case False
    with m n have o: "owns t" "n \<le> cap_bytes t" "data t \<noteq> Null" by (auto simp: made_def)
    have "spec (backend_act d (\<lambda>V. memset_zero V (data t) n (index d))) w1
        (\<lambda>_ w2. fresh_tensor E w t w2 \<and> load (data t) n (heap w2) = Inr (replicate n (CHR 0x00))) (fresh_tensor E w t)"
      by (rule spec_backend_act [where g = "memset0 (data t) n"])
        (use f False o spec_zero_fresh [OF f] invD(2) alloc_backend.zero in \<open>auto simp: fresh_tensor_def\<close>)
    then show ?thesis unfolding backend_zero_def using False o(3) m n
      by (intro spec_sbnd) (auto simp: made_def elim!: spec_mono)
  qed
  then show "spec (owning t (sbnd (lift (bytes t)) (\<lambda>n. sbnd (backend_zero d (data t) n) (\<lambda>_. ret t)))) w1 ?Q (failed E w)"
    using n by (intro spec_owning_fresh [OF i _ fresh_tensor_disjoint [OF f i]] spec_lift_seq) (auto simp: f)
qed

text \<open>Every factory allocates, and then, unless there is nothing to copy, fills what it allocated.\<close>

lemma spec_make_fill:
  assumes i: "world_inv E w" and rc: "is_int32 r" "is_int32 c"
    and br: "\<And>t w1. made E w d r c dt t w1 \<Longrightarrow> br t = bytes t"
    and act: "\<And>t w1 n. made E w d r c dt t w1 \<Longrightarrow> bytes t = Inr n \<Longrightarrow> \<not> skip n \<Longrightarrow>
      spec (act t n) w1 (\<lambda>_ w2. fresh_tensor E w t w2 \<and> P t n w2) (fresh_tensor E w t)"
  shows "spec (sbnd (empty_on d r c dt) (\<lambda>t. owning t (sbnd (lift (br t)) (\<lambda>n.
           if skip n then ret t else sbnd (act t n) (\<lambda>_. ret t))))) w
    (\<lambda>t w'. made E w d r c dt t w' \<and> (\<forall>n. bytes t = Inr n \<and> \<not> skip n \<longrightarrow> P t n w')) (failed E w)"
proof (rule spec_seq [OF spec_empty_on [OF i rc]])
  fix t w1
  assume m: "made E w d r c dt t w1"
  then obtain n where n: "bytes t = Inr n" and f: "fresh_tensor E w t w1" by (auto simp: made_def)
  let ?Q = "\<lambda>t w'. made E w d r c dt t w' \<and> (\<forall>n. bytes t = Inr n \<and> \<not> skip n \<longrightarrow> P t n w')"
  have "spec (if skip n then ret t else sbnd (act t n) (\<lambda>_. ret t)) w1 ?Q (fresh_tensor E w t)"
  proof (cases "skip n")
    case True
    then show ?thesis using m n by simp
  next
    case False
    from act [OF m n False] show ?thesis using False m n
      by (simp, intro spec_sbnd) (auto simp: made_def elim!: spec_mono)
  qed
  then show "spec (owning t (sbnd (lift (br t)) (\<lambda>n. if skip n then ret t else sbnd (act t n) (\<lambda>_. ret t)))) w1 ?Q (failed E w)"
    using n br [OF m] by (intro spec_owning_fresh [OF i _ fresh_tensor_disjoint [OF f i]] spec_lift_seq) (auto simp: f)
qed (simp add: failed_def)

lemma made_storage:
  "made E w d r c dt t w1 \<Longrightarrow> bytes t = Inr n \<Longrightarrow> n \<noteq> 0 \<Longrightarrow>
     fresh_tensor E w t w1 \<and> owns t \<and> n \<le> cap_bytes t \<and> backends_ok (rt w1)"
  by (auto simp: made_def fresh_tensor_def world_inv_def)

lemma spec_upload:
  assumes m: "made E w d r c dt t w1" "bytes t = Inr n" "n \<noteq> 0" and l: "load src n (heap w) = Inr bs"
  shows "spec (upload d' (data t) src n) w1
    (\<lambda>_ w2. fresh_tensor E w t w2 \<and> load (data t) n (heap w2) = Inr bs) (fresh_tensor E w t)"
proof -
  from made_storage [OF m] have s: "fresh_tensor E w t w1" "owns t" "n \<le> cap_bytes t" "backends_ok (rt w1)" by auto
  have "spec (backend_act d' (\<lambda>V. memcpy_h2d V (data t) src n (index d'))) w1
    (\<lambda>_ w2. fresh_tensor E w t w2 \<and> load (data t) n (heap w2) = Inr bs) (fresh_tensor E w t)"
    by (rule spec_backend_act [OF s(4) _ spec_copy_fresh [OF s(1-3) l] s(1)]) (use m(3) alloc_backend.h2d in blast)
  then show ?thesis using spec_copy_fresh [OF s(1-3) l] by (simp add: upload_def)
qed

text \<open>\<^verbatim>\<open>to\<close> and \<^verbatim>\<open>clone\<close> read the source over its whole size.\<close>

definition readable :: "'o world \<Rightarrow> Tensor \<Rightarrow> bool" where
  "readable w t \<longleftrightarrow> (\<forall>n. data t \<noteq> Null \<and> bytes t = Inr n \<and> 0 < n \<longrightarrow> valid (heap w) (data t) n)"

definition same_contents :: "'o world \<Rightarrow> Tensor \<Rightarrow> 'o world \<Rightarrow> Tensor \<Rightarrow> bool" where
  "same_contents w s w' t \<longleftrightarrow> (\<forall>n. bytes s = Inr n \<and> 0 < n \<and> data s \<noteq> Null \<longrightarrow>
     load (data t) n (heap w') = load (data s) n (heap w) \<and> (\<exists>bs. load (data s) n (heap w) = Inr bs))"

lemma made_bytes: "made E w d (rows s) (cols s) (dtype s) t w' \<Longrightarrow> bytes t = bytes s"
  by (intro bytes_cong) (simp_all add: made_def)

lemma readable_load:
  "readable w s \<Longrightarrow> bytes s = Inr n \<Longrightarrow> n \<noteq> 0 \<Longrightarrow> data s \<noteq> Null \<Longrightarrow> \<exists>bs. load (data s) n (heap w) = Inr bs"
  using load_valid [of "heap w" "data s" n] by (auto simp: readable_def)

lemma spec_make_copy:
  assumes i: "world_inv E w" and rc: "is_int32 (rows s)" "is_int32 (cols s)" and r: "readable w s"
    and act: "\<And>t w1 n bs. made E w d (rows s) (cols s) (dtype s) t w1 \<Longrightarrow> bytes t = Inr n \<Longrightarrow> n \<noteq> 0 \<Longrightarrow>
      load (data s) n (heap w) = Inr bs \<Longrightarrow>
      spec (act t n) w1 (\<lambda>_ w2. fresh_tensor E w t w2 \<and> load (data t) n (heap w2) = Inr bs) (fresh_tensor E w t)"
  shows "spec (sbnd (empty_on d (rows s) (cols s) (dtype s)) (\<lambda>t. owning t (sbnd (lift (bytes s)) (\<lambda>n.
           if n = 0 \<or> data s = Null then ret t else sbnd (act t n) (\<lambda>_. ret t))))) w
    (\<lambda>t w'. made E w d (rows s) (cols s) (dtype s) t w' \<and> same_contents w s w' t) (failed E w)"
proof -
  let ?P = "\<lambda>t n w'. load (data t) n (heap w') = load (data s) n (heap w)"
  have "spec (act t n) w1 (\<lambda>_ w2. fresh_tensor E w t w2 \<and> ?P t n w2) (fresh_tensor E w t)"
    if m: "made E w d (rows s) (cols s) (dtype s) t w1" "bytes t = Inr n" "\<not> (n = 0 \<or> data s = Null)" for t w1 n
    using readable_load [OF r] m act [OF m(1,2)] made_bytes [OF m(1)] by force
  note s = spec_make_fill [OF i rc made_bytes [symmetric] this, where skip = "\<lambda>n. n = 0 \<or> data s = Null"]
  show ?thesis
  proof (rule spec_mono [OF s])
    show "made E w d (rows s) (cols s) (dtype s) t w' \<and> same_contents w s w' t"
      if "made E w d (rows s) (cols s) (dtype s) t w' \<and>
         (\<forall>n. bytes t = Inr n \<and> \<not> (n = 0 \<or> data s = Null) \<longrightarrow> ?P t n w')" for t w'
      using that made_bytes readable_load [OF r] by (fastforce simp: same_contents_def)
  qed auto
qed

lemma spec_clone:
  assumes i: "world_inv E w" and rc: "is_int32 (rows s)" "is_int32 (cols s)" and r: "readable w s"
  shows "spec (clone s) w (\<lambda>t w'. made E w (device s) (rows s) (cols s) (dtype s) t w' \<and> same_contents w s w' t) (failed E w)"
  unfolding clone_def
proof (rule spec_lift_seq, simp, rule spec_make_copy [OF i rc r])
  fix t w1 n bs
  assume m: "made E w (device s) (rows s) (cols s) (dtype s) t w1" "bytes t = Inr n" "n \<noteq> 0"
    and l: "load (data s) n (heap w) = Inr bs"
  from made_storage [OF m] have s: "fresh_tensor E w t w1" "owns t" "n \<le> cap_bytes t" "backends_ok (rt w1)" by auto
  note c = spec_copy_fresh [OF s(1-3) l]
  have "spec (backend_act (device s) (\<lambda>V. memcpy_d2d V (data t) (data s) n (index (device s)))) w1
    (\<lambda>_ w2. fresh_tensor E w t w2 \<and> load (data t) n (heap w2) = Inr bs) (fresh_tensor E w t)"
    by (rule spec_backend_act [OF s(4) _ c s(1)]) (use m(3) alloc_backend.d2d in blast)
  then show "spec (if device s = cpu then heap_act (memcpy (data t) (data s) n)
         else backend_act (device s) (\<lambda>V. memcpy_d2d V (data t) (data s) n (index (device s)))) w1
     (\<lambda>_ w2. fresh_tensor E w t w2 \<and> load (data t) n (heap w2) = Inr bs) (fresh_tensor E w t)"
    using c by simp
qed (use i in \<open>simp add: failed_def\<close>)

text \<open>The bounce through a host buffer has the effect of the direct copy, and frees the buffer.\<close>

lemma staging_blocks:
  assumes m: "mem_inv m" and a: "malloc n m = Inr (p, m1)" and l: "load src n m = Inr bs"
    and s: "store dst bs m = Inr m'"
  shows "\<exists>m2 m3 m4 m5 m6. memcpy p src n m1 = Inr m2 \<and> memcpy dst p n m2 = Inr m3 \<and>
    mfree p m3 = Inr m4 \<and> blocks m4 = blocks m' \<and> mem_inv m4 \<and>
    mfree p m1 = Inr m5 \<and> blocks m5 = blocks m \<and> mem_inv m5 \<and>
    mfree p m2 = Inr m6 \<and> blocks m6 = blocks m \<and> mem_inv m6"
proof -
  from malloc_fresh [OF a m] obtain b zs where b: "p = Ptr b 0" "blocks m b = None" "mem_inv m1"
    "length zs = n" "blocks m1 = (blocks m)(b \<mapsto> zs)" by auto
  have n: "length bs = n" using l load_eq_Inr by blast
  from s obtain bd od ds where d: "dst = Ptr bd od" "blocks m bd = Some ds" "od + length bs \<le> length ds"
    "blocks m' = (blocks m)(bd \<mapsto> overlay od bs ds)"
    by (auto simp: store_def split: ptr.splits option.splits if_splits)
  have bd: "bd \<noteq> b" using b d by auto
  have l1: "load src n m1 = Inr bs"
    using l b by (auto simp: load_def split: ptr.splits option.splits if_splits)
  let ?m2 = "m1\<lparr>blocks := (blocks m1)(b \<mapsto> overlay 0 bs zs)\<rparr>"
  let ?m3 = "?m2\<lparr>blocks := (blocks ?m2)(bd \<mapsto> overlay od bs ds)\<rparr>"
  have 2: "memcpy p src n m1 = Inr ?m2" using b n by (simp add: memcpy_def l1 store_def)
  have "window 0 n (overlay 0 bs zs) = bs" using window_overlay_same [of 0 bs zs] b n by simp
  then have 3: "memcpy dst p n ?m2 = Inr ?m3"
    using b n d bd by (simp add: memcpy_def store_def load_def)
  have i: "mem_inv x" if "next_block x = next_block m1" "dom (blocks x) \<subseteq> dom (blocks m1)" for x :: mem
    using b(3) that unfolding mem_inv_def by (metis domIff subsetD)
  have f: "mfree p x = Inr (x\<lparr>blocks := (blocks x)(b := None)\<rparr>)" if "blocks x b \<noteq> None" for x :: mem
    using b(1) that by (simp add: mfree_def)
  have e: "(blocks m1)(b := None) = blocks m" "(blocks ?m2)(b := None) = blocks m" "(blocks ?m3)(b := None) = blocks m'"
    using b(2,5) d(4) bd by (auto simp: fun_upd_def fun_eq_iff)
  have dm: "dom (blocks m) \<subseteq> dom (blocks m1)" "dom (blocks m') \<subseteq> dom (blocks m1)" using b(5) d(2,4) by auto
  have "mem_inv (x\<lparr>blocks := blocks m\<rparr>)" "mem_inv (x\<lparr>blocks := blocks m'\<rparr>)" if "next_block x = next_block m1" for x :: mem
    using that dm by (simp_all add: i)
  moreover have "mfree p m1 = Inr (m1\<lparr>blocks := blocks m\<rparr>)" "mfree p ?m2 = Inr (?m2\<lparr>blocks := blocks m\<rparr>)"
    "mfree p ?m3 = Inr (?m3\<lparr>blocks := blocks m'\<rparr>)"
    using f [of m1] f [of ?m2] f [of ?m3] e b(5) bd by simp_all
  ultimately show ?thesis using 2 3
    by (intro exI [of _ ?m2] exI [of _ ?m3] exI [of _ "?m3\<lparr>blocks := blocks m'\<rparr>"]
        exI [of _ "m1\<lparr>blocks := blocks m\<rparr>"] exI [of _ "?m2\<lparr>blocks := blocks m\<rparr>"]) simp
qed

lemma fresh_blocks_eq:
  assumes f: "fresh_tensor E w t w2" and b: "blocks m' = blocks (heap w2)" and m: "mem_inv m'"
  shows "fresh_tensor E w t (w2\<lparr>heap := m'\<rparr>)"
proof -
  have s: "same_shape (heap w2) m'" using b m by (simp add: same_shape_def)
  have "tensor_ok (rt w2) m' t"
    using tensor_ok_blocks [of "rt w2" "heap w2" t m'] f b by (simp add: fresh_tensor_def)
  then show ?thesis using f inv_same_shape [OF _ s] b keeps_trans [of w w2]
    by (simp add: fresh_tensor_def extends_def)
qed

lemma load_blocks_eq: "blocks m' = blocks m \<Longrightarrow> load p n m' = load p n m"
  by (simp add: load_def split: ptr.split)

lemma spec_bounce:
  assumes m: "made E w d r c dt t w1" "bytes t = Inr n" "n \<noteq> 0" and l: "load src n (heap w) = Inr bs"
  shows "spec (bounce target (data t) source src n) w1
    (\<lambda>_ w2. fresh_tensor E w t w2 \<and> load (data t) n (heap w2) = Inr bs) (fresh_tensor E w t)"
proof -
  from made_storage [OF m] have s: "fresh_tensor E w t w1" "owns t" "n \<le> cap_bytes t" "backends_ok (rt w1)" by auto
  have mi: "mem_inv (heap w1)" using s(1) invD(1) by (auto simp: fresh_tensor_def)
  have l1: "load src n (heap w1) = Inr bs" using s(1) l extends_load by (auto simp: fresh_tensor_def)
  have n: "length bs = n" using l load_eq_Inr by blast
  obtain m' where st: "store (data t) bs (heap w1) = Inr m'"
    using store_valid [of "heap w1" "data t" bs] fresh_valid [OF s(1-3)] n by auto
  show ?thesis
  proof (cases "malloc n (heap w1)")
    case (Inl e)
    then show ?thesis using s(1) by (auto simp: bounce_def via_staging_def spec_def malloc_def guard_def Let_def split: if_splits)
  next
    case (Inr x)
    then obtain p m1 where a: "malloc n (heap w1) = Inr (p, m1)" by (cases x) auto
    from staging_blocks [OF mi a l1 st] obtain m2 m3 m4 m5 m6 where
      k: "memcpy p src n m1 = Inr m2" "memcpy (data t) p n m2 = Inr m3"
      "mfree p m3 = Inr m4" "blocks m4 = blocks m'" "mem_inv m4"
      "mfree p m1 = Inr m5" "blocks m5 = blocks (heap w1)" "mem_inv m5"
      "mfree p m2 = Inr m6" "blocks m6 = blocks (heap w1)" "mem_inv m6" by blast
    let ?w = "w1\<lparr>heap := m1\<rparr>" and ?v = "w1\<lparr>heap := m2\<rparr>"
    have ok: "fresh_tensor E w t (w1\<lparr>heap := m4\<rparr>)" "load (data t) n m4 = Inr bs"
      using fresh_blocks_eq [OF fresh_store [OF s(1,2) st], of m4] k(4,5) load_store_same [OF st] n
        load_blocks_eq [OF k(4)] by simp_all
    have bad: "fresh_tensor E w t (w1\<lparr>heap := m5\<rparr>)" "fresh_tensor E w t (w1\<lparr>heap := m6\<rparr>)"
      using fresh_blocks_eq [OF s(1) k(7,8)] fresh_blocks_eq [OF s(1) k(10,11)] by simp_all
    have d: "backend_act source (\<lambda>V. memcpy_d2h V p src n (index source)) ?w = (Inr (), ?v) \<or>
        (\<exists>e. backend_act source (\<lambda>V. memcpy_d2h V p src n (index source)) ?w = (Inl (Throw e), ?w))"
      using backend_act_cases [of ?w "\<lambda>V. memcpy_d2h V p src n (index source)" "memcpy p src n" source]
        s(4) m(3) alloc_backend.d2h k(1) by (force simp: heap_act_def)
    have h: "backend_act target (\<lambda>V. memcpy_h2d V (data t) p n (index target)) ?v = (Inr (), w1\<lparr>heap := m3\<rparr>) \<or>
        (\<exists>e. backend_act target (\<lambda>V. memcpy_h2d V (data t) p n (index target)) ?v = (Inl (Throw e), ?v))"
      using backend_act_cases [of ?v "\<lambda>V. memcpy_h2d V (data t) p n (index target)" "memcpy (data t) p n" target]
        s(4) m(3) alloc_backend.h2d k(2) by (force simp: heap_act_def)
    show ?thesis using d h a k(3,6,9) ok bad
      by (auto simp: bounce_def via_staging_def sbnd_def spec_def heap_act_def)
  qed
qed

lemma spec_to_device:
  assumes i: "world_inv E w" and rc: "is_int32 (rows s)" "is_int32 (cols s)" and r: "readable w s"
  shows "spec (to_device s d) w (\<lambda>t w'. made E w d (rows s) (cols s) (dtype s) t w' \<and> same_contents w s w' t) (failed E w)"
proof (cases "d = device s")
  case True
  then show ?thesis unfolding to_device_def using spec_clone [OF i rc r] i
    by (intro spec_lift_seq) (simp_all add: failed_def)
next
  case False
  then show ?thesis unfolding to_device_def
  proof (simp, intro spec_lift_seq spec_make_copy [OF i rc r])
    fix t w1 n bs
    assume m: "made E w d (rows s) (cols s) (dtype s) t w1" "bytes t = Inr n" "n \<noteq> 0"
      and l: "load (data s) n (heap w) = Inr bs"
    from made_storage [OF m] have s: "fresh_tensor E w t w1" "owns t" "n \<le> cap_bytes t" "backends_ok (rt w1)" by auto
    let ?Q = "\<lambda>_ w2. fresh_tensor E w t w2 \<and> load (data t) n (heap w2) = Inr bs"
    note c = spec_copy_fresh [OF s(1-3) l]
    have h: "spec (backend_act d (\<lambda>V. memcpy_h2d V (data t) (data s) n (index d))) w1 ?Q (fresh_tensor E w t)"
      by (rule spec_backend_act [OF s(4) _ c s(1)]) (use m(3) alloc_backend.h2d in blast)
    have e: "spec (backend_act (device s) (\<lambda>V. memcpy_d2h V (data t) (data s) n (index (device s)))) w1 ?Q (fresh_tensor E w t)"
      by (rule spec_backend_act [OF s(4) _ c s(1)]) (use m(3) alloc_backend.d2h in blast)
    note b = spec_bounce [OF m l, of d "device s"]
    have p: "spec (heap_act (f (data t) (index d) (data s) (index (device s)) n)) w1 ?Q (fresh_tensor E w t)"
      if "alloc_for (rt w1) d = Inr V" "memcpy_peer V = Some f" for V f
      using alloc_backend.peer [OF alloc_for_backend [OF s(4) that(1)] that(2)] m(3) c
      by (simp add: spec_def heap_act_def)
    show "spec (to_copy d (data t) (device s) (data s) n) w1 ?Q (fresh_tensor E w t)"
    proof (cases "is_cpu (device s) \<or> is_cpu d \<or> devtype (device s) \<noteq> devtype d")
      case True
      then show ?thesis using h e b by (auto simp: spec_def to_copy_def)
    next
      case False
      show ?thesis
      proof (cases "alloc_for (rt w1) d")
        case (Inl e)
        then show ?thesis using False s(1) safe_alloc_for [of "rt w1" d] by (cases e) (auto simp: spec_def to_copy_def)
      next
        case (Inr V)
        then show ?thesis using False b p [OF Inr] by (cases "memcpy_peer V") (auto simp: spec_def to_copy_def)
      qed
    qed
  qed (use i in \<open>simp_all add: failed_def\<close>)
qed
section \<open>Resizing\<close>

lemma bytes_checked:
  "0 \<le> rows t \<Longrightarrow> 0 \<le> cols t \<Longrightarrow> check_quant_cols (dtype t) (cols t) who = Inr u \<Longrightarrow>
     bytes t = dtype_storage_bytes (dtype t) (rows t * cols t)"
  by (cases "0 < rows t \<and> 0 < cols t") (simp_all add: bytes_def check_dims_def check_quant_cols_def split: if_splits)

text \<open>The growing branch of \<^verbatim>\<open>resize\<close>, by itself.\<close>

definition regrow :: "int \<Rightarrow> int \<Rightarrow> Dtype \<Rightarrow> nat \<Rightarrow> Tensor \<Rightarrow> 'o world \<Rightarrow> (unit res \<times> Tensor) \<times> 'o world" where
  "regrow r c dt n t w = (case release t w of
      (Inl e, w1) \<Rightarrow> ((Inl e, t), w1)
    | (Inr t1, w1) \<Rightarrow>
        let t2 = t1\<lparr>device := resolve_device_alias (rt w1) (device t1)\<rparr> in
        (case backend_alloc (device t2) n w1 of
           (Inl e, w2) \<Rightarrow> ((Inl e, t2), w2)
         | (Inr p, w2) \<Rightarrow>
             ((Inr (), t2\<lparr>data := p, owns := p \<noteq> Null, cap_bytes := (if p \<noteq> Null then n else 0),
                          rows := r, cols := c, dtype := dt\<rparr>), w2)))"

lemma resize_cases:
  obtains e where "\<And>w :: 'o world. resize r c dt t w = ((Inl (Throw e), t), w)"
  | "\<And>w :: 'o world. resize r c dt t w = ((Inr (), t), w)" "r = rows t" "c = cols t" "dt = dtype t" "data t \<noteq> Null"
  | n where "\<And>w :: 'o world. resize r c dt t w = regrow r c dt n t w" "dtype_storage_bytes dt (r * c) = Inr n"
      "0 \<le> r" "0 \<le> c" "check_quant_cols dt c ''Tensor::resize'' = Inr ()" "jit_slot t < 0" "cap_bytes t < n \<or> \<not> owns t"
      "owns t \<or> data t = Null"
  | n where "\<And>w :: 'o world. resize r c dt t w = ((Inr (), t\<lparr>rows := r, cols := c, dtype := dt\<rparr>), w)"
      "dtype_storage_bytes dt (r * c) = Inr n" "0 \<le> r" "0 \<le> c" "check_quant_cols dt c ''Tensor::resize'' = Inr ()"
      "jit_slot t < 0" "n \<le> cap_bytes t" "owns t"
proof -
  define g where "g = bnd (check_not_symbolic t ''resize'') (\<lambda>_. bnd (check_dims r c ''resize'') (\<lambda>_. check_quant_cols dt c ''Tensor::resize''))"
  have sg: "safe g" by (simp add: g_def safe_bnd)
  note red = resize_def [of r c dt t, folded g_def]
  show thesis
  proof (cases g)
    case (Inl e)
    with sg obtain m where "e = Throw m" by (cases e) auto
    with Inl have "resize r c dt t w = ((Inl (Throw m), t), w)" for w :: "'o world" by (simp add: red)
    then show ?thesis by (rule that(1))
  next
    case (Inr u)
    then have ok: "jit_slot t < 0" "0 \<le> r" "0 \<le> c" "check_quant_cols dt c ''Tensor::resize'' = Inr ()" by (auto simp: g_def)
    show ?thesis
    proof (cases "r = rows t \<and> c = cols t \<and> dt = dtype t \<and> data t \<noteq> Null")
      case True
      with Inr have "resize r c dt t w = ((Inr (), t), w)" for w :: "'o world"
        unfolding red using True by simp
      with True show ?thesis by (intro that(2)) blast+
    next
      case ns: False
      show ?thesis
      proof (cases "dtype_storage_bytes dt (r * c)")
        case (Inl e)
        then obtain m where "e = Throw m" using safe_checks(6) [of dt "r * c"] by (cases e) auto
        with Inl Inr ns have "resize r c dt t w = ((Inl (Throw m), t), w)" for w :: "'o world" by (auto simp: red)
        then show ?thesis by (rule that(1))
      next
        case n: (Inr n)
        consider "\<not> owns t \<and> data t \<noteq> Null" | "owns t \<or> data t = Null" "cap_bytes t < n \<or> \<not> owns t" | "owns t" "n \<le> cap_bytes t"
          by linarith
        then show ?thesis
        proof cases
          case 1
          then show ?thesis using Inr ns n by (intro that(1)) (auto simp: red)
        next
          case 2
          then show ?thesis using Inr ns n ok by (intro that(3)) (auto simp: red regrow_def)
        next
          case 3
          then show ?thesis using Inr ns n ok by (intro that(4)) (auto simp: red)
        qed
      qed
    qed
  qed
qed

text \<open>
  \<open>resize_ok E w t w' t'\<close>: the tensor \<open>t'\<close> that \<^verbatim>\<open>resize\<close> leaves is in order and owns what
  is not the caller's.
\<close>

definition resize_ok :: "nat set \<Rightarrow> 'o world \<Rightarrow> Tensor \<Rightarrow> 'o world \<Rightarrow> bool" where
  "resize_ok E w t' w' \<longleftrightarrow> keeps w w' \<and> world_inv (tset t' \<union> E) w' \<and> tset t' \<inter> E = {} \<and> tensor_ok (rt w') (heap w') t'"

lemma resize_grow_ok:
  assumes i: "world_inv E w1" and d: "d = resolve_device_alias (rt w1) (device t1)"
    and t1: "data t1 = Null" "\<not> owns t1" "cap_bytes t1 = 0" "tensor_ok (rt w1) (heap w1) t1"
    and rc: "is_int32 r" "is_int32 c" "0 \<le> r" "0 \<le> c" "check_quant_cols dt c who = Inr u" "jit_slot t1 < 0"
    and n: "dtype_storage_bytes dt (r * c) = Inr n"
  shows "spec (backend_alloc d n) w1
    (\<lambda>p w2. resize_ok E w1 (t1\<lparr>device := d, data := p, owns := p \<noteq> Null,
        cap_bytes := (if p \<noteq> Null then n else 0), rows := r, cols := c, dtype := dt\<rparr>) w2)
    (resize_ok E w1 (t1\<lparr>device := d\<rparr>))"
proof (rule spec_mono [OF spec_backend_alloc [OF i]])
  fix p w2
  let ?t = "t1\<lparr>device := d, data := p, owns := p \<noteq> Null, cap_bytes := (if p \<noteq> Null then n else 0), rows := r, cols := c, dtype := dt\<rparr>"
  assume a: "keeps w1 w2 \<and> extends (heap w1) (heap w2) \<and>
        (if n = 0 then p = Null \<and> w2 = w1
         else \<exists>b bs. p = Ptr b 0 \<and> blocks (heap w1) b = None \<and> blocks (heap w2) b = Some bs \<and> length bs = n
           \<and> world_inv (insert b E) w2 \<and> registered (rt w1) (devtype (resolve_device_alias (rt w1) d)))"
  have b: "bytes ?t = Inr n" using bytes_checked [of ?t who u] rc n by simp
  show "resize_ok E w1 ?t w2"
  proof (cases "n = 0")
    case True
    then show ?thesis using a t1 rc i by (simp add: resize_ok_def tensor_ok_def)
  next
    case False
    with a d obtain b' bs where k: "p = Ptr b' 0" "blocks (heap w1) b' = None" "blocks (heap w2) b' = Some bs"
      "length bs = n" "world_inv (insert b' E) w2" "registered (rt w1) (devtype d)" by auto
    have "b' \<notin> E" using invD(5) [OF i] k(2) by (auto simp: domIff)
    then show ?thesis using a t1 rc k b False
      by (simp add: resize_ok_def tensor_ok_def keeps_def)
  qed
next
  fix w2
  assume "keeps w1 w2 \<and> heap w2 = heap w1 \<and> world_inv E w2"
  then show "resize_ok E w1 (t1\<lparr>device := d\<rparr>) w2"
    using t1 by (simp add: resize_ok_def tensor_ok_def keeps_def)
qed

lemma resize_keeps_inv:
  fixes w :: "'o world"
  assumes i: "world_inv (tset t \<union> E) w" and e: "tset t \<inter> E = {}" and k: "tensor_ok (rt w) (heap w) t"
    and rc: "is_int32 r" "is_int32 c" and res: "resize r c dt t w = ((res, t'), w')"
  shows "safe res \<and> resize_ok E w t' w'"
proof -
  have same: "resize_ok E w t w" using i e k by (simp add: resize_ok_def)
  show ?thesis
  proof (cases rule: resize_cases [of r c dt t, where ?'o = 'o])
    case (3 n)
    let ?t1 = "t\<lparr>data := Null, owns := False, cap_bytes := 0\<rparr>"
    from spec_release [OF i e k] obtain w1 where w1: "release t w = (Inr ?t1, w1)" "keeps w w1" "world_inv E w1"
      by (auto simp: spec_def split: prod.splits sum.splits err.splits)
    have k1: "tensor_ok (rt w1) (heap w1) ?t1" using k by (simp add: tensor_ok_def)
    note s = resize_grow_ok [OF w1(3) refl, of ?t1, OF _ _ _ k1 rc 3(3-5) _ 3(2)]
    obtain a w2 where a: "backend_alloc (resolve_device_alias (rt w1) (device t)) n w1 = (a, w2)" by force
    have "safe res \<and> resize_ok E w1 t' w'"
    proof (cases a)
      case (Inr p)
      then show ?thesis using res 3(1,6) w1(1) s a by (auto simp: regrow_def Let_def spec_def)
    next
      case (Inl e)
      then show ?thesis using res 3(1,6) w1(1) s a by (cases e) (auto simp: regrow_def Let_def spec_def)
    qed
    then show ?thesis using keeps_trans [OF w1(2)] by (auto simp: resize_ok_def)
  next
    case (4 n)
    let ?t = "t\<lparr>rows := r, cols := c, dtype := dt\<rparr>"
    have "bytes ?t = Inr n" using bytes_checked [of ?t _ "()"] 4 by simp
    moreover have "t' = ?t" "w' = w" "res = Inr ()" using res 4(1) by auto
    ultimately show ?thesis using i e k rc 4(3,4,7,8) by (auto simp: resize_ok_def tensor_ok_def)
  qed (use res same in auto)
qed

section \<open>Object lifetime\<close>

text \<open>The jit's table lists exactly the symbolic tensors that are alive, at their addresses.\<close>

definition slots_ok :: "'o world \<Rightarrow> bool" where
  "slots_ok w \<longleftrightarrow> (\<forall>slot i. slot_to_tensor w slot = Some i \<longleftrightarrow> 0 \<le> slot \<and> (\<exists>t. objs w i = Some t \<and> jit_slot t = slot))
     \<and> (slot_to_tensor w \<noteq> Map.empty \<longrightarrow> retarget_hook w)"

definition world_ok :: "nat set \<Rightarrow> 'o world \<Rightarrow> bool" where
  "world_ok E w \<longleftrightarrow> world_inv E w \<and> slots_ok w"

lemma hook_simps [simp]:
  "objs (hook sl f t w) = objs w" "heap (hook sl f t w) = heap w" "rt (hook sl f t w) = rt w"
  "retarget_hook (hook sl f t w) = retarget_hook w"
  by (simp_all add: hook_def retarget_def split: option.splits)

lemma world_inv_hook [simp]: "world_inv E (hook sl f t w) = world_inv E w"
  by (simp add: world_inv_def)

lemma hook_set_obj: "hook sl f t (set_obj i x w) = set_obj i x (hook sl f t w)"
  by (simp add: hook_def retarget_def set_obj_def split: option.splits)

lemma slots_ok_cong:
  "objs w' = objs w \<Longrightarrow> slot_to_tensor w' = slot_to_tensor w \<Longrightarrow> retarget_hook w' = retarget_hook w \<Longrightarrow>
     slots_ok w' = slots_ok w"
  by (simp add: slots_ok_def)

lemma slots_tracked: "slots_ok w \<Longrightarrow> objs w i = Some t \<Longrightarrow> 0 \<le> jit_slot t \<Longrightarrow> slot_to_tensor w (jit_slot t) = Some i \<and> retarget_hook w"
  unfolding slots_ok_def by (metis option.distinct(1))

lemma slots_unique:
  "slots_ok w \<Longrightarrow> objs w i = Some t \<Longrightarrow> 0 \<le> jit_slot t \<Longrightarrow> objs w j = Some u \<Longrightarrow> jit_slot u = jit_slot t \<Longrightarrow> j = i"
  using slots_tracked by (metis option.inject)

lemma slots_drop:
  assumes s: "slots_ok w" and t: "objs w i = Some t"
  shows "slots_ok (set_obj i None (hook (jit_slot t) i None w))"
proof (cases "0 \<le> jit_slot t")
  case False
  then show ?thesis using s t unfolding slots_ok_def by (auto simp: hook_def)
next
  case True
  with slots_tracked [OF s t] have h: "hook (jit_slot t) i None w = w\<lparr>slot_to_tensor := (slot_to_tensor w)(jit_slot t := None)\<rparr>"
    by (simp add: hook_def retarget_def)
  have f: "slot_to_tensor w slot = Some j \<longleftrightarrow> 0 \<le> slot \<and> (\<exists>t. objs w j = Some t \<and> jit_slot t = slot)" for slot j
    using s by (simp add: slots_ok_def)
  show ?thesis unfolding slots_ok_def h
    by (auto simp: f slots_tracked [OF s t True] t dest: slots_unique [OF s t True])
qed

lemma slots_put: "slots_ok w \<Longrightarrow> objs w i = None \<Longrightarrow> jit_slot t < 0 \<Longrightarrow> slots_ok (set_obj i (Some t) w)"
  unfolding slots_ok_def by auto

lemma slots_move:
  assumes s: "slots_ok w" and o: "objs w src = Some u" and n: "objs w this = None"
    and j: "jit_slot u' = jit_slot u \<or> jit_slot u' < 0 \<and> jit_slot u < 0"
  shows "slots_ok (hook (jit_slot u) src (Some this) (set_obj src (Some (moved_from u)) (set_obj this (Some u') w)))"
proof (cases "0 \<le> jit_slot u")
  case False
  then show ?thesis using s o n j unfolding slots_ok_def by (auto simp: hook_def moved_from_def)
next
  case True
  with slots_tracked [OF s o] have h: "hook (jit_slot u) src (Some this) w = w\<lparr>slot_to_tensor := (slot_to_tensor w)(jit_slot u \<mapsto> this)\<rparr>"
    by (simp add: hook_def retarget_def)
  have f: "slot_to_tensor w slot = Some j \<longleftrightarrow> 0 \<le> slot \<and> (\<exists>t. objs w j = Some t \<and> jit_slot t = slot)" for slot j
    using s by (simp add: slots_ok_def)
  have ts: "this \<noteq> src" "jit_slot u' = jit_slot u" using o n j True by auto
  show ?thesis unfolding slots_ok_def h hook_set_obj
    using ts True by (auto simp: moved_from_def f slots_tracked [OF s o True] o n dest: slots_unique [OF s o True])
qed

lemma spec_with_obj: "objs w i = Some t \<Longrightarrow> spec (with_obj i f) w Q R = spec (f t) w Q R"
  by (simp add: with_obj_def spec_def)

lemma owns_readable: "world_inv E w \<Longrightarrow> objs w i = Some t \<Longrightarrow> owns t \<Longrightarrow> readable w t"
  using invD(3) [of E w i t] by (auto simp: tensor_ok_def readable_def valid_def)

lemma slots_ok_keeps: "keeps w w' \<Longrightarrow> slots_ok w' = slots_ok w"
  by (rule slots_ok_cong) (simp_all add: keeps_def)

lemma set_obj_twist: "i \<noteq> j \<Longrightarrow> set_obj i x (set_obj j y w) = set_obj j y (set_obj i x w)"
  by (simp add: set_obj_def fun_upd_twist)

lemma set_obj_same: "set_obj i x (set_obj i y w) = set_obj i x w" "set_obj i (objs w i) w = w"
  by (simp_all add: set_obj_def)

lemma release_set_obj: "release t (set_obj i x v) = (case release t v of (r, v') \<Rightarrow> (r, set_obj i x v'))"
  by (auto simp: release_def sbnd_def ret_def backend_free_def backend_act_def heap_act_def set_obj_def
      split: sum.splits prod.splits)

lemma backend_alloc_set_obj: "backend_alloc d n (set_obj i x v) = (case backend_alloc d n v of (r, v') \<Rightarrow> (r, set_obj i x v'))"
  by (auto simp: backend_alloc_def set_obj_def Let_def split: sum.splits prod.splits)

lemma release_keeps: "release t w = (r, w1) \<Longrightarrow> keeps w w1"
  by (auto simp: release_def sbnd_def ret_def backend_free_def backend_act_def heap_act_def split: sum.splits prod.splits if_splits)

lemma backend_alloc_keeps: "backend_alloc d n w = (r, w1) \<Longrightarrow> keeps w w1"
  by (auto simp: backend_alloc_def Let_def keeps_def split: sum.splits prod.splits if_splits)

lemma regrow_set_obj: "regrow r c dt n t (set_obj i x v) = (case regrow r c dt n t v of (p, v') \<Rightarrow> (p, set_obj i x v'))"
proof (cases "release t v")
  case (Pair a v1)
  show ?thesis
  proof (cases a)
    case (Inr t1)
    then show ?thesis using Pair
      by (cases "backend_alloc (resolve_device_alias (rt v1) (device t1)) n v1"; cases "fst (backend_alloc (resolve_device_alias (rt v1) (device t1)) n v1)")
        (simp_all add: regrow_def release_set_obj backend_alloc_set_obj Let_def)
  qed (simp add: regrow_def release_set_obj Pair)
qed

lemma resize_set_obj:
  fixes v :: "'o world"
  shows "resize r c dt t (set_obj i x v) = (case resize r c dt t v of (p, v') \<Rightarrow> (p, set_obj i x v'))"
  by (cases rule: resize_cases [of r c dt t, where ?'o = 'o]) (simp_all add: regrow_set_obj)

lemma regrow_keeps: "regrow r c dt n t w = ((res, t'), w') \<Longrightarrow> keeps w w' \<and> jit_slot t' = jit_slot t"
proof -
  assume g: "regrow r c dt n t w = ((res, t'), w')"
  obtain a w1 where a: "release t w = (a, w1)" by force
  then have j: "a = Inr t1 \<Longrightarrow> jit_slot t1 = jit_slot t" for t1
    by (auto simp: release_def sbnd_def ret_def split: sum.splits prod.splits)
  show ?thesis using g a j release_keeps [OF a] backend_alloc_keeps keeps_trans [of w w1]
    by (fastforce simp: regrow_def Let_def split: sum.splits prod.splits)
qed

lemma resize_keeps:
  fixes w :: "'o world"
  assumes "resize r c dt t w = ((res, t'), w')"
  shows "keeps w w' \<and> jit_slot t' = jit_slot t"
  using assms by (cases rule: resize_cases [of r c dt t, where ?'o = 'o]) (auto dest: regrow_keeps)

text \<open>Releasing the tensor taken out of object \<open>i\<close>; the object is still there meanwhile.\<close>

lemma release_of:
  assumes i: "world_inv E w" and t: "objs w i = Some t"
  obtains w1 where "release (t\<lparr>jit_slot := j\<rparr>) w = (Inr (t\<lparr>data := Null, owns := False, cap_bytes := 0, jit_slot := j\<rparr>), w1)"
    and "release t w = (Inr (t\<lparr>data := Null, owns := False, cap_bytes := 0\<rparr>), w1)"
    and "keeps w w1" and "world_inv E (set_obj i None w1)"
    and "\<And>b. b \<notin> tset t \<Longrightarrow> blocks (heap w1) b = blocks (heap w) b"
proof -
  note k = inv_take [OF i t]
  have "spec (release t) (set_obj i None w)
     (\<lambda>t' w'. t' = t\<lparr>data := Null, owns := False, cap_bytes := 0\<rparr> \<and> keeps (set_obj i None w) w' \<and> world_inv E w'
        \<and> (\<forall>b. b \<notin> tset t \<longrightarrow> blocks (heap w') b = blocks (heap (set_obj i None w)) b)
        \<and> g_alloc_count w' = g_alloc_count (set_obj i None w) \<and> g_alloc_bytes w' = g_alloc_bytes (set_obj i None w)) (\<lambda>_. False)"
    by (rule spec_release) (use k in simp_all)
  then obtain w2 where w2: "release t (set_obj i None w) = (Inr (t\<lparr>data := Null, owns := False, cap_bytes := 0\<rparr>), w2)"
    "keeps (set_obj i None w) w2" "world_inv E w2" "\<And>b. b \<notin> tset t \<Longrightarrow> blocks (heap w2) b = blocks (heap w) b"
    by (auto simp: spec_def split: prod.splits sum.splits err.splits)
  have j: "release (t\<lparr>jit_slot := j\<rparr>) v = (case release t v of (Inr t', v') \<Rightarrow> (Inr (t'\<lparr>jit_slot := j\<rparr>), v') | (Inl e, v') \<Rightarrow> (Inl e, v'))" for v
    by (auto simp: release_def sbnd_def ret_def split: sum.splits prod.splits)
  obtain r w1 where w1: "release t w = (r, w1)" by force
  with release_set_obj [of t i None w] w2(1) have r: "r = Inr (t\<lparr>data := Null, owns := False, cap_bytes := 0\<rparr>)" "w2 = set_obj i None w1" by auto
  have "keeps w w1" using w1 r
    by (auto simp: release_def sbnd_def ret_def backend_free_def backend_act_def heap_act_def split: sum.splits prod.splits if_splits)
  then show ?thesis using that w1 r w2(3,4) j [of w] by simp
qed

lemma spec_dtor:
  assumes k: "world_ok E w" and t: "objs w i = Some t"
  shows "spec (dtor i) w (\<lambda>_ w'. world_ok E w' \<and> objs w' = (objs w)(i := None)
     \<and> (\<forall>b. b \<notin> tset t \<longrightarrow> blocks (heap w') b = blocks (heap w) b)) (\<lambda>_. False)"
proof -
  let ?h = "hook (jit_slot t) i None w"
  from k have i: "world_inv E ?h" and s: "slots_ok w" by (simp_all add: world_ok_def)
  from release_of [OF i] t obtain w1 where r: "release t ?h = (Inr (t\<lparr>data := Null, owns := False, cap_bytes := 0\<rparr>), w1)"
    "keeps ?h w1" "world_inv E (set_obj i None w1)" "\<And>b. b \<notin> tset t \<Longrightarrow> blocks (heap w1) b = blocks (heap w) b"
    by (metis hook_simps(1,2))
  have "slots_ok (set_obj i None w1)"
    using slots_drop [OF s t] r(2) by (subst slots_ok_cong [of _ "set_obj i None ?h"]) (simp_all add: keeps_def)
  then show ?thesis unfolding dtor_def spec_with_obj [OF t] using r
    by (simp add: spec_def sbnd_def world_ok_def keeps_def)
qed

lemma moved_from_simps [simp]:
  "data (moved_from t) = Null" "\<not> owns (moved_from t)" "cap_bytes (moved_from t) = 0" "rows (moved_from t) = 0"
  "cols (moved_from t) = 0" "jit_slot (moved_from t) < 0" "tset (moved_from t) = {}"
  by (simp_all add: moved_from_def)

lemma tensor_ok_moved_from [simp]: "tensor_ok s m (moved_from t)"
  using moved_from_simps(6) [of t] by (simp add: tensor_ok_def is_int32_def int32_max_def del: moved_from_simps(6))

text \<open>Moving the tensor of \<open>src\<close> into the vacant address \<open>this\<close>.\<close>

lemma move_into_vacant:
  assumes k: "world_ok E w" and s: "objs w src = Some u" and n: "objs w this = None"
    and u': "u' = u \<or> u' = u\<lparr>jit_slot := - 1\<rparr> \<and> jit_slot u < 0"
  shows "world_ok E (hook (jit_slot u) src (Some this) (set_obj src (Some (moved_from u)) (set_obj this (Some u') w)))"
proof -
  from k have i: "world_inv E w" and sl: "slots_ok w" by (simp_all add: world_ok_def)
  have ne: "this \<noteq> src" using s n by auto
  note t = inv_take [OF i s]
  have u: "tset u' = tset u" "tensor_ok (rt w) (heap w) u'" using u' t(3) by (auto simp: tensor_ok_def)
  have "world_inv E (set_obj this (Some u') (set_obj src None w))"
    by (rule inv_put) (use t u n ne in simp_all)
  then have "world_inv E (set_obj src (Some (moved_from u)) (set_obj this (Some u') (set_obj src None w)))"
    using inv_put [of "moved_from u" E "set_obj this (Some u') (set_obj src None w)" src] ne by simp
  moreover have "set_obj src (Some (moved_from u)) (set_obj this (Some u') (set_obj src None w))
      = set_obj src (Some (moved_from u)) (set_obj this (Some u') w)"
    using ne by (simp add: set_obj_def fun_upd_twist)
  ultimately show ?thesis
    using slots_move [OF sl s n, of u'] u' by (auto simp: world_ok_def)
qed

lemma spec_move_ctor:
  assumes "world_ok E w" "objs w src = Some u" "objs w this = None"
  shows "spec (move_ctor this src) w (\<lambda>_ w'. world_ok E w' \<and> objs w' = (objs w)(this \<mapsto> u, src \<mapsto> moved_from u)
     \<and> heap w' = heap w) (\<lambda>_. False)"
proof -
  have "this \<noteq> src" using assms by auto
  then show ?thesis unfolding move_ctor_def spec_with_obj [OF assms(2)]
    using move_into_vacant [OF assms, of u] by (simp add: spec_def set_obj_twist [of this src] )
qed

lemma spec_move_assign:
  assumes k: "world_ok E w" and t: "objs w this = Some t" and s: "objs w src = Some u" and ne: "this \<noteq> src"
  shows "spec (move_assign this src) w (\<lambda>_ w'. world_ok E w'
      \<and> objs w' = (objs w)(this \<mapsto> u\<lparr>jit_slot := (if 0 \<le> jit_slot u then jit_slot u else - 1)\<rparr>, src \<mapsto> moved_from u)
      \<and> (\<forall>b. b \<notin> tset t \<longrightarrow> blocks (heap w') b = blocks (heap w) b)) (\<lambda>_. False)"
proof -
  let ?h = "hook (jit_slot t) this None w"
  let ?u = "u\<lparr>jit_slot := (if 0 \<le> jit_slot u then jit_slot u else - 1)\<rparr>"
  from k have i: "world_inv E ?h" and sl: "slots_ok w" by (simp_all add: world_ok_def)
  have t': "objs ?h this = Some t" using t by simp
  obtain w1 where r: "release (t\<lparr>jit_slot := - 1\<rparr>) ?h = (Inr (t\<lparr>data := Null, owns := False, cap_bytes := 0, jit_slot := - 1\<rparr>), w1)"
    "keeps ?h w1" "world_inv E (set_obj this None w1)" "\<And>b. b \<notin> tset t \<Longrightarrow> blocks (heap w1) b = blocks (heap ?h) b"
    using release_of [OF i t', of "- 1"] by metis
  have "slots_ok (set_obj this None w1)"
    using slots_drop [OF sl t] r(2) by (subst slots_ok_cong [of _ "set_obj this None ?h"]) (simp_all add: keeps_def)
  with r(3) have "world_ok E (set_obj this None w1)" by (simp add: world_ok_def)
  from move_into_vacant [OF this, of src u this ?u]
  have "world_ok E (hook (jit_slot u) src (Some this) (set_obj src (Some (moved_from u)) (set_obj this (Some ?u) w1)))"
    using s ne r(2) by (simp add: keeps_def set_obj_same)
  moreover have "move_assign this src w = (Inr (), hook (jit_slot u) src (Some this)
      (set_obj src (Some (moved_from u)) (set_obj this (Some ?u) w1)))"
    using ne r(1) by (simp add: move_assign_def with_obj_def t s sbnd_def)
  ultimately show ?thesis using ne r(2,4) by (simp add: spec_def keeps_def)
qed

lemma spec_construct:
  assumes k: "world_ok E w" and n: "objs w i = None"
    and m: "spec m w (\<lambda>t w'. fresh_tensor E w t w' \<and> jit_slot t < 0 \<and> P t w') (failed E w)"
  shows "spec (construct i m) w (\<lambda>_ w'. world_ok E w' \<and> (\<exists>t w1. objs w' = (objs w)(i \<mapsto> t) \<and> P t w1
      \<and> fresh_tensor E w t w1 \<and> w' = set_obj i (Some t) w1)) (failed E w)"
  unfolding construct_def
proof (rule spec_seq [OF m])
  from k have iw: "world_inv E w" by (simp add: world_ok_def)
  fix t w1
  assume f: "fresh_tensor E w t w1 \<and> jit_slot t < 0 \<and> P t w1"
  then have kw: "keeps w w1" by (simp add: fresh_tensor_def)
  then have n1: "objs w1 i = None" "objs w1 = objs w" using n by (simp_all add: keeps_def)
  have "world_inv E (set_obj i (Some t) w1)"
    by (rule inv_put) (use f n1 fresh_tensor_disjoint [OF _ iw] in \<open>auto simp: fresh_tensor_def\<close>)
  moreover have "slots_ok (set_obj i (Some t) w1)"
    by (rule slots_put) (use k n1 f slots_ok_keeps [OF kw] in \<open>auto simp: world_ok_def\<close>)
  ultimately show "spec (\<lambda>w. (Inr (), w\<lparr>objs := (objs w)(i \<mapsto> t)\<rparr>)) w1 (\<lambda>_ w'. world_ok E w' \<and>
      (\<exists>t w1. objs w' = (objs w)(i \<mapsto> t) \<and> P t w1 \<and> fresh_tensor E w t w1 \<and> w' = set_obj i (Some t) w1)) (failed E w)"
    using f n1 by (simp add: spec_def world_ok_def set_obj_def) (rule exI [of _ t], rule conjI [OF refl], rule exI [of _ w1], simp)
qed simp

lemma failed_world_ok: "failed E w w' \<Longrightarrow> world_ok E w \<Longrightarrow> world_ok E w'"
  using slots_ok_keeps by (auto simp: failed_def world_ok_def)

text \<open>\<^verbatim>\<open>*this = o.clone()\<close>, whether it is the copy constructor's body or the copy assignment's.\<close>

lemma spec_assign_clone:
  fixes w :: "'o world"
  assumes k: "world_ok E w" and s: "objs w src = Some u" and t: "objs w this = Some t" and n: "objs w tmp = None"
    and r: "readable w u"
  shows "spec (assign_clone this src tmp) w (\<lambda>_ w'. world_ok E w' \<and> (\<exists>v. objs w' = (objs w)(this \<mapsto> v)
      \<and> rows v = rows u \<and> cols v = cols u \<and> dtype v = dtype u \<and> jit_slot v < 0 \<and> (tset t = {} \<longrightarrow> same_contents w u w' v))) (failed E w)"
  unfolding assign_clone_def spec_with_obj [OF s]
proof (rule spec_lift_seq, simp)
  from k have iw: "world_inv E w" by (simp add: world_ok_def)
  have rc: "is_int32 (rows u)" "is_int32 (cols u)" using invD(3) [OF iw s] by (simp_all add: tensor_ok_def)
  have ne: "this \<noteq> tmp" "src \<noteq> tmp" using s t n by auto
  have c: "spec (clone u) w (\<lambda>v w'. fresh_tensor E w v w' \<and> jit_slot v < 0 \<and>
      (made E w (device u) (rows u) (cols u) (dtype u) v w' \<and> same_contents w u w' v)) (failed E w)"
    by (rule spec_mono [OF spec_clone [OF iw rc r]]) (auto simp: made_def)
  show "spec (sbnd (construct tmp (clone u)) (\<lambda>_. sbnd (move_assign this tmp) (\<lambda>_. dtor tmp))) w
     (\<lambda>_ w'. world_ok E w' \<and> (\<exists>v. objs w' = (objs w)(this \<mapsto> v)
      \<and> rows v = rows u \<and> cols v = cols u \<and> dtype v = dtype u \<and> jit_slot v < 0 \<and> (tset t = {} \<longrightarrow> same_contents w u w' v))) (failed E w)"
  proof (rule spec_seq [OF spec_construct [OF k n c]])
    fix x and w1 :: "'o world"
    assume "world_ok E w1 \<and> (\<exists>v w2. objs w1 = (objs w)(tmp \<mapsto> v) \<and>
        (made E w (device u) (rows u) (cols u) (dtype u) v w2 \<and> same_contents w u w2 v) \<and>
        fresh_tensor E w v w2 \<and> w1 = set_obj tmp (Some v) w2)"
    then obtain v w2 where k1: "world_ok E w1" and o1: "objs w1 = (objs w)(tmp \<mapsto> v)"
      and m: "made E w (device u) (rows u) (cols u) (dtype u) v w2" and sc: "same_contents w u w2 v"
      and w1: "w1 = set_obj tmp (Some v) w2" by auto
    let ?v = "v\<lparr>jit_slot := (if 0 \<le> jit_slot v then jit_slot v else - 1)\<rparr>"
    have o: "objs w1 this = Some t" "objs w1 tmp = Some v" using o1 t ne by auto
    show "spec (sbnd (move_assign this tmp) (\<lambda>_. dtor tmp)) w1 (\<lambda>_ w'. world_ok E w' \<and> (\<exists>v. objs w' = (objs w)(this \<mapsto> v)
      \<and> rows v = rows u \<and> cols v = cols u \<and> dtype v = dtype u \<and> jit_slot v < 0 \<and> (tset t = {} \<longrightarrow> same_contents w u w' v))) (failed E w)"
    proof (rule spec_seq [OF spec_move_assign [OF k1 o ne(1)]])
      fix y and w3 :: "'o world"
      assume a: "world_ok E w3 \<and> objs w3 = (objs w1)(this \<mapsto> ?v, tmp \<mapsto> moved_from v)
        \<and> (\<forall>b. b \<notin> tset t \<longrightarrow> blocks (heap w3) b = blocks (heap w1) b)"
      then have o3: "objs w3 tmp = Some (moved_from v)" by simp
      show "spec (dtor tmp) w3 (\<lambda>_ w'. world_ok E w' \<and> (\<exists>v. objs w' = (objs w)(this \<mapsto> v)
        \<and> rows v = rows u \<and> cols v = cols u \<and> dtype v = dtype u \<and> jit_slot v < 0 \<and> (tset t = {} \<longrightarrow> same_contents w u w' v))) (failed E w)"
      proof (rule spec_mono [OF spec_dtor [OF _ o3]])
        show "world_ok E w3" using a by simp
        fix z and w4 :: "'o world"
        assume d: "world_ok E w4 \<and> objs w4 = (objs w3)(tmp := None) \<and>
          (\<forall>b. b \<notin> tset (moved_from v) \<longrightarrow> blocks (heap w4) b = blocks (heap w3) b)"
        then have "objs w4 = (objs w)(this \<mapsto> ?v)"
          using a o1 n ne by (simp add: fun_upd_twist fun_upd_idem)
        moreover have "same_contents w u w4 ?v" if "tset t = {}"
        proof -
          have "blocks (heap w4) = blocks (heap w2)" using that a d w1 by (simp add: fun_eq_iff)
          from load_blocks_eq [OF this] show ?thesis using sc by (simp add: same_contents_def)
        qed
        ultimately show "world_ok E w4 \<and> (\<exists>v. objs w4 = (objs w)(this \<mapsto> v)
          \<and> rows v = rows u \<and> cols v = cols u \<and> dtype v = dtype u \<and> jit_slot v < 0 \<and> (tset t = {} \<longrightarrow> same_contents w u w4 v))"
          using d m by (intro conjI exI [of _ ?v]) (auto simp: made_def)
      qed simp
    qed simp
  qed simp
qed (use k in \<open>simp add: failed_def world_ok_def\<close>)

section \<open>Programs over tensors\<close>

datatype cmd =
    EmptyOn nat Device int int Dtype
  | ZerosOn nat Device int int Dtype
  | View nat Device ptr int int Dtype
  | ToDevice nat nat Device
  | MoveCtor nat nat
  | MoveAssign nat nat
  | CopyCtor nat nat nat
  | CopyAssign nat nat nat
  | Resize nat int int Dtype
  | Destroy nat

fun run_cmd :: "cmd \<Rightarrow> ('o, unit) act" where
  "run_cmd (EmptyOn i d r c dt) = construct i (empty_on d r c dt)"
| "run_cmd (ZerosOn i d r c dt) = construct i (zeros_on d r c dt)"
| "run_cmd (View i d p r c dt) = construct i (view d p r c dt)"
| "run_cmd (ToDevice i j d) = construct i (with_obj j (\<lambda>s. to_device s d))"
| "run_cmd (MoveCtor i j) = move_ctor i j"
| "run_cmd (MoveAssign i j) = move_assign i j"
| "run_cmd (CopyCtor i j tmp) = copy_ctor i j tmp"
| "run_cmd (CopyAssign i j tmp) = copy_assign i j tmp"
| "run_cmd (Resize i r c dt) = resize_obj i r c dt"
| "run_cmd (Destroy i) = dtor i"

text \<open>
  What the language asks of the caller: a constructor runs at an address that is not in use, any
  other operation on live objects, dimensions are \<^verbatim>\<open>int\<close>s, and a view that is read must still point
  to enough live memory. Nothing is asked of tensors that own their storage.
\<close>

definition source_ok :: "'o world \<Rightarrow> nat \<Rightarrow> bool" where
  "source_ok w j \<longleftrightarrow> (\<exists>t. objs w j = Some t \<and> (\<not> owns t \<longrightarrow> readable w t))"

fun cmd_ok :: "'o world \<Rightarrow> cmd \<Rightarrow> bool" where
  "cmd_ok w (EmptyOn i d r c dt) \<longleftrightarrow> objs w i = None \<and> is_int32 r \<and> is_int32 c"
| "cmd_ok w (ZerosOn i d r c dt) \<longleftrightarrow> objs w i = None \<and> is_int32 r \<and> is_int32 c"
| "cmd_ok w (View i d p r c dt) \<longleftrightarrow> objs w i = None \<and> is_int32 r \<and> is_int32 c"
| "cmd_ok w (ToDevice i j d) \<longleftrightarrow> objs w i = None \<and> source_ok w j"
| "cmd_ok w (MoveCtor i j) \<longleftrightarrow> objs w i = None \<and> objs w j \<noteq> None"
| "cmd_ok w (MoveAssign i j) \<longleftrightarrow> objs w i \<noteq> None \<and> objs w j \<noteq> None"
| "cmd_ok w (CopyCtor i j tmp) \<longleftrightarrow> objs w i = None \<and> source_ok w j \<and> objs w tmp = None \<and> tmp \<noteq> i"
| "cmd_ok w (CopyAssign i j tmp) \<longleftrightarrow> objs w i \<noteq> None \<and> source_ok w j \<and> objs w tmp = None"
| "cmd_ok w (Resize i r c dt) \<longleftrightarrow> objs w i \<noteq> None \<and> is_int32 r \<and> is_int32 c"
| "cmd_ok w (Destroy i) \<longleftrightarrow> objs w i \<noteq> None"

lemma source_okE:
  assumes "source_ok w j" "world_ok E w"
  obtains t where "objs w j = Some t" "readable w t" "is_int32 (rows t)" "is_int32 (cols t)"
  using assms owns_readable invD(3) by (fastforce simp: source_ok_def world_ok_def tensor_ok_def)

lemma spec_construct_ok:
  assumes k: "world_ok E w" and n: "objs w i = None" and m: "spec m w Q (failed E w)"
    and q: "\<And>t w'. Q t w' \<Longrightarrow> fresh_tensor E w t w' \<and> jit_slot t < 0"
  shows "spec (construct i m) w (\<lambda>_ w'. world_ok E w') (world_ok E)"
proof (rule spec_mono [OF spec_construct [OF k n, where P = "\<lambda>_ _. True"]])
  show "spec m w (\<lambda>t w'. fresh_tensor E w t w' \<and> jit_slot t < 0 \<and> True) (failed E w)"
    by (rule spec_mono [OF m]) (auto dest: q)
qed (use k failed_world_ok in auto)

lemma spec_view:
  assumes "world_inv E w" "is_int32 r" "is_int32 c"
  shows "spec (view d p r c dt) w (\<lambda>t w'. fresh_tensor E w t w' \<and> jit_slot t < 0 \<and> True) (failed E w)"
  unfolding view_def using assms
  by (intro spec_lift_seq) (auto simp: fresh_tensor_def tensor_ok_def failed_def)

lemma slots_replace:
  assumes "slots_ok w" "objs w i = Some t" "jit_slot t' = jit_slot t"
  shows "slots_ok (set_obj i (Some t') w)"
  using assms unfolding slots_ok_def by (auto split: if_splits)

lemma resize_symbolic: "0 \<le> jit_slot t \<Longrightarrow> \<exists>e. resize r c dt t w = ((Inl e, t), w)"
  by (simp add: resize_def check_not_symbolic_def)

lemma spec_resize_obj:
  assumes k: "world_ok E w" and t: "objs w i = Some t" and rc: "is_int32 r" "is_int32 c"
  shows "spec (resize_obj i r c dt) w (\<lambda>_ w'. world_ok E w' \<and> (\<exists>v. objs w' = (objs w)(i \<mapsto> v) \<and> (0 \<le> jit_slot v \<longrightarrow> v = t)))
     (\<lambda>w'. world_ok E w' \<and> (\<exists>v. objs w' = (objs w)(i \<mapsto> v) \<and> (0 \<le> jit_slot v \<longrightarrow> v = t)))"
proof -
  from k have iw: "world_inv E w" and s: "slots_ok w" by (simp_all add: world_ok_def)
  let ?w = "set_obj i None w"
  obtain res t' w1 where r: "resize r c dt t w = ((res, t'), w1)" by (metis prod.exhaust)
  note tk = inv_take [OF iw t]
  have "resize r c dt t ?w = ((res, t'), set_obj i None w1)" by (simp add: resize_set_obj r)
  then have "safe res \<and> resize_ok E ?w t' (set_obj i None w1)"
    by (rule resize_keeps_inv [rotated -1]) (use tk rc in simp_all)
  then have sr: "safe res" and k1: "keeps ?w (set_obj i None w1)" "world_inv (tset t' \<union> E) (set_obj i None w1)"
    "tset t' \<inter> E = {}" "tensor_ok (rt w1) (heap w1) t'" by (auto simp: resize_ok_def)
  have kw: "slot_to_tensor w1 = slot_to_tensor w" "retarget_hook w1 = retarget_hook w" "objs w1 = objs w"
    using resize_keeps [OF r] by (simp_all add: keeps_def)
  have "world_inv E (set_obj i (Some t') w1)"
    using inv_put [OF k1(2), of i] k1(3,4) by (simp add: set_obj_same)
  moreover have "slots_ok (set_obj i (Some t') w1)"
    by (rule slots_replace [of _ _ t]) (use kw t s resize_keeps [OF r] in \<open>simp_all add: slots_ok_cong [of w1 w]\<close>)
  ultimately have "world_ok E (set_obj i (Some t') w1)" by (simp add: world_ok_def)
  moreover have "t' = t" if "0 \<le> jit_slot t'"
    using resize_symbolic [of t r c dt w] r that resize_keeps [OF r] by auto
  moreover have "objs (set_obj i (Some t') w1) = (objs w)(i \<mapsto> t')" using kw by simp
  ultimately have "world_ok E (set_obj i (Some t') w1) \<and> (\<exists>v. objs (set_obj i (Some t') w1) = (objs w)(i \<mapsto> v) \<and> (0 \<le> jit_slot v \<longrightarrow> v = t))"
    by blast
  moreover have "resize_obj i r c dt w = (res, set_obj i (Some t') w1)" using r t by (simp add: resize_obj_def with_obj_def)
  ultimately show ?thesis using sr unfolding spec_def safe_def by (simp split: sum.splits err.splits)
qed

lemma spec_copy_ctor:
  assumes k: "world_ok E w" and s: "objs w src = Some u" and t: "objs w this = None" and n: "objs w tmp = None" "tmp \<noteq> this"
    and r: "readable w u"
  shows "spec (copy_ctor this src tmp) w (\<lambda>_ w'. world_ok E w' \<and> (\<exists>v. objs w' = (objs w)(this \<mapsto> v)
      \<and> rows v = rows u \<and> cols v = cols u \<and> dtype v = dtype u \<and> jit_slot v < 0 \<and> same_contents w u w' v))
     (\<lambda>w'. world_ok E w' \<and> objs w' = objs w)"
proof -
  let ?w = "set_obj this (Some empty_tensor) w"
  have k': "world_ok E ?w"
    using k t inv_put [of empty_tensor E w this] slots_put [of w this empty_tensor]
    by (simp add: world_ok_def tensor_ok_def is_int32_def int32_max_def)
  have ne: "src \<noteq> this" using s t by auto
  have r': "readable ?w u" using r by (simp add: readable_def)
  have sc: "same_contents ?w u w' v = same_contents w u w' v" for w' v by (simp add: same_contents_def)
  have "spec (assign_clone this src tmp) ?w (\<lambda>_ w'. world_ok E w' \<and> (\<exists>v. objs w' = (objs w)(this \<mapsto> v)
      \<and> rows v = rows u \<and> cols v = cols u \<and> dtype v = dtype u \<and> jit_slot v < 0 \<and> same_contents w u w' v)) (failed E ?w)"
    by (rule spec_mono [OF spec_assign_clone [OF k', of src u this empty_tensor tmp]])
      (use s ne n r' sc in auto)
  moreover have "world_ok E (set_obj this None w') \<and> objs (set_obj this None w') = objs w" if "failed E ?w w'" for w'
  proof -
    from that have o: "objs w' this = Some empty_tensor" "objs w' = (objs w)(this \<mapsto> empty_tensor)"
      and wo: "world_ok E w'" using failed_world_ok [OF that k'] by (auto simp: failed_def keeps_def)
    have "world_inv E (set_obj this None w')" using inv_take(1) [of E w' this empty_tensor] wo o by (simp add: world_ok_def)
    moreover have "slots_ok (set_obj this None w')"
      using slots_drop [of w' this empty_tensor] wo o by (simp add: world_ok_def hook_def)
    ultimately show ?thesis using o t by (simp add: world_ok_def fun_upd_idem)
  qed
  ultimately show ?thesis
    by (auto simp: spec_def copy_ctor_def split: prod.splits sum.splits err.splits)
qed

lemma run_cmd_ok:
  assumes k: "world_ok E w" and c: "cmd_ok w cmd"
  shows "spec (run_cmd cmd) w (\<lambda>_ w'. world_ok E w') (world_ok E)"
proof -
  from k have i: "world_inv E w" by (simp add: world_ok_def)
  show ?thesis
  proof (cases cmd)
    case (EmptyOn x d r c dt)
    then show ?thesis using c
      by (auto intro!: spec_construct_ok [OF k _ spec_empty_on [OF i]] simp: made_def)
  next
    case (ZerosOn x d r c dt)
    then show ?thesis using c by (auto intro!: spec_construct_ok [OF k _ spec_zeros_on [OF i]] simp: made_def)
  next
    case (View x d p r c dt)
    then show ?thesis using c by (auto intro!: spec_construct_ok [OF k _ spec_view [OF i]])
  next
    case (ToDevice x j d)
    with c k obtain t where t: "objs w j = Some t" "readable w t" "is_int32 (rows t)" "is_int32 (cols t)"
      by (auto elim: source_okE)
    from t have "spec (with_obj j (\<lambda>s. to_device s d)) w
        (\<lambda>v w'. made E w d (rows t) (cols t) (dtype t) v w' \<and> same_contents w t w' v) (failed E w)"
      using spec_to_device [OF i] by (simp add: spec_with_obj)
    then show ?thesis using ToDevice c by (auto intro!: spec_construct_ok [OF k] simp: made_def)
  next
    case (MoveCtor x j)
    then show ?thesis using c by (auto intro!: spec_mono [OF spec_move_ctor [OF k]])
  next
    case (MoveAssign x j)
    then show ?thesis using c k
      by (cases "x = j") (auto intro!: spec_mono [OF spec_move_assign [OF k]] simp: move_assign_def [of j j])
  next
    case (CopyCtor x j tmp)
    then show ?thesis using c k by (auto intro!: spec_mono [OF spec_copy_ctor [OF k]] elim!: source_okE)
  next
    case (CopyAssign x j tmp)
    then show ?thesis using c k failed_world_ok [OF _ k]
      by (cases "x = j") (auto intro!: spec_mono [OF spec_assign_clone [OF k]] elim!: source_okE simp: copy_assign_def)
  next
    case (Resize x r c dt)
    then show ?thesis using c by (auto intro!: spec_mono [OF spec_resize_obj [OF k]])
  next
    case (Destroy x)
    then show ?thesis using c by (auto intro!: spec_mono [OF spec_dtor [OF k]])
  qed
qed

end
