(* ===== verification/TensorProps.thy ===== *)
theory TensorProps
  imports TensorInv
begin

text \<open>
  The properties of \<^verbatim>\<open>brotensor::Tensor\<close>: memory safety of every program over tensors, storage
  stability of \<^verbatim>\<open>resize\<close>, contents across devices, element access and storage sizes. Each rests
  on the invariant of theory \<open>TensorInv\<close>. The witnesses use a world with the CPU backend
  serving the CPU and Vulkan slots.
\<close>

inductive reach :: "'o world \<Rightarrow> 'o world \<Rightarrow> bool" for w0 where
  reach_refl: "reach w0 w0"
| reach_step: "reach w0 w \<Longrightarrow> cmd_ok w c \<Longrightarrow> run_cmd c w = (r, w') \<Longrightarrow> reach w0 w'"

lemma reach_world_ok: "reach w0 w \<Longrightarrow> world_ok E w0 \<Longrightarrow> world_ok E w"
proof (induction rule: reach.induct)
  case (reach_step w c r w')
  then have "spec (run_cmd c) w (\<lambda>_ w'. world_ok E w') (world_ok E)" using run_cmd_ok by blast
  then show ?case using reach_step(3) by (cases r) (auto dest: spec_result spec_throws)
qed

definition demo_mem :: mem where
  "demo_mem = \<lparr>blocks = [0 \<mapsto> ''abcdefgh''], next_block = 1, garbage = (\<lambda>_ _. CHR ''?''), malloc_fails = (\<lambda>_. False)\<rparr>"

definition demo_world :: "unit world" where
  "demo_world = \<lparr>rt = demo_rt, heap = demo_mem, g_alloc_count = 0, g_alloc_bytes = 0,
     objs = Map.empty, retarget_hook = False, slot_to_tensor = Map.empty\<rparr>"

lemma demo_world_simps [simp]:
  "rt demo_world = demo_rt" "heap demo_world = demo_mem" "objs demo_world = Map.empty"
  "g_alloc_count demo_world = 0" "g_alloc_bytes demo_world = 0"
  "slot_to_tensor demo_world = Map.empty" "\<not> retarget_hook demo_world"
  by (simp_all add: demo_world_def)

lemma demo_world_ok: "world_ok {0} demo_world"
  using alloc_backend_cpu
  by (auto simp: world_ok_def world_inv_def slots_ok_def demo_mem_def mem_inv_def backends_ok_def
      demo_rt_def split: if_splits)

lemmas act_eval = sbnd_def lift_def ret_def reading_def heap_act_def backend_act_def backend_alloc_def
  Let_def check_dims_def check_quant_cols_def check_not_symbolic_def bytes_def dtype_storage_bytes_def dtype_defs size_wrap_def

lemma demo_alloc: "alloc_for demo_rt (vulkan 0) = Inr cpu_alloc_table" "alloc_for demo_rt cpu = Inr cpu_alloc_table"
  "resolve_device_alias demo_rt (vulkan 0) = vulkan 0" "resolve_device_alias demo_rt cpu = cpu"
  by (simp_all add: alloc_for_def resolve_device_alias_def device_test_defs demo_rt_def)

lemma demo_malloc: "alloc cpu_alloc_table n i demo_mem = (if n = 0 then Inr (Null, demo_mem) else
   Inr (Ptr 1 0, demo_mem\<lparr>blocks := (blocks demo_mem)(1 \<mapsto> replicate n (CHR ''?'')), next_block := 2\<rparr>))"
  by (simp add: cpu_alloc_table_def cpu_alloc_def malloc_def demo_mem_def Let_def map_replicate_const numeral_2_eq_2)

lemma demo_empty_on: "empty_on (vulkan 0) 1 2 FP32 demo_world = (Inr
   (empty_tensor\<lparr>device := vulkan 0, rows := 1, cols := 2, data := Ptr 1 0, owns := True, cap_bytes := 8\<rparr>),
   demo_world\<lparr>g_alloc_count := 1, g_alloc_bytes := 8,
     heap := demo_mem\<lparr>blocks := (blocks demo_mem)(1 \<mapsto> replicate 8 (CHR ''?'')), next_block := 2\<rparr>\<rparr>)"
  by (simp add: empty_on_def act_eval demo_alloc demo_malloc empty_tensor_def)
definition demo_tensor :: Tensor where
  "demo_tensor = empty_tensor\<lparr>device := vulkan 0, rows := 1, cols := 2, data := Ptr 1 0, owns := True, cap_bytes := 8\<rparr>"

definition demo_world1 :: "unit world" where
  "demo_world1 = snd (run_cmd (EmptyOn 7 (vulkan 0) 1 2 FP32) demo_world)"

lemma demo_world1_simps:
  "run_cmd (EmptyOn 7 (vulkan 0) 1 2 FP32) demo_world = (Inr (), demo_world1)"
  "objs demo_world1 = [7 \<mapsto> demo_tensor]" "rt demo_world1 = demo_rt"
  "heap demo_world1 = demo_mem\<lparr>blocks := (blocks demo_mem)(1 \<mapsto> replicate 8 (CHR ''?'')), next_block := 2\<rparr>"
  by (simp_all add: demo_world1_def construct_def sbnd_def demo_empty_on demo_tensor_def)

lemma demo_reach: "reach demo_world demo_world1"
  by (rule reach_step [OF reach_refl _ demo_world1_simps(1)]) (simp add: is_int32_def int32_max_def)

lemma demo_world1_ok: "world_ok {0} demo_world1"
  using reach_world_ok [OF demo_reach demo_world_ok] .

section \<open>Memory safety\<close>



lemmas demo_eval = act_eval demo_alloc demo_world1_simps demo_tensor_def empty_tensor_def cpu_alloc_table_def cpu_memcpy_d2h_def
  cpu_memcpy_h2d_def cpu_memcpy_d2d_def cpu_memcpy_peer_def memcpy_def load_def store_def memset0_def demo_mem_def window_def malloc_def mfree_def 
  cpu_alloc_def map_replicate_const device_test_defs

lemma demo_from_raw: "\<exists>t w'. from_raw_bytes_on cpu (Ptr 0 0) 1 4 FP16 8 demo_world = (Inr t, w')"
  by (simp add: from_raw_bytes_on_def empty_on_def owning_def upload_def demo_eval)

lemma demo_to_host: "\<exists>t w'. to_host_vector demo_tensor demo_world1 = (Inr t, w')"
  by (simp add: to_host_vector_def to_host_vector_as_def download_def check_dtype_def tsize_def is_int32_def int32_max_def int64_max_def demo_eval cong: if_cong)

lemma demo_to_device: "\<exists>t w'. to_device demo_tensor cpu demo_world1 = (Inr t, w')"
  by (simp add: to_device_def to_copy_def empty_on_def owning_def demo_eval is_cpu_def)

section \<open>Contents\<close>

text \<open>
  C29: \<^verbatim>\<open>Tensor::to\<close> carries the contents over, whichever of its four copy paths runs (upload, download, peer
  copy, or the bounce through a host buffer between two backends). The result has the source's
  shape and dtype on the (alias-resolved) target, owns fresh storage with the source's bytes, and
  nothing that was live before changes. If it throws, no storage is left behind.
\<close>

theorem to_device_contents:
  assumes "world_inv E w" "is_int32 (rows s)" "is_int32 (cols s)" "readable w s"
  shows "case to_device s d w of
      (Inr t, w') \<Rightarrow> rows t = rows s \<and> cols t = cols s \<and> dtype t = dtype s \<and> device t = resolve_device_alias (rt w) d
        \<and> (\<forall>n. bytes s = Inr n \<and> 0 < n \<and> data s \<noteq> Null \<longrightarrow>
             (\<exists>bs. load (data s) n (heap w) = Inr bs \<and> load (data t) n (heap w') = Inr bs))
        \<and> tset t \<inter> dom (blocks (heap w)) = {}
        \<and> (\<forall>b. blocks (heap w) b \<noteq> None \<longrightarrow> blocks (heap w') b = blocks (heap w) b)
    | (Inl e, w') \<Rightarrow> (\<exists>m. e = Throw m) \<and> blocks (heap w') = blocks (heap w)"
proof -
  note sp = spec_to_device [OF assms, of d]
  obtain r w' where r: "to_device s d w = (r, w')" by force
  show ?thesis
  proof (cases r)
    case (Inl e)
    then show ?thesis using spec_throws [OF sp] r by (auto simp: failed_def)
  next
    case (Inr t)
    then have "made E w d (rows s) (cols s) (dtype s) t w'" "same_contents w s w' t" using spec_result [OF sp] r by auto
    then show ?thesis using r Inr by (auto simp: made_def fresh_tensor_def same_contents_def extends_def)
  qed
qed

theorem to_device_contents_witness:
  "world_inv {0} demo_world1 \<and> readable demo_world1 demo_tensor
   \<and> (\<exists>t w'. to_device demo_tensor cpu demo_world1 = (Inr t, w') \<and> load (data t) 8 (heap w') = Inr (replicate 8 (CHR ''?'')))"
proof -
  have i: "world_inv {0} demo_world1" using demo_world1_ok by (simp add: world_ok_def)
  have r: "readable demo_world1 demo_tensor"
    by (rule owns_readable [OF i, of 7]) (simp_all add: demo_world1_simps demo_tensor_def)
  have b: "bytes demo_tensor = Inr 8" by (simp add: demo_tensor_def act_eval)
  have l: "load (data demo_tensor) 8 (heap demo_world1) = Inr (replicate 8 (CHR ''?''))"
    by (simp add: load_def demo_world1_simps demo_tensor_def window_def)
  have "is_int32 (rows demo_tensor)" "is_int32 (cols demo_tensor)" "data demo_tensor \<noteq> Null"
    by (simp_all add: demo_tensor_def is_int32_def int32_max_def)
  with to_device_contents [OF i _ _ r, of cpu] demo_to_device i r b l show ?thesis by auto
qed

text \<open>
  \<^verbatim>\<open>zeros_on\<close> gives zeros. Whatever it was asked for, if it returns, every byte of the tensor is
  zero and lies in fresh storage of exactly \<^verbatim>\<open>bytes()\<close> bytes.
\<close>

theorem zeros_on_zeroed:
  assumes "world_inv E w" "is_int32 r" "is_int32 c" "zeros_on d r c dt w = (Inr t, w')"
  shows "rows t = r \<and> cols t = c \<and> dtype t = dt \<and> (\<exists>n. bytes t = Inr n \<and> cap_bytes t = n \<and>
    (0 < n \<longrightarrow> load (data t) n (heap w') = Inr (replicate n (CHR 0x00)) \<and> tset t \<noteq> {} \<and> tset t \<inter> dom (blocks (heap w)) = {}))"
proof -
  from spec_result [OF spec_zeros_on [OF assms(1-3)] assms(4)]
  have m: "made E w d r c dt t w'" and z: "\<forall>n. bytes t = Inr n \<and> 0 < n \<longrightarrow> load (data t) n (heap w') = Inr (replicate n (CHR 0x00))"
    by auto
  from m obtain n where n: "bytes t = Inr n" "if n = 0 then data t = Null else owns t \<and> cap_bytes t = n \<and> (\<exists>b. data t = Ptr b 0)"
    by (auto simp: made_def)
  have k: "tensor_ok (rt w') (heap w') t" using m by (simp add: made_def fresh_tensor_def)
  have c: "cap_bytes t = n"
  proof (cases "n = 0")
    case True
    then have "\<not> owns t" using k n(2) by (auto simp: tensor_ok_def)
    then show ?thesis using k True by (simp add: tensor_ok_def)
  qed (use n(2) in simp)
  have "load (data t) n (heap w') = Inr (replicate n (CHR 0x00)) \<and> tset t \<noteq> {} \<and> tset t \<inter> dom (blocks (heap w)) = {}" if "0 < n"
    using z n that m by (auto simp: made_def fresh_tensor_def)
  then show ?thesis using m n(1) c by (simp add: made_def)
qed

theorem zeros_on_zeroed_witness:
  "world_inv {0} demo_world \<and> (\<exists>t w'. zeros_on (vulkan 0) 1 2 FP32 demo_world = (Inr t, w') \<and>
     load (data t) 8 (heap w') = Inr (replicate 8 (CHR 0x00)))"
proof -
  have i: "world_inv {0} demo_world" using demo_world_ok by (simp add: world_ok_def)
  have b: "bytes demo_tensor = Inr 8" by (simp add: demo_tensor_def act_eval)
  obtain t w' where t: "zeros_on (vulkan 0) 1 2 FP32 demo_world = (Inr t, w')" "bytes t = Inr 8"
    using b by (simp add: zeros_on_def sbnd_def demo_empty_on owning_def lift_def ret_def backend_zero_def
        backend_act_def heap_act_def demo_alloc cpu_alloc_table_def cpu_memset_zero_def memset0_def store_def
        demo_tensor_def)
  have "load (data t) 8 (heap w') = Inr (replicate 8 (CHR 0x00))"
    using zeros_on_zeroed [OF i _ _ t(1)] t(2) by (simp add: is_int32_def int32_max_def)
  then show ?thesis using i t by blast
qed

section \<open>Resizing\<close>

lemma regrow_result:
  assumes i: "world_inv (tset t \<union> E) w" "tset t \<inter> E = {}" "tensor_ok (rt w) (heap w) t"
    and r: "regrow r c dt n t w = ((Inr (), t'), w')"
  shows "rows t' = r \<and> cols t' = c \<and> dtype t' = dt \<and> cap_bytes t' = n
    \<and> (g_alloc_count w' = (if n = 0 then g_alloc_count w else size_wrap (g_alloc_count w + 1)))"
proof -
  let ?t1 = "t\<lparr>data := Null, owns := False, cap_bytes := 0\<rparr>"
  from spec_release [OF i] obtain w1 where w1: "release t w = (Inr ?t1, w1)" "world_inv E w1" "g_alloc_count w1 = g_alloc_count w"
    by (auto simp: spec_def split: prod.splits sum.splits err.splits)
  obtain p where p: "backend_alloc (resolve_device_alias (rt w1) (device t)) n w1 = (Inr p, w')"
    and t': "t' = ?t1\<lparr>device := resolve_device_alias (rt w1) (device t), data := p, owns := p \<noteq> Null,
        cap_bytes := (if p \<noteq> Null then n else 0), rows := r, cols := c, dtype := dt\<rparr>"
    using r w1(1) by (auto simp: regrow_def Let_def split: prod.splits sum.splits)
  have "p \<noteq> Null \<longleftrightarrow> n \<noteq> 0" using spec_result [OF spec_backend_alloc [OF w1(2)] p] by (auto split: if_splits)
  moreover have "g_alloc_count w' = (if n = 0 then g_alloc_count w else size_wrap (g_alloc_count w + 1))"
    using p w1(3) by (auto simp: backend_alloc_def Let_def split: prod.splits sum.splits if_splits)
  ultimately show ?thesis using t' by simp
qed

lemma size_wrap_Suc_neq: "size_wrap (k + 1) \<noteq> k"
proof
  assume a: "size_wrap (k + 1) = k"
  then have "k < 18446744073709551616" unfolding size_wrap_def by (metis mod_less_divisor zero_less_numeral)
  then show False using a by (cases "k + 1 = 18446744073709551616") (auto simp: size_wrap_def)
qed

text \<open>
  C30: \<^verbatim>\<open>resize\<close> keeps storage whenever it can. On a tensor that owns its storage or has none, a successful
  \<^verbatim>\<open>resize\<close> sets shape and dtype, leaves a capacity of the larger of the old one and the bytes now needed,
  does not move the data (or touch anything else) when the new shape fits, and goes to the allocator exactly when
  the capacity is exceeded. A view is left as it is: \<^verbatim>\<open>resize\<close> succeeds on it only when nothing would change.
\<close>

theorem resize_storage:
  fixes w :: "'o world"
  assumes i: "world_inv (tset t \<union> E) w" "tset t \<inter> E = {}" "tensor_ok (rt w) (heap w) t"
    and rc: "is_int32 r" "is_int32 c" and r: "resize r c dt t w = ((Inr (), t'), w')"
  shows "rows t' = r \<and> cols t' = c \<and> dtype t' = dt
    \<and> (owns t \<or> data t = Null \<longrightarrow> (\<exists>n. bytes t' = Inr n \<and> cap_bytes t' = max (cap_bytes t) n
         \<and> (owns t \<and> n \<le> cap_bytes t \<longrightarrow> data t' = data t \<and> w' = w)
         \<and> (g_alloc_count w' \<noteq> g_alloc_count w \<longleftrightarrow> cap_bytes t < n)))
    \<and> (\<not> owns t \<and> data t \<noteq> Null \<longrightarrow> t' = t \<and> w' = w)"
proof (cases rule: resize_cases [of r c dt t, where ?'o = 'o])
  case (1 e)
  then show ?thesis using r by simp
next
  case 2
  then have e: "t' = t" "w' = w" using r by auto
  have "\<exists>n. bytes t = Inr n \<and> n \<le> cap_bytes t" if "owns t" using i(3) that by (auto simp: tensor_ok_def)
  then show ?thesis using 2 e by auto
next
  case (3 n)
  have g: "regrow r c dt n t w = ((Inr (), t'), w')" using r 3(1) by simp
  note s = regrow_result [OF i g]
  have cap: "cap_bytes t = 0" if "\<not> owns t" using i(3) that by (simp add: tensor_ok_def)
  have "bytes t' = Inr n" using bytes_checked [of t' "''Tensor::resize''" "()"] s 3 by simp
  moreover have "max (cap_bytes t) n = n" using 3(7) cap by auto
  moreover have "\<not> (owns t \<and> n \<le> cap_bytes t)" using 3(7) by auto
  moreover have "g_alloc_count w' \<noteq> g_alloc_count w \<longleftrightarrow> cap_bytes t < n"
    using s 3(7) cap size_wrap_Suc_neq [of "g_alloc_count w"] by auto
  ultimately show ?thesis using s 3(8) by auto
next
  case (4 n)
  then have e: "t' = t\<lparr>rows := r, cols := c, dtype := dt\<rparr>" "w' = w" using r by auto
  have "bytes t' = Inr n" using bytes_checked [of t' "''Tensor::resize''" "()"] 4 e by simp
  then show ?thesis using e 4(7,8) by (simp add: max_def)
qed

theorem resize_storage_witness:
  "\<exists>t' w'. resize 2 1 FP32 demo_tensor (set_obj 7 None demo_world1) = ((Inr (), t'), w')
     \<and> data t' = data demo_tensor \<and> cap_bytes t' = 8 \<and> rows t' = 2"
proof -
  let ?w = "set_obj 7 None demo_world1"
  have i: "world_inv {0} demo_world1" using demo_world1_ok by (simp add: world_ok_def)
  have o: "objs demo_world1 7 = Some demo_tensor" by (simp add: demo_world1_simps)
  note k = inv_take [OF i o]
  obtain t' w' where r: "resize 2 1 FP32 demo_tensor ?w = ((Inr (), t'), w')" and b: "bytes t' = Inr 8"
    by (simp add: resize_def act_eval demo_tensor_def)
  have "rows t' = 2 \<and> cols t' = 1 \<and> dtype t' = FP32 \<and> (owns demo_tensor \<or> data demo_tensor = Null \<longrightarrow>
      (\<exists>n. bytes t' = Inr n \<and> cap_bytes t' = max (cap_bytes demo_tensor) n
         \<and> (owns demo_tensor \<and> n \<le> cap_bytes demo_tensor \<longrightarrow> data t' = data demo_tensor \<and> w' = ?w)
         \<and> (g_alloc_count w' \<noteq> g_alloc_count ?w \<longleftrightarrow> cap_bytes demo_tensor < n)))
    \<and> (\<not> owns demo_tensor \<and> data demo_tensor \<noteq> Null \<longrightarrow> t' = demo_tensor \<and> w' = ?w)"
    by (rule resize_storage [OF k(1,2) _ _ _ r]) (use k(3) in \<open>simp_all add: is_int32_def int32_max_def\<close>)
  then show ?thesis using r b by (simp add: demo_tensor_def)
qed

section \<open>Moves\<close>

text \<open>
  C31: a move hands over storage and identity. Move construction and move assignment put the
  source's buffer, shape and trace slot into the target and leave the source empty; move assignment frees
  exactly the storage the target had; the jit table follows a symbolic tensor to its new address.
\<close>

theorem move_transfers:
  assumes k: "world_ok E w" and s: "objs w src = Some u" and ne: "this \<noteq> src"
    and r: "(objs w this = None \<and> move_ctor this src w = (res, w')) \<or> (objs w this \<noteq> None \<and> move_assign this src w = (res, w'))"
  shows "res = Inr () \<and> (\<exists>v. objs w' this = Some v \<and> data v = data u \<and> rows v = rows u \<and> cols v = cols u \<and> dtype v = dtype u
      \<and> device v = device u \<and> owns v = owns u \<and> cap_bytes v = cap_bytes u)
    \<and> (\<exists>v. objs w' src = Some v \<and> data v = Null \<and> \<not> owns v \<and> rows v = 0 \<and> cols v = 0 \<and> jit_slot v < 0)
    \<and> (\<forall>i. i \<noteq> this \<and> i \<noteq> src \<longrightarrow> objs w' i = objs w i)
    \<and> (\<forall>b. (\<forall>t. objs w this = Some t \<longrightarrow> b \<notin> tset t) \<longrightarrow> blocks (heap w') b = blocks (heap w) b)
    \<and> (0 \<le> jit_slot u \<longrightarrow> slot_to_tensor w' (jit_slot u) = Some this)"
proof (cases "objs w this")
  case None
  with r have m: "move_ctor this src w = (res, w')" by simp
  from spec_move_ctor [OF k s None] m have w': "res = Inr ()" "world_ok E w'"
    "objs w' = (objs w)(this \<mapsto> u, src \<mapsto> moved_from u)" "heap w' = heap w"
    by (auto simp: spec_def split: sum.splits err.splits)
  then have "0 \<le> jit_slot u \<longrightarrow> slot_to_tensor w' (jit_slot u) = Some this"
    using ne slots_tracked [of w' this u] by (simp add: world_ok_def)
  then show ?thesis using w' ne by simp
next
  case (Some t)
  with r have m: "move_assign this src w = (res, w')" by simp
  let ?v = "u\<lparr>jit_slot := if 0 \<le> jit_slot u then jit_slot u else - 1\<rparr>"
  from spec_move_assign [OF k Some s ne] m have w': "res = Inr ()" "world_ok E w'"
    "objs w' = (objs w)(this \<mapsto> ?v, src \<mapsto> moved_from u)"
    "\<forall>b. b \<notin> tset t \<longrightarrow> blocks (heap w') b = blocks (heap w) b"
    by (auto simp: spec_def split: sum.splits err.splits)
  then have "0 \<le> jit_slot u \<longrightarrow> slot_to_tensor w' (jit_slot u) = Some this"
    using ne slots_tracked [of w' this ?v] by (cases "0 \<le> jit_slot u") (simp_all add: world_ok_def)
  then show ?thesis using w' ne Some by simp
qed

theorem move_transfers_witness:
  "world_ok {0} demo_world1 \<and> (\<exists>res w'. move_ctor 3 7 demo_world1 = (res, w') \<and> res = Inr ()
     \<and> (\<exists>v. objs w' 3 = Some v \<and> data v = Ptr 1 0) \<and> (\<exists>v. objs w' 7 = Some v \<and> data v = Null))"
proof -
  have o: "objs demo_world1 7 = Some demo_tensor" "objs demo_world1 3 = None" by (simp_all add: demo_world1_simps)
  obtain res w' where m: "move_ctor 3 7 demo_world1 = (res, w')" by force
  from move_transfers [OF demo_world1_ok o(1), of 3 res w'] o(2) m
  have "res = Inr () \<and> (\<exists>v. objs w' 3 = Some v \<and> data v = data demo_tensor) \<and> (\<exists>v. objs w' 7 = Some v \<and> data v = Null)"
    by auto
  then show ?thesis using demo_world1_ok m by (simp add: demo_tensor_def)
qed

section \<open>Storage sizes and element access\<close>

lemma block_bytes_le4: "d \<noteq> F64 \<Longrightarrow> dtype_block_bytes d \<le> 4 * dtype_block_size d"
  by (cases d) (simp_all add: dtype_defs)

lemma numel_le:
  assumes "0 \<le> r" "0 \<le> c" "is_int32 r" "is_int32 c"
  shows "r * c \<le> 4611686014132420609"
proof -
  have "r * c \<le> int32_max * int32_max" by (rule mult_mono) (use assms in \<open>auto simp: is_int32_def int32_max_def\<close>)
  then show ?thesis by (simp add: int32_max_def)
qed

lemma storage_no_wrap:
  assumes n: "0 \<le> n" "n \<le> 4611686014132420609" and d: "d \<noteq> F64" and q: "dtype_is_quant d \<Longrightarrow> n mod int (dtype_block_size d) = 0"
  shows "dtype_storage_bytes d n = Inr (nat n div dtype_block_size d * dtype_block_bytes d)"
proof -
  have "nat n div dtype_block_size d * dtype_block_bytes d \<le> nat n div dtype_block_size d * (4 * dtype_block_size d)"
    using block_bytes_le4 [OF d] by simp
  also have "\<dots> \<le> 4 * nat n"
    using div_times_less_eq_dividend [of "nat n" "dtype_block_size d"] by simp
  also have "\<dots> \<le> size_max" using n by (simp add: size_max_def)
  finally have "size_wrap (nat n div dtype_block_size d * dtype_block_bytes d) = nat n div dtype_block_size d * dtype_block_bytes d"
    by (rule size_wrap_id)
  then show ?thesis using n q
    by (cases "dtype_is_quant d") (simp_all add: dtype_storage_bytes_def Let_def dtype_block_size_plain dtype_block_bytes_plain)
qed

text \<open>
  C38: storage sizes are exact. For every dtype but \<^verbatim>\<open>F64\<close> and all \<^verbatim>\<open>int\<close> dimensions, \<^verbatim>\<open>bytes()\<close> is the true
  size, number of blocks times bytes per block, never reduced modulo \<open>2 ^ 64\<close>, and it is the number of rows times
  \<^verbatim>\<open>row_bytes()\<close>.
\<close>

theorem bytes_exact:
  assumes rc: "0 \<le> rows t" "0 \<le> cols t" "is_int32 (rows t)" "is_int32 (cols t)" and d: "dtype t \<noteq> F64"
    and q: "dtype_is_quant (dtype t) \<longrightarrow> cols t mod int (dtype_block_size (dtype t)) = 0"
  shows "\<exists>n rb. bytes t = Inr n \<and> row_bytes t = Inr rb \<and> n = nat (rows t) * rb
    \<and> rb = nat (cols t) div dtype_block_size (dtype t) * dtype_block_bytes (dtype t)"
proof -
  let ?bs = "dtype_block_size (dtype t)" and ?bb = "dtype_block_bytes (dtype t)"
  have c1: "cols t \<le> 4611686014132420609" using rc(4) by (simp add: is_int32_def int32_max_def)
  have dvd: "?bs dvd nat (cols t)"
  proof (cases "dtype_is_quant (dtype t)")
    case True
    then have "int ?bs dvd cols t" using q by (simp add: dvd_eq_mod_eq_0)
    then show ?thesis using rc(2) by (metis nat_dvd_iff int_dvd_int_iff nat_0_le of_nat_0_le_iff)
  qed (simp add: dtype_block_size_plain)
  have q2: "rows t * cols t mod int ?bs = 0" if "dtype_is_quant (dtype t)"
    using q that by (metis dvd_eq_mod_eq_0 dvd_mult)
  have "bytes t = dtype_storage_bytes (dtype t) (rows t * cols t)"
    by (rule bytes_checked [of t "''Tensor::bytes''" "()"]) (use rc q in simp_all)
  also have "\<dots> = Inr (nat (rows t * cols t) div ?bs * ?bb)"
    by (rule storage_no_wrap) (use rc d q2 numel_le in auto)
  also have "nat (rows t * cols t) div ?bs * ?bb = nat (rows t) * (nat (cols t) div ?bs * ?bb)"
    using dvd rc(1) by (simp add: nat_mult_distrib div_mult_swap)
  finally have "bytes t = Inr (nat (rows t) * (nat (cols t) div ?bs * ?bb))" .
  moreover have "row_bytes t = Inr (nat (cols t) div ?bs * ?bb)"
    using rc q d c1 storage_no_wrap [of "cols t" "dtype t"] by (simp add: row_bytes_def check_dims_def check_quant_cols_def)
  ultimately show ?thesis by blast
qed

theorem bytes_exact_witness:
  "\<exists>n. bytes (empty_tensor\<lparr>rows := 2147483647, cols := 2147483392, dtype := Q4_K\<rparr>) = Inr n \<and> n = 2147483647 * (8388607 * 144)"
  using bytes_exact [of "empty_tensor\<lparr>rows := 2147483647, cols := 2147483392, dtype := Q4_K\<rparr>"]
  by (auto simp: is_int32_def int32_max_def dtype_defs)

text \<open>
  the exception to it. An \<^verbatim>\<open>F64\<close> tensor of 2147483647 by 1073741825 elements needs more than \<open>2 ^ 64\<close>
  bytes; \<^verbatim>\<open>bytes()\<close> returns 8589934584 for it, so \<^verbatim>\<open>empty_on\<close> hands out an 8 GiB buffer for it.
\<close>

theorem bytes_wraps_f64:
  "bytes (empty_tensor\<lparr>rows := 2147483647, cols := 1073741825, dtype := F64\<rparr>) = Inr 8589934584"
  by (simp add: bytes_def check_dims_def check_quant_cols_def dtype_storage_bytes_def dtype_defs size_wrap_def)

lemma f32_bytes:
  "tensor_ok s m t \<Longrightarrow> owns t \<Longrightarrow> dtype t = FP32 \<Longrightarrow>
     \<exists>b bs. data t = Ptr b 0 \<and> blocks m b = Some bs \<and> 4 * (nat (rows t) * nat (cols t)) \<le> length bs"
  using storage_no_wrap [of "rows t * cols t" FP32] numel_le [of "rows t" "cols t"] bytes_checked [of t "''''" "()"]
  by (auto simp: tensor_ok_def dtype_defs nat_mult_distrib)

lemma flat_index:
  assumes "0 \<le> r" "r < R" "0 \<le> c" "c < C" "is_int32 R" "is_int32 C"
  shows "size_wrap (nat (r * C + c)) = nat r * nat C + nat c" "4 * (nat r * nat C + nat c) + 4 \<le> 4 * (nat R * nat C)"
proof -
  have "r * C + c < R * C"
    using assms(2,4) mult_right_mono [of "r + 1" R C] assms(3) by (simp add: distrib_right)
  moreover have "R * C \<le> 4611686014132420609" by (rule numel_le) (use assms in auto)
  ultimately have "nat (r * C + c) \<le> size_max" by (simp add: size_max_def)
  moreover have "nat (r * C + c) = nat r * nat C + nat c"
    using assms by (simp add: nat_add_distrib nat_mult_distrib)
  ultimately show "size_wrap (nat (r * C + c)) = nat r * nat C + nat c" by (simp add: size_wrap_id)
  have "nat r * nat C + nat c < nat R * nat C"
    using \<open>r * C + c < R * C\<close> assms \<open>nat (r * C + c) = _\<close> by (metis nat_mult_distrib nat_less_eq_zless mult_nonneg_nonneg add_nonneg_nonneg less_le_trans less_imp_le order.trans)
  then show "4 * (nat r * nat C + nat c) + 4 \<le> 4 * (nat R * nat C)" by simp
qed

definition in_range :: "Tensor \<Rightarrow> int \<Rightarrow> int \<Rightarrow> bool" where
  "in_range t r c \<longleftrightarrow> 0 \<le> r \<and> r < rows t \<and> 0 \<le> c \<and> c < cols t"

lemma at_addr_eq:
  assumes k: "tensor_ok s m t" "owns t" "device t = cpu" "dtype t = FP32"
  shows "\<exists>b bs. data t = Ptr b 0 \<and> blocks m b = Some bs \<and> (\<forall>r c. at_addr t r c =
     (if in_range t r c then Inr (Ptr b (4 * (nat r * nat (cols t) + nat c)))
      else Inl (Throw ''brotensor: at: index out of range'')))
     \<and> (\<forall>r c. in_range t r c \<longrightarrow> 4 * (nat r * nat (cols t) + nat c) + 4 \<le> length bs)"
proof -
  from f32_bytes [OF k(1,2,4)] obtain b bs where b: "data t = Ptr b 0" "blocks m b = Some bs"
    "4 * (nat (rows t) * nat (cols t)) \<le> length bs" by blast
  have i: "is_int32 (rows t)" "is_int32 (cols t)" using k(1) by (auto simp: tensor_ok_def)
  have "at_addr t r c = (if in_range t r c then Inr (Ptr b (4 * (nat r * nat (cols t) + nat c)))
      else Inl (Throw ''brotensor: at: index out of range''))" for r c
  proof (cases "in_range t r c")
    case True
    then show ?thesis using flat_index [of r "rows t" c "cols t"] i k b
      by (simp add: at_addr_def check_host_def check_dtype_def in_range_def ptr_add_def)
  next
    case False
    then show ?thesis using k b by (auto simp: at_addr_def check_host_def check_dtype_def in_range_def guard_def)
  qed
  moreover have "4 * (nat r * nat (cols t) + nat c) + 4 \<le> length bs" if "in_range t r c" for r c
    using that flat_index(2) [of r "rows t" c "cols t"] i b(3) by (auto simp: in_range_def intro: order.trans)
  ultimately show ?thesis using b by blast
qed

lemma flat_index_inj:
  assumes "nat r * C + nat c = nat r' * C + nat c'" "0 \<le> r" "0 \<le> r'" "0 \<le> c" "0 \<le> c'" "nat c < C" "nat c' < C"
  shows "r = r' \<and> c = c'"
proof -
  have "(nat r * C + nat c) div C = nat r" "(nat r' * C + nat c') div C = nat r'"
    "(nat r * C + nat c) mod C = nat c" "(nat r' * C + nat c') mod C = nat c'"
    using assms(6,7) by simp_all
  then have "nat r = nat r'" "nat c = nat c'" using assms(1) by auto
  then show ?thesis using assms(2-5) by (simp add: nat_eq_iff)
qed

lemma four_apart: "(a :: nat) \<noteq> b \<Longrightarrow> 4 * b + 4 \<le> 4 * a \<or> 4 * a + 4 \<le> 4 * b"
  by arith

text \<open>
  bounds-checked element access. On a CPU FP32 tensor that owns its storage, \<^verbatim>\<open>at(r, c)\<close> throws exactly
  when the index is out of range and otherwise reads inside the buffer; writing an element through it is
  read back, and leaves every other element as it was.
\<close>

theorem at_element:
  assumes k: "tensor_ok s m t" "owns t" "device t = cpu" "dtype t = FP32" and v: "length v = 4"
  shows "(if in_range t r c then (\<exists>x. at t r c m = Inr x \<and> length x = 4)
          else at t r c m = Inl (Throw ''brotensor: at: index out of range''))
    \<and> (in_range t r c \<longrightarrow> (\<exists>m'. at_set t r c v m = Inr m' \<and> at t r c m' = Inr v
         \<and> (\<forall>r' c'. in_range t r' c' \<and> (r', c') \<noteq> (r, c) \<longrightarrow> at t r' c' m' = at t r' c' m)))"
proof -
  from at_addr_eq [OF k] obtain b bs where b: "blocks m b = Some bs"
    and a: "\<And>r c. at_addr t r c = (if in_range t r c then Inr (Ptr b (4 * (nat r * nat (cols t) + nat c)))
      else Inl (Throw ''brotensor: at: index out of range''))"
    and l: "\<And>r c. in_range t r c \<Longrightarrow> 4 * (nat r * nat (cols t) + nat c) + 4 \<le> length bs" by blast
  let ?o = "\<lambda>r c. 4 * (nat r * nat (cols t) + nat c)"
  have rd: "at t r c m' = Inr (window (?o r c) 4 bs')" if "in_range t r c" "blocks m' b = Some bs'" "length bs' = length bs" for r c m' bs'
    using that a l [OF that(1)] by (simp add: at_def load_def)
  let ?m = "m\<lparr>blocks := (blocks m)(b \<mapsto> overlay (?o r c) v bs)\<rparr>"
  have st: "at_set t r c v m = Inr ?m" if "in_range t r c"
    using a l [OF that] that b v by (simp add: at_set_def store_def)
  have len: "length (overlay (?o r c) v bs) = length bs" if "in_range t r c" using l [OF that] v by simp
  have same: "window (?o r c) 4 (overlay (?o r c) v bs) = v" if "in_range t r c"
    using window_overlay_same [of "?o r c" v bs] l [OF that] v by simp
  have other: "window (?o r' c') 4 (overlay (?o r c) v bs) = window (?o r' c') 4 bs"
    if "in_range t r c" "in_range t r' c'" "(r', c') \<noteq> (r, c)" for r' c'
  proof -
    have "nat r * nat (cols t) + nat c \<noteq> nat r' * nat (cols t) + nat c'"
      using flat_index_inj [of r "nat (cols t)" c r' c'] that by (auto simp: in_range_def)
    then have "?o r' c' + 4 \<le> ?o r c \<or> ?o r c + 4 \<le> ?o r' c'" by (rule four_apart)
    then show ?thesis using window_overlay_other [of "?o r c" v bs "?o r' c'" 4] l [OF that(1)] v by simp
  qed
  have "\<exists>x. at t r c m = Inr x \<and> length x = 4" if "in_range t r c"
    using rd [OF that b] l [OF that] by simp
  moreover have "at t r c m = Inl (Throw ''brotensor: at: index out of range'')" if "\<not> in_range t r c"
    using a that by (simp add: at_def)
  moreover have "at t r' c' ?m = at t r' c' m" if "in_range t r c" "in_range t r' c'" "(r', c') \<noteq> (r, c)" for r' c'
    using rd [OF that(2), of ?m] rd [OF that(2) b] len [OF that(1)] other [OF that] by simp
  moreover have "at t r c ?m = Inr v" if "in_range t r c" using rd [OF that, of ?m] len [OF that] same [OF that] by simp
  ultimately show ?thesis using st by (cases "in_range t r c") (auto simp only: if_True if_False)
qed

theorem at_element_witness:
  "\<exists>m'. at_set (demo_tensor\<lparr>device := cpu\<rparr>) 0 1 ''wxyz'' (heap demo_world1) = Inr m'
     \<and> at (demo_tensor\<lparr>device := cpu\<rparr>) 0 1 m' = Inr ''wxyz''"
proof -
  let ?t = "demo_tensor\<lparr>device := cpu\<rparr>"
  have "tensor_ok demo_rt (heap demo_world1) ?t"
    by (simp add: tensor_ok_def demo_tensor_def is_int32_def int32_max_def demo_world1_simps act_eval)
  moreover have "in_range ?t 0 1" by (simp add: in_range_def demo_tensor_def)
  ultimately show ?thesis using at_element [of demo_rt "heap demo_world1" ?t "''wxyz''" 0 1]
    by (auto simp: demo_tensor_def)
qed

section \<open>Host transfers\<close>

lemma from_raw_bytes_spec:
  assumes i: "world_inv E w" and rc: "is_int32 r" "is_int32 c" and l: "nbytes \<noteq> 0 \<Longrightarrow> load src nbytes (heap w) = Inr bs"
  shows "spec (from_raw_bytes_on d src r c dt nbytes) w
    (\<lambda>t w'. made E w d r c dt t w' \<and> bytes t = Inr nbytes \<and> (nbytes \<noteq> 0 \<longrightarrow> load (data t) nbytes (heap w') = Inr bs)) (failed E w)"
proof -
  let ?act = "\<lambda>t n. if n \<noteq> nbytes then lift (Inl (Throw ''brotensor: from_raw_bytes_on: nbytes does not match tensor size''))
      else upload d (data t) src nbytes"
  let ?skip = "\<lambda>n. n = nbytes \<and> nbytes = 0"
  let ?P = "\<lambda>t n w'. n = nbytes \<and> load (data t) nbytes (heap w') = Inr bs"
  have e: "from_raw_bytes_on d src r c dt nbytes = sbnd (empty_on d r c dt) (\<lambda>t. owning t (sbnd (lift (bytes t)) (\<lambda>n.
           if ?skip n then ret t else sbnd (?act t n) (\<lambda>_. ret t))))"
    unfolding from_raw_bytes_on_def
    by (intro arg_cong2 [where f = sbnd] refl ext arg_cong [where f = "owning _"])
      (auto simp: sbnd_def lift_def owning_def split: sum.splits prod.splits)
  have "spec (?act t n) w1 (\<lambda>_ w2. fresh_tensor E w t w2 \<and> ?P t n w2) (fresh_tensor E w t)"
    if m: "made E w d r c dt t w1" "bytes t = Inr n" "\<not> ?skip n" for t w1 n
  proof (cases "n = nbytes")
    case True
    then show ?thesis using spec_upload [OF m(1,2)] l m(3) by simp
  next
    case False
    then show ?thesis using m(1) by (simp add: spec_def lift_def made_def)
  qed
  from spec_make_fill [OF i rc refl this] show ?thesis
    unfolding e by (rule spec_mono) (auto simp: made_def)
qed

text \<open>The host vector's life: allocated, zeroed, filled by the download, read, freed.\<close>

lemma vector_blocks:
  assumes m: "mem_inv m" and k: "0 < n" and a: "malloc n m = Inr (p, m1)" and l: "load src n m = Inr bs"
  shows "\<exists>m2 m3 m4. memset0 p n m1 = Inr m2 \<and> memcpy p src n m2 = Inr m3 \<and> load p n m3 = Inr bs
    \<and> mfree p m3 = Inr m4 \<and> blocks m4 = blocks m \<and> (\<exists>m5. mfree p m2 = Inr m5 \<and> blocks m5 = blocks m)"
proof -
  from malloc_fresh [OF a m] obtain b zs where b: "p = Ptr b 0" "blocks m b = None"
    "length zs = n" "blocks m1 = (blocks m)(b \<mapsto> zs)" by auto
  have n: "length bs = n" using l load_eq_Inr by blast
  let ?m2 = "m1\<lparr>blocks := (blocks m)(b \<mapsto> replicate n (CHR 0x00))\<rparr>" and ?m3 = "m1\<lparr>blocks := (blocks m)(b \<mapsto> bs)\<rparr>"
  have 2: "memset0 p n m1 = Inr ?m2" using b by (simp add: memset0_def store_def overlay_0_full)
  have "load src n ?m2 = Inr bs"
    using l b by (auto simp: load_def split: ptr.splits option.splits if_splits)
  then have 3: "memcpy p src n ?m2 = Inr ?m3" using b n by (simp add: memcpy_def store_def overlay_0_full)
  have e: "(blocks m)(b := None) = blocks m" using b(2) by (rule fun_upd_idem)
  show ?thesis using 2 3 n b e by (simp add: load_def mfree_def window_def)
qed

lemma vector_size:
  assumes "0 \<le> rows t" "0 \<le> cols t" "is_int32 (rows t)" "is_int32 (cols t)" "dtype t \<in> {FP32, FP16, BF16}"
  shows "size_wrap (nat (rows t mod 18446744073709551616) * nat (cols t mod 18446744073709551616)) * dtype_size_bytes (dtype t)
     = nat (rows t * cols t) * dtype_size_bytes (dtype t)"
    and "bytes t = Inr (nat (rows t * cols t) * dtype_size_bytes (dtype t))"
proof -
  have r: "rows t mod 18446744073709551616 = rows t" "cols t mod 18446744073709551616 = cols t"
    using assms by (simp_all add: is_int32_def int32_max_def)
  have n: "rows t * cols t \<le> 4611686014132420609" using numel_le assms by blast
  then have "nat (rows t) * nat (cols t) \<le> size_max" using assms by (simp add: size_max_def flip: nat_mult_distrib)
  then show "size_wrap (nat (rows t mod 18446744073709551616) * nat (cols t mod 18446744073709551616)) * dtype_size_bytes (dtype t)
     = nat (rows t * cols t) * dtype_size_bytes (dtype t)" using assms by (simp add: r size_wrap_id nat_mult_distrib)
  have "bytes t = dtype_storage_bytes (dtype t) (rows t * cols t)"
    by (rule bytes_checked [of t "''''" "()"]) (use assms in \<open>auto simp: dtype_defs\<close>)
  then show "bytes t = Inr (nat (rows t * cols t) * dtype_size_bytes (dtype t))"
    using storage_no_wrap [of "rows t * cols t" "dtype t"] n assms by (auto simp: dtype_defs)
qed

text \<open>
  what is downloaded is what the tensor holds. For an FP32, FP16 or BF16 tensor whose storage can be read, the
  matching \<^verbatim>\<open>to_host_vector\<close> function returns exactly the tensor's bytes and leaves memory as it was, on the CPU and
  through a GPU backend alike; otherwise it throws, and leaves memory as it was too.
\<close>

theorem to_host_vector_contents:
  fixes w :: "'o world"
  assumes i: "world_inv E w" and t: "0 \<le> rows t" "0 \<le> cols t" "is_int32 (rows t)" "is_int32 (cols t)"
    and d: "dtype t \<in> {FP32, FP16, BF16}" and b: "bytes t = Inr n" and l: "0 < n \<Longrightarrow> load (data t) n (heap w) = Inr bs"
  shows "case to_host_vector_as (dtype t) msg t w of
      (Inr xs, w') \<Rightarrow> xs = (if n = 0 then [] else bs) \<and> blocks (heap w') = blocks (heap w)
    | (Inl e, w') \<Rightarrow> (\<exists>m. e = Throw m) \<and> blocks (heap w') = blocks (heap w)"
proof -
  let ?k = "nat (rows t * cols t) * dtype_size_bytes (dtype t)"
  note vs = vector_size [OF t d]
  have n: "n = ?k" using vs(2) b by simp
  show ?thesis
  proof (cases "int64_max < int ?k \<or> (\<exists>e. malloc ?k (heap w) = Inl e)")
    case True
    then show ?thesis
      by (auto simp: to_host_vector_as_def sbnd_def lift_def vs(1) malloc_def guard_def Let_def split: if_splits)
  next
    case False
    then obtain p m1 where a: "malloc ?k (heap w) = Inr (p, m1)" by (cases "malloc ?k (heap w)") auto
    show ?thesis
    proof (cases "?k = 0")
      case True
      from malloc_fresh [OF a invD(1) [OF i]] obtain x where x: "p = Ptr x 0" "blocks (heap w) x = None"
        "blocks m1 = (blocks (heap w))(x \<mapsto> [])" using True by auto
      have e: "(blocks (heap w))(x := None) = blocks (heap w)" using x(2) by (rule fun_upd_idem)
      show ?thesis using False True a b n x e
        by (simp add: to_host_vector_as_def sbnd_def lift_def ret_def vs(1) Let_def heap_act_def load_def window_def mfree_def)
    next
      case nz: False
      then have ld: "load (data t) ?k (heap w) = Inr bs" using l n by simp
      from vector_blocks [OF invD(1) [OF i] _ a ld] nz obtain m2 m3 m4 m5 where
        m: "memset0 p ?k m1 = Inr m2" "memcpy p (data t) ?k m2 = Inr m3" "load p ?k m3 = Inr bs"
        "mfree p m3 = Inr m4" "blocks m4 = blocks (heap w)" "mfree p m2 = Inr m5" "blocks m5 = blocks (heap w)" by auto
      let ?v = "w\<lparr>heap := m2\<rparr>"
      have "download (device t) p (data t) ?k ?v = (Inr (), w\<lparr>heap := m3\<rparr>) \<or>
          (\<exists>s. download (device t) p (data t) ?k ?v = (Inl (Throw s), ?v))"
        using backend_act_cases [of ?v "\<lambda>V. memcpy_d2h V p (data t) ?k (index (device t))" "memcpy p (data t) ?k" "device t"]
          invD(2) [OF i] nz alloc_backend.d2h m(2) by (fastforce simp: download_def heap_act_def)
      then show ?thesis using False nz b n
        by (auto simp: to_host_vector_as_def sbnd_def lift_def vs(1) Let_def heap_act_def a m)
    qed
  qed
qed

theorem to_host_vector_contents_witness:
  "world_inv {0} demo_world1 \<and> (\<exists>w'. to_host_vector demo_tensor demo_world1 = (Inr (replicate 8 (CHR ''?'')), w'))"
proof -
  have i: "world_inv {0} demo_world1" using demo_world1_ok by (simp add: world_ok_def)
  have b: "bytes demo_tensor = Inr 8" by (simp add: demo_tensor_def act_eval)
  have l: "load (data demo_tensor) 8 (heap demo_world1) = Inr (replicate 8 (CHR ''?''))"
    by (simp add: load_def demo_world1_simps demo_tensor_def window_def)
  have d: "dtype demo_tensor = FP32" "0 \<le> rows demo_tensor" "0 \<le> cols demo_tensor" "is_int32 (rows demo_tensor)" "is_int32 (cols demo_tensor)"
    by (simp_all add: demo_tensor_def is_int32_def int32_max_def)
  from to_host_vector_contents [OF i d(2-5) _ b l, of "''brotensor: to_host_vector: dtype not FP32''"] demo_to_host d i
  show ?thesis by (auto simp: to_host_vector_def)
qed

text \<open>
  \<^verbatim>\<open>from_raw_bytes_on\<close>. A byte count that differs from the tensor's size is rejected, and the storage
  already allocated is given back; otherwise the result holds exactly the caller's bytes, for every dtype.
\<close>

theorem from_raw_bytes_contents:
  assumes i: "world_inv E w" and rc: "is_int32 r" "is_int32 c" and l: "nbytes \<noteq> 0 \<Longrightarrow> load src nbytes (heap w) = Inr bs"
  shows "case from_raw_bytes_on d src r c dt nbytes w of
      (Inr t, w') \<Rightarrow> bytes t = Inr nbytes \<and> rows t = r \<and> cols t = c \<and> dtype t = dt
        \<and> (nbytes \<noteq> 0 \<longrightarrow> load (data t) nbytes (heap w') = Inr bs) \<and> tset t \<inter> dom (blocks (heap w)) = {}
    | (Inl e, w') \<Rightarrow> (\<exists>m. e = Throw m) \<and> blocks (heap w') = blocks (heap w)"
proof -
  note sp = from_raw_bytes_spec [OF i rc l, of d dt]
  obtain x w' where x: "from_raw_bytes_on d src r c dt nbytes w = (x, w')" by force
  then show ?thesis using spec_throws [OF sp] spec_result [OF sp]
    by (cases x) (auto simp: failed_def made_def fresh_tensor_def)
qed

theorem from_raw_bytes_contents_witness:
  "world_inv {0} demo_world \<and> load (Ptr 0 0) 8 (heap demo_world) = Inr ''abcdefgh''
   \<and> (\<exists>t w'. from_raw_bytes_on cpu (Ptr 0 0) 1 4 FP16 8 demo_world = (Inr t, w') \<and> load (data t) 8 (heap w') = Inr ''abcdefgh'')"
proof -
  have i: "world_inv {0} demo_world" using demo_world_ok by (simp add: world_ok_def)
  have l: "load (Ptr 0 0) 8 (heap demo_world) = Inr ''abcdefgh''" by (simp add: load_def demo_mem_def window_def)
  from from_raw_bytes_contents [OF i _ _ l, of 1 4 FP16 cpu] demo_from_raw i l show ?thesis
    by (auto simp: is_int32_def int32_max_def)
qed

end
