(* ===== verification/Bits.thy ===== *)
theory Bits
  imports Prelude
begin

unbundle bit_operations_syntax

text \<open>
  Bit-field arithmetic shared by the conversions: the \<open>unat\<close> of shifts, masks and
  disjoint \<open>OR\<close>s, and rounding a natural number to a multiple of a power of two with ties to
  even (\<open>rne\<close>), with the proof that it is the nearest multiple.
\<close>

section \<open>Fields of words\<close>

lemma nat_or_add: "b < 2 ^ k \<Longrightarrow> (a * 2 ^ k) OR b = a * 2 ^ k + (b::nat)"
proof -
  assume b: "b < 2 ^ k"
  have "(a * 2 ^ k) AND b = 0"
  proof (rule bit_eqI)
    fix n show "bit ((a * 2 ^ k) AND b) n \<longleftrightarrow> bit (0::nat) n"
      using b by (cases "n < k")
       (auto simp: bit_and_iff push_bit_eq_mult [symmetric] bit_push_bit_iff,
        metis bit_take_bit_iff take_bit_nat_eq_self)
  qed
  then show ?thesis by (simp add: disjunctive_add_eq_or)
qed

lemma unat_take_bit: "unat (take_bit n w) = unat w mod 2 ^ n" for w :: "'a::len word"
  by (subst unsigned_take_bit_eq) (rule take_bit_eq_mod)

lemma unat_drop_bit: "unat (drop_bit n w) = unat w div 2 ^ n" for w :: "'a::len word"
  by (subst unat_drop_bit_eq) (rule drop_bit_eq_div)

lemma unat_push_bit: "unat (push_bit n w) = unat w * 2 ^ n mod 2 ^ LENGTH('a)" for w :: "'a::len word"
  by (subst unsigned_push_bit_eq) (simp only: take_bit_eq_mod push_bit_eq_mult)

lemma unat_ucast_mod: "unat (ucast w :: 'b::len word) = unat w mod 2 ^ LENGTH('b)" for w :: "'a::len word"
  by (simp only: unsigned_ucast_eq take_bit_eq_mod)

lemma and_masks:
  fixes w :: "'a::len word"
  shows "w AND 1 = take_bit 1 w" "w AND 0x1F = take_bit 5 w" "w AND 0x7F = take_bit 7 w" "w AND 0xFF = take_bit 8 w" 
    "w AND 0x3FF = take_bit 10 w" "w AND 0x7FFFFF = take_bit 23 w"
  by (simp_all add: take_bit_eq_mask mask_eq_exp_minus_1)

lemma and_bit:
  fixes w :: "'a::len word"
  shows "w AND 0x8000 = push_bit 15 (take_bit 1 (drop_bit 15 w))"
    "w AND 0x400 = push_bit 10 (take_bit 1 (drop_bit 10 w))"
proof -
  have "w AND 2 ^ n = push_bit n (take_bit 1 (drop_bit n w))" for n
    by (rule bit_word_eqI) (auto simp: bit_simps even_drop_bit_iff_not_bit)
  from this [of 15] this [of 10] show "w AND 0x8000 = push_bit 15 (take_bit 1 (drop_bit 15 w))"
    "w AND 0x400 = push_bit 10 (take_bit 1 (drop_bit 10 w))" by simp_all
qed

lemmas unat_bits = unat_take_bit unat_drop_bit unat_push_bit unat_ucast_mod unsigned_or_eq

definition rne :: "nat \<Rightarrow> nat \<Rightarrow> nat" where
  "rne k v = (v + (2 ^ (k - 1) - 1) + v div 2 ^ k mod 2) div 2 ^ k"

lemma unat32_lt: "unat x < 4294967296" for x :: "32 word"
  using unsigned_less [of x] by simp
lemma unat16_lt: "unat x < 65536" for x :: "16 word"
  using unsigned_less [of x] by simp

section \<open>Rounding to nearest, ties to even\<close>

lemma rne_le: "rne k v * 2 ^ k \<le> v + 2 ^ (k - 1)"
proof -
  have "rne k v * 2 ^ k \<le> v + (2 ^ (k - 1) - 1) + v div 2 ^ k mod 2"
    by (simp add: rne_def)
  moreover have "v div 2 ^ k mod 2 \<le> 1" "1 \<le> (2::nat) ^ (k - 1)" by simp_all
  ultimately show ?thesis by linarith
qed

lemma rne_gt: "v < rne k v * 2 ^ k + 2 ^ (k - 1) + 1" if "0 < k"
proof -
  let ?w = "v + (2 ^ (k - 1) - 1) + v div 2 ^ k mod 2"
  have "?w < (?w div 2 ^ k) * 2 ^ k + 2 ^ k"
    by (metis dividend_less_div_times mult.commute add.commute zero_less_numeral zero_less_power)
  moreover have "(2::nat) ^ k = 2 * 2 ^ (k - 1)" using that by (metis power_eq_if not_gr_zero)
  moreover have "1 \<le> (2::nat) ^ (k - 1)" by simp
  ultimately show ?thesis unfolding rne_def by linarith
qed

lemma rne_exact: "rne (Suc k) (m * 2 ^ Suc k) = m"
proof -
  define P where "P = (2::nat) ^ k"
  have P: "1 \<le> P" by (simp add: P_def)
  have "(2 * (m * P) + P - 1 + m mod 2) div (2 * P) = m"
  proof (rule div_nat_eqI)
    have "m mod 2 \<le> 1" by simp
    then show "2 * P * m \<le> 2 * (m * P) + P - 1 + m mod 2"
      "2 * (m * P) + P - 1 + m mod 2 < 2 * P * Suc m"
      using P by (simp_all add: algebra_simps)
  qed
  moreover have "2 * (m * P) div (2 * P) = m" using P by simp
  ultimately show ?thesis by (simp add: rne_def P_def mult.left_commute)
qed

lemma rne_eq:
  fixes v k :: nat
  defines "P \<equiv> 2 ^ k"
  shows "rne (Suc k) v =
    (if v mod (2 * P) < P \<or> (v mod (2 * P) = P \<and> even (v div (2 * P))) then v div (2 * P) else Suc (v div (2 * P)))"
proof -
  define a where "a = v div (2 * P)"
  define r where "r = v mod (2 * P)"
  have P: "0 < P" by (simp add: P_def)
  have v: "v = a * (2 * P) + r" by (simp only: a_def r_def div_mult_mod_eq)
  have r: "r < 2 * P" using P by (simp add: r_def)
  have "rne (Suc k) v = (v + (P - 1) + a mod 2) div (2 * P)"
    by (simp add: rne_def P_def a_def)
  also have "v + (P - 1) + a mod 2 = (r + (P - 1) + a mod 2) + a * (2 * P)" by (simp add: v)
  also have "\<dots> div (2 * P) = a + (r + (P - 1) + a mod 2) div (2 * P)"
    using P by (intro div_mult_self1) simp
  also have "(r + (P - 1) + a mod 2) div (2 * P) = (if r < P \<or> (r = P \<and> even a) then 0 else 1)"
  proof (cases "r < P \<or> (r = P \<and> even a)")
    case True
    then have "r + (P - 1) + a mod 2 < 2 * P" using P by (auto simp: even_iff_mod_2_eq_zero)
    with True show ?thesis by simp
  next
    case False
    then have "P < r \<or> (r = P \<and> a mod 2 = 1)" by (auto simp: odd_iff_mod_2_eq_one)
    then have "2 * P \<le> r + (P - 1) + a mod 2" using P by auto
    moreover have "r + (P - 1) + a mod 2 < 2 * P * Suc 1"
    proof -
      have "a mod 2 \<le> 1" by simp
      then show ?thesis using r P by (simp add: algebra_simps)
    qed
    ultimately have "(r + (P - 1) + a mod 2) div (2 * P) = 1" by (intro div_nat_eqI) simp_all
    with False show ?thesis by simp
  qed
  finally show ?thesis by (auto simp: a_def r_def)
qed

definition dist :: "nat \<Rightarrow> nat \<Rightarrow> nat" where
  "dist a b = (a - b) + (b - a)"

lemma rne_nearest:
  "dist (rne (Suc k) v * 2 ^ Suc k) v \<le> dist (q * 2 ^ Suc k) v"
  and rne_tie: "q \<noteq> rne (Suc k) v \<Longrightarrow>
    dist (rne (Suc k) v * 2 ^ Suc k) v = dist (q * 2 ^ Suc k) v \<Longrightarrow> even (rne (Suc k) v)"
proof -
  define P where "P = (2::nat) ^ k"
  define a where "a = v div (2 * P)"
  define r where "r = v mod (2 * P)"
  have P: "0 < P" by (simp add: P_def)
  have v: "v = a * (2 * P) + r" by (simp only: a_def r_def div_mult_mod_eq)
  have r: "r < 2 * P" using P by (simp add: r_def)
  have n: "rne (Suc k) v = (if r < P \<or> (r = P \<and> even a) then a else Suc a)"
    unfolding r_def a_def P_def by (rule rne_eq)
  have p: "(2::nat) ^ Suc k = 2 * P" by (simp add: P_def)
  have lo: "q * (2 * P) \<le> a * (2 * P)" if "q \<le> a" using that by (rule mult_le_mono1)
  have lo': "q * (2 * P) + 2 * P \<le> a * (2 * P)" if "q < a"
    using mult_le_mono1 [of "Suc q" a "2 * P"] that by simp
  have hi: "a * (2 * P) + 2 * P \<le> q * (2 * P)" if "a < q"
    using mult_le_mono1 [of "Suc a" q "2 * P"] that by simp
  have hi': "a * (2 * P) + 4 * P \<le> q * (2 * P)" if "Suc a < q"
    using mult_le_mono1 [of "Suc (Suc a)" q "2 * P"] that by simp
  consider (l) "q < a" | (e) "q = a" | (s) "q = Suc a" | (g) "Suc a < q" by linarith
  note c = this
  have "dist (rne (Suc k) v * (2 * P)) v \<le> dist (q * (2 * P)) v"
    using c
  proof cases
    case l then show ?thesis using lo' r n v by (auto simp: dist_def)
  next
    case e then show ?thesis using r n v by (auto simp: dist_def)
  next
    case s then show ?thesis using r n v by (auto simp: dist_def)
  next
    case g then show ?thesis using hi' r n v by (auto simp: dist_def)
  qed
  then show "dist (rne (Suc k) v * 2 ^ Suc k) v \<le> dist (q * 2 ^ Suc k) v" by (simp only: p)
  assume q: "q \<noteq> rne (Suc k) v" and "dist (rne (Suc k) v * 2 ^ Suc k) v = dist (q * 2 ^ Suc k) v"
  then have t: "dist (rne (Suc k) v * (2 * P)) v = dist (q * (2 * P)) v" by (simp only: p)
  show "even (rne (Suc k) v)"
    using c
  proof cases
    case l then show ?thesis using lo' r n v t P by (auto simp: dist_def split: if_splits)
  next
    case e then show ?thesis using r n v q t P by (auto simp: dist_def split: if_splits)
  next
    case s then show ?thesis using r n v q t P by (auto simp: dist_def split: if_splits)
  next
    case g then show ?thesis using hi' r n v t P by (auto simp: dist_def split: if_splits)
  qed
qed

lemma dist_scale: "dist (a * c) (b * c) = dist a b * c"
  by (simp add: dist_def algebra_simps diff_mult_distrib)

text \<open>
  \<open>nearer a b v ev\<close>: \<open>a\<close> is at least as near to \<open>v\<close> as \<open>b\<close> is, and if both are equally near
  then \<open>ev\<close> (the rounded value is even).
\<close>

definition nearer :: "nat \<Rightarrow> nat \<Rightarrow> nat \<Rightarrow> bool \<Rightarrow> bool" where
  "nearer a b v ev \<longleftrightarrow> dist a v \<le> dist b v \<and> (a \<noteq> b \<and> dist a v = dist b v \<longrightarrow> ev)"

lemma nearer_strict: "dist a v < dist b v \<Longrightarrow> nearer a b v ev"
  by (simp add: nearer_def)

lemma nearer_scale: "0 < c \<Longrightarrow> nearer a b v ev \<Longrightarrow> nearer (a * c) (b * c) (v * c) ev"
  by (auto simp: nearer_def dist_scale)

lemma rne_nearer: "nearer (rne (Suc k) v * 2 ^ Suc k) (q * 2 ^ Suc k) v (even (rne (Suc k) v))"
  unfolding nearer_def using rne_nearest rne_tie by (metis mult.commute)
end
