(* ===== verification/Gguf.thy ===== *)
theory Gguf
  imports TensorProps Bits
begin

unbundle bit_operations_syntax

text \<open>
  The GGUF reader (\<^verbatim>\<open>src/gguf.cpp\<close>, \<^verbatim>\<open>include/brotensor/gguf.h\<close>). The mapped file is a byte list;
  a pointer into it is an offset. A read outside the mapping is undefined behaviour (\<open>UB\<close>). Sizes and
  offsets are \<^verbatim>\<open>size_t\<close>/\<^verbatim>\<open>uint64_t\<close>: where the code subtracts or adds them the model wraps at
  \<open>2 ^ 64\<close> as the code does. Floats are their bit patterns.
\<close>

section \<open>Types\<close>

datatype ValueType = U8 | I8 | U16 | I16 | U32 | I32 | F32 | Bool | String | Array | U64 | I64 | F64v

text \<open>\<^verbatim>\<open>static_cast<ValueType>\<close> of a raw tag; the caller has checked that it is at most 12.\<close>

definition ValueType_of :: "nat \<Rightarrow> ValueType" where
  "ValueType_of n = [U8, I8, U16, I16, U32, I32, F32, Bool, String, Array, U64, I64, F64v] ! n"

datatype Value =
    VU8 nat | VI8 int | VU16 nat | VI16 int | VU32 nat | VI32 int
  | VF32 nat | VBool bool | VString string | VArray ValueType "Value list"
  | VU64 nat | VI64 int | VF64 nat

record TensorInfo =
  ti_name :: string
  ti_shape :: "int list"
  ti_ggml_type :: nat
  ti_dtype :: Dtype
  ti_dtype_supported :: bool
  ti_data :: nat
  ti_nbytes :: nat
  ti_numel :: int

record GgmlTypeInfo =
  gt_dtype :: Dtype
  gt_supported :: bool
  gt_block_size :: nat
  gt_type_size :: nat

definition ggml_type_info :: "nat \<Rightarrow> GgmlTypeInfo" where
  "ggml_type_info t = (
     let mk = (\<lambda>d bs ts. \<lparr>gt_dtype = d, gt_supported = True, gt_block_size = bs, gt_type_size = ts\<rparr>) in
     if t = 0 then mk FP32 1 4
     else if t = 1 then mk FP16 1 2
     else if t = 2 then mk Q4_0 32 18
     else if t = 3 then mk Q4_1 32 20
     else if t = 6 then mk Q5_0 32 22
     else if t = 7 then mk Q5_1 32 24
     else if t = 8 then mk Q8_0 32 34
     else if t = 9 then mk Q8_1 32 36
     else if t = 10 then mk Q2_K 256 82
     else if t = 11 then mk Q3_K 256 110
     else if t = 12 then mk Q4_K 256 144
     else if t = 13 then mk Q5_K 256 176
     else if t = 14 then mk Q6_K 256 210
     else if t = 15 then mk Q8_K 256 292
     else if t = 30 then mk BF16 1 2
     else \<lparr>gt_dtype = FP32, gt_supported = False, gt_block_size = 0, gt_type_size = 0\<rparr>)"

section \<open>Reader\<close>

text \<open>\<open>usub a b\<close> is \<^verbatim>\<open>a - b\<close> on \<^verbatim>\<open>size_t\<close>.\<close>

definition usub :: "nat \<Rightarrow> nat \<Rightarrow> nat" where
  "usub a b = size_wrap (a + 18446744073709551616 - b)"

type_synonym 'a reader = "byte list \<Rightarrow> nat \<Rightarrow> ('a \<times> nat) res"

definition rret :: "'a \<Rightarrow> 'a reader" where
  "rret x file pos = Inr (x, pos)"

definition rbnd :: "'a reader \<Rightarrow> ('a \<Rightarrow> 'b reader) \<Rightarrow> 'b reader" where
  "rbnd m f file pos = bnd (m file pos) (\<lambda>(x, pos'). f x file pos')"

definition rfail :: "string \<Rightarrow> 'a reader" where
  "rfail msg file pos = Inl (Throw (''gguf: '' @ msg))"

definition need :: "nat \<Rightarrow> unit reader" where
  "need n file pos = guard (usub (length file) pos < n) ''gguf: unexpected EOF'' (Inr ((), pos))"

definition take_bytes :: "nat \<Rightarrow> byte list reader" where
  "take_bytes n file pos = (if pos + n \<le> length file then Inr (window pos n file, pos + n) else Inl (UB ''read past the mapping''))"

definition read_uint :: "nat \<Rightarrow> nat reader" where
  "read_uint n = rbnd (need n) (\<lambda>_. rbnd (take_bytes n) (\<lambda>bs. rret (le_nat bs)))"

definition read_u8 :: "nat reader" where "read_u8 = read_uint 1"
definition read_u16 :: "nat reader" where "read_u16 = read_uint 2"
definition read_u32 :: "nat reader" where "read_u32 = read_uint 4"
definition read_u64 :: "nat reader" where "read_u64 = read_uint 8"

text \<open>Two's complement reading of an \<open>8 * k\<close>-bit pattern.\<close>

definition to_signed :: "nat \<Rightarrow> nat \<Rightarrow> int" where
  "to_signed k n = (if n < 2 ^ (8 * k - 1) then int n else int n - 2 ^ (8 * k))"

definition read_i8 :: "int reader" where "read_i8 = rbnd read_u8 (\<lambda>v. rret (to_signed 1 v))"
definition read_i16 :: "int reader" where "read_i16 = rbnd read_u16 (\<lambda>v. rret (to_signed 2 v))"
definition read_i32 :: "int reader" where "read_i32 = rbnd read_u32 (\<lambda>v. rret (to_signed 4 v))"
definition read_i64 :: "int reader" where "read_i64 = rbnd read_u64 (\<lambda>v. rret (to_signed 8 v))"
definition read_f32 :: "nat reader" where "read_f32 = read_u32"
definition read_f64 :: "nat reader" where "read_f64 = read_u64"

definition read_bool :: "bool reader" where
  "read_bool = rbnd read_u8 (\<lambda>b. if b \<noteq> 0 \<and> b \<noteq> 1 then rfail ''bool value not 0 or 1'' else rret (b \<noteq> 0))"

definition read_str :: "string reader" where
  "read_str = rbnd read_u64 (\<lambda>len. rbnd (need len) (\<lambda>_. take_bytes len))"

definition parse_scalar :: "ValueType \<Rightarrow> Value reader" where
  "parse_scalar t = (case t of
      U8 \<Rightarrow> rbnd read_u8 (\<lambda>x. rret (VU8 x))
    | I8 \<Rightarrow> rbnd read_i8 (\<lambda>x. rret (VI8 x))
    | U16 \<Rightarrow> rbnd read_u16 (\<lambda>x. rret (VU16 x))
    | I16 \<Rightarrow> rbnd read_i16 (\<lambda>x. rret (VI16 x))
    | U32 \<Rightarrow> rbnd read_u32 (\<lambda>x. rret (VU32 x))
    | I32 \<Rightarrow> rbnd read_i32 (\<lambda>x. rret (VI32 x))
    | F32 \<Rightarrow> rbnd read_f32 (\<lambda>x. rret (VF32 x))
    | Bool \<Rightarrow> rbnd read_bool (\<lambda>x. rret (VBool x))
    | U64 \<Rightarrow> rbnd read_u64 (\<lambda>x. rret (VU64 x))
    | I64 \<Rightarrow> rbnd read_i64 (\<lambda>x. rret (VI64 x))
    | F64v \<Rightarrow> rbnd read_f64 (\<lambda>x. rret (VF64 x))
    | String \<Rightarrow> rbnd read_str (\<lambda>x. rret (VString x))
    | Array \<Rightarrow> rfail ''internal: parse_scalar called with Array'')"

text \<open>
  \<^verbatim>\<open>parse_value\<close> and its element loop. The depth bound of 32 makes the recursion end; the loop
  counts its elements down.
\<close>

function parse_value :: "ValueType \<Rightarrow> nat \<Rightarrow> byte list \<Rightarrow> nat \<Rightarrow> (Value \<times> nat) res"
  and parse_elems :: "ValueType \<Rightarrow> nat \<Rightarrow> nat \<Rightarrow> byte list \<Rightarrow> nat \<Rightarrow> (Value list \<times> nat) res" where
  "parse_value t depth file pos = (
     if 32 < depth then rfail ''nested array depth exceeds limit'' file pos
     else if t \<noteq> Array then parse_scalar t file pos
     else bnd (read_u32 file pos) (\<lambda>(elem_raw, pos1).
       guard (12 < elem_raw) ''gguf: array element type out of range'' (
       bnd (read_u64 file pos1) (\<lambda>(len, pos2).
       bnd (need len file pos2) (\<lambda>_.
       bnd (parse_elems (ValueType_of elem_raw) (Suc depth) len file pos2) (\<lambda>(vs, pos3).
       Inr (VArray (ValueType_of elem_raw) vs, pos3)))))))"
| "parse_elems t depth n file pos = (
     if n = 0 then Inr ([], pos)
     else bnd (parse_value t depth file pos) (\<lambda>(v, pos1).
       bnd (parse_elems t depth (n - 1) file pos1) (\<lambda>(vs, pos2). Inr (v # vs, pos2))))"
  by pat_completeness auto
termination
  by (relation "inv_image (less_than <*lex*> less_than)
      (\<lambda>x. case x of Inl (t, d, f, p) \<Rightarrow> (2 * (34 - d), 0) | Inr (t, d, n, f, p) \<Rightarrow> (Suc (2 * (34 - d)), n))") auto

declare parse_value.simps [simp del] parse_elems.simps [simp del]

definition align_up :: "nat \<Rightarrow> nat \<Rightarrow> nat res" where
  "align_up x a = (if a \<le> 1 then Inr x
     else let mask = a - 1 in
       guard (size_max - mask < x) ''gguf: alignment rounding overflows size_t'' (
       Inr (unat ((of_nat (x + mask) :: 64 word) AND NOT (of_nat mask)))))"

fun check_dims_2d :: "int list \<Rightarrow> unit res" where
  "check_dims_2d [] = Inr ()"
| "check_dims_2d (d # ds) = guard (d \<le> 0) ''gguf: shape_to_2d: non-positive dimension'' (
     guard (0x7FFFFFFF < d) ''gguf: shape_to_2d: dimension exceeds int range'' (check_dims_2d ds))"

fun row_product :: "int \<Rightarrow> int list \<Rightarrow> int res" where
  "row_product rs [] = Inr rs"
| "row_product rs (d # ds) = guard (0x7FFFFFFF div d < rs) ''gguf: shape_to_2d: row product overflows int'' (row_product (rs * d) ds)"

definition shape_to_2d :: "int list \<Rightarrow> (int \<times> int) res" where
  "shape_to_2d shape = (case shape of
      [] \<Rightarrow> Inl (Throw ''gguf: shape_to_2d: empty shape'')
    | d # ds \<Rightarrow> bnd (check_dims_2d (d # ds)) (\<lambda>_.
        if ds = [] then Inr (d, 1) else bnd (row_product 1 ds) (\<lambda>rs. Inr (rs, d))))"

section \<open>File\<close>

record File =
  f_version :: nat
  f_alignment :: nat
  f_metadata :: "(string \<times> Value) list"
  f_meta_index :: "string \<rightharpoonup> nat"
  f_tensors :: "TensorInfo list"
  f_tensor_index :: "string \<rightharpoonup> nat"

text \<open>\<^verbatim>\<open>unordered_map::emplace\<close> keeps an entry that is already there.\<close>

definition emplace :: "'k \<Rightarrow> 'v \<Rightarrow> ('k \<rightharpoonup> 'v) \<Rightarrow> ('k \<rightharpoonup> 'v)" where
  "emplace k v m = (if m k = None then m(k \<mapsto> v) else m)"

definition set_alignment :: "Value \<Rightarrow> File \<Rightarrow> File res" where
  "set_alignment v f = (case v of
      VU32 n \<Rightarrow> guard (n = 0 \<or> (of_nat n :: 32 word) AND (of_nat n - 1) \<noteq> 0)
         ''gguf: general.alignment must be a positive power of two'' (Inr (f\<lparr>f_alignment := n\<rparr>))
    | _ \<Rightarrow> Inl (Throw ''gguf: general.alignment must be u32''))"

fun read_metadata :: "nat \<Rightarrow> File \<Rightarrow> File reader" where
  "read_metadata 0 f file pos = Inr (f, pos)"
| "read_metadata (Suc n) f file pos =
     bnd (read_str file pos) (\<lambda>(key, pos1).
     bnd (read_u32 file pos1) (\<lambda>(vt_raw, pos2).
     guard (12 < vt_raw) ''gguf: metadata value type out of range'' (
     bnd (parse_value (ValueType_of vt_raw) 0 file pos2) (\<lambda>(v, pos3).
     bnd (if key = ''general.alignment'' then set_alignment v f else Inr f) (\<lambda>f1.
     read_metadata n (f1\<lparr>f_meta_index := emplace key (length (f_metadata f1)) (f_meta_index f1),
        f_metadata := f_metadata f1 @ [(key, v)]\<rparr>) file pos3)))))"

record PendingTensor =
  pt_name :: string
  pt_shape :: "int list"
  pt_ggml_type :: nat
  pt_offset :: nat

fun read_dims :: "nat \<Rightarrow> int list reader" where
  "read_dims 0 file pos = Inr ([], pos)"
| "read_dims (Suc n) file pos = bnd (read_u64 file pos) (\<lambda>(d, pos1).
     bnd (read_dims n file pos1) (\<lambda>(ds, pos2). Inr (to_signed 8 d # ds, pos2)))"

fun read_pending :: "nat \<Rightarrow> PendingTensor list reader" where
  "read_pending 0 file pos = Inr ([], pos)"
| "read_pending (Suc n) file pos =
     bnd (read_str file pos) (\<lambda>(nm, pos1).
     bnd (read_u32 file pos1) (\<lambda>(n_dims, pos2).
     guard (n_dims = 0 \<or> 8 < n_dims) ''gguf: invalid tensor n_dims'' (
     bnd (read_dims n_dims file pos2) (\<lambda>(shp, pos3).
     bnd (read_u32 file pos3) (\<lambda>(ty, pos4).
     bnd (read_u64 file pos4) (\<lambda>(off, pos5).
     bnd (read_pending n file pos5) (\<lambda>(rest, pos6).
     Inr (\<lparr>pt_name = nm, pt_shape = shp, pt_ggml_type = ty, pt_offset = off\<rparr> # rest, pos6))))))))"

fun numel_loop :: "int \<Rightarrow> int list \<Rightarrow> int res" where
  "numel_loop n [] = Inr n"
| "numel_loop n (d # ds) = guard (d \<le> 0) ''gguf: tensor has non-positive dim'' (
     guard (int64_max div d < n) ''gguf: tensor numel overflows int64'' (numel_loop (n * d) ds))"

definition tensor_nbytes :: "GgmlTypeInfo \<Rightarrow> int \<Rightarrow> nat res" where
  "tensor_nbytes gt numel = (if gt_supported gt then
      guard (1 < gt_block_size gt \<and> numel mod int (gt_block_size gt) \<noteq> 0) ''gguf: tensor numel not multiple of block size'' (
      let blks = nat numel div gt_block_size gt; tsize = gt_type_size gt in
      guard (tsize \<noteq> 0 \<and> size_max div tsize < blks) ''gguf: tensor byte size overflows size_t'' (
      Inr (size_wrap (blks * tsize))))
    else Inr 0)"

definition place_tensor :: "nat \<Rightarrow> nat \<Rightarrow> PendingTensor \<Rightarrow> TensorInfo res" where
  "place_tensor msize data_blob_start pt =
     bnd (numel_loop 1 (pt_shape pt)) (\<lambda>numel.
     let gt = ggml_type_info (pt_ggml_type pt) in
     bnd (tensor_nbytes gt numel) (\<lambda>nbytes.
     let rel_off = pt_offset pt in
     guard (msize < pt_offset pt \<or> usub msize data_blob_start < rel_off) ''gguf: tensor data out of bounds'' (
     let abs_off = size_wrap (data_blob_start + rel_off) in
     guard (usub msize abs_off < nbytes) ''gguf: tensor data out of bounds'' (
     Inr \<lparr>ti_name = pt_name pt, ti_shape = pt_shape pt, ti_ggml_type = pt_ggml_type pt, ti_dtype = gt_dtype gt,
          ti_dtype_supported = gt_supported gt, ti_data = abs_off, ti_nbytes = nbytes, ti_numel = numel\<rparr>))))"

fun place_tensors :: "nat \<Rightarrow> nat \<Rightarrow> PendingTensor list \<Rightarrow> File \<Rightarrow> File res" where
  "place_tensors msize start [] f = Inr f"
| "place_tensors msize start (pt # pts) f =
     bnd (place_tensor msize start pt) (\<lambda>info.
     place_tensors msize start pts (f\<lparr>f_tensor_index := emplace (ti_name info) (length (f_tensors f)) (f_tensor_index f),
        f_tensors := f_tensors f @ [info]\<rparr>))"

definition empty_file :: File where
  "empty_file = \<lparr>f_version = 0, f_alignment = 32, f_metadata = [], f_meta_index = Map.empty, f_tensors = [], f_tensor_index = Map.empty\<rparr>"

definition gguf_open :: "byte list \<Rightarrow> File res" where
  "gguf_open file =
     guard (length file < 24) ''gguf: file too small'' (
     bnd (read_u32 file 0) (\<lambda>(magic, pos1).
     guard (magic \<noteq> 0x46554747) ''gguf: bad magic (not a GGUF file)'' (
     bnd (read_u32 file pos1) (\<lambda>(version, pos2).
     guard (version \<noteq> 2 \<and> version \<noteq> 3) ''gguf: unsupported GGUF version'' (
     bnd (read_u64 file pos2) (\<lambda>(tensor_count, pos3).
     bnd (read_u64 file pos3) (\<lambda>(meta_count, pos4).
     guard (usub (length file) pos4 div 13 < meta_count) ''gguf: unexpected EOF'' (
     bnd (read_metadata meta_count (empty_file\<lparr>f_version := version\<rparr>) file pos4) (\<lambda>(f, pos5).
     guard (usub (length file) pos5 div 32 < tensor_count) ''gguf: unexpected EOF'' (
     bnd (read_pending tensor_count file pos5) (\<lambda>(pending, pos6).
     bnd (align_up pos6 (f_alignment f)) (\<lambda>data_blob_start.
     guard (length file < data_blob_start) ''gguf: data blob start past end of file'' (
     place_tensors (length file) data_blob_start pending f)))))))))))))"

definition find_tensor :: "File \<Rightarrow> string \<Rightarrow> TensorInfo option" where
  "find_tensor f nm = map_option (\<lambda>i. f_tensors f ! i) (f_tensor_index f nm)"

definition get_tensor :: "File \<Rightarrow> string \<Rightarrow> TensorInfo res" where
  "get_tensor f nm = (case find_tensor f nm of None \<Rightarrow> Inl (Throw ''gguf: no tensor named'') | Some t \<Rightarrow> Inr t)"

definition find_meta :: "File \<Rightarrow> string \<Rightarrow> Value option" where
  "find_meta f key = map_option (\<lambda>i. snd (f_metadata f ! i)) (f_meta_index f key)"

definition get_meta :: "File \<Rightarrow> string \<Rightarrow> Value res" where
  "get_meta f key = (case find_meta f key of None \<Rightarrow> Inl (Throw ''gguf: no metadata key'') | Some v \<Rightarrow> Inr v)"

text \<open>\<^verbatim>\<open>upload_raw\<close>; the file is mapped at \<open>base\<close>. The result is what is assigned to \<^verbatim>\<open>dst\<close>.\<close>

definition upload_raw :: "TensorInfo \<Rightarrow> ptr \<Rightarrow> int \<Rightarrow> int \<Rightarrow> ('o, Tensor) act" where
  "upload_raw info base r c = (
     if \<not> ti_dtype_supported info then lift (Inl (Throw ''gguf: upload_raw: tensor has unsupported ggml_type''))
     else if r \<le> 0 \<or> c \<le> 0 then lift (Inl (Throw ''gguf: upload_raw: rows/cols must be positive''))
     else if r * c \<noteq> ti_numel info then lift (Inl (Throw ''gguf: upload_raw: rows*cols != info.numel''))
     else if dtype_is_quant (ti_dtype info) \<and> c mod int (dtype_block_size (ti_dtype info)) \<noteq> 0
       then lift (Inl (Throw ''gguf: upload_raw: cols not a multiple of block size for quant dtype''))
     else sbnd (lift (ptr_add base (ti_data info))) (\<lambda>p.
       reading (\<lambda>w. from_raw_bytes_on (default_device (rt w)) p r c (ti_dtype info) (ti_nbytes info))))"

section \<open>Reads stay inside the mapping\<close>

lemma usub_id: "b \<le> a \<Longrightarrow> a \<le> size_max \<Longrightarrow> usub a b = a - b"
proof -
  assume b: "b \<le> a" "a \<le> size_max"
  then obtain d where d: "a = b + d" using le_Suc_ex by blast
  then show ?thesis using b by (simp add: usub_def size_wrap_def size_max_def)
qed

text \<open>A reader started inside the mapping ends inside it, no earlier, or throws.\<close>

definition reader_ok :: "'a reader \<Rightarrow> byte list \<Rightarrow> bool" where
  "reader_ok R file \<longleftrightarrow> (\<forall>pos \<le> length file. safe (R file pos)
     \<and> (\<forall>x pos'. R file pos = Inr (x, pos') \<longrightarrow> pos \<le> pos' \<and> pos' \<le> length file))"

lemma reader_okD:
  "reader_ok R file \<Longrightarrow> pos \<le> length file \<Longrightarrow> safe (R file pos)"
  "reader_ok R file \<Longrightarrow> pos \<le> length file \<Longrightarrow> R file pos = Inr (x, pos') \<Longrightarrow> pos \<le> pos' \<and> pos' \<le> length file"
  unfolding reader_ok_def by blast+

named_theorems reader_intros \<open>readers that stay inside the mapping\<close>

lemma reader_ok_rret [reader_intros]: "reader_ok (rret x) file"
  by (simp add: reader_ok_def rret_def)

lemma reader_ok_rfail [reader_intros]: "reader_ok (rfail m) file"
  by (simp add: reader_ok_def rfail_def)

lemma reader_ok_rbnd [reader_intros]:
  assumes m: "reader_ok m file" and f: "\<And>x. reader_ok (f x) file"
  shows "reader_ok (rbnd m f) file"
proof -
  have "safe (rbnd m f file pos) \<and> (\<forall>x pos'. rbnd m f file pos = Inr (x, pos') \<longrightarrow> pos \<le> pos' \<and> pos' \<le> length file)"
    if p: "pos \<le> length file" for pos
  proof (cases "m file pos")
    case (Inl e)
    then show ?thesis using reader_okD(1) [OF m p] by (cases e) (simp_all add: rbnd_def)
  next
    case (Inr y)
    obtain x p1 where y: "y = (x, p1)" by force
    then have p1: "pos \<le> p1" "p1 \<le> length file" using reader_okD(2) [OF m p] Inr by auto
    have r: "rbnd m f file pos = f x file p1" by (simp add: rbnd_def Inr y)
    have "safe (f x file p1)" by (rule reader_okD(1) [OF f p1(2)])
    moreover have "pos \<le> pos' \<and> pos' \<le> length file" if "f x file p1 = Inr (z, pos')" for z pos'
      using reader_okD(2) [OF f p1(2) that] p1 by simp
    ultimately show ?thesis by (simp add: r)
  qed
  then show ?thesis unfolding reader_ok_def by blast
qed

lemma reader_ok_if [reader_intros]: "(b \<Longrightarrow> reader_ok m file) \<Longrightarrow> (\<not> b \<Longrightarrow> reader_ok n file) \<Longrightarrow> reader_ok (if b then m else n) file"
  by simp

lemma need_then_take:
  assumes "length file \<le> size_max"
  shows "reader_ok (rbnd (need n) (\<lambda>_. take_bytes n)) file"
  using assms by (auto simp: reader_ok_def rbnd_def need_def take_bytes_def usub_id guard_def)

lemma rbnd_assoc: "rbnd (rbnd m f) g = rbnd m (\<lambda>x. rbnd (f x) g)"
  by (intro ext) (simp add: rbnd_def bnd_assoc split_def)

lemma reader_ok_read_uint [reader_intros]: "length file \<le> size_max \<Longrightarrow> reader_ok (read_uint n) file"
  unfolding read_uint_def rbnd_assoc [symmetric] by (intro reader_intros need_then_take)

lemma reader_ok_read_str [reader_intros]: "length file \<le> size_max \<Longrightarrow> reader_ok read_str file"
  unfolding read_str_def read_u64_def by (intro reader_intros need_then_take)

lemma reader_ok_parse_scalar [reader_intros]: "length file \<le> size_max \<Longrightarrow> reader_ok (parse_scalar t) file"
  by (cases t) (simp_all add: parse_scalar_def reader_intros read_u8_def read_i8_def read_u16_def read_i16_def read_u32_def
      read_i32_def read_u64_def read_i64_def read_f32_def read_f64_def read_bool_def)

text \<open>\<^verbatim>\<open>parse_value\<close> in the reader's vocabulary.\<close>

lemma parse_value_rbnd:
  "parse_value t depth = (
     if 32 < depth then rfail ''nested array depth exceeds limit''
     else if t \<noteq> Array then parse_scalar t
     else rbnd read_u32 (\<lambda>e. if 12 < e then rfail ''array element type out of range''
       else rbnd read_u64 (\<lambda>len. rbnd (need len) (\<lambda>_.
         rbnd (parse_elems (ValueType_of e) (Suc depth) len) (\<lambda>vs. rret (VArray (ValueType_of e) vs))))))"
proof (intro ext)
  fix fl pos
  have f: "(if b then m else n) fl pos = (if b then m fl pos else n fl pos)" for b pos and m n :: "Value reader" by simp
  have g: "bnd (guard b msg (Inr ((), p))) h = guard b msg (h ((), p))" for b msg p and h :: "unit \<times> nat \<Rightarrow> (Value \<times> nat) res"
    by (simp add: guard_def)
  show "parse_value t depth fl pos = (
     if 32 < depth then rfail ''nested array depth exceeds limit''
     else if t \<noteq> Array then parse_scalar t
     else rbnd read_u32 (\<lambda>e. if 12 < e then rfail ''array element type out of range''
       else rbnd read_u64 (\<lambda>len. rbnd (need len) (\<lambda>_.
         rbnd (parse_elems (ValueType_of e) (Suc depth) len) (\<lambda>vs. rret (VArray (ValueType_of e) vs)))))) fl pos"
    unfolding parse_value.simps [of t depth fl pos] f rbnd_def need_def split_def g
    by (simp add: rfail_def rret_def guard_def cong: if_cong)
qed

lemma parse_elems_rbnd:
  "parse_elems t depth n = (if n = 0 then rret [] else
     rbnd (parse_value t depth) (\<lambda>v. rbnd (parse_elems t depth (n - 1)) (\<lambda>vs. rret (v # vs))))"
  by (intro ext) (subst parse_elems.simps, simp add: rbnd_def rret_def)

lemma reader_ok_need [reader_intros]: "reader_ok (need n) file"
  by (simp add: reader_ok_def need_def guard_def)

lemma reader_ok_parse:
  assumes "length file \<le> size_max"
  shows "reader_ok (parse_value t depth) file" "reader_ok (parse_elems t depth n) file"
proof -
  have "reader_ok (parse_value t depth) file \<and> (\<forall>n. reader_ok (parse_elems t (Suc depth) n) file)" for t depth
  proof (induction "34 - depth" arbitrary: t depth rule: less_induct)
    case less
    have e: "reader_ok (parse_elems t (Suc depth) n) file" if "depth \<le> 32" for t n
    proof (induction n)
      case 0
      then show ?case by (subst parse_elems_rbnd) (simp add: reader_intros)
    next
      case (Suc n)
      have "reader_ok (parse_value t (Suc depth)) file" using less [of "Suc depth"] that by simp
      then show ?case by (subst parse_elems_rbnd) (simp add: reader_intros Suc)
    qed
    have e': "reader_ok (parse_elems t (Suc depth) n) file" if "32 < depth" for t n
    proof (induction n)
      case 0
      then show ?case by (subst parse_elems_rbnd) (simp add: reader_intros)
    next
      case (Suc n)
      have "reader_ok (parse_value t (Suc depth)) file" using that by (subst parse_value_rbnd) (simp add: reader_intros)
      then show ?case by (subst parse_elems_rbnd) (simp add: reader_intros Suc)
    qed
    have "reader_ok (parse_value t depth) file"
      using e assms by (subst parse_value_rbnd) (auto intro!: reader_intros simp: read_u32_def read_u64_def)
    then show ?case using e e' by (cases "depth \<le> 32") auto
  qed
  note v = this
  then show "reader_ok (parse_value t depth) file" by blast
  show "reader_ok (parse_elems t depth n) file"
    by (induction n) (subst parse_elems_rbnd, simp add: reader_intros v)+
qed

lemma safe_bnd_reader:
  assumes "reader_ok m file" "pos \<le> length file" "\<And>x p. p \<le> length file \<Longrightarrow> pos \<le> p \<Longrightarrow> m file pos = Inr (x, p) \<Longrightarrow> safe (f x p)"
  shows "safe (bnd (m file pos) (\<lambda>(x, p). f x p))"
  using reader_okD [OF assms(1,2)] assms(3) by (intro safe_bnd) auto

lemma reader_ok_read_dims [reader_intros]: "length file \<le> size_max \<Longrightarrow> reader_ok (read_dims n) file"
proof (induction n)
  case (Suc n)
  have "read_dims (Suc n) = rbnd read_u64 (\<lambda>d. rbnd (read_dims n) (\<lambda>ds. rret (to_signed 8 d # ds)))"
    by (intro ext) (simp add: rbnd_def rret_def)
  then show ?case using Suc by (simp add: reader_intros read_u64_def)
qed (simp add: reader_ok_def)

lemma read_pending_rbnd:
  "read_pending (Suc n) = rbnd read_str (\<lambda>nm. rbnd read_u32 (\<lambda>nd. if nd = 0 \<or> 8 < nd then rfail ''invalid tensor n_dims''
     else rbnd (read_dims nd) (\<lambda>shp. rbnd read_u32 (\<lambda>ty. rbnd read_u64 (\<lambda>off. rbnd (read_pending n) (\<lambda>rest.
       rret (\<lparr>pt_name = nm, pt_shape = shp, pt_ggml_type = ty, pt_offset = off\<rparr> # rest)))))))"
  by (intro ext) (simp add: rbnd_def rret_def rfail_def guard_def split_def if_distrib [where f = "\<lambda>m. m _ _"] cong: if_cong)

lemma reader_ok_read_pending [reader_intros]: "length file \<le> size_max \<Longrightarrow> reader_ok (read_pending n) file"
proof (induction n)
  case (Suc n)
  then show ?case unfolding read_pending_rbnd by (auto intro!: reader_intros simp: read_u64_def read_u32_def)
qed (simp add: reader_ok_def)

lemma set_alignment_safe: "safe (set_alignment v f)"
  by (simp add: set_alignment_def guard_def split: Value.splits)

lemma reader_ok_read_metadata [reader_intros]: "length file \<le> size_max \<Longrightarrow> reader_ok (read_metadata n f) file"
proof (induction n arbitrary: f)
  case (Suc n)
  have "read_metadata (Suc n) f = rbnd read_str (\<lambda>key. rbnd read_u32 (\<lambda>vt. if 12 < vt then rfail ''metadata value type out of range''
     else rbnd (parse_value (ValueType_of vt) 0) (\<lambda>v. \<lambda>file pos. bnd (if key = ''general.alignment'' then set_alignment v f else Inr f) (\<lambda>f1.
       read_metadata n (f1\<lparr>f_meta_index := emplace key (length (f_metadata f1)) (f_meta_index f1),
          f_metadata := f_metadata f1 @ [(key, v)]\<rparr>) file pos))))"
    by (intro ext) (simp add: rbnd_def rret_def rfail_def guard_def split_def if_distrib [where f = "\<lambda>m. m _ _"] cong: if_cong)
  moreover have "reader_ok (\<lambda>file pos. bnd r (\<lambda>f1. g f1 file pos)) file"
    if "safe r" "\<And>f1. reader_ok (g f1) file" for r :: "File res" and g :: "File \<Rightarrow> File reader"
  proof (cases r)
    case (Inl e)
    then show ?thesis using that(1) by (cases e) (simp_all add: reader_ok_def)
  next
    case (Inr f1)
    then show ?thesis using that(2) by simp
  qed
  ultimately show ?case
    using Suc set_alignment_safe
    by (auto intro!: reader_intros reader_ok_parse simp: read_u32_def)
qed (simp add: reader_ok_def)

section \<open>Placement\<close>

lemma numel_loop_result:
  "numel_loop n ds = Inr k \<Longrightarrow> 0 < n \<Longrightarrow> n \<le> int64_max \<Longrightarrow> k = n * prod_list ds \<and> 0 < k \<and> k \<le> int64_max \<and> (\<forall>d\<in>set ds. 0 < d)"
proof (induction ds arbitrary: n)
  case (Cons d ds)
  then have d: "0 < d" "n \<le> int64_max div d" "numel_loop (n * d) ds = Inr k" by (auto simp: not_less)
  then have "n * d \<le> int64_max div d * d" by simp
  also have "\<dots> \<le> int64_max" using d(1) by (metis div_mult_mod_eq less_eq_int_code(1) add_le_same_cancel1 add.commute pos_mod_sign le_add_same_cancel1)
  finally have "n * d \<le> int64_max" .
  then show ?case using Cons.IH [OF d(3)] d(1) Cons.prems by (simp add: mult.assoc)
qed simp

lemma safe_numel_loop: "safe (numel_loop n ds)"
  by (induction ds arbitrary: n) (simp_all add: safe_guard)

lemma ggml_type_info_cases:
  assumes "gt_supported (ggml_type_info t)"
  shows "gt_block_size (ggml_type_info t) = dtype_block_size (gt_dtype (ggml_type_info t))"
    and "gt_type_size (ggml_type_info t) = dtype_block_bytes (gt_dtype (ggml_type_info t))"
    and "gt_dtype (ggml_type_info t) \<noteq> F64"
  using assms by (auto simp: ggml_type_info_def Let_def dtype_defs split: if_splits)

lemma tensor_nbytes_result:
  assumes "tensor_nbytes (ggml_type_info t) numel = Inr n" "0 < numel" "gt_supported (ggml_type_info t)"
  shows "dtype_storage_bytes (gt_dtype (ggml_type_info t)) numel = Inr n
    \<and> 0 < n"
proof -
  let ?d = "gt_dtype (ggml_type_info t)"
  note g = ggml_type_info_cases [OF assms(3)]
  have a: "1 < dtype_block_size ?d \<longrightarrow> numel mod int (dtype_block_size ?d) = 0"
    "nat numel div dtype_block_size ?d \<le> size_max div dtype_block_bytes ?d"
    "n = size_wrap (nat numel div dtype_block_size ?d * dtype_block_bytes ?d)"
    using assms by (auto simp: tensor_nbytes_def Let_def g)
  have "nat numel div dtype_block_size ?d * dtype_block_bytes ?d \<le> size_max"
    using a(2) by (metis div_times_less_eq_dividend mult_le_mono1 order.trans)
  then have n: "n = nat numel div dtype_block_size ?d * dtype_block_bytes ?d" using a(3) by (simp add: size_wrap_id)
  have z: "numel mod int (dtype_block_size ?d) = 0"
  proof (cases "1 < dtype_block_size ?d")
    case False
    then have "dtype_block_size ?d = 1" using dtype_block_size_pos [of ?d] by linarith
    then show ?thesis by simp
  qed (use a(1) in simp)
  have "0 < nat numel div dtype_block_size ?d * dtype_block_bytes ?d"
  proof -
    have "int (dtype_block_size ?d) dvd numel" using z by presburger
    then have "dtype_block_size ?d \<le> nat numel" using assms(2) zdvd_imp_le by fastforce
    then show ?thesis using dtype_block_size_pos [of ?d] by (simp add: div_greater_zero_iff)
  qed
  then show ?thesis using assms(2) z n a(3) by (simp add: dtype_storage_bytes_blocks)
qed

text \<open>What holds of every tensor the file lists.\<close>

definition info_ok :: "nat \<Rightarrow> TensorInfo \<Rightarrow> bool" where
  "info_ok msize t \<longleftrightarrow> ti_data t + ti_nbytes t \<le> msize \<and> 0 < ti_numel t \<and> ti_numel t \<le> int64_max
     \<and> ti_numel t = prod_list (ti_shape t) \<and> (\<forall>d\<in>set (ti_shape t). 0 < d)
     \<and> (if ti_dtype_supported t then dtype_storage_bytes (ti_dtype t) (ti_numel t) = Inr (ti_nbytes t) \<and> 0 < ti_nbytes t \<and> ti_dtype t \<noteq> F64
        else ti_nbytes t = 0)"

lemma place_tensor_ok:
  assumes "start \<le> msize" "msize \<le> size_max" "place_tensor msize start pt = Inr info"
  shows "info_ok msize info \<and> ti_name info = pt_name pt \<and> start \<le> ti_data info"
proof -
  let ?g = "ggml_type_info (pt_ggml_type pt)"
  from assms(3) obtain numel n where n: "numel_loop 1 (pt_shape pt) = Inr numel" "tensor_nbytes ?g numel = Inr n"
    and o: "\<not> usub msize start < pt_offset pt" "\<not> usub msize (size_wrap (start + pt_offset pt)) < n"
    and i: "info = \<lparr>ti_name = pt_name pt, ti_shape = pt_shape pt, ti_ggml_type = pt_ggml_type pt, ti_dtype = gt_dtype ?g,
          ti_dtype_supported = gt_supported ?g, ti_data = size_wrap (start + pt_offset pt), ti_nbytes = n, ti_numel = numel\<rparr>"
    by (auto simp: place_tensor_def Let_def)
  have off: "start + pt_offset pt \<le> msize" using o(1) assms(1,2) by (simp add: usub_id)
  then have w: "size_wrap (start + pt_offset pt) = start + pt_offset pt" using assms(2) by (simp add: size_wrap_id)
  have "start + pt_offset pt + n \<le> msize" using o(2) off assms(2) by (simp add: w usub_id)
  moreover note numel_loop_result [OF n(1)]
  moreover have "n = 0" if "\<not> gt_supported ?g" using n(2) that by (simp add: tensor_nbytes_def)
  ultimately show ?thesis using tensor_nbytes_result [OF n(2)] ggml_type_info_cases(3) [of "pt_ggml_type pt"] i w
    by (auto simp: info_ok_def int64_max_def)
qed

section \<open>Alignment\<close>

lemma nat_and_pred_pow2: "0 < n \<Longrightarrow> n AND (n - 1) = (0 :: nat) \<Longrightarrow> \<exists>k. n = 2 ^ k"
proof (induction n rule: less_induct)
  case (less n)
  have h: "(n div 2) AND ((n - 1) div 2) = 0"
  proof -
    have "drop_bit 1 n AND drop_bit 1 (n - 1) = drop_bit 1 (n AND (n - 1))" by (simp only: drop_bit_and)
    also have "\<dots> = 0" by (simp only: less.prems(2) drop_bit_of_0)
    finally show ?thesis by (simp add: drop_bit_eq_div)
  qed
  show ?case
  proof (cases "odd n")
    case True
    then have "(n - 1) div 2 = n div 2" by (metis odd_two_times_div_two_nat nonzero_mult_div_cancel_left zero_neq_numeral)
    then have "n div 2 = 0" using h by simp
    then have "n = 2 ^ 0" using less.prems(1) by (cases "n = 1") auto
    then show ?thesis by blast
  next
    case False
    then obtain m where m: "n = 2 * m" by blast
    then have "(n - 1) div 2 = m - 1" "0 < m" "m < n" using less.prems(1) by auto
    then obtain k where "m = 2 ^ k" using less.IH [of m] h m by auto
    then have "n = 2 ^ Suc k" using m by simp
    then show ?thesis by blast
  qed
qed

lemma word_pow2_check:
  assumes "n < 2 ^ 32" "n \<noteq> 0" "(of_nat n :: 32 word) AND (of_nat n - 1) = 0"
  shows "\<exists>k < 32. n = 2 ^ k"
proof -
  have u: "unat (of_nat n :: 32 word) = n" using assms(1) by (simp add: unsigned_of_nat take_bit_nat_eq_self)
  have "(of_nat n - 1 :: 32 word) = of_nat (n - 1)" using assms(2) by (simp add: of_nat_diff)
  moreover have "unat (of_nat (n - 1) :: 32 word) = n - 1" using assms(1) by (simp add: unsigned_of_nat take_bit_nat_eq_self)
  ultimately have "n AND (n - 1) = 0"
    using assms(3) u by (metis unsigned_and_eq unsigned_0)
  then obtain k where k: "n = 2 ^ k" using nat_and_pred_pow2 assms(2) by blast
  then have "(2 :: nat) ^ k < 2 ^ 32" using assms(1) by (simp only:)
  then have "k < 32" by (rule power_less_imp_less_exp [rotated]) simp
  then show ?thesis using k by blast
qed

lemma align_mask:
  fixes w :: "64 word"
  assumes "k < 64"
  shows "unat (w AND NOT (of_nat (2 ^ k - 1))) = unat w div 2 ^ k * 2 ^ k"
proof -
  have "(of_nat (2 ^ k - 1) :: 64 word) = mask k" by (simp add: mask_eq_exp_minus_1 of_nat_diff)
  moreover have "w AND NOT (mask k) = push_bit k (drop_bit k w)"
    by (rule bit_word_eqI) (auto simp: bit_simps)
  moreover have "unat (push_bit k (drop_bit k w)) = unat w div 2 ^ k * 2 ^ k"
  proof -
    have "unat w div 2 ^ k * 2 ^ k \<le> unat w" by (rule div_times_less_eq_dividend)
    also have "unat w < 2 ^ 64" using unsigned_less [of w] by simp
    finally show ?thesis by (simp add: unat_bits)
  qed
  ultimately show ?thesis by simp
qed


text \<open>
  \<^verbatim>\<open>align_up\<close>. For a power of two \<open>a\<close> (what \<^verbatim>\<open>general.alignment\<close> is checked to be) it returns the least multiple of
  \<open>a\<close> at or above \<open>x\<close>, and throws exactly when the rounding would leave \<^verbatim>\<open>size_t\<close>.
\<close>

theorem align_up_correct:
  assumes "k < 32" and "x \<le> size_max"
  shows "align_up x (2 ^ k) = (if size_max - (2 ^ k - 1) < x \<and> 0 < k then Inl (Throw ''gguf: alignment rounding overflows size_t'')
      else Inr (LEAST y. 2 ^ k dvd y \<and> x \<le> y))"
proof (cases "k = 0 \<or> size_max - (2 ^ k - 1) < x")
  case True
  show ?thesis
  proof (cases "k = 0")
    case True
    then show ?thesis by (simp add: align_up_def Least_equality [of _ x])
  next
    case False
    then have "(2 :: nat) \<le> 2 ^ k" by (metis one_le_numeral power_increasing power_one_right less_one not_le)
    then show ?thesis using \<open>k = 0 \<or> _\<close> False by (simp add: align_up_def Let_def)
  qed
next
  case False
  let ?a = "2 ^ k :: nat"
  have a: "2 \<le> ?a" using False by (metis one_le_numeral power_increasing power_one_right less_one not_le)
  have ab: "?a \<le> 2 ^ 31" using assms(1) by (intro power_increasing) auto
  have "x \<le> size_max - (?a - 1)" "?a - 1 \<le> size_max" using False ab by (simp_all add: not_less size_max_def)
  then have le: "x + (?a - 1) \<le> size_max" by linarith
  have u: "unat (of_nat (x + (?a - 1)) :: 64 word) = x + (?a - 1)"
  proof -
    have "x + (?a - 1) < 2 ^ 64" using le by (simp add: size_max_def)
    then show ?thesis by (simp only: unsigned_of_nat) (simp add: take_bit_nat_eq_self del: of_nat_add)
  qed
  have "align_up x ?a = Inr ((x + (?a - 1)) div ?a * ?a)"
  proof -
    have c: "\<not> ?a \<le> 1" "\<not> size_max - (?a - 1) < x" "k < 64" using a False assms(1) by auto
    show ?thesis unfolding align_up_def Let_def if_not_P [OF c(1)] guard_def if_not_P [OF c(2)] align_mask [OF c(3)] u ..
  qed
  moreover have "(LEAST y. ?a dvd y \<and> x \<le> y) = (x + (?a - 1)) div ?a * ?a"
  proof (rule Least_equality)
    have "x + (?a - 1) < (x + (?a - 1)) div ?a * ?a + ?a" using dividend_less_div_times [of ?a "x + (?a - 1)"] by (simp add: add.commute)
    then show "?a dvd (x + (?a - 1)) div ?a * ?a \<and> x \<le> (x + (?a - 1)) div ?a * ?a" using a by simp
    fix y assume y: "?a dvd y \<and> x \<le> y"
    then obtain q where q: "y = ?a * q" by blast
    then have "x + (?a - 1) < ?a * Suc q" using y a by simp
    then have "(x + (?a - 1)) div ?a < Suc q" by (simp add: div_less_iff_less_mult mult.commute)
    then show "(x + (?a - 1)) div ?a * ?a \<le> y" using q by (simp add: mult.commute)
  qed
  ultimately show ?thesis using False by simp
qed

theorem align_up_correct_witness: "align_up 70 (2 ^ 5) = Inr (LEAST y. 2 ^ 5 dvd y \<and> 70 \<le> y) \<and> (70 :: nat) \<le> size_max"
  using align_up_correct [of 5 70] by (simp add: size_max_def)

end
