(* ===== verification/GgufProps.thy ===== *)
theory GgufProps
  imports Gguf
begin

text \<open>
  What the GGUF reader promises. First the invariant of an opened file (every tensor inside the mapping, indices that
  find the first entry of a name); then an encoder for the format and the proof that the reader inverts it.
\<close>


section \<open>Opening a file\<close>

text \<open>The index maps a name to its first tensor.\<close>

definition index_ok :: "('a \<Rightarrow> string) \<Rightarrow> 'a list \<Rightarrow> (string \<rightharpoonup> nat) \<Rightarrow> bool" where
  "index_ok nm xs ix \<longleftrightarrow> (\<forall>k. map_option ((!) xs) (ix k) = find (\<lambda>x. nm x = k) xs \<and> (\<forall>i. ix k = Some i \<longrightarrow> i < length xs))"

lemma index_ok_empty [simp]: "index_ok nm [] Map.empty"
  by (simp add: index_ok_def)

lemma find_append: "find P (xs @ ys) = (case find P xs of None \<Rightarrow> find P ys | Some x \<Rightarrow> Some x)"
  by (induction xs) auto

lemma index_ok_emplace:
  assumes "index_ok nm xs ix"
  shows "index_ok nm (xs @ [x]) (emplace (nm x) (length xs) ix)"
  unfolding index_ok_def
proof (intro allI)
  fix k
  have k: "map_option ((!) xs) (ix k) = find (\<lambda>x. nm x = k) xs" "\<And>i. ix k = Some i \<Longrightarrow> i < length xs"
    using assms by (simp_all add: index_ok_def)
  show "map_option ((!) (xs @ [x])) (emplace (nm x) (length xs) ix k) = find (\<lambda>x. nm x = k) (xs @ [x])
      \<and> (\<forall>i. emplace (nm x) (length xs) ix k = Some i \<longrightarrow> i < length (xs @ [x]))"
  proof (cases "ix k")
    case (Some i)
    then show ?thesis using k by (auto simp: emplace_def find_append nth_append less_SucI simp flip: k(1))
  next
    case None
    then show ?thesis using k by (auto simp: emplace_def find_append nth_append simp flip: k(1))
  qed
qed

lemma find_fst_map_of: "map_option snd (find (\<lambda>x. fst x = k) xs) = map_of xs k"
  by (induction xs) auto

lemma place_tensors_ok:
  assumes "start \<le> msize" "msize \<le> size_max"
  shows "place_tensors msize start pts f = Inr f' \<Longrightarrow> (\<forall>t\<in>set (f_tensors f). info_ok msize t) \<Longrightarrow>
     index_ok ti_name (f_tensors f) (f_tensor_index f) \<Longrightarrow>
     (\<forall>t\<in>set (f_tensors f'). info_ok msize t) \<and> index_ok ti_name (f_tensors f') (f_tensor_index f')
     \<and> map ti_name (f_tensors f') = map ti_name (f_tensors f) @ map pt_name pts
     \<and> f_metadata f' = f_metadata f \<and> f_meta_index f' = f_meta_index f \<and> f_alignment f' = f_alignment f"
proof (induction pts arbitrary: f)
  case (Cons pt pts)
  from Cons.prems(1) obtain info where i: "place_tensor msize start pt = Inr info"
    and r: "place_tensors msize start pts (f\<lparr>f_tensor_index := emplace (ti_name info) (length (f_tensors f)) (f_tensor_index f),
        f_tensors := f_tensors f @ [info]\<rparr>) = Inr f'" by auto
  from Cons.IH [OF r] place_tensor_ok [OF assms i] Cons.prems(2,3) index_ok_emplace [of ti_name "f_tensors f" "f_tensor_index f" info]
  show ?case by simp
qed simp

lemma safe_place_tensors: "safe (place_tensors msize start pts f)"
proof (induction pts arbitrary: f)
  case (Cons pt pts)
  then show ?case
    by (auto simp: place_tensor_def Let_def tensor_nbytes_def safe_numel_loop intro!: safe_bnd safe_guard)
qed simp

text \<open>What the metadata loop leaves alone, and what it establishes.\<close>

definition meta_ok :: "File \<Rightarrow> bool" where
  "meta_ok f \<longleftrightarrow> index_ok fst (f_metadata f) (f_meta_index f) \<and> (\<exists>k < 32. f_alignment f = 2 ^ k)"

lemma read_uint_bound: "read_uint n file pos = Inr (x, p) \<Longrightarrow> x < 256 ^ n"
  using le_nat_bound [of "window pos n file"]
  by (auto simp: read_uint_def rbnd_def rret_def need_def take_bytes_def split: if_splits)

lemma parse_value_u32: "parse_value t d file pos = Inr (VU32 n, p) \<Longrightarrow> n < 2 ^ 32"
  using read_uint_bound [of 4 "file" pos n p]
  by (cases t) (auto simp: parse_value.simps parse_scalar_def rbnd_def rret_def rfail_def read_u32_def split: if_splits)

lemma set_alignment_ok:
  assumes "set_alignment v f = Inr f'" "parse_value t d file pos = Inr (v, p)"
  shows "(\<exists>k < 32. f_alignment f' = 2 ^ k) \<and> f_metadata f' = f_metadata f \<and> f_meta_index f' = f_meta_index f
    \<and> f_tensors f' = f_tensors f \<and> f_tensor_index f' = f_tensor_index f"
proof -
  obtain n where v: "v = VU32 n" using assms(1) by (auto simp: set_alignment_def split: Value.splits)
  with assms(2) have "n < 2 ^ 32" using parse_value_u32 by blast
  then show ?thesis using assms(1) v word_pow2_check [of n] by (auto simp: set_alignment_def)
qed

lemma read_metadata_ok:
  "read_metadata n f file pos = Inr (f', p) \<Longrightarrow> meta_ok f \<Longrightarrow>
     meta_ok f' \<and> f_tensors f' = f_tensors f \<and> f_tensor_index f' = f_tensor_index f"
proof (induction n arbitrary: f pos)
  case (Suc n)
  from Suc.prems(1) obtain key p1 vt p2 v p3 f1 where
    v: "parse_value (ValueType_of vt) 0 file p2 = Inr (v, p3)"
    and f1: "(if key = ''general.alignment'' then set_alignment v f else Inr f) = Inr f1"
    and r: "read_metadata n (f1\<lparr>f_meta_index := emplace key (length (f_metadata f1)) (f_meta_index f1),
        f_metadata := f_metadata f1 @ [(key, v)]\<rparr>) file p3 = Inr (f', p)"
    by auto
  have k: "(\<exists>k < 32. f_alignment f1 = 2 ^ k) \<and> f_metadata f1 = f_metadata f \<and> f_meta_index f1 = f_meta_index f
      \<and> f_tensors f1 = f_tensors f \<and> f_tensor_index f1 = f_tensor_index f"
    using f1 set_alignment_ok [OF _ v, of f f1] Suc.prems(2) by (auto simp: meta_ok_def split: if_splits)
  have "meta_ok (f1\<lparr>f_meta_index := emplace key (length (f_metadata f1)) (f_meta_index f1), f_metadata := f_metadata f1 @ [(key, v)]\<rparr>)"
    using index_ok_emplace [of fst "f_metadata f" "f_meta_index f" "(key, v)"] k Suc.prems(2) by (simp add: meta_ok_def)
  from Suc.IH [OF r this] k show ?case by simp
qed simp

lemma safe_align_up: "safe (align_up x a)"
  by (simp add: align_up_def Let_def safe_guard)

lemma gguf_open_safe_lemma:
  assumes "length file \<le> size_max"
  shows "safe (gguf_open file)"
  unfolding gguf_open_def using assms
  by (intro safe_guard safe_bnd_reader safe_bnd safe_align_up safe_place_tensors reader_intros)
    (simp_all add: reader_intros read_u32_def read_u64_def)

lemma gguf_open_pieces:
  assumes "gguf_open file = Inr f" "length file \<le> size_max"
  obtains f1 start pending where "meta_ok f1" "f_tensors f1 = []" "f_tensor_index f1 = Map.empty"
    "start \<le> length file" "place_tensors (length file) start pending f1 = Inr f"
proof -
  from assms(1) obtain version mc pos4 f1 pos5 pending start where
    m: "read_metadata mc (empty_file\<lparr>f_version := version\<rparr>) file pos4 = Inr (f1, pos5)"
    and s: "\<not> length file < start" and p: "place_tensors (length file) start pending f1 = Inr f"
    by (auto simp: gguf_open_def)
  have "\<exists>k<32. (32::nat) = 2 ^ k" by (rule exI [of _ 5]) simp
  then have e: "meta_ok (empty_file\<lparr>f_version := version\<rparr>)" by (simp add: meta_ok_def empty_file_def)
  from read_metadata_ok [OF m e] s p show ?thesis by (intro that) (simp_all add: empty_file_def)
qed

text \<open>
  C2: no file can make the reader leave the mapping. For every byte string, however corrupt, \<^verbatim>\<open>File::open\<close> either returns
  or throws \<^verbatim>\<open>std::runtime_error\<close>; it never reads outside the file.
\<close>

theorem gguf_open_safe:
  assumes "length file \<le> size_max"
  shows "(\<exists>f. gguf_open file = Inr f) \<or> (\<exists>m. gguf_open file = Inl (Throw m))"
proof (cases "gguf_open file")
  case (Inl e)
  then show ?thesis using gguf_open_safe_lemma [OF assms] by (cases e) auto
qed simp

text \<open>
  C6: what an opened GGUF file promises. Every listed tensor's bytes lie inside the file; its element count is the
  product of its positive dimensions and fits \<^verbatim>\<open>int64_t\<close>; a supported type's byte size is exactly \<^verbatim>\<open>dtype_storage_bytes\<close>
  of it; looking a name up gives the first tensor (metadata entry) of that name, or nothing when there is none; and the
  alignment is a power of two.
\<close>

theorem gguf_open_tensors:
  assumes "gguf_open file = Inr f" "length file \<le> size_max"
  shows "(\<forall>t\<in>set (f_tensors f). ti_data t + ti_nbytes t \<le> length file
        \<and> ti_numel t = prod_list (ti_shape t) \<and> (\<forall>d\<in>set (ti_shape t). 0 < d) \<and> ti_numel t \<le> int64_max
        \<and> (ti_dtype_supported t \<longrightarrow> dtype_storage_bytes (ti_dtype t) (ti_numel t) = Inr (ti_nbytes t)))
    \<and> (\<forall>nm. find_tensor f nm = find (\<lambda>t. ti_name t = nm) (f_tensors f))
    \<and> (\<forall>key. find_meta f key = map_of (f_metadata f) key)
    \<and> (\<exists>k < 32. f_alignment f = 2 ^ k)"
proof -
  from gguf_open_pieces [OF assms] obtain f1 start pending where
    f1: "meta_ok f1" "f_tensors f1 = []" "f_tensor_index f1 = Map.empty"
    "start \<le> length file" "place_tensors (length file) start pending f1 = Inr f" by blast
  note k = place_tensors_ok [OF f1(4) assms(2) f1(5)]
  then have t: "\<forall>t\<in>set (f_tensors f). info_ok (length file) t" and i: "index_ok ti_name (f_tensors f) (f_tensor_index f)"
    and m: "meta_ok f" using f1 by (simp_all add: meta_ok_def)
  have "find_tensor f nm = find (\<lambda>t. ti_name t = nm) (f_tensors f)" for nm
    using i by (simp add: find_tensor_def index_ok_def)
  moreover have "find_meta f key = map_of (f_metadata f) key" for key
  proof -
    have e: "find (\<lambda>x. fst x = key) (f_metadata f) = map_option ((!) (f_metadata f)) (f_meta_index f key)"
      using m by (simp add: meta_ok_def index_ok_def)
    show ?thesis unfolding find_meta_def find_fst_map_of [symmetric] e by (simp add: option.map_comp comp_def)
  qed
  ultimately show ?thesis using t m by (auto simp: info_ok_def meta_ok_def)
qed


section \<open>Decoding what the format encodes\<close>

text \<open>
  The GGUF encoding as the format defines it, for the round trip: little-endian fields, strings and arrays prefixed
  with a 64-bit count.
\<close>

primrec vtag :: "ValueType \<Rightarrow> nat" where
  "vtag U8 = 0" | "vtag I8 = 1" | "vtag U16 = 2" | "vtag I16 = 3" | "vtag U32 = 4" | "vtag I32 = 5"
| "vtag F32 = 6" | "vtag Bool = 7" | "vtag String = 8" | "vtag Array = 9" | "vtag U64 = 10" | "vtag I64 = 11" | "vtag F64v = 12"

primrec vtype :: "Value \<Rightarrow> ValueType" where
  "vtype (VU8 n) = U8" | "vtype (VI8 i) = I8" | "vtype (VU16 n) = U16" | "vtype (VI16 i) = I16" | "vtype (VU32 n) = U32"
| "vtype (VI32 i) = I32" | "vtype (VF32 n) = F32" | "vtype (VBool b) = Bool" | "vtype (VString s) = String"
| "vtype (VArray t vs) = Array" | "vtype (VU64 n) = U64" | "vtype (VI64 i) = I64" | "vtype (VF64 n) = F64v"

definition enc_str :: "string \<Rightarrow> byte list" where
  "enc_str s = nat_le 8 (length s) @ s"

definition enc_int :: "nat \<Rightarrow> int \<Rightarrow> byte list" where
  "enc_int k i = nat_le k (nat (i mod 2 ^ (8 * k)))"

primrec enc_value :: "Value \<Rightarrow> byte list" where
  "enc_value (VU8 n) = nat_le 1 n" | "enc_value (VI8 i) = enc_int 1 i"
| "enc_value (VU16 n) = nat_le 2 n" | "enc_value (VI16 i) = enc_int 2 i"
| "enc_value (VU32 n) = nat_le 4 n" | "enc_value (VI32 i) = enc_int 4 i"
| "enc_value (VF32 n) = nat_le 4 n" | "enc_value (VBool b) = nat_le 1 (if b then 1 else 0)"
| "enc_value (VString s) = enc_str s"
| "enc_value (VArray t vs) = nat_le 4 (vtag t) @ nat_le 8 (length vs) @ concat (map enc_value vs)"
| "enc_value (VU64 n) = nat_le 8 n" | "enc_value (VI64 i) = enc_int 8 i" | "enc_value (VF64 n) = nat_le 8 n"

definition int_fits :: "nat \<Rightarrow> int \<Rightarrow> bool" where
  "int_fits k i \<longleftrightarrow> - (2 ^ (8 * k - 1)) \<le> i \<and> i < 2 ^ (8 * k - 1)"

text \<open>A value the format can express, nested at most as deep as the reader goes.\<close>

fun wf_value :: "Value \<Rightarrow> nat \<Rightarrow> bool" where
  "wf_value (VU8 n) d \<longleftrightarrow> d \<le> 32 \<and> n < 256" | "wf_value (VI8 i) d \<longleftrightarrow> d \<le> 32 \<and> int_fits 1 i"
| "wf_value (VU16 n) d \<longleftrightarrow> d \<le> 32 \<and> n < 256 ^ 2" | "wf_value (VI16 i) d \<longleftrightarrow> d \<le> 32 \<and> int_fits 2 i"
| "wf_value (VU32 n) d \<longleftrightarrow> d \<le> 32 \<and> n < 256 ^ 4" | "wf_value (VI32 i) d \<longleftrightarrow> d \<le> 32 \<and> int_fits 4 i"
| "wf_value (VF32 n) d \<longleftrightarrow> d \<le> 32 \<and> n < 256 ^ 4" | "wf_value (VBool b) d \<longleftrightarrow> d \<le> 32"
| "wf_value (VString s) d \<longleftrightarrow> d \<le> 32"
| "wf_value (VArray t vs) d \<longleftrightarrow> d \<le> 32 \<and> (\<forall>v\<in>set vs. vtype v = t \<and> wf_value v (Suc d))"
| "wf_value (VU64 n) d \<longleftrightarrow> d \<le> 32 \<and> n < 256 ^ 8" | "wf_value (VI64 i) d \<longleftrightarrow> d \<le> 32 \<and> int_fits 8 i"
| "wf_value (VF64 n) d \<longleftrightarrow> d \<le> 32 \<and> n < 256 ^ 8"

text \<open>\<open>reads R bs x\<close>: wherever the bytes \<open>bs\<close> stand in a file, \<open>R\<close> reads them as \<open>x\<close>.\<close>

definition reads :: "'a reader \<Rightarrow> byte list \<Rightarrow> 'a \<Rightarrow> bool" where
  "reads R bs x \<longleftrightarrow> (\<forall>pre post. length (pre @ bs @ post) \<le> size_max \<longrightarrow>
     R (pre @ bs @ post) (length pre) = Inr (x, length pre + length bs))"

lemma readsD: "reads R bs x \<Longrightarrow> length (pre @ bs @ post) \<le> size_max \<Longrightarrow> R (pre @ bs @ post) (length pre) = Inr (x, length pre + length bs)"
  by (simp add: reads_def)

named_theorems reads_intros \<open>compositional reading\<close>

lemma reads_rret [reads_intros]: "reads (rret x) [] x"
  by (simp add: reads_def rret_def)

lemma reads_rbnd:
  assumes "reads m bs x" "reads (f x) bs' y"
  shows "reads (rbnd m f) (bs @ bs') y"
  unfolding reads_def
proof (intro allI impI)
  fix pre post
  assume l: "length (pre @ (bs @ bs') @ post) \<le> size_max"
  have "m (pre @ bs @ (bs' @ post)) (length pre) = Inr (x, length pre + length bs)"
    by (rule readsD [OF assms(1)]) (use l in simp)
  moreover have "f x ((pre @ bs) @ bs' @ post) (length (pre @ bs)) = Inr (y, length (pre @ bs) + length bs')"
    by (rule readsD [OF assms(2)]) (use l in simp)
  ultimately show "rbnd m f (pre @ (bs @ bs') @ post) (length pre) = Inr (y, length pre + length (bs @ bs'))"
    by (simp add: rbnd_def)
qed

lemma reads_map: "reads m bs x \<Longrightarrow> f x = rret y \<Longrightarrow> reads (rbnd m f) bs y"
  using reads_rbnd [of m bs x f "[]" y] by (simp add: reads_rret)

lemma window_middle: "window (length pre) (length bs) (pre @ bs @ post) = bs"
  by (simp add: window_def)

lemma reads_need_take: "n = length bs \<Longrightarrow> reads (rbnd (need n) (\<lambda>_. take_bytes n)) bs bs"
  by (simp add: reads_def rbnd_def need_def take_bytes_def usub_id window_middle)

lemma reads_uint [reads_intros]: "n < 256 ^ k \<Longrightarrow> reads (read_uint k) (nat_le k n) n"
  unfolding read_uint_def rbnd_assoc [symmetric]
  by (rule reads_map [OF reads_need_take]) simp_all

lemma reads_str [reads_intros]:
  assumes "length s \<le> size_max"
  shows "reads read_str (enc_str s) s"
  unfolding read_str_def enc_str_def read_u64_def
  by (rule reads_rbnd [OF reads_uint reads_need_take]) (use assms in \<open>simp_all add: size_max_def\<close>)

lemma reads_weaken: "reads R bs x" if "length bs \<le> size_max \<Longrightarrow> reads R bs x"
  unfolding reads_def
proof (intro allI impI)
  fix pre post
  assume "length (pre @ bs @ post) \<le> size_max"
  then show "R (pre @ bs @ post) (length pre) = Inr (x, length pre + length bs)"
    using that by (simp add: reads_def)
qed

lemma to_signed_inverse:
  assumes "int_fits k i" "0 < k"
  shows "to_signed k (nat (i mod 2 ^ (8 * k))) = i" "nat (i mod 2 ^ (8 * k)) < 256 ^ k"
proof -
  have "8 * k = Suc (8 * k - 1)" using assms(2) by simp
  then have p: "(2 :: int) ^ (8 * k) = 2 * 2 ^ (8 * k - 1)" by (metis power_Suc)
  have q: "(256 :: nat) ^ k = 2 ^ (8 * k)" by (simp add: power_mult)
  show "nat (i mod 2 ^ (8 * k)) < 256 ^ k"
    unfolding q by (simp add: nat_less_iff)
  show "to_signed k (nat (i mod 2 ^ (8 * k))) = i"
  proof (cases "0 \<le> i")
    case True
    then have "i mod 2 ^ (8 * k) = i" using assms(1) p by (intro mod_pos_pos_trivial) (auto simp: int_fits_def)
    then show ?thesis using True assms(1) by (simp add: to_signed_def int_fits_def nat_less_iff)
  next
    case False
    have "i mod 2 ^ (8 * k) = (i + 2 ^ (8 * k)) mod 2 ^ (8 * k)" by simp
    also have "\<dots> = i + 2 ^ (8 * k)" using False assms(1) p by (intro mod_pos_pos_trivial) (auto simp: int_fits_def)
    finally have m: "i mod 2 ^ (8 * k) = i + 2 ^ (8 * k)" .
    have x: "(0 :: int) < 2 ^ (8 * k - 1)" by simp
    have n: "0 \<le> i + 2 ^ (8 * k)" unfolding p using assms(1) x unfolding int_fits_def by linarith
    have "\<not> i + 2 ^ (8 * k) < 2 ^ (8 * k - 1)" unfolding p using assms(1) unfolding int_fits_def by linarith
    then have "\<not> nat (i + 2 ^ (8 * k)) < 2 ^ (8 * k - 1)" using n by (simp add: nat_less_iff)
    then show ?thesis unfolding to_signed_def m using n by simp
  qed
qed

lemma reads_int: "int_fits k i \<Longrightarrow> 0 < k \<Longrightarrow> reads (rbnd (read_uint k) (\<lambda>v. rret (to_signed k v))) (enc_int k i) i"
  unfolding enc_int_def using to_signed_inverse [of k i] by (intro reads_map [OF reads_uint]) auto

lemma ValueType_of_vtag [simp]: "ValueType_of (vtag t) = t" "vtag t \<le> 12"
  by (cases t; simp add: ValueType_of_def)+

lemma enc_value_nonempty: "0 < length (enc_value v)"
  by (cases v) (simp_all add: enc_str_def enc_int_def)

lemma length_le_concat: "length vs \<le> length (concat (map enc_value vs))"
proof (induction vs)
  case (Cons v vs)
  then show ?case using enc_value_nonempty [of v] by (simp only: list.map concat.simps length_append list.size)
qed simp

lemma reads_elems:
  assumes "\<And>v. v \<in> set vs \<Longrightarrow> reads (parse_value t d) (enc_value v) v"
  shows "reads (parse_elems t d (length vs)) (concat (map enc_value vs)) vs"
  using assms
proof (induction vs)
  case Nil
  then show ?case by (subst parse_elems_rbnd) (simp add: reads_rret)
next
  case (Cons v vs)
  have "reads (rbnd (parse_elems t d (length vs)) (\<lambda>us. rret (v # us))) (concat (map enc_value vs)) (v # vs)"
    by (rule reads_map [OF Cons.IH]) (simp_all add: Cons.prems)
  then have "reads (rbnd (parse_value t d) (\<lambda>u. rbnd (parse_elems t d (length vs)) (\<lambda>us. rret (u # us))))
      (enc_value v @ concat (map enc_value vs)) (v # vs)"
    using Cons.prems by (intro reads_rbnd [of _ _ v]) auto
  then show ?case by (subst parse_elems_rbnd) simp
qed

lemma reads_array:
  assumes "d \<le> 32" "\<And>v. v \<in> set vs \<Longrightarrow> reads (parse_value t (Suc d)) (enc_value v) v"
  shows "reads (parse_value Array d) (enc_value (VArray t vs)) (VArray t vs)"
proof -
  have "reads (rbnd (need (length vs)) (\<lambda>_. rbnd (parse_elems t (Suc d) (length vs)) (\<lambda>vs. rret (VArray t vs))))
      (concat (map enc_value vs)) (VArray t vs)"
    unfolding reads_def
  proof (intro allI impI)
    fix pre post
    assume l: "length (pre @ concat (map enc_value vs) @ post) \<le> size_max"
    have "rbnd (parse_elems t (Suc d) (length vs)) (\<lambda>vs. rret (VArray t vs)) (pre @ concat (map enc_value vs) @ post) (length pre)
        = Inr (VArray t vs, length pre + length (concat (map enc_value vs)))"
      using reads_map [OF reads_elems [OF assms(2)], of vs "\<lambda>vs. rret (VArray t vs)"] l by (simp add: reads_def)
    then show "rbnd (need (length vs)) (\<lambda>_. rbnd (parse_elems t (Suc d) (length vs)) (\<lambda>vs. rret (VArray t vs)))
        (pre @ concat (map enc_value vs) @ post) (length pre) = Inr (VArray t vs, length pre + length (concat (map enc_value vs)))"
      using l length_le_concat [of vs] by (simp add: rbnd_def [of "need _"] need_def usub_id)
  qed
  then have n: "reads (rbnd read_u64 (\<lambda>len. rbnd (need len) (\<lambda>_. rbnd (parse_elems t (Suc d) len) (\<lambda>vs. rret (VArray t vs)))))
      (nat_le 8 (length vs) @ concat (map enc_value vs)) (VArray t vs)" if "length vs < 256 ^ 8"
    unfolding read_u64_def by (intro reads_rbnd [OF reads_uint [OF that]])
  show ?thesis
  proof (rule reads_weaken)
    assume "length (enc_value (VArray t vs)) \<le> size_max"
    then have "length vs < 256 ^ 8" using length_le_concat [of vs] by (simp add: size_max_def)
    from reads_rbnd [OF reads_uint [of "vtag t" 4], of "\<lambda>e. if 12 < e then rfail ''array element type out of range''
       else rbnd read_u64 (\<lambda>len. rbnd (need len) (\<lambda>_.
         rbnd (parse_elems (ValueType_of e) (Suc d) len) (\<lambda>vs. rret (VArray (ValueType_of e) vs))))"] n [OF this]
    show "reads (parse_value Array d) (enc_value (VArray t vs)) (VArray t vs)"
      using assms(1) ValueType_of_vtag(2) [of t] by (subst parse_value_rbnd) (simp add: read_u32_def not_less)
  qed
qed

lemma reads_scalar: "d \<le> 32 \<Longrightarrow> t \<noteq> Array \<Longrightarrow> reads (parse_scalar t) bs v \<Longrightarrow> reads (parse_value t d) bs v"
  by (subst parse_value_rbnd) simp

lemmas scalar_reader_defs = parse_scalar_def read_u8_def read_i8_def read_u16_def read_i16_def read_u32_def
    read_i32_def read_u64_def read_i64_def read_f32_def read_f64_def

lemma reads_bool: "reads read_bool (nat_le 1 (if b then 1 else 0)) b"
  unfolding read_bool_def read_u8_def by (rule reads_map [OF reads_uint]) simp_all

lemma reads_value: "wf_value v d \<Longrightarrow> reads (parse_value (vtype v) d) (enc_value v) v"
proof (induction v arbitrary: d)
  case (VArray t vs)
  have "reads (parse_value t (Suc d)) (enc_value v) v" if "v \<in> set vs" for v
    using VArray.IH [OF that, of "Suc d"] VArray.prems that by auto
  then show ?case using reads_array [of d vs t] VArray.prems by simp
next
  case (VString s)
  have "reads (rbnd read_str (\<lambda>x. rret (VString x))) (enc_str s) (VString s)"
    by (rule reads_weaken, rule reads_map [OF reads_str]) (simp_all add: enc_str_def)
  then show ?case using VString by (auto intro!: reads_scalar simp: parse_scalar_def)
next
  case (VBool b)
  have "reads (rbnd read_bool (\<lambda>x. rret (VBool x))) (nat_le 1 (if b then 1 else 0)) (VBool b)"
    by (rule reads_map [OF reads_bool]) simp
  then show ?case using VBool by (auto intro!: reads_scalar simp: parse_scalar_def simp del: nat_le.simps One_nat_def)
qed (auto intro!: reads_scalar reads_map [OF reads_uint] reads_map [OF reads_int]
    simp: scalar_reader_defs simp del: nat_le.simps One_nat_def)


definition enc_meta :: "string \<times> Value \<Rightarrow> byte list" where
  "enc_meta kv = enc_str (fst kv) @ nat_le 4 (vtag (vtype (snd kv))) @ enc_value (snd kv)"

definition enc_pending :: "PendingTensor \<Rightarrow> byte list" where
  "enc_pending pt = enc_str (pt_name pt) @ nat_le 4 (length (pt_shape pt))
     @ concat (map (\<lambda>d. nat_le 8 (nat d)) (pt_shape pt)) @ nat_le 4 (pt_ggml_type pt) @ nat_le 8 (pt_offset pt)"

definition enc_head :: "nat \<Rightarrow> (string \<times> Value) list \<Rightarrow> PendingTensor list \<Rightarrow> byte list" where
  "enc_head ver ms pts = nat_le 4 0x46554747 @ nat_le 4 ver @ nat_le 8 (length pts) @ nat_le 8 (length ms)
     @ concat (map enc_meta ms) @ concat (map enc_pending pts)"

definition wf_meta :: "string \<times> Value \<Rightarrow> bool" where
  "wf_meta kv \<longleftrightarrow> wf_value (snd kv) 0 \<and> (fst kv = ''general.alignment'' \<longrightarrow> (\<exists>j < 32. snd kv = VU32 (2 ^ j)))"

definition wf_pending :: "PendingTensor \<Rightarrow> bool" where
  "wf_pending pt \<longleftrightarrow> pt_shape pt \<noteq> [] \<and> length (pt_shape pt) \<le> 8 \<and> (\<forall>d\<in>set (pt_shape pt). 0 \<le> d \<and> d < 2 ^ 63)
     \<and> pt_ggml_type pt < 256 ^ 4 \<and> pt_offset pt < 256 ^ 8"

definition add_meta :: "string \<times> Value \<Rightarrow> File \<Rightarrow> File" where
  "add_meta kv f = (let f1 = (case kv of (k, VU32 n) \<Rightarrow> if k = ''general.alignment'' then f\<lparr>f_alignment := n\<rparr> else f | _ \<Rightarrow> f) in
     f1\<lparr>f_meta_index := emplace (fst kv) (length (f_metadata f1)) (f_meta_index f1), f_metadata := f_metadata f1 @ [kv]\<rparr>)"

lemma set_alignment_pow2: "j < 32 \<Longrightarrow> set_alignment (VU32 (2 ^ j)) f = Inr (f\<lparr>f_alignment := 2 ^ j\<rparr>)"
proof -
  assume "j < 32"
  have "(2 ^ j :: 32 word) AND (2 ^ j - 1) = 0"
  proof -
    have "take_bit j (2 ^ j :: 32 word) = 0" by (rule bit_word_eqI) (auto simp: bit_simps)
    then show ?thesis by (simp add: mask_eq_exp_minus_1 [symmetric] flip: take_bit_eq_mask)
  qed
  then show ?thesis by (simp add: set_alignment_def)
qed

lemma reads_guard: "\<not> b \<Longrightarrow> reads m bs x \<Longrightarrow> reads (if b then rfail s else m) bs x"
  by simp

lemma read_metadata_rbnd:
  "read_metadata (Suc n) f = rbnd read_str (\<lambda>key. rbnd read_u32 (\<lambda>vt. if 12 < vt then rfail ''metadata value type out of range''
     else rbnd (parse_value (ValueType_of vt) 0) (\<lambda>v. \<lambda>file pos. bnd (if key = ''general.alignment'' then set_alignment v f else Inr f) (\<lambda>f1.
       read_metadata n (f1\<lparr>f_meta_index := emplace key (length (f_metadata f1)) (f_meta_index f1),
          f_metadata := f_metadata f1 @ [(key, v)]\<rparr>) file pos))))"
  by (intro ext) (simp add: rbnd_def rret_def rfail_def guard_def split_def if_distrib [where f = "\<lambda>m. m _ _"] cong: if_cong)

lemma reads_metadata:
  "\<forall>kv\<in>set ms. wf_meta kv \<Longrightarrow> reads (read_metadata (length ms) f) (concat (map enc_meta ms)) (fold add_meta ms f)"
proof (induction ms arbitrary: f)
  case Nil
  then show ?case by (simp add: reads_def)
next
  case (Cons kv ms)
  obtain k v where kv: "kv = (k, v)" by force
  have wf: "wf_meta (k, v)" using Cons.prems kv by simp
  then have wv: "wf_value v 0" by (simp add: wf_meta_def)
  let ?f1 = "if k = ''general.alignment'' then set_alignment v f else Inr f"
  have al: "bnd ?f1 (\<lambda>f1. read_metadata n (f1\<lparr>f_meta_index := emplace k (length (f_metadata f1)) (f_meta_index f1),
          f_metadata := f_metadata f1 @ [(k, v)]\<rparr>) fl pos) = read_metadata n (add_meta (k, v) f) fl pos" for n fl pos
  proof (cases "k = ''general.alignment''")
    case True
    then obtain j where "j < 32" "v = VU32 (2 ^ j)" using wf by (auto simp: wf_meta_def)
    then show ?thesis using True by (simp add: set_alignment_pow2 add_meta_def)
  next
    case False
    then show ?thesis by (simp add: add_meta_def split: Value.splits)
  qed
  have ih: "reads (\<lambda>fl pos. bnd ?f1 (\<lambda>f1. read_metadata (length ms) (f1\<lparr>f_meta_index := emplace k (length (f_metadata f1)) (f_meta_index f1),
          f_metadata := f_metadata f1 @ [(k, v)]\<rparr>) fl pos)) (concat (map enc_meta ms)) (fold add_meta ms (add_meta (k, v) f))"
    unfolding al using Cons by simp
  show ?case
  proof (rule reads_weaken)
    assume l: "length (concat (map enc_meta (kv # ms))) \<le> size_max"
    have n: "length k \<le> size_max" using l kv by (simp add: enc_meta_def enc_str_def)
    have vt: "vtag (vtype v) < 256 ^ 4" "\<not> 12 < vtag (vtype v)" using ValueType_of_vtag(2) [of "vtype v"] by (simp_all del: ValueType_of_vtag(2))
    have "reads (read_metadata (Suc (length ms)) f)
       (enc_str k @ nat_le 4 (vtag (vtype v)) @ enc_value v @ concat (map enc_meta ms)) (fold add_meta ms (add_meta (k, v) f))"
      unfolding read_metadata_rbnd read_u32_def
      by (rule reads_rbnd [OF reads_str [OF n]], rule reads_rbnd [OF reads_uint [OF vt(1)]], rule reads_guard [OF vt(2)],
          unfold ValueType_of_vtag, rule reads_rbnd [OF reads_value [OF wv]], rule ih)
    then show "reads (read_metadata (length (kv # ms)) f) (concat (map enc_meta (kv # ms))) (fold add_meta (kv # ms) f)"
      by (simp add: enc_meta_def kv del: read_metadata.simps)
  qed
qed

lemma reads_dims:
  "\<forall>d\<in>set ds. 0 \<le> d \<and> d < 2 ^ 63 \<Longrightarrow> reads (read_dims (length ds)) (concat (map (\<lambda>d. nat_le 8 (nat d)) ds)) ds"
proof (induction ds)
  case (Cons d ds)
  have r: "read_dims (Suc n) = rbnd read_u64 (\<lambda>d. rbnd (read_dims n) (\<lambda>ds. rret (to_signed 8 d # ds)))" for n
    by (intro ext) (simp add: rbnd_def rret_def)
  have d: "nat d < 256 ^ 8" "to_signed 8 (nat d) = d" using Cons.prems by (auto simp: to_signed_def nat_less_iff)
  have "reads (rbnd (read_dims (length ds)) (\<lambda>ds. rret (to_signed 8 (nat d) # ds))) (concat (map (\<lambda>d. nat_le 8 (nat d)) ds)) (d # ds)"
    by (rule reads_map [OF Cons.IH]) (use Cons.prems d in auto)
  then have "reads (read_dims (Suc (length ds))) (nat_le 8 (nat d) @ concat (map (\<lambda>d. nat_le 8 (nat d)) ds)) (d # ds)"
    unfolding r read_u64_def by (rule reads_rbnd [OF reads_uint [OF d(1)]])
  then show ?case by (simp del: read_dims.simps)
qed (simp add: reads_def)

lemma reads_pending:
  "\<forall>pt\<in>set pts. wf_pending pt \<Longrightarrow> reads (read_pending (length pts)) (concat (map enc_pending pts)) pts"
proof (induction pts)
  case (Cons pt pts)
  have w: "wf_pending pt" using Cons.prems by simp
  have ih: "reads (rbnd (read_pending (length pts)) (\<lambda>rest. rret (pt # rest))) (concat (map enc_pending pts)) (pt # pts)"
    by (rule reads_map [OF Cons.IH]) (use Cons.prems in auto)
  have p: "\<lparr>pt_name = pt_name pt, pt_shape = pt_shape pt, pt_ggml_type = pt_ggml_type pt, pt_offset = pt_offset pt\<rparr> = pt" by simp
  show ?case
  proof (rule reads_weaken)
    assume l: "length (concat (map enc_pending (pt # pts))) \<le> size_max"
    have n: "length (pt_name pt) \<le> size_max" using l by (simp add: enc_pending_def enc_str_def)
    have nd: "length (pt_shape pt) < 256 ^ 4" "length (pt_shape pt) \<noteq> 0" "length (pt_shape pt) \<le> 8" using w by (auto simp: wf_pending_def)
    have "reads (read_pending (Suc (length pts))) (enc_str (pt_name pt) @ nat_le 4 (length (pt_shape pt))
       @ concat (map (\<lambda>d. nat_le 8 (nat d)) (pt_shape pt)) @ nat_le 4 (pt_ggml_type pt) @ nat_le 8 (pt_offset pt)
       @ concat (map enc_pending pts)) (pt # pts)"
      unfolding read_pending_rbnd read_u32_def read_u64_def
      by (rule reads_rbnd [OF reads_str [OF n]], rule reads_rbnd [OF reads_uint [OF nd(1)]], rule reads_guard, use nd in simp,
          rule reads_rbnd [OF reads_dims], use w in \<open>simp add: wf_pending_def\<close>,
          rule reads_rbnd [OF reads_uint], use w in \<open>simp add: wf_pending_def\<close>,
          rule reads_rbnd [OF reads_uint], use w in \<open>simp add: wf_pending_def\<close>,
          unfold p, rule ih)
    then show "reads (read_pending (length (pt # pts))) (concat (map enc_pending (pt # pts))) (pt # pts)"
      by (simp add: enc_pending_def del: read_pending.simps)
  qed
qed (simp add: reads_def)

lemma enc_meta_length: "13 \<le> length (enc_meta kv)"
  using enc_value_nonempty [of "snd kv"] by (simp add: enc_meta_def enc_str_def Suc_le_eq)

lemma enc_pending_length: "wf_pending pt \<Longrightarrow> 32 \<le> length (enc_pending pt)"
  by (cases "pt_shape pt") (simp_all add: enc_pending_def enc_str_def wf_pending_def)

lemma length_concat_ge: "(\<And>x. x \<in> set xs \<Longrightarrow> k \<le> length (f x)) \<Longrightarrow> k * length xs \<le> length (concat (map f xs))"
proof (induction xs)
  case (Cons x xs)
  then have "k \<le> length (f x)" "k * length xs \<le> length (concat (map f xs))" by auto
  then show ?case by simp
qed simp

definition tensor_matches :: "byte list \<Rightarrow> byte list \<Rightarrow> PendingTensor \<Rightarrow> TensorInfo \<Rightarrow> bool" where
  "tensor_matches file dat pt t \<longleftrightarrow> ti_name t = pt_name pt \<and> ti_shape t = pt_shape pt \<and> ti_ggml_type t = pt_ggml_type pt
     \<and> window (ti_data t) (ti_nbytes t) file = window (pt_offset pt) (ti_nbytes t) dat"

definition fits :: "byte list \<Rightarrow> PendingTensor \<Rightarrow> bool" where
  "fits dat pt \<longleftrightarrow> (\<exists>numel n. numel_loop 1 (pt_shape pt) = Inr numel \<and>
     tensor_nbytes (ggml_type_info (pt_ggml_type pt)) numel = Inr n \<and> pt_offset pt + n \<le> length dat)"

lemma place_tensor_fits:
  assumes "fits dat pt" "file = pre @ dat" "length file \<le> size_max"
  shows "\<exists>t. place_tensor (length file) (length pre) pt = Inr t \<and> tensor_matches file dat pt t"
proof -
  from assms(1) obtain numel n where n: "numel_loop 1 (pt_shape pt) = Inr numel"
    "tensor_nbytes (ggml_type_info (pt_ggml_type pt)) numel = Inr n" "pt_offset pt + n \<le> length dat" by (auto simp: fits_def)
  have u: "usub (length file) (length pre) = length dat" using assms(2,3) by (subst usub_id) auto
  have w: "size_wrap (length pre + pt_offset pt) = length pre + pt_offset pt" using assms(2,3) n(3) by (intro size_wrap_id) auto
  have v: "usub (length file) (length pre + pt_offset pt) = length dat - pt_offset pt" using assms(2,3) n(3) by (subst usub_id) auto
  have "window (length pre + pt_offset pt) n file = window (pt_offset pt) n dat" using assms(2) by simp
  then show ?thesis using n u w v assms(2) by (auto simp: place_tensor_def Let_def tensor_matches_def guard_def)
qed

lemma place_tensors_fit:
  assumes "file = pre @ dat" "length file \<le> size_max"
  shows "\<forall>pt\<in>set pts. fits dat pt \<Longrightarrow> \<exists>f'. place_tensors (length file) (length pre) pts f = Inr f' \<and> f_version f' = f_version f
    \<and> f_metadata f' = f_metadata f \<and> (\<exists>ts. f_tensors f' = f_tensors f @ ts \<and> list_all2 (tensor_matches file dat) pts ts)"
proof (induction pts arbitrary: f)
  case (Cons pt pts)
  obtain t where t: "place_tensor (length file) (length pre) pt = Inr t" "tensor_matches file dat pt t"
    using place_tensor_fits [OF _ assms] Cons.prems by auto
  let ?f = "f\<lparr>f_tensor_index := emplace (ti_name t) (length (f_tensors f)) (f_tensor_index f), f_tensors := f_tensors f @ [t]\<rparr>"
  from Cons.IH [of ?f] Cons.prems obtain f' ts where "place_tensors (length file) (length pre) pts ?f = Inr f'"
    "f_version f' = f_version f" "f_metadata f' = f_metadata f" "f_tensors f' = (f_tensors f @ [t]) @ ts" "list_all2 (tensor_matches file dat) pts ts"
    by auto
  then show ?case using t by (intro exI [of _ f']) auto
qed simp

lemma add_metas:
  "f_metadata (fold add_meta ms f) = f_metadata f @ ms \<and> f_version (fold add_meta ms f) = f_version f \<and> f_tensors (fold add_meta ms f) = f_tensors f"
proof (induction ms arbitrary: f)
  case (Cons kv ms)
  obtain k v where kv: "kv = (k, v)" by force
  have "f_metadata (add_meta kv f) = f_metadata f @ [kv] \<and> f_version (add_meta kv f) = f_version f \<and> f_tensors (add_meta kv f) = f_tensors f"
    by (cases v) (simp_all add: add_meta_def Let_def kv)
  then show ?case using Cons.IH [of "add_meta kv f"] by simp
qed simp

text \<open>The alignment a reader that has seen \<open>ms\<close> uses.\<close>

definition alignment_of :: "(string \<times> Value) list \<Rightarrow> nat" where
  "alignment_of ms = f_alignment (fold add_meta ms empty_file)"

lemma add_metas_alignment: "f_alignment f = f_alignment g \<Longrightarrow> f_alignment (fold add_meta ms f) = f_alignment (fold add_meta ms g)"
proof (induction ms arbitrary: f g)
  case (Cons kv ms)
  obtain k v where kv: "kv = (k, v)" by force
  have "f_alignment (add_meta kv f) = f_alignment (add_meta kv g)"
    using Cons.prems by (cases v) (simp_all add: add_meta_def Let_def kv)
  then show ?case using Cons.IH [of "add_meta kv f" "add_meta kv g"] by simp
qed simp

lemma gguf_open_steps:
  assumes "24 \<le> length fl" "read_u32 fl 0 = Inr (0x46554747, 4)" "read_u32 fl 4 = Inr (ver, 8)" "ver = 2 \<or> ver = 3"
    "read_u64 fl 8 = Inr (tc, 16)" "read_u64 fl 16 = Inr (mc, 24)" "\<not> usub (length fl) 24 div 13 < mc"
    "read_metadata mc (empty_file\<lparr>f_version := ver\<rparr>) fl 24 = Inr (f, p5)" "\<not> usub (length fl) p5 div 32 < tc"
    "read_pending tc fl p5 = Inr (pts, p6)" "align_up p6 (f_alignment f) = Inr start" "start \<le> length fl"
    "place_tensors (length fl) start pts f = Inr f'"
  shows "gguf_open fl = Inr f'"
  using assms(1,4,12) by (auto simp: gguf_open_def assms(2,3,5-11,13) guard_def)

lemma gguf_open_encoded:
  assumes ver: "ver = 2 \<or> ver = 3" and ms: "\<forall>kv\<in>set ms. wf_meta kv" and pts: "\<forall>pt\<in>set pts. wf_pending pt \<and> fits dat pt"
    and pad: "align_up (length (enc_head ver ms pts)) (alignment_of ms) = Inr (length (enc_head ver ms pts @ pad))"
    and len: "length (enc_head ver ms pts @ pad @ dat) \<le> size_max"
  shows "\<exists>f. gguf_open (enc_head ver ms pts @ pad @ dat) = Inr f \<and> f_version f = ver \<and> f_metadata f = ms
    \<and> list_all2 (tensor_matches (enc_head ver ms pts @ pad @ dat) dat) pts (f_tensors f)"
proof -
  let ?file = "enc_head ver ms pts @ pad @ dat"
  let ?M = "concat (map enc_meta ms)" and ?T = "concat (map enc_pending pts)"
  let ?h0 = "nat_le 4 0x46554747" and ?h1 = "nat_le 4 ver" and ?h2 = "nat_le 8 (length pts)" and ?h3 = "nat_le 8 (length ms)"
  have fl: "?file = [] @ ?h0 @ (?h1 @ ?h2 @ ?h3 @ ?M @ ?T @ pad @ dat)"
    "?file = ?h0 @ ?h1 @ (?h2 @ ?h3 @ ?M @ ?T @ pad @ dat)" "?file = (?h0 @ ?h1) @ ?h2 @ (?h3 @ ?M @ ?T @ pad @ dat)"
    "?file = (?h0 @ ?h1 @ ?h2) @ ?h3 @ (?M @ ?T @ pad @ dat)" "?file = (?h0 @ ?h1 @ ?h2 @ ?h3) @ ?M @ (?T @ pad @ dat)"
    "?file = (?h0 @ ?h1 @ ?h2 @ ?h3 @ ?M) @ ?T @ (pad @ dat)"
    by (simp_all add: enc_head_def)
  have m13: "13 * length ms \<le> length ?M" by (rule length_concat_ge) (rule enc_meta_length)
  have t32: "32 * length pts \<le> length ?T" by (rule length_concat_ge) (use pts enc_pending_length in blast)
  have ll: "length ?file = 24 + length ?M + length ?T + length pad + length dat" by (simp add: enc_head_def)
  have cnt: "length ms < 256 ^ 8" "length pts < 256 ^ 8" using m13 t32 ll len by (simp_all add: size_max_def)
  have v: "ver < 256 ^ 4" using ver by auto
  have r0: "read_u32 ?file 0 = Inr (0x46554747, 4)"
    using readsD [OF reads_uint [of "0x46554747" 4], of "[]" "?h1 @ ?h2 @ ?h3 @ ?M @ ?T @ pad @ dat"] len fl(1) by (simp add: read_u32_def)
  have r1: "read_u32 ?file 4 = Inr (ver, 8)"
    using readsD [OF reads_uint [OF v], of ?h0 "?h2 @ ?h3 @ ?M @ ?T @ pad @ dat"] len fl(2) by (simp add: read_u32_def)
  have r2: "read_u64 ?file 8 = Inr (length pts, 16)"
    using readsD [OF reads_uint [OF cnt(2)], of "?h0 @ ?h1" "?h3 @ ?M @ ?T @ pad @ dat"] len fl(3) by (simp add: read_u64_def)
  have r3: "read_u64 ?file 16 = Inr (length ms, 24)"
    using readsD [OF reads_uint [OF cnt(1)], of "?h0 @ ?h1 @ ?h2" "?M @ ?T @ pad @ dat"] len fl(4) by (simp add: read_u64_def)
  let ?f0 = "empty_file\<lparr>f_version := ver\<rparr>"
  have r4: "read_metadata (length ms) ?f0 ?file 24 = Inr (fold add_meta ms ?f0, 24 + length ?M)"
    using readsD [OF reads_metadata [OF ms], of "?h0 @ ?h1 @ ?h2 @ ?h3" "?T @ pad @ dat"] len fl(5) by simp
  have r5: "read_pending (length pts) ?file (24 + length ?M) = Inr (pts, 24 + length ?M + length ?T)"
    using readsD [OF reads_pending, of pts "?h0 @ ?h1 @ ?h2 @ ?h3 @ ?M" "pad @ dat"] pts len fl(6) by (simp add: add.assoc)
  have hd: "length (enc_head ver ms pts) = 24 + length ?M + length ?T" by (simp add: enc_head_def)
  have al: "f_alignment (fold add_meta ms ?f0) = alignment_of ms"
    unfolding alignment_of_def by (rule add_metas_alignment) simp
  have u: "usub (length ?file) 24 = length ?file - 24" "usub (length ?file) (24 + length ?M) = length ?file - (24 + length ?M)"
    by (rule usub_id; use ll len in linarith)+
  from place_tensors_fit [of ?file "enc_head ver ms pts @ pad" dat pts "fold add_meta ms ?f0"] len pts
  obtain f' where f': "place_tensors (length ?file) (length (enc_head ver ms pts @ pad)) pts (fold add_meta ms ?f0) = Inr f'"
    "f_version f' = ver" "f_metadata f' = ms" "list_all2 (tensor_matches ?file dat) pts (f_tensors f')"
    using add_metas [of ms ?f0] by (auto simp: empty_file_def)
  have c1: "\<not> (length ?file - 24) div 13 < length ms" "\<not> (length ?file - (24 + length ?M)) div 32 < length pts"
    using m13 t32 ll by (simp_all add: not_less less_eq_div_iff_mult_less_eq)
  have "gguf_open ?file = Inr f'"
  proof (rule gguf_open_steps [OF _ r0 r1 ver r2 r3 _ r4 _ r5 _ _ f'(1)])
    show "align_up (24 + length ?M + length ?T) (f_alignment (fold add_meta ms ?f0)) = Inr (length (enc_head ver ms pts @ pad))"
      using pad unfolding al hd by simp
    show "24 \<le> length ?file" unfolding ll by simp
    show "\<not> usub (length ?file) 24 div 13 < length ms" unfolding u(1) by (rule c1)
    show "\<not> usub (length ?file) (24 + length ?M) div 32 < length pts" unfolding u(2) by (rule c1)
  qed simp
  then show ?thesis using f' by blast
qed

text \<open>
  C3: decoding. Encode any version, metadata and tensor infos as the format says, pad to the alignment the metadata
  declare, and append the data. Opening the result returns exactly those metadata and, in order, exactly those tensors,
  each viewing the bytes at its offset in the data.
\<close>

theorem gguf_roundtrip:
  assumes ver: "ver = 2 \<or> ver = 3" and ms: "\<forall>kv\<in>set ms. wf_meta kv" and pts: "\<forall>pt\<in>set pts. wf_pending pt \<and> fits dat pt"
    and pad: "align_up (length (enc_head ver ms pts)) (alignment_of ms) = Inr (length (enc_head ver ms pts @ pad))"
    and len: "length (enc_head ver ms pts @ pad @ dat) \<le> size_max"
  shows "\<exists>f. gguf_open (enc_head ver ms pts @ pad @ dat) = Inr f \<and> f_version f = ver \<and> f_metadata f = ms
    \<and> list_all2 (tensor_matches (enc_head ver ms pts @ pad @ dat) dat) pts (f_tensors f)"
  by (rule gguf_open_encoded [OF assms])

text \<open>A file of one F32 tensor of two elements, for the witnesses.\<close>

definition demo_pt :: PendingTensor where
  "demo_pt = \<lparr>pt_name = ''w'', pt_shape = [2], pt_ggml_type = 0, pt_offset = 0\<rparr>"

lemma demo_file:
  "wf_pending demo_pt" "fits (replicate 8 (CHR 0x01)) demo_pt" "length (enc_head 3 [] [demo_pt]) = 57" "align_up 57 (alignment_of []) = Inr 64"
proof -
  show "wf_pending demo_pt" by (simp add: wf_pending_def demo_pt_def)
  show "fits (replicate 8 (CHR 0x01)) demo_pt"
    by (simp add: fits_def demo_pt_def tensor_nbytes_def ggml_type_info_def guard_def size_max_def int64_max_def size_wrap_def)
  show "length (enc_head 3 [] [demo_pt]) = 57" by (simp add: enc_head_def enc_pending_def enc_str_def demo_pt_def)
  show "align_up 57 (alignment_of []) = Inr 64"
    by (simp add: align_up_def alignment_of_def empty_file_def Let_def guard_def size_max_def)
qed

theorem gguf_roundtrip_witness:
  "\<exists>f. gguf_open (enc_head 3 [] [demo_pt] @ replicate 7 (CHR 0x00) @ replicate 8 (CHR 0x01)) = Inr f \<and> f_version f = 3 \<and> f_metadata f = []
    \<and> list_all2 (tensor_matches (enc_head 3 [] [demo_pt] @ replicate 7 (CHR 0x00) @ replicate 8 (CHR 0x01)) (replicate 8 (CHR 0x01))) [demo_pt] (f_tensors f)"
  by (rule gguf_roundtrip) (simp_all add: demo_file size_max_def)


theorem gguf_open_safe_witness:
  "length (replicate 24 (CHR 0x00) :: byte list) \<le> size_max \<and>
   ((\<exists>f. gguf_open (replicate 24 (CHR 0x00)) = Inr f) \<or> (\<exists>m. gguf_open (replicate 24 (CHR 0x00)) = Inl (Throw m)))"
  using gguf_open_safe [of "replicate 24 (CHR 0x00)"] by (simp add: size_max_def)

theorem gguf_open_tensors_witness:
  "\<exists>f. gguf_open (enc_head 3 [] [demo_pt] @ replicate 7 (CHR 0x00) @ replicate 8 (CHR 0x01)) = Inr f \<and> length (f_tensors f) = 1
    \<and> (\<forall>t\<in>set (f_tensors f). ti_data t + ti_nbytes t \<le> 72 \<and> ti_numel t = prod_list (ti_shape t) \<and> (\<forall>d\<in>set (ti_shape t). 0 < d))"
proof -
  let ?file = "enc_head 3 [] [demo_pt] @ replicate 7 (CHR 0x00) @ replicate 8 (CHR 0x01)"
  have "\<exists>f. gguf_open ?file = Inr f \<and> f_version f = 3 \<and> f_metadata f = []
    \<and> list_all2 (tensor_matches ?file (replicate 8 (CHR 0x01))) [demo_pt] (f_tensors f)"
    by (rule gguf_open_encoded) (simp_all add: demo_file size_max_def)
  then obtain f where f: "gguf_open ?file = Inr f" "length (f_tensors f) = 1" by (auto simp: list_all2_Cons1)
  have l: "length ?file = 72" by (simp add: demo_file)
  have "length ?file \<le> size_max" by (simp add: demo_file size_max_def)
  from gguf_open_tensors [OF f(1) this] f l show ?thesis by auto
qed

section \<open>Shapes and uploads\<close>

lemma check_dims_2d_iff: "check_dims_2d ds = Inr () \<longleftrightarrow> (\<forall>d\<in>set ds. 0 < d \<and> d \<le> 0x7FFFFFFF)"
  by (induction ds) (auto simp: guard_def)

lemma prod_list_pos: "\<forall>d\<in>set ds. 0 < d \<Longrightarrow> 0 < (prod_list ds :: int)"
  by (induction ds) simp_all

lemma row_product_iff:
  "\<forall>d\<in>set ds. 0 < d \<Longrightarrow> 0 < rs \<Longrightarrow> rs \<le> 0x7FFFFFFF \<Longrightarrow>
     (row_product rs ds = Inr r) \<longleftrightarrow> (r = rs * prod_list ds \<and> r \<le> 0x7FFFFFFF)"
proof (induction ds arbitrary: rs)
  case (Cons d ds)
  have d: "0 < d" "1 \<le> prod_list ds" using Cons.prems prod_list_pos [of ds] by auto
  have div: "0x7FFFFFFF div d < rs \<longleftrightarrow> 0x7FFFFFFF < rs * d" using d(1) by (rule int_div_less_iff)
  show ?case
  proof (cases "0x7FFFFFFF < rs * d")
    case True
    have "rs * d * 1 \<le> rs * d * prod_list ds" by (rule mult_left_mono) (use d Cons.prems in auto)
    then show ?thesis using True div by (auto simp: guard_def mult.assoc)
  next
    case False
    then have "0 < rs * d" "rs * d \<le> 0x7FFFFFFF" using d Cons.prems by auto
    then show ?thesis using Cons.IH [of "rs * d"] Cons.prems False div by (simp add: guard_def mult.assoc)
  qed
qed auto

text \<open>
  \<^verbatim>\<open>shape_to_2d\<close>. It succeeds exactly when the shape is not empty, its dimensions are positive 31-bit numbers and the
  outer ones multiply to such a number; the two results are then valid \<^verbatim>\<open>int\<close>s that cover every element.
\<close>

theorem shape_to_2d_correct:
  "shape_to_2d shape = Inr (r, c) \<longleftrightarrow> shape \<noteq> [] \<and> (\<forall>d\<in>set shape. 0 < d \<and> d \<le> int32_max) \<and> r * c = prod_list shape
     \<and> (if length shape = 1 then c = 1 else c = hd shape) \<and> r \<le> int32_max"
proof (cases shape)
  case (Cons d ds)
  have g: "(\<exists>e. check_dims_2d shape = Inl e) \<or> check_dims_2d shape = Inr ()" by (cases "check_dims_2d shape") auto
  show ?thesis
  proof (cases "check_dims_2d shape = Inr ()")
    case True
    then have pos: "\<forall>d\<in>set shape. 0 < d \<and> d \<le> 0x7FFFFFFF" by (simp add: check_dims_2d_iff)
    have "row_product 1 ds = Inr r \<longleftrightarrow> r = prod_list ds \<and> r \<le> 0x7FFFFFFF" for r
      using row_product_iff [of ds 1 r] pos Cons by simp
    then show ?thesis using True pos Cons
      by (cases "row_product 1 ds") (auto simp: shape_to_2d_def int32_max_def simp del: check_dims_2d.simps row_product.simps)
  next
    case False
    then have "\<not> (\<forall>d\<in>set shape. 0 < d \<and> d \<le> int32_max)" by (simp add: check_dims_2d_iff int32_max_def)
    then show ?thesis using False g Cons by (auto simp: shape_to_2d_def simp del: check_dims_2d.simps)
  qed
qed (simp add: shape_to_2d_def)

theorem shape_to_2d_correct_witness: "shape_to_2d [3, 4, 5] = Inr (20, 3)"
  using shape_to_2d_correct [of "[3, 4, 5]" 20 3] by (simp add: int32_max_def)

lemma gguf_open_info:
  assumes "gguf_open file = Inr f" "length file \<le> size_max"
  shows "\<forall>t\<in>set (f_tensors f). info_ok (length file) t"
  using gguf_open_pieces [OF assms] place_tensors_ok [OF _ assms(2)] by (metis empty_iff list.set(1) index_ok_empty)

lemma info_ok_nonempty: "info_ok n t \<Longrightarrow> ti_dtype_supported t \<Longrightarrow> ti_nbytes t \<noteq> 0"
  by (simp add: info_ok_def)

lemma demo_opened:
  "\<exists>f. gguf_open (enc_head 3 [] [demo_pt] @ replicate 7 (CHR 0x00) @ replicate 8 (CHR 0x01)) = Inr f \<and> f_version f = 3 \<and> f_metadata f = []
    \<and> list_all2 (tensor_matches (enc_head 3 [] [demo_pt] @ replicate 7 (CHR 0x00) @ replicate 8 (CHR 0x01)) (replicate 8 (CHR 0x01))) [demo_pt] (f_tensors f)"
  by (rule gguf_open_encoded) (simp_all add: demo_file size_max_def)

definition file_world :: "byte list \<Rightarrow> unit world" where
  "file_world bs = demo_world\<lparr>heap := demo_mem\<lparr>blocks := [0 \<mapsto> bs]\<rparr>\<rparr>"

lemma file_world_inv: "world_inv {0} (file_world bs)"
  using demo_world_ok by (auto simp: file_world_def world_ok_def world_inv_def mem_inv_def demo_mem_def split: if_splits)

text \<open>
  C32: uploading from an opened file. Whatever shape the caller asks for, \<^verbatim>\<open>upload_raw\<close> of a tensor of the file either throws,
  leaving memory as it was, or gives a tensor of that shape and the file's dtype holding exactly the tensor's bytes of the
  file; the size check in \<^verbatim>\<open>from_raw_bytes_on\<close> never fails.
\<close>

theorem upload_raw_contents:
  assumes w: "world_inv E w" and m: "blocks (heap w) b = Some file" and l: "length file \<le> size_max"
    and f: "gguf_open file = Inr f" "t \<in> set (f_tensors f)" and rc: "is_int32 r" "is_int32 c"
  shows "case upload_raw t (Ptr b 0) r c w of
      (Inr x, w') \<Rightarrow> bytes x = Inr (ti_nbytes t) \<and> rows x = r \<and> cols x = c \<and> r * c = ti_numel t \<and> dtype x = ti_dtype t
        \<and> load (data x) (ti_nbytes t) (heap w') = Inr (window (ti_data t) (ti_nbytes t) file)
    | (Inl e, w') \<Rightarrow> (\<exists>m. e = Throw m) \<and> blocks (heap w') = blocks (heap w)"
proof -
  have i: "info_ok (length file) t" using gguf_open_info [OF f(1) l] f(2) by blast
  have ld: "load (Ptr b (ti_data t)) (ti_nbytes t) (heap w) = Inr (window (ti_data t) (ti_nbytes t) file)"
    using m i by (simp add: load_def info_ok_def)
  have sp: "spec (from_raw_bytes_on d (Ptr b (ti_data t)) r c (ti_dtype t) (ti_nbytes t)) w
    (\<lambda>x w'. made E w d r c (ti_dtype t) x w' \<and> bytes x = Inr (ti_nbytes t) \<and> (ti_nbytes t \<noteq> 0 \<longrightarrow>
       load (data x) (ti_nbytes t) (heap w') = Inr (window (ti_data t) (ti_nbytes t) file))) (failed E w)" for d
    by (rule from_raw_bytes_spec [OF w rc]) (rule ld)
  show ?thesis
  proof (cases "ti_dtype_supported t \<and> 0 < r \<and> 0 < c \<and> r * c = ti_numel t
      \<and> \<not> (dtype_is_quant (ti_dtype t) \<and> c mod int (dtype_block_size (ti_dtype t)) \<noteq> 0)")
    case True
    then have e: "upload_raw t (Ptr b 0) r c w = from_raw_bytes_on (default_device (rt w)) (Ptr b (ti_data t)) r c (ti_dtype t) (ti_nbytes t) w"
      by (auto simp: upload_raw_def ptr_add_def sbnd_def lift_def reading_def)
    obtain x w' where x: "upload_raw t (Ptr b 0) r c w = (x, w')" by force
    have "ti_nbytes t \<noteq> 0" using True i info_ok_nonempty by blast
    then show ?thesis using spec_throws [OF sp, of "default_device (rt w)"] spec_result [OF sp, of "default_device (rt w)"] True e x
      by (cases x) (auto simp: failed_def made_def)
  next
    case False
    then have "\<exists>m. upload_raw t (Ptr b 0) r c w = (Inl (Throw m), w)"
      by (auto simp: upload_raw_def lift_def not_less)
    then show ?thesis by auto
  qed
qed

theorem upload_raw_contents_witness:
  "\<exists>f t. gguf_open (enc_head 3 [] [demo_pt] @ replicate 7 (CHR 0x00) @ replicate 8 (CHR 0x01)) = Inr f \<and> f_tensors f = [t]
    \<and> (case upload_raw t (Ptr 0 0) 1 2 (file_world (enc_head 3 [] [demo_pt] @ replicate 7 (CHR 0x00) @ replicate 8 (CHR 0x01))) of
      (Inr x, w') \<Rightarrow> load (data x) (ti_nbytes t) (heap w') = Inr (window 0 (ti_nbytes t) (replicate 8 (CHR 0x01))) | (Inl e, w') \<Rightarrow> \<exists>m. e = Throw m)"
proof -
  let ?dat = "replicate 8 (CHR 0x01)"
  let ?file = "enc_head 3 [] [demo_pt] @ replicate 7 (CHR 0x00) @ ?dat"
  from demo_opened obtain f where f: "gguf_open ?file = Inr f" "list_all2 (tensor_matches ?file ?dat) [demo_pt] (f_tensors f)" by blast
  then obtain t where t: "f_tensors f = [t]" "tensor_matches ?file ?dat demo_pt t" by (auto simp: list_all2_Cons1)
  have l: "length ?file \<le> size_max" by (simp add: demo_file size_max_def)
  have "window (ti_data t) (ti_nbytes t) ?file = window 0 (ti_nbytes t) ?dat"
    using t(2) by (simp only: tensor_matches_def) (simp add: demo_pt_def)
  moreover from upload_raw_contents [OF file_world_inv [of ?file] _ l f(1), of 0 t 1 2] t
  have "case upload_raw t (Ptr 0 0) 1 2 (file_world ?file) of
      (Inr x, w') \<Rightarrow> load (data x) (ti_nbytes t) (heap w') = Inr (window (ti_data t) (ti_nbytes t) ?file) | (Inl e, w') \<Rightarrow> \<exists>m. e = Throw m"
    by (auto simp: file_world_def is_int32_def int32_max_def split: prod.splits sum.splits)
  ultimately show ?thesis using f t by (auto split: prod.splits sum.splits)
qed

end
