(* ===== verification/Text.thy ===== *)
theory Text
  imports Prelude
begin

unbundle bit_operations_syntax

text \<open>
  Scanning and printing text, shared by the safetensors header parser and the JSON parser. A cursor \<^verbatim>\<open>p\<close> with its
  \<^verbatim>\<open>end\<close> is the list of the characters left; \<^verbatim>\<open>p < end\<close> says that the list is not empty. Characters are bytes.
\<close>

section \<open>Characters\<close>

definition is_ws :: "char \<Rightarrow> bool" where
  "is_ws c \<longleftrightarrow> c = CHR '' '' \<or> c = CHR 0x09 \<or> c = CHR 0x0A \<or> c = CHR 0x0D"

definition skip_ws :: "string \<Rightarrow> string" where
  "skip_ws p = dropWhile is_ws p"

definition is_digit :: "char \<Rightarrow> bool" where
  "is_digit c \<longleftrightarrow> 48 \<le> (of_char c :: nat) \<and> (of_char c :: nat) \<le> 57"

definition digit_val :: "char \<Rightarrow> nat" where
  "digit_val c = of_char c - 48"

definition digit_char :: "nat \<Rightarrow> char" where
  "digit_char d = char_of (48 + d)"

text \<open>One hexadecimal digit, either case.\<close>

definition hex_digit :: "char \<Rightarrow> nat option" where
  "hex_digit c = (let n = of_char c in
     if 48 \<le> n \<and> n \<le> 57 then Some (n - 48)
     else if 97 \<le> n \<and> n \<le> 102 then Some (n - 97 + 10)
     else if 65 \<le> n \<and> n \<le> 70 then Some (n - 65 + 10)
     else None)"

text \<open>The loop over four digits at the cursor: \<open>None\<close> for a character that is not one; reading past the end is undefined.\<close>

fun hex_loop :: "nat \<Rightarrow> nat \<Rightarrow> string \<Rightarrow> nat option res" where
  "hex_loop 0 v q = Inr (Some v)"
| "hex_loop (Suc k) v [] = Inl (UB ''read past the end of the text'')"
| "hex_loop (Suc k) v (c # q) = (case hex_digit c of None \<Rightarrow> Inr None | Some d \<Rightarrow> hex_loop k (push_bit 4 v OR d) q)"

definition hex4 :: "string \<Rightarrow> nat option res" where
  "hex4 q = hex_loop 4 0 q"

text \<open>The bytes a code point adds to a string.\<close>

definition append_utf8 :: "nat \<Rightarrow> string" where
  "append_utf8 cp = (
     if cp < 0x80 then [char_of cp]
     else if cp < 0x800 then
       [char_of (0xC0 OR drop_bit 6 cp), char_of (0x80 OR (cp AND 0x3F))]
     else if cp < 0x10000 then
       [char_of (0xE0 OR drop_bit 12 cp), char_of (0x80 OR (drop_bit 6 cp AND 0x3F)), char_of (0x80 OR (cp AND 0x3F))]
     else
       [char_of (0xF0 OR drop_bit 18 cp), char_of (0x80 OR (drop_bit 12 cp AND 0x3F)),
        char_of (0x80 OR (drop_bit 6 cp AND 0x3F)), char_of (0x80 OR (cp AND 0x3F))])"

text \<open>The character a one-letter escape stands for.\<close>

definition simple_escape :: "char \<Rightarrow> char option" where
  "simple_escape e = (
     if e = CHR 0x22 then Some (CHR 0x22)
     else if e = CHR 0x5C then Some (CHR 0x5C)
     else if e = CHR ''/'' then Some (CHR ''/'')
     else if e = CHR ''n'' then Some (CHR 0x0A)
     else if e = CHR ''t'' then Some (CHR 0x09)
     else if e = CHR ''r'' then Some (CHR 0x0D)
     else if e = CHR ''b'' then Some (CHR 0x08)
     else if e = CHR ''f'' then Some (CHR 0x0C)
     else None)"

section \<open>Decimal numbers\<close>

text \<open>\<^verbatim>\<open>std::to_string\<close> of an unsigned and of a signed number.\<close>

fun nat_dec :: "nat \<Rightarrow> string" where
  "nat_dec n = (if n < 10 then [digit_char n] else nat_dec (n div 10) @ [digit_char (n mod 10)])"

declare nat_dec.simps [simp del]

definition int_dec :: "int \<Rightarrow> string" where
  "int_dec i = (if i < 0 then CHR ''-'' # nat_dec (nat (- i)) else nat_dec (nat i))"

section \<open>Scanning lemmas\<close>

lemma skip_ws_length: "length (skip_ws p) \<le> length p"
  by (simp add: skip_ws_def length_dropWhile_le)

lemma skip_ws_Nil [simp]: "skip_ws [] = []"
  by (simp add: skip_ws_def)

lemma skip_ws_id [simp]: "\<not> is_ws c \<Longrightarrow> skip_ws (c # p) = c # p"
  by (simp add: skip_ws_def)

lemma skip_ws_idem [simp]: "skip_ws (skip_ws p) = skip_ws p"
  by (simp add: skip_ws_def)

lemma safe_hex_loop: "k \<le> length q \<Longrightarrow> safe (hex_loop k v q)"
proof (induction k v q rule: hex_loop.induct)
  case (3 k v c q)
  then show ?case by (cases "hex_digit c") auto
qed simp_all

lemma digit_char_simps:
  assumes "d < 10"
  shows "is_digit (digit_char d)" "digit_val (digit_char d) = d" "\<not> is_ws (digit_char d)"
    "digit_char d \<noteq> CHR ''-''"
proof -
  have d: "d \<in> {0, 1, 2, 3, 4, 5, 6, 7, 8, 9}" using assms by auto
  show "is_digit (digit_char d)" "digit_val (digit_char d) = d"
    using assms by (simp_all add: is_digit_def digit_val_def digit_char_def)
  show "\<not> is_ws (digit_char d)" "digit_char d \<noteq> CHR ''-''"
    using d by (auto simp: is_ws_def digit_char_def char_of_def)
qed

lemma nat_dec_digits: "\<forall>c\<in>set (nat_dec n). is_digit c"
proof (induction n rule: nat_dec.induct)
  case (1 n)
  then show ?case by (subst nat_dec.simps) (auto simp: digit_char_simps)
qed

lemma nat_dec_nonempty: "nat_dec n \<noteq> []"
  by (subst nat_dec.simps) simp

text \<open>Reading digits back, most significant first.\<close>

definition dec_val :: "nat \<Rightarrow> string \<Rightarrow> nat" where
  "dec_val v s = foldl (\<lambda>v c. v * 10 + digit_val c) v s"

lemma dec_val_nat_dec: "dec_val 0 (nat_dec n) = n"
proof (induction n rule: nat_dec.induct)
  case (1 n)
  then show ?case by (subst nat_dec.simps) (auto simp: dec_val_def digit_char_simps)
qed

end
