(* ===== verification/Safetensors.thy ===== *)
theory Safetensors
  imports Memory Text
begin

text \<open>
  The safetensors reader, its uploads and the writer (\<^verbatim>\<open>src/safetensors.cpp\<close>, \<^verbatim>\<open>include/brotensor/safetensors.h\<close>). The
  mapped file is a byte list and a pointer into it an offset; the header parser's cursor is the list of the characters
  left. \<^verbatim>\<open>write_file\<close> produces the bytes of the file it writes.
\<close>

section \<open>Element types\<close>

datatype StDtype = StUnknown | StF32 | StF16 | StBF16 | StI32 | StI64 | StU8 | StBOOL

primrec st_dtype_name :: "StDtype \<Rightarrow> string" where
  "st_dtype_name StF32 = ''F32''"
| "st_dtype_name StF16 = ''F16''"
| "st_dtype_name StBF16 = ''BF16''"
| "st_dtype_name StI32 = ''I32''"
| "st_dtype_name StI64 = ''I64''"
| "st_dtype_name StU8 = ''U8''"
| "st_dtype_name StBOOL = ''BOOL''"
| "st_dtype_name StUnknown = ''Unknown''"

primrec st_dtype_size_bytes :: "StDtype \<Rightarrow> nat" where
  "st_dtype_size_bytes StF32 = 4"
| "st_dtype_size_bytes StF16 = 2"
| "st_dtype_size_bytes StBF16 = 2"
| "st_dtype_size_bytes StI32 = 4"
| "st_dtype_size_bytes StI64 = 8"
| "st_dtype_size_bytes StU8 = 1"
| "st_dtype_size_bytes StBOOL = 1"
| "st_dtype_size_bytes StUnknown = 0"

definition parse_dtype :: "string \<Rightarrow> StDtype" where
  "parse_dtype s = (
     if s = ''F32'' then StF32
     else if s = ''F16'' then StF16
     else if s = ''BF16'' then StBF16
     else if s = ''I32'' then StI32
     else if s = ''I64'' then StI64
     else if s = ''U8'' then StU8
     else if s = ''BOOL'' then StBOOL
     else StUnknown)"

text \<open>\<^verbatim>\<open>TensorView::numel\<close>; the signed product is undefined when it leaves \<^verbatim>\<open>int64_t\<close>.\<close>

definition mul_int64 :: "int \<Rightarrow> int \<Rightarrow> int res" where
  "mul_int64 a b = (if is_int64 (a * b) then Inr (a * b) else Inl (UB ''int64 overflow''))"

fun numel_from :: "string \<Rightarrow> string \<Rightarrow> int \<Rightarrow> int list \<Rightarrow> int res" where
  "numel_from neg ovf n [] = Inr n"
| "numel_from neg ovf n (d # ds) = guard (d < 0) neg (
     guard (d \<noteq> 0 \<and> int64_max div d < n) ovf (
     bnd (mul_int64 n d) (\<lambda>n'. numel_from neg ovf n' ds)))"

record TensorView =
  tv_name :: string
  tv_dtype :: StDtype
  tv_shape :: "int list"
  tv_data :: nat
  tv_nbytes :: nat

definition numel :: "TensorView \<Rightarrow> int res" where
  "numel v = numel_from ''safetensors: negative dimension in tensor shape''
     ''safetensors: tensor element count overflows int64'' 1 (tv_shape v)"

section \<open>Header parser\<close>

definition parse_fail :: "string \<Rightarrow> 'a res" where
  "parse_fail msg = Inl (Throw (''safetensors: parse error: '' @ msg))"

definition eat :: "char \<Rightarrow> string \<Rightarrow> bool \<times> string" where
  "eat c p = (case skip_ws p of
      x # q \<Rightarrow> if x = c then (True, q) else (False, x # q)
    | [] \<Rightarrow> (False, []))"

definition expect :: "char \<Rightarrow> string \<Rightarrow> string res" where
  "expect c p = (case eat c p of (True, q) \<Rightarrow> Inr q | (False, _) \<Rightarrow> parse_fail ''expected character'')"

text \<open>
  The escape \<^verbatim>\<open>\uXXXX\<close>, the cursor on its backslash: the code point and the text after the escape. After a high
  surrogate the low one must follow.
\<close>

definition surrogate_pair :: "nat \<Rightarrow> nat \<Rightarrow> nat" where
  "surrogate_pair hi lo = 0x10000 + push_bit 10 (hi - 0xD800) + (lo - 0xDC00)"

definition low_surrogate :: "nat \<Rightarrow> string \<Rightarrow> (nat \<times> string) res" where
  "low_surrogate hi p = (
     if length p < 6 \<or> p ! 0 \<noteq> CHR 0x5C \<or> p ! 1 \<noteq> CHR ''u'' then parse_fail ''unpaired high surrogate in string''
     else bnd (hex4 (drop 2 p)) (\<lambda>l. case l of
       None \<Rightarrow> parse_fail ''bad hex digit in u escape''
     | Some lo \<Rightarrow>
         if lo < 0xDC00 \<or> 0xDFFF < lo then parse_fail ''unpaired high surrogate in string''
         else Inr (surrogate_pair hi lo, drop 6 p)))"

definition unicode_escape :: "string \<Rightarrow> (nat \<times> string) res" where
  "unicode_escape p = (
     if length p < 6 then parse_fail ''truncated u escape in string''
     else bnd (hex4 (drop 2 p)) (\<lambda>h. case h of
       None \<Rightarrow> parse_fail ''bad hex digit in u escape''
     | Some hi \<Rightarrow>
         if 0xD800 \<le> hi \<and> hi \<le> 0xDBFF then low_surrogate hi (drop 6 p)
         else if 0xDC00 \<le> hi \<and> hi \<le> 0xDFFF then parse_fail ''unpaired low surrogate in string''
         else Inr (hi, drop 6 p)))"

lemma parse_fail_neq [simp]: "parse_fail m \<noteq> Inr x"
  by (simp add: parse_fail_def)

lemma bnd_InrE: "bnd m f = Inr y \<Longrightarrow> (\<And>x. m = Inr x \<Longrightarrow> f x = Inr y \<Longrightarrow> P) \<Longrightarrow> P"
  by (cases m) simp_all

lemma low_surrogate_length: "low_surrogate hi p = Inr (cp, q) \<Longrightarrow> length q < length p"
  unfolding low_surrogate_def
  by (auto simp del: bnd_eq_Inr split: if_split_asm option.split_asm elim!: bnd_InrE)

lemma unicode_escape_length: "unicode_escape p = Inr (cp, q) \<Longrightarrow> length q < length p"
  unfolding unicode_escape_def
  by (auto simp del: bnd_eq_Inr dest!: low_surrogate_length split: if_split_asm option.split_asm elim!: bnd_InrE)

text \<open>The loop of \<^verbatim>\<open>parse_string\<close> after the opening quote: the string read and the text after its closing quote.\<close>

function parse_chars :: "string \<Rightarrow> (string \<times> string) res" where
  "parse_chars p = (case p of
      [] \<Rightarrow> parse_fail ''unterminated string''
    | c # q \<Rightarrow>
       if c = CHR 0x22 then Inr ([], q)
       else if c = CHR 0x5C \<and> q \<noteq> [] then
         if hd q = CHR ''u'' then
           bnd (unicode_escape p) (\<lambda>(cp, q1). bnd (parse_chars q1) (\<lambda>(s, r). Inr (append_utf8 cp @ s, r)))
         else (case simple_escape (hd q) of
             None \<Rightarrow> parse_fail ''unsupported escape in string''
           | Some e \<Rightarrow> bnd (parse_chars (tl q)) (\<lambda>(s, r). Inr (e # s, r)))
       else bnd (parse_chars q) (\<lambda>(s, r). Inr (c # s, r)))"
  by pat_completeness auto
termination
  by (relation "measure length") (auto dest: unicode_escape_length)

declare parse_chars.simps [simp del]

definition parse_string :: "string \<Rightarrow> (string \<times> string) res" where
  "parse_string p = (case skip_ws p of
      [] \<Rightarrow> parse_fail ''expected string''
    | c # q \<Rightarrow> if c \<noteq> CHR 0x22 then parse_fail ''expected string'' else parse_chars q)"

fun int_digits :: "int \<Rightarrow> string \<Rightarrow> (int \<times> string) res" where
  "int_digits v [] = Inr (v, [])"
| "int_digits v (c # p) = (if is_digit c then
     (let digit = int (digit_val c) in
      if (int64_max - digit) div 10 < v then parse_fail ''integer out of range''
      else int_digits (v * 10 + digit) p)
   else Inr (v, c # p))"

definition parse_int :: "string \<Rightarrow> (int \<times> string) res" where
  "parse_int p = (let p0 = skip_ws p;
       neg = (p0 \<noteq> [] \<and> hd p0 = CHR ''-'');
       p1 = (if neg then tl p0 else p0) in
     if p1 = [] \<or> \<not> is_digit (hd p1) then parse_fail ''expected integer''
     else bnd (int_digits 0 p1) (\<lambda>(v, p2). Inr (if neg then - v else v, p2)))"

lemma parse_chars_length: "parse_chars p = Inr (s, r) \<Longrightarrow> length r < length p"
proof (induction p arbitrary: s r rule: parse_chars.induct)
  case (1 p)
  show ?case
  proof (cases p)
    case Nil
    then show ?thesis using 1(4) by (simp add: parse_chars.simps parse_fail_def)
  next
    case (Cons c q)
    note ih = 1(1-3) [OF Cons]
    show ?thesis
    proof (cases "c = CHR 0x22")
      case True
      then show ?thesis using 1(4) Cons by (simp add: parse_chars.simps)
    next
      case nq: False
      show ?thesis
      proof (cases "c = CHR 0x5C \<and> q \<noteq> []")
        case bs: True
        show ?thesis
        proof (cases "hd q = CHR ''u''")
          case u: True
          then obtain cp q1 s1 where "unicode_escape p = Inr (cp, q1)" "parse_chars q1 = Inr (s1, r)"
            using 1(4) nq bs Cons by (subst (asm) parse_chars.simps) (auto split: prod.splits)
          then show ?thesis using ih(1) [OF nq bs u _ refl] unicode_escape_length [of p cp q1] by fastforce
        next
          case nu: False
          then obtain e s1 where "simple_escape (hd q) = Some e" "parse_chars (tl q) = Inr (s1, r)"
            using 1(4) nq bs Cons by (subst (asm) parse_chars.simps) (auto simp: parse_fail_def split: prod.splits option.splits)
          then show ?thesis using ih(2) [OF nq bs nu] bs Cons by fastforce
        qed
      next
        case nb: False
        then obtain s1 where "parse_chars q = Inr (s1, r)"
          using 1(4) nq Cons by (subst (asm) parse_chars.simps) (auto split: prod.splits if_splits)
        then show ?thesis using ih(3) [OF nq nb] Cons by fastforce
      qed
    qed
  qed
qed

lemma skip_ws_Cons: "skip_ws p = c # q \<Longrightarrow> length q < length p"
  using skip_ws_length [of p] by simp

lemma parse_string_length: "parse_string p = Inr (s, r) \<Longrightarrow> length r < length p"
  by (cases "skip_ws p") (auto simp: parse_string_def dest!: parse_chars_length skip_ws_Cons split: if_splits)

lemma eat_length: "eat c p = (b, q) \<Longrightarrow> length q \<le> length p \<and> (b \<longrightarrow> length q < length p)"
  using skip_ws_length [of p] by (cases "skip_ws p") (auto simp: eat_def skip_ws_length dest: skip_ws_Cons split: if_splits)

lemma expect_length: "expect c p = Inr q \<Longrightarrow> length q < length p"
  using eat_length [of c p] by (auto simp: expect_def split: prod.splits bool.splits)

lemma int_digits_length: "int_digits v p = Inr (x, q) \<Longrightarrow> length q \<le> length p"
  by (induction v p rule: int_digits.induct) (auto simp: Let_def split: if_splits)

lemma parse_int_length: "parse_int p = Inr (x, q) \<Longrightarrow> length q < length p"
proof -
  assume a: "parse_int p = Inr (x, q)"
  define p0 where "p0 = skip_ws p"
  define p1 where "p1 = (if p0 \<noteq> [] \<and> hd p0 = CHR ''-'' then tl p0 else p0)"
  have l: "length p1 \<le> length p" using skip_ws_length [of p] unfolding p1_def p0_def length_tl if_distrib [of length] by (auto intro: le_trans)
  from a obtain v where v: "p1 \<noteq> []" "is_digit (hd p1)" "int_digits 0 p1 = Inr (v, q)"
    unfolding parse_int_def Let_def p0_def [symmetric] p1_def [symmetric] by (auto split: if_splits)
  then obtain c r where "p1 = c # r" by (cases p1) auto
  then have "length q < length p1" using v int_digits_length by (fastforce simp: Let_def split: if_splits)
  then show ?thesis using l by linarith
qed

text \<open>
  \<^verbatim>\<open>skip_value\<close>. The container loop counts one kind of bracket only; its \<^verbatim>\<open>int\<close> counter overflowing is undefined. A string
  inside is skipped with \<^verbatim>\<open>parse_string\<close>.
\<close>

function skip_container :: "char \<Rightarrow> char \<Rightarrow> int \<Rightarrow> string \<Rightarrow> string res" where
  "skip_container opn cls depth p = (case p of
      [] \<Rightarrow> if 0 < depth then parse_fail ''unterminated container'' else Inr []
    | c # q \<Rightarrow>
       if depth \<le> 0 then Inr p
       else if c = CHR 0x22 then bnd (parse_string p) (\<lambda>(_, r). skip_container opn cls depth r)
       else if c = opn then
         if is_int32 (depth + 1) then skip_container opn cls (depth + 1) q else Inl (UB ''int overflow'')
       else skip_container opn cls (if c = cls then depth - 1 else depth) q)"
  by pat_completeness auto
termination
  by (relation "measure (\<lambda>(_, _, _, p). length p)") (auto dest: parse_string_length)

declare skip_container.simps [simp del]

definition scalar_end :: "char \<Rightarrow> bool" where
  "scalar_end c \<longleftrightarrow> c = CHR '','' \<or> c = CHR ''}'' \<or> c = CHR '']'' \<or> is_ws c"

definition skip_value :: "string \<Rightarrow> string res" where
  "skip_value p = (case skip_ws p of
      [] \<Rightarrow> parse_fail ''unexpected EOF''
    | c # q \<Rightarrow>
       if c = CHR 0x22 then bnd (parse_string (c # q)) (\<lambda>(_, r). Inr r)
       else if c = CHR ''{'' \<or> c = CHR ''['' then
         skip_container c (if c = CHR ''{'' then CHR ''}'' else CHR '']'') 1 q
       else Inr (dropWhile (\<lambda>c. \<not> scalar_end c) (c # q)))"

lemma skip_container_length: "skip_container opn cls depth p = Inr q \<Longrightarrow> length q \<le> length p"
proof (induction opn cls depth p rule: skip_container.induct)
  case (1 opn cls depth p)
  show ?case
  proof (cases p)
    case Nil
    then show ?thesis using 1(4) by (auto simp: skip_container.simps split: if_splits)
  next
    case (Cons c r)
    note ih = 1(1-3) [OF Cons]
    consider "depth \<le> 0" | "0 < depth" "c = CHR 0x22" | "0 < depth" "c \<noteq> CHR 0x22" "c = opn" | "0 < depth" "c \<noteq> CHR 0x22" "c \<noteq> opn"
      by fastforce
    then show ?thesis
    proof cases
      case 1
      then show ?thesis using "1.prems" Cons by (simp add: skip_container.simps)
    next
      case 2
      then obtain s r1 where r: "parse_string p = Inr (s, r1)" "skip_container opn cls depth r1 = Inr q"
        using "1.prems" Cons by (subst (asm) skip_container.simps) (auto split: prod.splits)
      then show ?thesis using ih(1) [of "(s, r1)" s r1] 2 parse_string_length [OF r(1)] by simp
    next
      case 3
      then have "is_int32 (depth + 1)" "skip_container opn cls (depth + 1) r = Inr q"
        using "1.prems" Cons by (subst (asm) skip_container.simps, auto split: if_splits)+
      then show ?thesis using ih(2) 3 Cons by simp
    next
      case 4
      then have "skip_container opn cls (if c = cls then depth - 1 else depth) r = Inr q"
        using "1.prems" Cons by (subst (asm) skip_container.simps) simp
      then show ?thesis using ih(3) 4 Cons by simp
    qed
  qed
qed

lemma skip_value_length: "skip_value p = Inr q \<Longrightarrow> length q \<le> length p"
proof -
  assume a: "skip_value p = Inr q"
  show ?thesis
  proof (cases "skip_ws p")
    case (Cons c r)
    then have l: "Suc (length r) \<le> length p" using skip_ws_length [of p] by simp
    from a Cons consider s where "parse_string (c # r) = Inr (s, q)" | opn cl where "skip_container opn cl 1 r = Inr q"
      | "q = dropWhile (\<lambda>c. \<not> scalar_end c) (c # r)"
      by (auto simp: skip_value_def split: if_splits prod.splits)
    then show ?thesis
      using l parse_string_length skip_container_length length_dropWhile_le [of "\<lambda>c. \<not> scalar_end c" "c # r"]
      by cases fastforce+
  qed (use a in \<open>simp add: skip_value_def\<close>)
qed

section \<open>Entries\<close>

record Entry =
  e_dtype :: StDtype
  e_shape :: "int list"
  e_off_start :: nat
  e_off_end :: nat

definition empty_entry :: Entry where
  "empty_entry = \<lparr>e_dtype = StUnknown, e_shape = [], e_off_start = 0, e_off_end = 0\<rparr>"

text \<open>The loop over the numbers of \<^verbatim>\<open>shape\<close>, after \<^verbatim>\<open>[\<close>.\<close>

function shape_loop :: "bool \<Rightarrow> string \<Rightarrow> (int list \<times> string) res" where
  "shape_loop first p = (case eat (CHR '']'') p of
      (True, q) \<Rightarrow> Inr ([], q)
    | (False, q) \<Rightarrow> bnd (if first then Inr q else expect (CHR '','') q) (\<lambda>q1.
        bnd (parse_int q1) (\<lambda>(d, q2).
        bnd (shape_loop False q2) (\<lambda>(ds, r). Inr (d # ds, r)))))"
  by pat_completeness auto
termination
proof (relation "measure (\<lambda>(_, p). length p)", goal_cases)
  case (2 first p b q q1 y d q2)
  have "length q \<le> length p" using eat_length [of "CHR '']''" p b q] 2 by simp
  moreover have "length q1 \<le> length q" using 2(3) expect_length [of "CHR '',''" q q1] by (auto split: if_splits)
  moreover have "length q2 < length q1" using parse_int_length [of q1 d q2] 2(4,5) by simp
  ultimately show ?case by simp
qed simp

declare shape_loop.simps [simp del]

text \<open>\<^verbatim>\<open>data_offsets\<close>: both ends, not negative, as \<^verbatim>\<open>uint64_t\<close>.\<close>

definition parse_offsets :: "string \<Rightarrow> (nat \<times> nat \<times> string) res" where
  "parse_offsets p =
     bnd (expect (CHR ''['') p) (\<lambda>p1.
     bnd (parse_int p1) (\<lambda>(off_s, p2).
     bnd (expect (CHR '','') p2) (\<lambda>p3.
     bnd (parse_int p3) (\<lambda>(off_e, p4).
     bnd (expect (CHR '']'') p4) (\<lambda>p5.
     guard (off_s < 0 \<or> off_e < 0) ''safetensors: negative data_offsets'' (
     Inr (nat off_s, nat off_e, p5)))))))"

text \<open>One field of an entry: \<open>seen\<close> are the keys \<^verbatim>\<open>dtype\<close>, \<^verbatim>\<open>shape\<close>, \<^verbatim>\<open>data_offsets\<close> met so far.\<close>

definition parse_field :: "string \<Rightarrow> Entry \<Rightarrow> string set \<Rightarrow> string \<Rightarrow> (Entry \<times> string set \<times> string) res" where
  "parse_field key e seen p = (
     if key = ''dtype'' then
       guard (''dtype'' \<in> seen) ''safetensors: duplicate 'dtype' in entry'' (
       bnd (parse_string p) (\<lambda>(v, q).
       guard (parse_dtype v = StUnknown) ''safetensors: unsupported dtype'' (
       Inr (e\<lparr>e_dtype := parse_dtype v\<rparr>, insert ''dtype'' seen, q))))
     else if key = ''shape'' then
       guard (''shape'' \<in> seen) ''safetensors: duplicate 'shape' in entry'' (
       bnd (expect (CHR ''['') p) (\<lambda>q.
       bnd (shape_loop True q) (\<lambda>(ds, r).
       Inr (e\<lparr>e_shape := e_shape e @ ds\<rparr>, insert ''shape'' seen, r))))
     else if key = ''data_offsets'' then
       guard (''data_offsets'' \<in> seen) ''safetensors: duplicate 'data_offsets' in entry'' (
       bnd (parse_offsets p) (\<lambda>(s, t, q).
       Inr (e\<lparr>e_off_start := s, e_off_end := t\<rparr>, insert ''data_offsets'' seen, q)))
     else bnd (skip_value p) (\<lambda>q. Inr (e, seen, q)))"

lemma shape_loop_length: "shape_loop first p = Inr (ds, q) \<Longrightarrow> length q < length p"
proof (induction first p arbitrary: ds rule: shape_loop.induct)
  case (1 first p)
  obtain b q0 where e: "eat (CHR '']'') p = (b, q0)" by force
  note l = eat_length [OF e]
  show ?case
  proof (cases b)
    case True
    then show ?thesis using 1(2) e l by (simp add: shape_loop.simps)
  next
    case False
    then obtain q1 d q2 ds' where q: "(if first then Inr q0 else expect (CHR '','') q0) = Inr q1" "parse_int q1 = Inr (d, q2)"
      "shape_loop False q2 = Inr (ds', q)"
      using 1(2) e by (subst (asm) shape_loop.simps) (auto split: prod.splits)
    have "length q1 \<le> length q0" using q(1) expect_length [of "CHR '',''" q0 q1] by (auto split: if_splits)
    moreover have "length q < length q2" using 1(1) [of False q0 q1 "(d, q2)" d q2] e False q by simp
    ultimately show ?thesis using l parse_int_length [OF q(2)] by linarith
  qed
qed

lemma parse_offsets_length: "parse_offsets p = Inr (s, t, q) \<Longrightarrow> length q < length p"
  by (auto simp: parse_offsets_def dest!: expect_length parse_int_length)

lemma parse_field_length: "parse_field key e seen p = Inr (e', seen', q) \<Longrightarrow> length q \<le> length p"
  by (auto simp: parse_field_def split: if_splits dest!: expect_length parse_string_length shape_loop_length parse_offsets_length skip_value_length)

function entry_loop :: "bool \<Rightarrow> Entry \<Rightarrow> string set \<Rightarrow> string \<Rightarrow> (Entry \<times> string set \<times> string) res" where
  "entry_loop first e seen p = (case eat (CHR ''}'') p of
      (True, q) \<Rightarrow> Inr (e, seen, q)
    | (False, q) \<Rightarrow> bnd (if first then Inr q else expect (CHR '','') q) (\<lambda>q1.
        bnd (parse_string q1) (\<lambda>(key, q2).
        bnd (expect (CHR '':'') q2) (\<lambda>q3.
        bnd (parse_field key e seen q3) (\<lambda>(e', seen', q4).
        entry_loop False e' seen' q4)))))"
  by pat_completeness auto
termination
proof (relation "measure (\<lambda>(_, _, _, p). length p)", goal_cases)
  case (2 first e seen p b q q1 y key q2 q3 z e' w seen' q4)
  have "length q \<le> length p" using eat_length [of "CHR ''}''" p b q] 2 by simp
  moreover have "length q1 \<le> length q" using 2(3) expect_length [of "CHR '',''" q q1] by (auto split: if_splits)
  moreover have "length q2 < length q1" using parse_string_length [of q1 key q2] 2(4,5) by simp
  moreover have "length q3 < length q2" using expect_length 2(6) by simp
  moreover have "length q4 \<le> length q3" using parse_field_length [of key e seen q3 e' seen' q4] 2(7-9) by simp
  ultimately show ?case by simp
qed simp

declare entry_loop.simps [simp del]

definition parse_entry :: "string \<Rightarrow> (Entry \<times> string) res" where
  "parse_entry p = bnd (expect (CHR ''{'') p) (\<lambda>q.
     bnd (entry_loop True empty_entry {} q) (\<lambda>(e, seen, r).
     guard (\<not> (''dtype'' \<in> seen \<and> ''shape'' \<in> seen \<and> ''data_offsets'' \<in> seen))
       ''safetensors: entry missing required field (dtype, shape, or data_offsets)'' (
     Inr (e, r))))"

lemma entry_loop_length: "entry_loop first e seen p = Inr (e', seen', q) \<Longrightarrow> length q < length p"
proof (induction first e seen p rule: entry_loop.induct)
  case (1 first e seen p)
  obtain b q0 where e: "eat (CHR ''}'') p = (b, q0)" by force
  note l = eat_length [OF e]
  show ?case
  proof (cases b)
    case True
    then show ?thesis using 1(2) e l by (simp add: entry_loop.simps)
  next
    case False
    then obtain q1 key q2 q3 e1 seen1 q4 where q: "(if first then Inr q0 else expect (CHR '','') q0) = Inr q1"
      "parse_string q1 = Inr (key, q2)" "expect (CHR '':'') q2 = Inr q3" "parse_field key e seen q3 = Inr (e1, seen1, q4)"
      "entry_loop False e1 seen1 q4 = Inr (e', seen', q)"
      using 1(2) e by (subst (asm) entry_loop.simps) (auto split: prod.splits)
    have "length q1 \<le> length q0" using q(1) expect_length [of "CHR '',''" q0 q1] by (auto split: if_splits)
    moreover have "length q < length q4"
      using 1(1) [of False q0 q1 "(key, q2)" key q2 q3 "(e1, seen1, q4)" e1 "(seen1, q4)" seen1 q4] e False q by simp
    ultimately show ?thesis using l parse_string_length [OF q(2)] expect_length [OF q(3)] parse_field_length [OF q(4)] by linarith
  qed
qed

lemma parse_entry_length: "parse_entry p = Inr (e, q) \<Longrightarrow> length q < length p"
  by (auto simp: parse_entry_def dest!: expect_length entry_loop_length)

section \<open>Opening a file\<close>

record StFile =
  st_tensors :: "TensorView list"
  st_index :: "string \<rightharpoonup> nat"

definition empty_st_file :: StFile where
  "empty_st_file = \<lparr>st_tensors = [], st_index = Map.empty\<rparr>"

text \<open>From an entry to a tensor of the file; \<open>payload_base\<close> is an offset into the mapping.\<close>

definition add_tensor :: "nat \<Rightarrow> nat \<Rightarrow> string \<Rightarrow> Entry \<Rightarrow> StFile \<Rightarrow> StFile res" where
  "add_tensor payload_base payload_size nm e f =
     guard (e_off_end e < e_off_start e \<or> payload_size < e_off_end e) ''safetensors: tensor has out-of-range data_offsets'' (
     let tv = \<lparr>tv_name = nm, tv_dtype = e_dtype e, tv_shape = e_shape e, tv_data = payload_base + e_off_start e,
               tv_nbytes = e_off_end e - e_off_start e\<rparr> in
     bnd (numel tv) (\<lambda>n.
     let numel_u = nat (n mod 18446744073709551616); dsz_u = st_dtype_size_bytes (tv_dtype tv) in
     guard (dsz_u = 0 \<or> size_max div dsz_u < numel_u) ''safetensors: tensor byte size overflows size_t'' (
     guard (size_wrap (numel_u * dsz_u) \<noteq> tv_nbytes tv) ''safetensors: tensor nbytes/shape mismatch'' (
     guard (st_index f nm \<noteq> None) ''safetensors: duplicate tensor name'' (
     Inr (f\<lparr>st_index := (st_index f)(nm \<mapsto> length (st_tensors f)), st_tensors := st_tensors f @ [tv]\<rparr>))))))"

function header_loop :: "nat \<Rightarrow> nat \<Rightarrow> bool \<Rightarrow> bool \<Rightarrow> StFile \<Rightarrow> string \<Rightarrow> (StFile \<times> string) res" where
  "header_loop base psize first seen_metadata f p = (case eat (CHR ''}'') p of
      (True, q) \<Rightarrow> Inr (f, q)
    | (False, q) \<Rightarrow> bnd (if first then Inr q else expect (CHR '','') q) (\<lambda>q1.
        bnd (parse_string q1) (\<lambda>(nm, q2).
        bnd (expect (CHR '':'') q2) (\<lambda>q3.
        if nm = ''__metadata__'' then
          guard seen_metadata ''safetensors: duplicate '__metadata__' key'' (
          bnd (skip_value q3) (\<lambda>q4. header_loop base psize False True f q4))
        else bnd (parse_entry q3) (\<lambda>(e, q4).
          bnd (add_tensor base psize nm e f) (\<lambda>f'. header_loop base psize False seen_metadata f' q4))))))"
  by pat_completeness auto
termination
proof (relation "measure (\<lambda>(_, _, _, _, _, p). length p)", goal_cases)
  case (2 base psize first sm f p b q q1 y nm q2 q3 q4)
  have "length q \<le> length p" using eat_length [of "CHR ''}''" p b q] 2 by simp
  moreover have "length q1 \<le> length q" using 2(3) expect_length [of "CHR '',''" q q1] by (auto split: if_splits)
  moreover have "length q2 < length q1" using parse_string_length [of q1 nm q2] 2(4,5) by simp
  moreover have "length q3 < length q2" using expect_length 2(6) by simp
  moreover have "length q4 \<le> length q3" using skip_value_length 2 by simp
  ultimately show ?case by simp
next
  case (3 base psize first sm f p b q q1 y nm q2 q3 z e q4 f')
  have "length q \<le> length p" using eat_length [of "CHR ''}''" p b q] 3 by simp
  moreover have "length q1 \<le> length q" using 3(3) expect_length [of "CHR '',''" q q1] by (auto split: if_splits)
  moreover have "length q2 < length q1" using parse_string_length [of q1 nm q2] 3(4,5) by simp
  moreover have "length q3 < length q2" using expect_length 3(6) by simp
  moreover have "length q4 < length q3" using parse_entry_length [of q3 e q4] 3 by simp
  ultimately show ?case by simp
qed simp

declare header_loop.simps [simp del]

definition st_open :: "byte list \<Rightarrow> StFile res" where
  "st_open file =
     guard (length file < 8) ''safetensors: file too small'' (
     let header_size = le_nat (take 8 file) in
     guard (length file - 8 < header_size) ''safetensors: header_size exceeds file'' (
     let header = window 8 header_size file; payload_base = 8 + header_size; payload_size = length file - 8 - header_size in
     bnd (expect (CHR ''{'') header) (\<lambda>p.
     bnd (header_loop payload_base payload_size True False empty_st_file p) (\<lambda>(f, q).
     if skip_ws q \<noteq> [] then parse_fail ''unexpected trailing data after header object'' else Inr f))))"

definition st_find :: "StFile \<Rightarrow> string \<Rightarrow> TensorView option" where
  "st_find f nm = map_option (\<lambda>i. st_tensors f ! i) (st_index f nm)"

definition st_get :: "StFile \<Rightarrow> string \<Rightarrow> TensorView res" where
  "st_get f nm = (case st_find f nm of None \<Rightarrow> Inl (Throw ''safetensors: no tensor named'') | Some v \<Rightarrow> Inr v)"

section \<open>Writing a file\<close>

record WriteEntry =
  we_name :: string
  we_dtype :: StDtype
  we_shape :: "int list"
  we_host_data :: ptr
  we_bytes :: nat

text \<open>Validation and offsets: \<open>seen\<close> the names so far, \<open>cursor\<close> the end of the payload so far.\<close>

fun write_offsets :: "string set \<Rightarrow> nat \<Rightarrow> WriteEntry list \<Rightarrow> (nat \<times> nat) list res" where
  "write_offsets seen cursor [] = Inr []"
| "write_offsets seen cursor (e # es) =
     guard (we_name e = []) ''safetensors::write: empty tensor name'' (
     guard (we_name e \<in> seen) ''safetensors::write: duplicate tensor name'' (
     guard (we_host_data e = Null \<and> 0 < we_bytes e) ''safetensors::write: null data'' (
     let dsz = st_dtype_size_bytes (we_dtype e) in
     guard (dsz = 0) ''safetensors::write: bad dtype'' (
     bnd (numel_from ''safetensors::write: negative shape'' ''safetensors::write: element count overflows int64'' 1 (we_shape e)) (\<lambda>n.
     let n_u = nat (n mod 18446744073709551616) in
     guard (size_max div dsz < n_u) ''safetensors::write: byte count overflows size_t'' (
     guard (size_wrap (n_u * dsz) \<noteq> we_bytes e) ''safetensors::write: byte count mismatch'' (
     guard (size_max - cursor < we_bytes e) ''safetensors::write: offset overflows uint64'' (
     bnd (write_offsets (insert (we_name e) seen) (cursor + we_bytes e) es) (\<lambda>offs.
     Inr ((cursor, cursor + we_bytes e) # offs))))))))))"

text \<open>\<^verbatim>\<open>snprintf("\u%04x")\<close> of a byte, and \<^verbatim>\<open>json_escape_append\<close>.\<close>

definition hex_char :: "nat \<Rightarrow> char" where
  "hex_char d = (if d < 10 then char_of (48 + d) else char_of (87 + d))"

definition escape_char :: "char \<Rightarrow> string" where
  "escape_char c = (
     if c = CHR 0x22 then [CHR 0x5C, CHR 0x22]
     else if c = CHR 0x5C then [CHR 0x5C, CHR 0x5C]
     else if c = CHR 0x0A then [CHR 0x5C, CHR ''n'']
     else if c = CHR 0x09 then [CHR 0x5C, CHR ''t'']
     else if c = CHR 0x0D then [CHR 0x5C, CHR ''r'']
     else if c = CHR 0x08 then [CHR 0x5C, CHR ''b'']
     else if c = CHR 0x0C then [CHR 0x5C, CHR ''f'']
     else if (of_char c :: nat) < 0x20 then
       [CHR 0x5C, CHR ''u'', CHR ''0'', CHR ''0'', hex_char (of_char c div 16), hex_char (of_char c mod 16)]
     else [c])"

definition json_escape :: "string \<Rightarrow> string" where
  "json_escape s = concat (map escape_char s)"

definition dtype_safetensors_name :: "StDtype \<Rightarrow> string res" where
  "dtype_safetensors_name d = (case d of StUnknown \<Rightarrow> Inl (Throw ''safetensors::write: unsupported dtype'')
     | _ \<Rightarrow> Inr (st_dtype_name d))"

fun comma_sep :: "string list \<Rightarrow> string" where
  "comma_sep [] = []"
| "comma_sep [s] = s"
| "comma_sep (s # t # ss) = s @ CHR '','' # comma_sep (t # ss)"

definition entry_json :: "WriteEntry \<Rightarrow> nat \<times> nat \<Rightarrow> string res" where
  "entry_json e off = bnd (dtype_safetensors_name (we_dtype e)) (\<lambda>dt.
     Inr (CHR 0x22 # json_escape (we_name e) @
       [CHR 0x22, CHR '':'', CHR ''{'', CHR 0x22] @ ''dtype'' @ [CHR 0x22, CHR '':'', CHR 0x22] @ dt @
       [CHR 0x22, CHR '','', CHR 0x22] @ ''shape'' @ [CHR 0x22, CHR '':'', CHR ''[''] @
       comma_sep (map int_dec (we_shape e)) @
       [CHR '']'', CHR '','', CHR 0x22] @ ''data_offsets'' @ [CHR 0x22, CHR '':'', CHR ''[''] @
       nat_dec (fst off) @ CHR '','' # nat_dec (snd off) @ '']}''))"

fun entries_json :: "bool \<Rightarrow> (WriteEntry \<times> nat \<times> nat) list \<Rightarrow> string res" where
  "entries_json first [] = Inr []"
| "entries_json first ((e, off) # es) = bnd (entry_json e off) (\<lambda>s. bnd (entries_json False es) (\<lambda>r.
     Inr ((if first then [] else '','') @ s @ r)))"

definition pad8 :: "string \<Rightarrow> string" where
  "pad8 s = s @ replicate ((8 - length s mod 8) mod 8) (CHR '' '')"

text \<open>
  The output stream: the bytes written so far, and \<open>room\<close>, how many it takes before \<^verbatim>\<open>fwrite\<close> comes back short. The payload
  is read from the entries' host buffers.
\<close>

definition fwrite :: "nat \<Rightarrow> byte list \<Rightarrow> string \<Rightarrow> byte list \<Rightarrow> byte list res" where
  "fwrite room bs msg out = guard (room < length out + length bs) msg (Inr (out @ bs))"

fun write_payload :: "nat \<Rightarrow> mem \<Rightarrow> WriteEntry list \<Rightarrow> byte list \<Rightarrow> byte list res" where
  "write_payload room m [] out = Inr out"
| "write_payload room m (e # es) out = (
     if we_bytes e = 0 then write_payload room m es out
     else bnd (load (we_host_data e) (we_bytes e) m) (\<lambda>bs.
       bnd (fwrite room bs ''safetensors::write: payload write failed'' out) (\<lambda>out'. write_payload room m es out')))"

text \<open>\<^verbatim>\<open>write_file\<close>: the bytes of the file; \<open>can_open\<close> says whether it could be created.\<close>

definition write_file :: "bool \<Rightarrow> nat \<Rightarrow> mem \<Rightarrow> WriteEntry list \<Rightarrow> byte list res" where
  "write_file can_open room m entries =
     bnd (write_offsets {} 0 entries) (\<lambda>offs.
     bnd (entries_json True (zip entries offs)) (\<lambda>es.
     let hdr = pad8 (CHR ''{'' # es @ ''}'') in
     guard (\<not> can_open) ''safetensors::write: cannot open'' (
     bnd (fwrite room (nat_le 8 (length hdr)) ''safetensors::write: header_size write failed'' []) (\<lambda>out1.
     bnd (fwrite room hdr ''safetensors::write: header write failed'' out1) (\<lambda>out2.
     write_payload room m entries out2)))))"

end
