(* ===== verification/SafetensorsProps.thy ===== *)
theory SafetensorsProps
  imports Safetensors Bits
begin

unbundle bit_operations_syntax

text \<open>
  What the safetensors reader and writer promise: the header parser never leaves the header, an opened file's tensors lie
  inside the mapping, and opening what \<^verbatim>\<open>write_file\<close> wrote gives back what was written.
\<close>

section \<open>The parser stays inside the header\<close>

lemma safe_parse_fail [simp, intro]: "safe (parse_fail m)"
  by (simp add: parse_fail_def)

lemma safe_hex4: "4 \<le> length q \<Longrightarrow> safe (hex4 q)"
  by (simp add: hex4_def safe_hex_loop)

lemma safe_unicode_escape: "safe (unicode_escape p)"
  unfolding unicode_escape_def low_surrogate_def
  by (auto intro!: safe_bnd safe_hex4 split: option.split)

lemma safe_parse_chars: "safe (parse_chars p)"
proof (induction p rule: length_induct)
  case (1 p)
  then show ?case using unicode_escape_length [of p]
    by (subst parse_chars.simps)
      (auto intro!: safe_bnd safe_unicode_escape split: option.split list.split)
qed

lemma safe_parse_string: "safe (parse_string p)"
  by (simp add: parse_string_def safe_parse_chars split: list.split)

lemma safe_int_digits: "safe (int_digits v p)"
  by (induction v p rule: int_digits.induct) (simp_all add: Let_def)

lemma safe_parse_int: "safe (parse_int p)"
  by (auto simp: parse_int_def Let_def safe_int_digits intro!: safe_bnd)

lemma safe_expect: "safe (expect c p)"
  by (simp add: expect_def split: prod.split bool.split)

lemma safe_skip_container: "0 \<le> depth \<Longrightarrow> depth + int (length p) \<le> int32_max \<Longrightarrow> safe (skip_container opn cls depth p)"
proof (induction opn cls depth p rule: skip_container.induct)
  case (1 opn cls depth p)
  show ?case
  proof (cases p)
    case (Cons c q)
    note ih = 1(1-3) [OF Cons]
    have "safe (skip_container opn cls depth r)" if "parse_string p = Inr (s, r)" "0 < depth" "c = CHR 0x22" for s r
      using ih(1) [of "(s, r)" s r] that parse_string_length [OF that(1)] 1(4,5) by simp
    then show ?thesis using ih(2,3) 1(4,5) Cons
      by (subst skip_container.simps) (auto intro!: safe_bnd safe_parse_string simp: is_int32_def)
  qed (simp add: skip_container.simps)
qed

lemma safe_skip_value: "int (length p) \<le> int32_max \<Longrightarrow> safe (skip_value p)"
proof (cases "skip_ws p")
  case (Cons c q)
  assume "int (length p) \<le> int32_max"
  then show ?thesis using skip_ws_Cons [OF Cons]
    by (auto simp: skip_value_def Cons intro!: safe_bnd safe_parse_string safe_skip_container)
qed (simp add: skip_value_def)

lemma shape_loop_rest:
  assumes "eat c p = (False, q)" "(if first then Inr q else expect d q) = Inr q1" "length q2 < length q1"
  shows "length q2 < length p"
  using eat_length [OF assms(1)] assms(2,3) expect_length [of d q q1] by (auto split: if_splits)

lemma safe_shape_loop: "safe (shape_loop first p)"
proof (induction p arbitrary: first rule: length_induct)
  case (1 p)
  show ?case
  proof (cases "eat (CHR '']'') p")
    case (Pair b q)
    have "safe (shape_loop False q2)" if "\<not> b" "(if first then Inr q else expect (CHR '','') q) = Inr q1" "parse_int q1 = Inr (d, q2)" for q1 d q2
      using 1 shape_loop_rest [of _ p q first _ q1 q2] that Pair parse_int_length [OF that(3)] by auto
    then show ?thesis
      by (subst shape_loop.simps) (auto simp: Pair intro!: safe_bnd safe_expect safe_parse_int split: bool.split)
  qed
qed

lemma safe_parse_offsets: "safe (parse_offsets p)"
  unfolding parse_offsets_def by (intro safe_bnd safe_expect safe_guard) (auto intro!: safe_bnd safe_expect safe_parse_int safe_guard)

lemma safe_parse_field: "int (length p) \<le> int32_max \<Longrightarrow> safe (parse_field key e seen p)"
  unfolding parse_field_def
  by (auto intro!: safe_bnd safe_expect safe_guard safe_parse_string safe_shape_loop safe_parse_offsets safe_skip_value)

lemma safe_entry_loop: "int (length p) \<le> int32_max \<Longrightarrow> safe (entry_loop first e seen p)"
proof (induction p arbitrary: first e seen rule: length_induct)
  case (1 p)
  show ?case
  proof (cases "eat (CHR ''}'') p")
    case (Pair b q)
    have "int (length q3) \<le> int32_max" "parse_field key e seen q3 = Inr (e', seen', q4) \<Longrightarrow> safe (entry_loop False e' seen' q4)"
      if "\<not> b" "(if first then Inr q else expect (CHR '','') q) = Inr q1" "parse_string q1 = Inr (key, q2)" "expect (CHR '':'') q2 = Inr q3"
      for q1 key q2 q3 e' seen' q4
    proof -
      have l: "length q3 < length p"
        using shape_loop_rest [of _ p q first _ q1 q2] that(1,2) Pair parse_string_length [OF that(3)] expect_length [OF that(4)] by fastforce
      then show "int (length q3) \<le> int32_max" using 1(2) by linarith
      assume "parse_field key e seen q3 = Inr (e', seen', q4)"
      then have "length q4 < length p" using l parse_field_length by fastforce
      then show "safe (entry_loop False e' seen' q4)" using 1 by auto
    qed
    then show ?thesis
      by (subst entry_loop.simps)
        (auto simp: Pair intro!: safe_bnd safe_expect safe_parse_string safe_parse_field split: bool.split)
  qed
qed

lemma safe_parse_entry: "int (length p) \<le> int32_max \<Longrightarrow> safe (parse_entry p)"
  unfolding parse_entry_def using expect_length [of "CHR ''{''" p]
  by (fastforce intro!: safe_bnd safe_guard safe_expect safe_entry_loop)

section \<open>Tensors of an opened file\<close>

lemma numel_from_step:
  assumes "0 \<le> n" "n \<le> int64_max" "0 \<le> d" "\<not> (d \<noteq> 0 \<and> int64_max div d < n)"
  shows "0 \<le> n * d" "n * d \<le> int64_max" "is_int64 (n * d)"
proof -
  show z: "0 \<le> n * d" using assms by simp
  show m: "n * d \<le> int64_max"
  proof (cases "d = 0")
    case False
    then have "\<not> int64_max < n * d" using assms int_div_less_iff [of d int64_max n] by simp
    then show ?thesis by simp
  qed (simp add: int64_max_def)
  from z m show "is_int64 (n * d)" by (simp add: is_int64_def int64_max_def)
qed

lemma numel_from_safe: "0 \<le> n \<Longrightarrow> n \<le> int64_max \<Longrightarrow> safe (numel_from neg ovf n ds)"
proof (induction ds arbitrary: n)
  case (Cons d ds)
  have "safe (bnd (mul_int64 n d) (\<lambda>n'. numel_from neg ovf n' ds))" if "0 \<le> d" "\<not> (d \<noteq> 0 \<and> int64_max div d < n)"
    using numel_from_step [OF Cons.prems that] Cons.IH [of "n * d"] by (simp add: mul_int64_def)
  then show ?case unfolding numel_from.simps by (intro safe_guard) simp
qed simp

lemma numel_from_result:
  "numel_from neg ovf n ds = Inr k \<Longrightarrow> 0 \<le> n \<Longrightarrow> n \<le> int64_max \<Longrightarrow> k = n * prod_list ds \<and> 0 \<le> k \<and> k \<le> int64_max \<and> (\<forall>d\<in>set ds. 0 \<le> d)"
proof (induction ds arbitrary: n)
  case (Cons d ds)
  then have d: "0 \<le> d" "\<not> (d \<noteq> 0 \<and> int64_max div d < n)" and r: "numel_from neg ovf (n * d) ds = Inr k"
    by (auto simp: mul_int64_def split: if_splits)
  from Cons.IH [OF r] numel_from_step [OF Cons.prems(2,3) d] d(1) show ?case by (simp add: mult.assoc)
qed simp

text \<open>What holds of every tensor of an opened file.\<close>

definition st_view_ok :: "nat \<Rightarrow> TensorView \<Rightarrow> bool" where
  "st_view_ok fsize v \<longleftrightarrow> tv_data v + tv_nbytes v \<le> fsize \<and> (\<forall>d\<in>set (tv_shape v). 0 \<le> d) \<and> tv_dtype v \<noteq> StUnknown
     \<and> int (tv_nbytes v) = prod_list (tv_shape v) * int (st_dtype_size_bytes (tv_dtype v)) \<and> numel v = Inr (prod_list (tv_shape v))
     \<and> tv_name v \<noteq> ''__metadata__''"

definition st_ok :: "nat \<Rightarrow> StFile \<Rightarrow> bool" where
  "st_ok fsize f \<longleftrightarrow> (\<forall>v\<in>set (st_tensors f). st_view_ok fsize v) \<and> distinct (map tv_name (st_tensors f))
     \<and> (\<forall>nm. st_index f nm = None \<longleftrightarrow> nm \<notin> tv_name ` set (st_tensors f))
     \<and> (\<forall>nm i. st_index f nm = Some i \<longrightarrow> i < length (st_tensors f) \<and> tv_name (st_tensors f ! i) = nm)"

lemma safe_add_tensor: "safe (add_tensor base psize nm e f)"
  unfolding add_tensor_def Let_def numel_def
  by (intro safe_guard safe_bnd numel_from_safe) (auto simp: int64_max_def intro!: safe_guard)

lemma add_tensor_ok:
  assumes "add_tensor base psize nm e f = Inr f'" "st_ok (base + psize) f" "nm \<noteq> ''__metadata__''"
  shows "st_ok (base + psize) f'"
proof -
  define tv where "tv = \<lparr>tv_name = nm, tv_dtype = e_dtype e, tv_shape = e_shape e, tv_data = base + e_off_start e,
               tv_nbytes = e_off_end e - e_off_start e\<rparr>"
  let ?dsz = "st_dtype_size_bytes (tv_dtype tv)"
  from assms(1) obtain n where o: "e_off_start e \<le> e_off_end e" "e_off_end e \<le> psize" and n: "numel tv = Inr n"
    and d: "?dsz \<noteq> 0" "\<not> size_max div ?dsz < nat (n mod 18446744073709551616)"
    and e: "size_wrap (nat (n mod 18446744073709551616) * ?dsz) = tv_nbytes tv" and i: "st_index f nm = None"
    and f': "f' = f\<lparr>st_index := (st_index f)(nm \<mapsto> length (st_tensors f)), st_tensors := st_tensors f @ [tv]\<rparr>"
    unfolding add_tensor_def Let_def tv_def [symmetric] by (auto simp: not_less)
  have k: "n = prod_list (tv_shape tv)" "0 \<le> n" "n \<le> int64_max" "\<forall>d\<in>set (tv_shape tv). 0 \<le> d"
    using numel_from_result [OF n [unfolded numel_def]] by (auto simp: int64_max_def)
  then have m: "n mod 18446744073709551616 = n" by (intro mod_pos_pos_trivial) (auto simp: int64_max_def)
  have "nat n * ?dsz \<le> size_max"
    using d m by (metis div_times_less_eq_dividend mult_le_mono1 order.trans not_less)
  then have "tv_nbytes tv = nat n * ?dsz" using e m by (simp add: size_wrap_id)
  then have "int (tv_nbytes tv) = n * int ?dsz" using k(2) by simp
  moreover have "tv_data tv + tv_nbytes tv \<le> base + psize" using o by (simp add: tv_def)
  moreover have "tv_dtype tv \<noteq> StUnknown" using d by auto
  ultimately have v: "st_view_ok (base + psize) tv" using k n assms(3) by (simp add: st_view_ok_def) (simp add: tv_def)
  have nm: "tv_name tv = nm" by (simp add: tv_def)
  show ?thesis
    using assms(2) v i unfolding st_ok_def f' by (auto simp: nm nth_append less_SucI)
qed

lemma wp_parse_fail [simp]: "wp (parse_fail m) Q"
  by (simp add: parse_fail_def)

lemma header_loop_ok:
  "int (length p) \<le> int32_max \<Longrightarrow> st_ok (base + psize) f \<Longrightarrow> wp (header_loop base psize first sm f p) (\<lambda>(f', q). st_ok (base + psize) f')"
proof (induction p arbitrary: first sm f rule: length_induct)
  case (1 p)
  let ?Q = "\<lambda>(f', q). st_ok (base + psize) f'"
  obtain b q where q: "eat (CHR ''}'') p = (b, q)" by force
  have l: "length q3 < length p" if "\<not> b" "(if first then Inr q else expect (CHR '','') q) = Inr q1" "parse_string q1 = Inr (nm, q2)"
    "expect (CHR '':'') q2 = Inr q3" for q1 nm q2 q3
    using shape_loop_rest [of _ p q first _ q1 q2] that(1,2) q parse_string_length [OF that(3)] expect_length [OF that(4)] by fastforce
  have rec: "wp (header_loop base psize False sm' f1 r) ?Q" if "length r < length p" "st_ok (base + psize) f1" for sm' f1 r
    using 1(1) [rule_format, OF that(1)] that 1(2) by simp
  have meta: "wp (bnd (skip_value q3) (\<lambda>q4. header_loop base psize False True f q4)) ?Q" if "length q3 < length p" for q3
    by (rule wp_bnd [OF safe_skip_value rec]) (use that 1(2,3) skip_value_length [of q3] in auto)
  have entry: "wp (bnd (parse_entry q3) (\<lambda>(e, q4). bnd (add_tensor base psize nm e f) (\<lambda>f'. header_loop base psize False sm f' q4))) ?Q"
    if "length q3 < length p" "nm \<noteq> ''__metadata__''" for q3 nm
    using that 1(2) add_tensor_ok [OF _ 1(3) that(2)]
    by (auto intro!: wp_bnd safe_parse_entry safe_add_tensor rec dest!: parse_entry_length)
  show ?case
  proof (cases b)
    case True
    then show ?thesis using 1(3) by (simp add: header_loop.simps [of base psize first sm f p] q)
  next
    case False
    then show ?thesis unfolding header_loop.simps [of base psize first sm f p] q
    proof (simp only: prod.case bool.case, intro wp_bnd, goal_cases)
      case (3 q1 x)
      obtain nm q2 where x: "x = (nm, q2)" by force
      show ?case unfolding x prod.case
      proof (rule wp_bnd [OF safe_expect], goal_cases)
        case (1 q3)
        have "length q3 < length p" using l [OF False, of q1 nm q2 q3] 3 1 x by simp
        then show ?case using meta [of q3] entry [of q3 nm] by (auto simp del: bnd_eq_Inr intro: wp_guard)
      qed
    qed (simp_all add: safe_expect safe_parse_string)
  qed
qed

lemma empty_st_ok: "st_ok n empty_st_file"
  by (simp add: st_ok_def empty_st_file_def)

lemma st_open_wp:
  assumes "le_nat (take 8 file) \<le> 2147483647"
  shows "wp (st_open file) (st_ok (length file))"
proof -
  let ?hs = "le_nat (take 8 file)"
  let ?h = "window 8 ?hs file"
  have "wp (bnd (expect (CHR ''{'') ?h) (\<lambda>p. bnd (header_loop (8 + ?hs) (length file - 8 - ?hs) True False empty_st_file p) (\<lambda>(f, q).
      if skip_ws q \<noteq> [] then parse_fail ''unexpected trailing data after header object'' else Inr f))) (st_ok (length file))"
    if "8 + ?hs \<le> length file"
  proof (rule wp_bnd [OF safe_expect])
    fix p
    assume "expect (CHR ''{'') ?h = Inr p"
    then have "length p < length ?h" by (rule expect_length)
    moreover have "length ?h = ?hs" using that by (rule length_window)
    ultimately have "int (length p) \<le> int32_max" using assms by (simp add: int32_max_def)
    from header_loop_ok [OF this empty_st_ok, of "8 + ?hs" "length file - 8 - ?hs" True False] that
    show "wp (bnd (header_loop (8 + ?hs) (length file - 8 - ?hs) True False empty_st_file p) (\<lambda>(f, q).
        if skip_ws q \<noteq> [] then parse_fail ''unexpected trailing data after header object'' else Inr f)) (st_ok (length file))"
      by (intro wp_bnd) (auto simp: wp_def split: if_splits)
  qed
  then show ?thesis unfolding st_open_def Let_def by (intro wp_guard) simp
qed

text \<open>
  C8: no file can make the header parser leave the header. For every byte string whose header is shorter than 2 GiB (the
  depth counter of \<^verbatim>\<open>skip_value\<close> is an \<^verbatim>\<open>int\<close>) \<^verbatim>\<open>File::open\<close> returns or throws; no read leaves the mapping and no signed
  number overflows.
\<close>

theorem st_open_safe:
  assumes "le_nat (take 8 file) \<le> 2147483647"
  shows "(\<exists>f. st_open file = Inr f) \<or> (\<exists>m. st_open file = Inl (Throw m))"
proof (cases "st_open file")
  case (Inl e)
  then show ?thesis using st_open_wp [OF assms] by (cases e) (auto simp: wp_def)
qed simp

text \<open>
  C9: what an opened safetensors file promises. Every tensor's bytes lie inside the file and are exactly as many as its
  shape and dtype need; names are unique, \<^verbatim>\<open>find\<close> returns the tensor of that name and nothing for a name that is not there.
\<close>

theorem st_open_tensors:
  assumes "st_open file = Inr f" "le_nat (take 8 file) \<le> 2147483647"
  shows "(\<forall>v\<in>set (st_tensors f). tv_data v + tv_nbytes v \<le> length file \<and> numel v = Inr (prod_list (tv_shape v))
        \<and> int (tv_nbytes v) = prod_list (tv_shape v) * int (st_dtype_size_bytes (tv_dtype v)) \<and> st_find f (tv_name v) = Some v)
    \<and> distinct (map tv_name (st_tensors f)) \<and> (\<forall>nm. nm \<notin> tv_name ` set (st_tensors f) \<longrightarrow> st_find f nm = None)"
proof -
  have ok: "st_ok (length file) f" using st_open_wp [OF assms(2)] assms(1) by (simp add: wp_def)
  have "st_find f (tv_name v) = Some v" if "v \<in> set (st_tensors f)" for v
  proof -
    from that ok obtain i where i: "st_index f (tv_name v) = Some i" "i < length (st_tensors f)" "tv_name (st_tensors f ! i) = tv_name v"
      by (fastforce simp: st_ok_def)
    from that obtain j where "j < length (st_tensors f)" "v = st_tensors f ! j" by (auto simp: in_set_conv_nth)
    moreover have "inj_on tv_name (set (st_tensors f))" using ok by (simp add: st_ok_def distinct_map)
    ultimately have "st_tensors f ! i = v" using i that by (meson inj_onD nth_mem)
    then show ?thesis using i by (simp add: st_find_def)
  qed
  then show ?thesis using ok by (auto simp: st_ok_def st_view_ok_def st_find_def)
qed

section \<open>Reading back what was written\<close>

lemma eat_same [simp]: "\<not> is_ws c \<Longrightarrow> eat c (c # p) = (True, p)"
  by (simp add: eat_def)

lemma eat_other [simp]: "\<not> is_ws d \<Longrightarrow> c \<noteq> d \<Longrightarrow> eat c (d # p) = (False, d # p)"
  by (simp add: eat_def)

lemma expect_same [simp]: "\<not> is_ws c \<Longrightarrow> expect c (c # p) = Inr p"
  by (simp add: expect_def)

lemma escape_control:
  assumes "(of_char c :: nat) < 0x20"
  shows "unicode_escape ([CHR 0x5C, CHR ''u'', CHR ''0'', CHR ''0'', hex_char (of_char c div 16), hex_char (of_char c mod 16)] @ q) = Inr (of_char c, q)"
    "append_utf8 (of_char c) = [c]"
proof -
  define n :: nat where "n = of_char c"
  have n: "n < 0x20" "n div 16 < 2" "n mod 16 < 16" using assms by (auto simp: n_def)
  have h: "hex_digit (hex_char d) = Some d" if "d < 16" for d
    using that by (auto simp: hex_digit_def hex_char_def)
  have o: "push_bit 4 (n div 16) OR (n mod 16) = n"
    using nat_or_add [of "n mod 16" 4 "n div 16"] by (simp add: push_bit_eq_mult)
  have z: "hex_digit (CHR ''0'') = Some 0" by (simp add: hex_digit_def)
  have f: "4 = Suc (Suc (Suc (Suc 0)))" by simp
  have "hex_loop (Suc (Suc (Suc (Suc 0)))) 0 ([CHR ''0'', CHR ''0'', hex_char (n div 16), hex_char (n mod 16)] @ q) = Inr (Some n)"
    using n(2,3) o by (simp add: z h)
  then have "hex4 ([CHR ''0'', CHR ''0'', hex_char (n div 16), hex_char (n mod 16)] @ q) = Inr (Some n)"
    unfolding hex4_def f .
  then show "unicode_escape ([CHR 0x5C, CHR ''u'', CHR ''0'', CHR ''0'', hex_char (of_char c div 16), hex_char (of_char c mod 16)] @ q) = Inr (of_char c, q)"
    using n by (simp add: unicode_escape_def n_def)
  show "append_utf8 (of_char c) = [c]" using assms by (simp add: append_utf8_def)
qed

lemma parse_chars_escape: "parse_chars (escape_char c @ q) = bnd (parse_chars q) (\<lambda>(s, r). Inr (c # s, r))"
proof (cases "c \<in> {CHR 0x22, CHR 0x5C, CHR 0x0A, CHR 0x09, CHR 0x0D, CHR 0x08, CHR 0x0C}")
  case True
  then show ?thesis by (auto simp: escape_char_def simple_escape_def parse_chars.simps [of "CHR 0x5C # _"])
next
  case False
  show ?thesis
  proof (cases "(of_char c :: nat) < 0x20")
    case True
    then have "escape_char c = [CHR 0x5C, CHR ''u'', CHR ''0'', CHR ''0'', hex_char (of_char c div 16), hex_char (of_char c mod 16)]"
      using \<open>c \<notin> _\<close> by (simp add: escape_char_def)
    then show ?thesis using escape_control(1) [of c q] escape_control(2) [of c] True
      by (subst parse_chars.simps) simp
  next
    case False2: False
    then have "escape_char c = [c]" using False by (simp add: escape_char_def)
    then show ?thesis using False by (subst parse_chars.simps) auto
  qed
qed

lemma parse_chars_json_escape: "parse_chars (json_escape s @ CHR 0x22 # q) = Inr (s, q)"
proof (induction s)
  case Nil
  show ?case by (simp add: json_escape_def parse_chars.simps)
next
  case (Cons c s)
  then show ?case by (simp add: json_escape_def parse_chars_escape)
qed

lemma quote_not_ws [simp]: "\<not> is_ws (CHR 0x22)" "\<not> is_ws (CHR ''{'')" "\<not> is_ws (CHR ''}'')" "\<not> is_ws (CHR ''['')" "\<not> is_ws (CHR '']'')"
   "\<not> is_ws (CHR '','')" "\<not> is_ws (CHR '':'')"
  by (simp_all add: is_ws_def)

lemma parse_string_written: "parse_string (CHR 0x22 # json_escape s @ CHR 0x22 # q) = Inr (s, q)"
  by (simp add: parse_string_def parse_chars_json_escape)

lemma dec_val_mono: "v \<le> dec_val v s"
proof (induction s arbitrary: v)
  case (Cons c s)
  have "v \<le> v * 10 + digit_val c" by simp
  also have "\<dots> \<le> dec_val (v * 10 + digit_val c) s" by (rule Cons.IH)
  finally show ?case by (simp add: dec_val_def)
qed (simp add: dec_val_def)

lemma int_digits_dec:
  "\<forall>c\<in>set s. is_digit c \<Longrightarrow> \<not> is_digit d \<Longrightarrow> int (dec_val v s) \<le> int64_max \<Longrightarrow> int_digits (int v) (s @ d # q) = Inr (int (dec_val v s), d # q)"
proof (induction s arbitrary: v)
  case (Cons c s)
  let ?v = "v * 10 + digit_val c"
  have m: "int ?v \<le> int64_max" using dec_val_mono [of ?v s] Cons.prems(3) by (simp add: dec_val_def)
  then have "\<not> (int64_max - int (digit_val c)) div 10 < int v" by simp
  moreover have "int_digits (int ?v) (s @ d # q) = Inr (int (dec_val ?v s), d # q)"
    by (rule Cons.IH) (use Cons.prems in \<open>auto simp: dec_val_def\<close>)
  ultimately show ?case using Cons.prems by (simp add: dec_val_def)
qed (simp add: dec_val_def)

lemma digit_not: "is_digit c \<Longrightarrow> \<not> is_ws c \<and> c \<noteq> CHR ''-'' \<and> c \<noteq> CHR '']'' \<and> c \<noteq> CHR '',''"
  by (auto simp: is_digit_def is_ws_def)

lemma parse_int_dec: "\<not> is_digit d \<Longrightarrow> int n \<le> int64_max \<Longrightarrow> parse_int (nat_dec n @ d # q) = Inr (int n, d # q)"
proof -
  assume d: "\<not> is_digit d" "int n \<le> int64_max"
  obtain c s where s: "nat_dec n = c # s" using nat_dec_nonempty [of n] by (cases "nat_dec n") auto
  then have c: "is_digit c" using nat_dec_digits [of n] by auto
  have "int_digits (int 0) (nat_dec n @ d # q) = Inr (int (dec_val 0 (nat_dec n)), d # q)"
    by (rule int_digits_dec) (use nat_dec_digits d dec_val_nat_dec in auto)
  then show ?thesis using s c digit_not [OF c] unfolding dec_val_nat_dec by (simp add: parse_int_def Let_def del: int_digits.simps)
qed

lemma comma_sep_Cons: "comma_sep (s # ss) = s @ concat (map (\<lambda>t. CHR '','' # t) ss)"
  by (induction ss arbitrary: s) auto

lemma int_dec_first: "0 \<le> d \<Longrightarrow> \<exists>c s. int_dec d = c # s \<and> is_digit c"
  using nat_dec_nonempty [of "nat d"] nat_dec_digits [of "nat d"] by (cases "nat_dec (nat d)") (auto simp: int_dec_def)

lemma parse_int_int_dec: "0 \<le> d \<Longrightarrow> d \<le> int64_max \<Longrightarrow> \<not> is_digit c \<Longrightarrow> parse_int (int_dec d @ c # q) = Inr (d, c # q)"
  using parse_int_dec [of c "nat d" q] by (simp add: int_dec_def)

lemma punct_not_digit [simp]: "\<not> is_digit (CHR '','')" "\<not> is_digit (CHR '']'')"
  by (simp_all add: is_digit_def)

lemma shape_loop_tail:
  "\<forall>d\<in>set ds. 0 \<le> d \<and> d \<le> int64_max \<Longrightarrow>
     shape_loop False (concat (map (\<lambda>d. CHR '','' # int_dec d) ds) @ CHR '']'' # q) = Inr (ds, q)"
proof (induction ds)
  case Nil
  show ?case by (simp add: shape_loop.simps)
next
  case (Cons d ds)
  let ?rest = "concat (map (\<lambda>d. CHR '','' # int_dec d) ds) @ CHR '']'' # q"
  obtain c r where r: "?rest = c # r" "\<not> is_digit c" by (cases ds) auto
  have "parse_int (int_dec d @ ?rest) = Inr (d, ?rest)" unfolding r(1) using Cons.prems r by (intro parse_int_int_dec) auto
  then show ?case using Cons by (subst shape_loop.simps) simp
qed

lemma shape_loop_written:
  assumes "\<forall>d\<in>set ds. 0 \<le> d \<and> d \<le> int64_max"
  shows "shape_loop True (comma_sep (map int_dec ds) @ CHR '']'' # q) = Inr (ds, q)"
proof (cases ds)
  case Nil
  show ?thesis by (simp add: Nil shape_loop.simps)
next
  case (Cons d es)
  let ?rest = "concat (map (\<lambda>d. CHR '','' # int_dec d) es) @ CHR '']'' # q"
  obtain c r where r: "?rest = c # r" "\<not> is_digit c" by (cases es) auto
  have p: "parse_int (int_dec d @ ?rest) = Inr (d, ?rest)" unfolding r(1) using assms r Cons by (intro parse_int_int_dec) auto
  obtain c' s where s: "int_dec d = c' # s" "is_digit c'" using int_dec_first [of d] assms Cons by auto
  have "eat (CHR '']'') (int_dec d @ ?rest) = (False, int_dec d @ ?rest)" using s digit_not [OF s(2)] by (simp add: eat_def)
  then show ?thesis using p shape_loop_tail [of es q] assms Cons
    by (subst shape_loop.simps) (simp add: comma_sep_Cons comp_def)
qed

lemma parse_offsets_written:
  "int a \<le> int64_max \<Longrightarrow> int b \<le> int64_max \<Longrightarrow> parse_offsets (CHR ''['' # nat_dec a @ CHR '','' # nat_dec b @ CHR '']'' # q) = Inr (a, b, q)"
  by (simp add: parse_offsets_def parse_int_dec)

lemma parse_string_plain:
  "json_escape s = s \<Longrightarrow> parse_string (CHR 0x22 # s @ CHR 0x22 # q) = Inr (s, q)"
  using parse_string_written [of s q] by simp

lemma plain_names:
  "json_escape ''dtype'' = ''dtype''" "json_escape ''shape'' = ''shape''" "json_escape ''data_offsets'' = ''data_offsets''"
  "json_escape (st_dtype_name d) = st_dtype_name d"
  by (simp_all add: json_escape_def escape_char_def) (cases d; simp add: json_escape_def escape_char_def)

lemma parse_dtype_name: "d \<noteq> StUnknown \<Longrightarrow> parse_dtype (st_dtype_name d) = d"
  by (cases d) (simp_all add: parse_dtype_def)

lemma parse_entry_written:
  assumes "d \<noteq> StUnknown" "\<forall>d\<in>set ds. 0 \<le> d \<and> d \<le> int64_max" "int a \<le> int64_max" "int b \<le> int64_max"
  shows "parse_entry ([CHR ''{'', CHR 0x22] @ ''dtype'' @ [CHR 0x22, CHR '':'', CHR 0x22] @ st_dtype_name d @
       [CHR 0x22, CHR '','', CHR 0x22] @ ''shape'' @ [CHR 0x22, CHR '':'', CHR ''[''] @ comma_sep (map int_dec ds) @
       [CHR '']'', CHR '','', CHR 0x22] @ ''data_offsets'' @ [CHR 0x22, CHR '':'', CHR ''[''] @
       nat_dec a @ CHR '','' # nat_dec b @ '']}'' @ q)
     = Inr (\<lparr>e_dtype = d, e_shape = ds, e_off_start = a, e_off_end = b\<rparr>, q)"
proof -
  let ?e1 = "empty_entry\<lparr>e_dtype := d\<rparr>"
  let ?e2 = "?e1\<lparr>e_shape := ds\<rparr>"
  let ?e3 = "?e2\<lparr>e_off_start := a, e_off_end := b\<rparr>"
  define r3 where "r3 = CHR '']'' # CHR ''}'' # q"
  define r2 where "r2 = CHR '','' # CHR 0x22 # ''data_offsets'' @ CHR 0x22 # CHR '':'' # CHR ''['' # nat_dec a @ CHR '','' # nat_dec b @ r3"
  define r1 where "r1 = CHR '','' # CHR 0x22 # ''shape'' @ CHR 0x22 # CHR '':'' # CHR ''['' # comma_sep (map int_dec ds) @ CHR '']'' # r2"
  have l4: "entry_loop False ?e3 {''data_offsets'', ''shape'', ''dtype''} (CHR ''}'' # q) = Inr (?e3, {''data_offsets'', ''shape'', ''dtype''}, q)"
    by (simp add: entry_loop.simps)
  have l3: "entry_loop False ?e2 {''shape'', ''dtype''} r2 = Inr (?e3, {''data_offsets'', ''shape'', ''dtype''}, q)"
    unfolding r2_def using l4 parse_string_plain [OF plain_names(3)] parse_offsets_written [OF assms(3,4), of "CHR ''}'' # q"]
    by (subst entry_loop.simps) (simp add: parse_field_def r3_def)
  have l2: "entry_loop False ?e1 {''dtype''} r1 = Inr (?e3, {''data_offsets'', ''shape'', ''dtype''}, q)"
    unfolding r1_def using l3 parse_string_plain [OF plain_names(2)] shape_loop_written [OF assms(2), of r2]
    by (subst entry_loop.simps) (simp add: parse_field_def empty_entry_def)
  have l1: "entry_loop True empty_entry {} (CHR 0x22 # ''dtype'' @ CHR 0x22 # CHR '':'' # CHR 0x22 # st_dtype_name d @ CHR 0x22 # r1)
      = Inr (?e3, {''data_offsets'', ''shape'', ''dtype''}, q)"
    using l2 parse_string_plain [OF plain_names(1)] parse_string_plain [OF plain_names(4), of d r1] assms(1)
    by (subst entry_loop.simps) (simp add: parse_field_def parse_dtype_name)
  have e3: "?e3 = \<lparr>e_dtype = d, e_shape = ds, e_off_start = a, e_off_end = b\<rparr>" by (simp add: empty_entry_def)
  show ?thesis using l1 unfolding r1_def r2_def r3_def e3 by (simp add: parse_entry_def)
qed

definition view_of :: "nat \<Rightarrow> WriteEntry \<times> nat \<times> nat \<Rightarrow> TensorView" where
  "view_of base x = (case x of (e, a, b) \<Rightarrow>
     \<lparr>tv_name = we_name e, tv_dtype = we_dtype e, tv_shape = we_shape e, tv_data = base + a, tv_nbytes = b - a\<rparr>)"

lemma numel_from_messages: "numel_from neg ovf n ds = Inr k \<Longrightarrow> numel_from neg' ovf' n ds = Inr k"
  by (induction ds arbitrary: n) (auto simp: mul_int64_def split: if_splits)

lemma numel_from_nonneg: "numel_from neg ovf n ds = Inr k \<Longrightarrow> \<forall>d\<in>set ds. 0 \<le> d"
  by (induction ds arbitrary: n) (auto simp: mul_int64_def split: if_splits)

lemma write_offsets_step:
  assumes "write_offsets seen cursor (e # es) = Inr offs"
  obtains offs' n where "offs = (cursor, cursor + we_bytes e) # offs'" "write_offsets (insert (we_name e) seen) (cursor + we_bytes e) es = Inr offs'"
    "we_name e \<notin> seen" "st_dtype_size_bytes (we_dtype e) \<noteq> 0" "numel_from ''safetensors::write: negative shape'' ''safetensors::write: element count overflows int64'' 1 (we_shape e) = Inr n"
    "\<not> size_max div st_dtype_size_bytes (we_dtype e) < nat (n mod 18446744073709551616)"
    "size_wrap (nat (n mod 18446744073709551616) * st_dtype_size_bytes (we_dtype e)) = we_bytes e"
  using assms by (auto simp: Let_def)

lemma add_tensor_written:
  assumes "write_offsets seen cursor (e # es) = Inr offs" "cursor + we_bytes e \<le> psize" "st_index f (we_name e) = None"
  shows "add_tensor base psize (we_name e) \<lparr>e_dtype = we_dtype e, e_shape = we_shape e, e_off_start = cursor, e_off_end = cursor + we_bytes e\<rparr> f
    = Inr (f\<lparr>st_index := (st_index f)(we_name e \<mapsto> length (st_tensors f)), st_tensors := st_tensors f @ [view_of base (e, cursor, cursor + we_bytes e)]\<rparr>)"
proof -
  from assms(1) obtain n where n: "st_dtype_size_bytes (we_dtype e) \<noteq> 0"
    "numel_from ''safetensors::write: negative shape'' ''safetensors::write: element count overflows int64'' 1 (we_shape e) = Inr n"
    "\<not> size_max div st_dtype_size_bytes (we_dtype e) < nat (n mod 18446744073709551616)"
    "size_wrap (nat (n mod 18446744073709551616) * st_dtype_size_bytes (we_dtype e)) = we_bytes e"
    by (rule write_offsets_step)
  have "numel_from ''safetensors: negative dimension in tensor shape'' ''safetensors: tensor element count overflows int64'' 1 (we_shape e) = Inr n"
    by (rule numel_from_messages [OF n(2)])
  then show ?thesis using n assms(2,3) by (simp add: add_tensor_def numel_def view_of_def Let_def)
qed

lemma entry_json_eq:
  assumes "we_dtype e \<noteq> StUnknown"
  shows "entry_json e (a, b) = Inr (CHR 0x22 # json_escape (we_name e) @ CHR 0x22 # CHR '':'' #
     [CHR ''{'', CHR 0x22] @ ''dtype'' @ [CHR 0x22, CHR '':'', CHR 0x22] @ st_dtype_name (we_dtype e) @
       [CHR 0x22, CHR '','', CHR 0x22] @ ''shape'' @ [CHR 0x22, CHR '':'', CHR ''[''] @ comma_sep (map int_dec (we_shape e)) @
       [CHR '']'', CHR '','', CHR 0x22] @ ''data_offsets'' @ [CHR 0x22, CHR '':'', CHR ''[''] @
       nat_dec a @ CHR '','' # nat_dec b @ '']}'')"
  using assms by (cases "we_dtype e") (simp_all add: entry_json_def dtype_safetensors_name_def)

definition we_ok :: "WriteEntry \<Rightarrow> bool" where
  "we_ok e \<longleftrightarrow> we_name e \<noteq> ''__metadata__'' \<and> (\<forall>d\<in>set (we_shape e). is_int64 d)"

lemma header_loop_written:
  assumes "psize \<le> nat int64_max"
  shows "write_offsets seen cursor es = Inr offs \<Longrightarrow> \<forall>e\<in>set es. we_ok e \<Longrightarrow> cursor + sum_list (map we_bytes es) \<le> psize \<Longrightarrow>
    entries_json first (zip es offs) = Inr s \<Longrightarrow> dom (st_index f) = seen \<Longrightarrow>
    \<exists>f'. header_loop base psize first False f (s @ CHR ''}'' # q) = Inr (f', q)
      \<and> st_tensors f' = st_tensors f @ map (view_of base) (zip es offs)"
proof (induction es arbitrary: seen cursor offs first s f)
  case Nil
  then show ?case by (auto simp: header_loop.simps)
next
  case (Cons e es)
  obtain offs' n where o: "offs = (cursor, cursor + we_bytes e) # offs'"
    "write_offsets (insert (we_name e) seen) (cursor + we_bytes e) es = Inr offs'" "we_name e \<notin> seen"
    "st_dtype_size_bytes (we_dtype e) \<noteq> 0"
    "numel_from ''safetensors::write: negative shape'' ''safetensors::write: element count overflows int64'' 1 (we_shape e) = Inr n"
    by (rule write_offsets_step [OF Cons.prems(1)])
  have dt: "we_dtype e \<noteq> StUnknown" using o(4) by auto
  let ?c' = "cursor + we_bytes e"
  let ?f1 = "f\<lparr>st_index := (st_index f)(we_name e \<mapsto> length (st_tensors f)), st_tensors := st_tensors f @ [view_of base (e, cursor, ?c')]\<rparr>"
  from Cons.prems(4) obtain s2 where s2: "entries_json False (zip es offs') = Inr s2"
    and s: "s = (if first then [] else '','') @ projr (entry_json e (cursor, ?c')) @ s2"
    unfolding o(1) by (auto simp: entry_json_eq [OF dt])
  have dm: "dom (st_index ?f1) = insert (we_name e) seen" using Cons.prems(5) by (simp add: dom_fun_upd del: fun_upd_apply)
  have "\<forall>e\<in>set es. we_ok e" "?c' + sum_list (map we_bytes es) \<le> psize" using Cons.prems(2,3) by (simp_all add: add.assoc)
  from Cons.IH [OF o(2) this s2 dm] obtain f' where
    f': "header_loop base psize False False ?f1 (s2 @ CHR ''}'' # q) = Inr (f', q)"
    "st_tensors f' = st_tensors ?f1 @ map (view_of base) (zip es offs')" by blast
  have sh: "\<forall>d\<in>set (we_shape e). 0 \<le> d \<and> d \<le> int64_max"
    using Cons.prems(2) numel_from_nonneg [OF o(5)] by (auto simp: we_ok_def is_int64_def)
  have b: "int cursor \<le> int64_max" "int ?c' \<le> int64_max" using Cons.prems(3) assms by (auto simp: int64_max_def)
  note pe = parse_entry_written [OF dt sh b, of "s2 @ CHR ''}'' # q"]
  have ad: "add_tensor base psize (we_name e) \<lparr>e_dtype = we_dtype e, e_shape = we_shape e, e_off_start = cursor, e_off_end = ?c'\<rparr> f = Inr ?f1"
    by (rule add_tensor_written [OF Cons.prems(1)]) (use Cons.prems(3,5) o(3) in auto)
  have "header_loop base psize first False f (s @ CHR ''}'' # q) = Inr (f', q)"
    unfolding s entry_json_eq [OF dt] sum.sel
    using pe ad f'(1) parse_string_written [of "we_name e"] Cons.prems(2)
    by (subst header_loop.simps) (simp add: we_ok_def)
  then show ?case using f'(2) o(1) by simp
qed


text \<open>The payload: each entry's bytes at its offset.\<close>

lemma write_payload_eq:
  "write_payload room m es out = Inr out' \<Longrightarrow> \<exists>ds. length ds = length es \<and> out' = out @ concat ds
     \<and> (\<forall>i < length es. length (ds ! i) = we_bytes (es ! i) \<and> (we_bytes (es ! i) \<noteq> 0 \<longrightarrow> load (we_host_data (es ! i)) (we_bytes (es ! i)) m = Inr (ds ! i)))"
proof (induction es arbitrary: out)
  case (Cons e es)
  show ?case
  proof (cases "we_bytes e = 0")
    case True
    then obtain ds where d: "length ds = length es" "out' = out @ concat ds"
      "\<forall>i < length es. length (ds ! i) = we_bytes (es ! i) \<and> (we_bytes (es ! i) \<noteq> 0 \<longrightarrow> load (we_host_data (es ! i)) (we_bytes (es ! i)) m = Inr (ds ! i))"
      using Cons.IH [of out] Cons.prems by auto
    show ?thesis by (rule exI [of _ "[] # ds"]) (use d True in \<open>auto simp: less_Suc_eq_0_disj nth_Cons split: nat.splits\<close>)
  next
    case False
    then obtain bs where b: "load (we_host_data e) (we_bytes e) m = Inr bs" "write_payload room m es (out @ bs) = Inr out'"
      using Cons.prems by (auto simp: fwrite_def)
    then obtain ds where d: "length ds = length es" "out' = (out @ bs) @ concat ds"
      "\<forall>i < length es. length (ds ! i) = we_bytes (es ! i) \<and> (we_bytes (es ! i) \<noteq> 0 \<longrightarrow> load (we_host_data (es ! i)) (we_bytes (es ! i)) m = Inr (ds ! i))"
      using Cons.IH [of "out @ bs"] by auto
    have "length bs = we_bytes e" using load_eq_Inr [OF b(1)] by simp
    then show ?thesis by (intro exI [of _ "bs # ds"]) (use d b in \<open>auto simp: nth_Cons split: nat.splits\<close>)
  qed
qed simp

lemma write_offsets_nth:
  "write_offsets seen cursor es = Inr offs \<Longrightarrow> length offs = length es \<and>
     (\<forall>i < length es. offs ! i = (cursor + sum_list (map we_bytes (take i es)), cursor + sum_list (map we_bytes (take (Suc i) es))))"
proof (induction es arbitrary: seen cursor offs)
  case (Cons e es)
  obtain offs' where o: "offs = (cursor, cursor + we_bytes e) # offs'"
    "write_offsets (insert (we_name e) seen) (cursor + we_bytes e) es = Inr offs'" by (rule write_offsets_step [OF Cons.prems])
  from Cons.IH [OF o(2)] o(1) show ?case by (auto simp: nth_Cons add.assoc split: nat.splits)
qed simp

lemma concat_window: "i < length ds \<Longrightarrow> window (sum_list (map length (take i ds))) (length (ds ! i)) (concat ds @ r) = ds ! i"
proof (induction ds arbitrary: i)
  case (Cons d ds)
  then show ?case by (cases i) (simp_all add: window_append_take)
qed simp

lemma pad8_mod: "\<exists>k. pad8 s = s @ replicate k (CHR '' '')"
  by (auto simp: pad8_def)

lemma skip_ws_spaces: "skip_ws (replicate k (CHR '' '')) = []"
  by (simp add: skip_ws_def is_ws_def dropWhile_eq_Nil_conv)

lemma sum_take_eq:
  "length ds = length es \<Longrightarrow> \<forall>i < length es. length (ds ! i) = we_bytes (es ! i) \<Longrightarrow> map length (take i ds) = map we_bytes (take i es)"
  by (intro nth_equalityI) auto

lemma st_open_written:
  assumes "length hdr < 256 ^ 8" "hdr = CHR ''{'' # s @ CHR ''}'' # replicate k (CHR '' '')"
    "header_loop (8 + length hdr) (length dat) True False empty_st_file (s @ CHR ''}'' # replicate k (CHR '' '')) = Inr (f, replicate k (CHR '' ''))"
  shows "st_open (nat_le 8 (length hdr) @ hdr @ dat) = Inr f"
proof -
  let ?file = "nat_le 8 (length hdr) @ hdr @ dat"
  have t: "take 8 ?file = nat_le 8 (length hdr)" by simp
  have h: "le_nat (take 8 ?file) = length hdr" unfolding t using assms(1) by (simp add: le_nat_nat_le)
  have w: "window 8 (length hdr) ?file = hdr" by (simp add: window_def)
  have l: "length ?file = 8 + length hdr + length dat" by simp
  have "expect (CHR ''{'') hdr = Inr (s @ CHR ''}'' # replicate k (CHR '' ''))" unfolding assms(2) by simp
  then show ?thesis unfolding st_open_def h w Let_def l using assms(3) by (simp add: skip_ws_spaces)
qed

definition written_as :: "mem \<Rightarrow> byte list \<Rightarrow> WriteEntry \<Rightarrow> TensorView \<Rightarrow> bool" where
  "written_as m file e v \<longleftrightarrow> tv_name v = we_name e \<and> tv_dtype v = we_dtype e \<and> tv_shape v = we_shape e \<and> tv_nbytes v = we_bytes e
     \<and> (we_bytes e \<noteq> 0 \<longrightarrow> load (we_host_data e) (we_bytes e) m = Inr (window (tv_data v) (tv_nbytes v) file))"

lemma write_file_pieces:
  assumes "write_file can_open room m es = Inr file"
  obtains offs s ds k where "write_offsets {} 0 es = Inr offs" "entries_json True (zip es offs) = Inr s"
    "file = nat_le 8 (length (CHR ''{'' # s @ CHR ''}'' # replicate k (CHR '' ''))) @ (CHR ''{'' # s @ CHR ''}'' # replicate k (CHR '' '')) @ concat ds"
    "length ds = length es"
    "\<forall>i < length es. length (ds ! i) = we_bytes (es ! i) \<and> (we_bytes (es ! i) \<noteq> 0 \<longrightarrow> load (we_host_data (es ! i)) (we_bytes (es ! i)) m = Inr (ds ! i))"
proof -
  from assms obtain offs s where o: "write_offsets {} 0 es = Inr offs" "entries_json True (zip es offs) = Inr s"
    and p: "write_payload room m es (nat_le 8 (length (pad8 (CHR ''{'' # s @ ''}''))) @ pad8 (CHR ''{'' # s @ ''}'')) = Inr file"
    by (auto simp: write_file_def Let_def fwrite_def)
  obtain k where k: "pad8 (CHR ''{'' # s @ ''}'') = CHR ''{'' # s @ CHR ''}'' # replicate k (CHR '' '')"
    using pad8_mod [of "CHR ''{'' # s @ ''}''"] by auto
  show ?thesis using write_payload_eq [OF p] that [OF o] unfolding k by auto
qed

lemma st_open_write_file:
  assumes w: "write_file can_open room m es = Inr file" and ok: "\<forall>e\<in>set es. we_ok e" and l: "int (length file) \<le> int64_max"
  shows "\<exists>f. st_open file = Inr f \<and> list_all2 (written_as m file) es (st_tensors f)"
proof -
  obtain offs s ds k where o: "write_offsets {} 0 es = Inr offs" "entries_json True (zip es offs) = Inr s"
    and fd: "file = nat_le 8 (length (CHR ''{'' # s @ CHR ''}'' # replicate k (CHR '' ''))) @ (CHR ''{'' # s @ CHR ''}'' # replicate k (CHR '' '')) @ concat ds"
    and ds: "length ds = length es"
    "\<forall>i < length es. length (ds ! i) = we_bytes (es ! i) \<and> (we_bytes (es ! i) \<noteq> 0 \<longrightarrow> load (we_host_data (es ! i)) (we_bytes (es ! i)) m = Inr (ds ! i))"
    by (rule write_file_pieces [OF w]) blast
  define hdr where "hdr = CHR ''{'' # s @ CHR ''}'' # replicate k (CHR '' '')"
  have fl: "file = nat_le 8 (length hdr) @ hdr @ concat ds" unfolding hdr_def by (rule fd)
  have tk: "map length (take i ds) = map we_bytes (take i es)" for i using ds by (intro sum_take_eq) auto
  have sm: "length (concat ds) = sum_list (map we_bytes es)" using tk [of "length es"] ds(1) by (simp add: length_concat)
  have ps: "length (concat ds) \<le> nat int64_max" and hl: "length hdr < 256 ^ 8" using l unfolding fl by (simp_all add: int64_max_def)
  from header_loop_written [OF ps o(1) ok _ o(2), of empty_st_file "8 + length hdr" "replicate k (CHR '' '')"] sm obtain f where
    f: "header_loop (8 + length hdr) (length (concat ds)) True False empty_st_file (s @ CHR ''}'' # replicate k (CHR '' '')) = Inr (f, replicate k (CHR '' ''))"
    "st_tensors f = map (view_of (8 + length hdr)) (zip es offs)"
    by (auto simp: empty_st_file_def)
  have op: "st_open file = Inr f" unfolding fl by (rule st_open_written [OF hl hdr_def f(1)])
  note no = write_offsets_nth [OF o(1)]
  have "written_as m file (es ! i) (st_tensors f ! i)" if i: "i < length es" for i
  proof -
    have v: "st_tensors f ! i = view_of (8 + length hdr) (es ! i, sum_list (map we_bytes (take i es)), sum_list (map we_bytes (take (Suc i) es)))"
      using no i f(2) by simp
    have s1: "sum_list (map we_bytes (take (Suc i) es)) = sum_list (map we_bytes (take i es)) + we_bytes (es ! i)"
      using i by (simp add: take_Suc_conv_app_nth)
    have "window (8 + length hdr + sum_list (map length (take i ds))) (length (ds ! i)) file = ds ! i"
      using concat_window [of i ds "[]"] window_append_skip [of "nat_le 8 (length hdr) @ hdr" "sum_list (map length (take i ds))" "length (ds ! i)" "concat ds"] i ds
      unfolding fl by simp
    then show ?thesis using ds i unfolding v written_as_def tk by (simp add: view_of_def s1)
  qed
  then have "list_all2 (written_as m file) es (st_tensors f)" using no f(2) by (simp add: list_all2_conv_all_nth)
  then show ?thesis using op by blast
qed

lemma write_payload_room: "write_payload room m es out = Inr out' \<Longrightarrow> length out \<le> room \<Longrightarrow> length out' \<le> room"
  by (induction es arbitrary: out) (auto simp: fwrite_def split: if_splits)

lemma write_file_room: "write_file can_open room m es = Inr file \<Longrightarrow> length file \<le> room"
  unfolding write_file_def Let_def by (auto simp: fwrite_def dest!: write_payload_room)

text \<open>
  C7: opening what was written. Whenever \<^verbatim>\<open>write_file\<close> succeeds on entries none of which is called \<^verbatim>\<open>__metadata__\<close>, \<^verbatim>\<open>File::open\<close>
  of the result succeeds and lists exactly those entries in order: same name (quotes, backslashes and control characters
  included), dtype and shape, each viewing exactly the bytes of its host buffer.
\<close>

theorem st_roundtrip:
  assumes "write_file can_open room m es = Inr file" and "\<forall>e\<in>set es. we_ok e" and "int (length file) \<le> int64_max"
  shows "\<exists>f. st_open file = Inr f \<and> list_all2 (written_as m file) es (st_tensors f)"
  by (rule st_open_write_file [OF assms])

text \<open>A host buffer of three bytes and an entry over it, for the witnesses.\<close>

definition demo_host :: mem where
  "demo_host = \<lparr>blocks = [0 \<mapsto> ''abc''], next_block = 1, garbage = (\<lambda>_ _. CHR ''?''), malloc_fails = (\<lambda>_. False)\<rparr>"

definition demo_entry :: "string \<Rightarrow> WriteEntry" where
  "demo_entry nm = \<lparr>we_name = nm, we_dtype = StU8, we_shape = [3], we_host_data = Ptr 0 0, we_bytes = 3\<rparr>"

lemma demo_offsets: "nm \<noteq> [] \<Longrightarrow> write_offsets {} 0 [demo_entry nm] = Inr [(0, 3)]"
  by (simp add: demo_entry_def mul_int64_def is_int64_def int64_max_def Let_def size_max_def size_wrap_def)

lemma demo_digits: "digit_char 3 = CHR ''3''" "digit_char 0 = CHR ''0''"
  by code_simp+

lemma demo_json: "entry_json (demo_entry nm) (0, 3) = Inr (CHR 0x22 # json_escape nm @ CHR 0x22 # CHR '':'' # CHR ''{'' # CHR 0x22 # ''dtype'' @
   CHR 0x22 # CHR '':'' # CHR 0x22 # ''U8'' @ CHR 0x22 # CHR '','' # CHR 0x22 # ''shape'' @ CHR 0x22 # CHR '':'' # ''[3],'' @ 
   CHR 0x22 # ''data_offsets'' @ CHR 0x22 # CHR '':'' # ''[0,3]}'')"
  by (simp add: entry_json_def dtype_safetensors_name_def demo_entry_def int_dec_def nat_dec.simps demo_digits)

lemma demo_entry_simps: "we_bytes (demo_entry nm) = 3" "we_host_data (demo_entry nm) = Ptr 0 0" "we_name (demo_entry nm) = nm"
  by (simp_all add: demo_entry_def)

lemma demo_written:
  assumes "nm \<noteq> []" "length (json_escape nm) \<le> 100"
  shows "\<exists>file. write_file True 1000 demo_host [demo_entry nm] = Inr file"
proof -
  define s where "s = projr (entry_json (demo_entry nm) (0, 3))"
  have s: "entry_json (demo_entry nm) (0, 3) = Inr s" "length s \<le> 200" using assms(2) by (simp_all add: s_def demo_json)
  have p: "length (pad8 (CHR ''{'' # s @ ''}'')) \<le> 300" using s(2) by (simp add: pad8_def)
  have l: "load (Ptr 0 0) 3 demo_host = Inr ''abc''" by (simp add: load_def demo_host_def window_def)
  show ?thesis using p unfolding write_file_def demo_offsets [OF assms(1)]
    by (simp add: s(1) fwrite_def demo_entry_simps l Let_def guard_def)
qed

theorem st_roundtrip_witness:
  "\<exists>file f v. write_file True 1000 demo_host [demo_entry [CHR 0x22, CHR 0x01]] = Inr file \<and> st_open file = Inr f \<and> st_tensors f = [v]
     \<and> tv_name v = [CHR 0x22, CHR 0x01] \<and> window (tv_data v) (tv_nbytes v) file = ''abc''"
proof -
  have "length (json_escape [CHR 0x22, CHR 0x01]) \<le> 100" by (simp add: json_escape_def escape_char_def)
  then obtain fl where w: "write_file True 1000 demo_host [demo_entry [CHR 0x22, CHR 0x01]] = Inr fl" using demo_written by blast
  have "int (length fl) \<le> int64_max" using write_file_room [OF w] by (simp add: int64_max_def)
  moreover have "we_ok (demo_entry [CHR 0x22, CHR 0x01])" by (simp add: we_ok_def demo_entry_def is_int64_def int64_max_def)
  ultimately obtain f where f: "st_open fl = Inr f" "list_all2 (written_as demo_host fl) [demo_entry [CHR 0x22, CHR 0x01]] (st_tensors f)"
    using st_roundtrip [OF w] by auto
  then obtain v where v: "st_tensors f = [v]" "written_as demo_host fl (demo_entry [CHR 0x22, CHR 0x01]) v" by (auto simp: list_all2_Cons1)
  have "window (tv_data v) (tv_nbytes v) fl = ''abc''" "tv_name v = [CHR 0x22, CHR 0x01]"
    using v(2) by (simp_all add: written_as_def demo_entry_def load_def demo_host_def window_def)
  then show ?thesis using w f(1) v(1) by blast
qed

theorem st_open_safe_witness:
  "le_nat (take 8 (nat_le 8 2 @ ''[]'')) \<le> 2147483647
   \<and> ((\<exists>f. st_open (nat_le 8 2 @ ''[]'') = Inr f) \<or> (\<exists>m. st_open (nat_le 8 2 @ ''[]'') = Inl (Throw m)))"
proof -
  have "le_nat (take 8 (nat_le 8 2 @ ''[]'')) \<le> 2147483647" by (simp add: le_nat_nat_le)
  with st_open_safe [OF this] show ?thesis by blast
qed

theorem st_open_tensors_witness:
  "\<exists>file f v. st_open file = Inr f \<and> st_tensors f = [v] \<and> tv_data v + tv_nbytes v \<le> length file \<and> st_find f (tv_name v) = Some v"
proof -
  have "length (json_escape ''w'') \<le> 100" by (simp add: json_escape_def escape_char_def)
  then obtain fl where w: "write_file True 1000 demo_host [demo_entry ''w''] = Inr fl" using demo_written by blast
  have l: "length fl \<le> 1000" using write_file_room [OF w] .
  moreover have "we_ok (demo_entry ''w'')" by (simp add: we_ok_def demo_entry_def is_int64_def int64_max_def)
  ultimately obtain f where f: "st_open fl = Inr f" "list_all2 (written_as demo_host fl) [demo_entry ''w''] (st_tensors f)"
    using st_open_write_file [OF w] by (auto simp: int64_max_def)
  then obtain v where v: "st_tensors f = [v]" by (auto simp: list_all2_Cons1)
  have "le_nat (take 8 fl) \<le> length fl - 8" using f(1) by (simp add: st_open_def Let_def not_less)
  then have "le_nat (take 8 fl) \<le> 2147483647" using l by linarith
  from st_open_tensors [OF f(1) this] v f(1) show ?thesis by auto
qed





end
