(* ===== verification/Floats.thy ===== *)
theory Floats
  imports Dtypes Bits
begin

unbundle bit_operations_syntax

text \<open>
  The FP16, BF16 and FP32 conversions of \<^verbatim>\<open>src/tensor.cpp\<close>, on bit patterns.
\<close>

section \<open>FP16\<close>

definition fp32_to_fp16_bits :: "32 word \<Rightarrow> 16 word" where
  "fp32_to_fp16_bits x = (
     let sign = drop_bit 16 x AND 0x8000;
         e8 = drop_bit 23 x AND 0xFF;
         ex = uint e8 - 127 + 15;
         mant = x AND 0x7FFFFF in
     if e8 = 0xFF then
       (let out = ucast (sign OR 0x7C00) in if mant \<noteq> 0 then out OR 0x0200 else out)
     else if 0x1F \<le> ex then ucast (sign OR 0x7C00)
     else if ex \<le> 0 then
       (if ex < - 10 then ucast sign
        else
          let mant' = mant OR 0x800000;
              shift = nat (14 - ex);
              rnd = push_bit (shift - 1) 1 - 1 + (drop_bit shift mant' AND 1);
              r = drop_bit shift (mant' + rnd)
          in ucast (sign OR r))
     else
       let lsb = drop_bit 13 mant AND 1;
           rnd = 0x1000 + lsb - 1;
           r_mant = drop_bit 13 (mant + rnd);
           r_exp = word_of_int ex
       in if r_mant AND 0x400 \<noteq> 0 then
            (if 0x1F \<le> r_exp + 1 then ucast (sign OR 0x7C00)
             else ucast (sign OR push_bit 10 (r_exp + 1) OR 0))
          else ucast (sign OR push_bit 10 r_exp OR r_mant))"

text \<open>
  The subnormal branch of \<^verbatim>\<open>fp16_bits_to_fp32\<close> runs
  \<^verbatim>\<open>while ((mant & 0x400u) == 0) { mant <<= 1; exp -= 1; }\<close>; the loop is kept as a loop.
\<close>

definition fp16_renorm :: "32 word \<times> 32 word \<Rightarrow> 32 word \<times> 32 word" where
  "fp16_renorm = while (\<lambda>(mant, ex). mant AND 0x400 = 0) (\<lambda>(mant, ex). (push_bit 1 mant, ex - 1))"

definition fp16_bits_to_fp32 :: "16 word \<Rightarrow> 32 word" where
  "fp16_bits_to_fp32 bits = (
     let sign = push_bit 16 (ucast bits AND (0x8000 :: 32 word));
         ex = ucast (drop_bit 10 bits AND 0x1F) :: 32 word;
         mant = ucast (bits AND 0x3FF) :: 32 word in
     if ex = 0 then
       (if mant = 0 then sign
        else
          let (mant1, ex1) = fp16_renorm (mant, ex);
              mant2 = mant1 AND 0x3FF;
              e = (ex1 + (127 - 15) + 1) AND 0xFF
          in sign OR push_bit 23 e OR push_bit 13 mant2)
     else if ex = 0x1F then sign OR 0x7F800000 OR push_bit 13 mant
     else sign OR push_bit 23 (ex + (127 - 15)) OR push_bit 13 mant)"

section \<open>BF16\<close>

definition fp32_to_bf16_bits :: "32 word \<Rightarrow> 16 word" where
  "fp32_to_bf16_bits x = (
     if drop_bit 23 x AND 0xFF = 0xFF \<and> x AND 0x7FFFFF \<noteq> 0 then ucast (drop_bit 16 x OR 0x0040)
     else
       let rounding_bias = 0x7FFF + (drop_bit 16 x AND 1) in
       ucast (drop_bit 16 (x + rounding_bias)))"

definition bf16_bits_to_fp32 :: "16 word \<Rightarrow> 32 word" where
  "bf16_bits_to_fp32 bits = push_bit 16 (ucast bits)"

definition is_nan32 :: "32 word \<Rightarrow> bool" where
  "is_nan32 x \<longleftrightarrow> drop_bit 23 x AND 0xFF = 0xFF \<and> x AND 0x7FFFFF \<noteq> 0"

definition is_nan16 :: "16 word \<Rightarrow> bool" where
  "is_nan16 h \<longleftrightarrow> drop_bit 10 h AND 0x1F = 0x1F \<and> h AND 0x3FF \<noteq> 0"

definition is_nan_bf16 :: "16 word \<Rightarrow> bool" where
  "is_nan_bf16 b \<longleftrightarrow> drop_bit 7 b AND 0xFF = 0xFF \<and> b AND 0x7F \<noteq> 0"


text \<open>
  Magnitudes of finite values as natural numbers: FP32 in units of \<open>2 ^ -149\<close> (its smallest
  subnormal), FP16 in units of \<open>2 ^ -24\<close>; one FP16 unit is \<open>2 ^ 125\<close> FP32 units.
\<close>

definition fp32_abs :: "32 word \<Rightarrow> nat" where
  "fp32_abs x = (let e = unat x div 2 ^ 23 mod 256; m = unat x mod 2 ^ 23 in
     if e = 0 then m else (2 ^ 23 + m) * 2 ^ (e - 1))"


definition fp32_finite :: "32 word \<Rightarrow> bool" where
  "fp32_finite x \<longleftrightarrow> unat x div 2 ^ 23 mod 256 \<noteq> 255"

definition fp16_finite :: "16 word \<Rightarrow> bool" where
  "fp16_finite h \<longleftrightarrow> unat h div 2 ^ 10 mod 32 \<noteq> 31"

section \<open>The encoders on natural numbers\<close>

lemma is_nan32_unat: "is_nan32 x \<longleftrightarrow> unat x div 8388608 mod 256 = 255 \<and> unat x mod 8388608 \<noteq> 0"
  by (simp add: is_nan32_def and_masks word_unat_eq_iff unat_bits del: take_bit_eq_mod)

lemma bf16_unat:
  assumes "\<not> is_nan32 x"
  shows "unat (fp32_to_bf16_bits x) = (unat x + 32767 + unat x div 65536 mod 2) div 65536"
proof -
  have n: "\<not> (unat x div 8388608 mod 256 = 255 \<and> unat x mod 8388608 \<noteq> 0)"
    using assms by (simp add: is_nan32_unat)
  have b: "unat x \<le> 4286578688" 
  proof (rule ccontr)
    assume "\<not> unat x \<le> 4286578688"
    then have "unat x div 8388608 = 511" using unat32_lt [of x] by (intro div_nat_eqI) simp_all
    with n \<open>\<not> unat x \<le> 4286578688\<close> show False using div_mult_mod_eq [of "unat x" 8388608] by simp
  qed
  show ?thesis 
    using assms b unfolding fp32_to_bf16_bits_def is_nan32_def [symmetric]
    by (simp add: Let_def and_masks unat_bits unat_word_ariths)

qed

lemma unat_sign: "unat (drop_bit 16 x AND 0x8000) = unat x div 2147483648 * 32768" for x :: "32 word"
proof -
  have "unat x div 2147483648 < 2" using unat32_lt [of x] by (simp add: less_mult_imp_div_less)
  then show ?thesis
    by (simp only: and_bit unat_bits div_mult2_eq [symmetric]) simp
qed

lemma or_sign: "m < 32768 \<Longrightarrow> s < 2 \<Longrightarrow> ((s * 32768) OR m) = s * 32768 + (m::nat)"
  using nat_or_add [of m 15 s] by simp

lemma sign_lt2: "unat x div 2147483648 < 2" for x :: "32 word"
  using unat32_lt [of x] by (simp add: less_mult_imp_div_less)

lemma ucast_sign_or:
  fixes x :: "32 word"
  assumes "unat m < 32768"
  shows "unat (ucast ((drop_bit 16 x AND 0x8000) OR m) :: 16 word) = unat x div 2147483648 * 32768 + unat m"
  using assms sign_lt2 [of x]
  by (simp add: unat_ucast_mod unsigned_or_eq unat_sign or_sign)

lemma uint_e8: "uint (drop_bit 23 x AND 0xFF) = int (unat x div 8388608 mod 256)" for x :: "32 word"
proof -
  have "unat (drop_bit 23 x AND 0xFF) = unat x div 8388608 mod 256"
    by (simp add: and_masks unat_bits)
  then show ?thesis by (metis uint_nat)
qed

lemma mant_unat: "unat (x AND 0x7FFFFF) = unat x mod 8388608" for x :: "32 word"
  by (simp add: and_masks unat_bits)

definition fp16_mag :: "nat \<Rightarrow> nat \<Rightarrow> nat" where
  "fp16_mag e m =
     (if e = 255 then (if m \<noteq> 0 then 0x7E00 else 0x7C00)
      else if 143 \<le> e then 0x7C00
      else if e < 102 then 0
      else if e \<le> 112 then rne (126 - e) (2 ^ 23 + m)
      else rne 13 ((e - 112) * 2 ^ 23 + m))"

lemma rne_sub_lt: "m < 8388608 \<Longrightarrow> 14 \<le> k \<Longrightarrow> rne k (8388608 + m) \<le> 1024"
proof -
  assume m: "m < 8388608" and k: "14 \<le> k"
  have "rne k (8388608 + m) * 2 ^ k \<le> 8388608 + m + 2 ^ (k - 1)" by (rule rne_le)
  also have "\<dots> < 1025 * 2 ^ k"
  proof -
    have p: "(2::nat) ^ k = 2 * 2 ^ (k - 1)" using k by (metis power_eq_if not_gr_zero not_numeral_le_zero)
    have "(2::nat) ^ 13 \<le> 2 ^ (k - 1)" using k by (intro power_increasing) auto
    then show ?thesis using m p by simp
  qed
  finally have "rne k (8388608 + m) < 1025" by simp
  then show ?thesis by simp
qed

lemma fp16_sub_unat:
  fixes w :: "32 word"
  assumes w: "unat w < 16777216" and k: "14 \<le> k" "k \<le> 24"
  shows "unat (drop_bit k (w + (push_bit (k - 1) 1 - 1 + (drop_bit k w AND 1)))) = rne k (unat w)"
proof -
  have pw: "(2::nat) ^ (k - 1) \<le> 8388608"
    using k power_increasing [of "k - 1" 23 "2::nat"] by simp
  have "unat (push_bit (k - 1) (1 :: 32 word)) = 2 ^ (k - 1)"
    using pw by (simp only: unat_push_bit) simp
  then have b: "unat (push_bit (k - 1) (1 :: 32 word) - 1) = 2 ^ (k - 1) - 1"
    by (subst unat_sub) (auto simp: word_le_nat_alt)
  have c: "unat (drop_bit k w AND 1) = unat w div 2 ^ k mod 2"
    by (simp only: and_masks unat_bits) simp
  have c1: "unat w div 2 ^ k mod 2 \<le> 1" by simp
  have d: "unat (push_bit (k - 1) 1 - 1 + (drop_bit k w AND 1)) = 2 ^ (k - 1) - 1 + unat w div 2 ^ k mod 2"
    using b c c1 pw by (simp only: unat_word_ariths(1)) simp
  have "unat (w + (push_bit (k - 1) 1 - 1 + (drop_bit k w AND 1)))
     = unat w + (2 ^ (k - 1) - 1 + unat w div 2 ^ k mod 2)"
  proof -
    have "unat w + (2 ^ (k - 1) - 1 + unat w div 2 ^ k mod 2) < 4294967296"
      using w c1 pw by linarith
    then show ?thesis using d by (subst unat_add_lem [THEN iffD1]) simp_all
  qed
  then show ?thesis
    by (simp only: unat_drop_bit rne_def add.assoc)
qed

lemma fp16_norm_unat:
  fixes w :: "32 word"
  assumes w: "unat w < 8388608"
  shows "unat (drop_bit 13 (w + (0x1000 + (drop_bit 13 w AND 1) - 1))) = rne 13 (unat w)"
proof -
  have c: "unat (drop_bit 13 w AND 1) = unat w div 8192 mod 2"
    by (simp only: and_masks unat_bits) simp
  have c1: "unat w div 8192 mod 2 \<le> 1" by simp
  have d: "unat (0x1000 + (drop_bit 13 w AND 1)) = 4096 + unat w div 8192 mod 2"
    using c c1 by (simp only: unat_word_ariths(1)) simp
  then have d': "unat (0x1000 + (drop_bit 13 w AND 1) - 1) = 4095 + unat w div 8192 mod 2"
    by (subst unat_sub) (simp_all add: word_le_nat_alt)
  have "unat (w + (0x1000 + (drop_bit 13 w AND 1) - 1)) = unat w + (4095 + unat w div 8192 mod 2)"
    using d' w c1 by (simp only: unat_word_ariths(1)) simp
  then show ?thesis
    by (simp only: unat_drop_bit rne_def) simp
qed

lemma rne13_shift: "rne 13 (E * 8388608 + m) = E * 1024 + rne 13 m"
proof -
  have a: "(E * 8388608 + m) div 8192 = E * 1024 + m div 8192" by simp
  have "E * 1024 + m div 8192 = m div 8192 + E * 512 * 2" by simp
  then have "(E * 1024 + m div 8192) mod 2 = m div 8192 mod 2"
    by (simp only: mod_mult_self1)
  then have "rne 13 (E * 8388608 + m) = (m + 4095 + m div 8192 mod 2 + E * 1024 * 8192) div 8192"
    using a by (simp add: rne_def algebra_simps)
  also have "\<dots> = E * 1024 + rne 13 m"
    by (subst div_mult_self1) (simp_all add: rne_def)
  finally show ?thesis .
qed

lemma rne13_le: "m < 8388608 \<Longrightarrow> rne 13 m \<le> 1024"
  using rne_le [of 13 m] by simp

lemma rne_norm_lt: "m < 8388608 \<Longrightarrow> 1 \<le> E \<Longrightarrow> E \<le> 30 \<Longrightarrow> rne 13 (E * 8388608 + m) \<le> 31744"
  using rne13_le [of m] by (simp add: rne13_shift)

lemma ucast_sign_or0: "unat (ucast (drop_bit 16 x AND 0x8000) :: 16 word) = unat x div 2147483648 * 32768"
  for x :: "32 word"
  using ucast_sign_or [of 0 x] by simp

lemma bit10_iff: "r \<le> 1024 \<Longrightarrow> r div 1024 mod 2 = 0 \<longleftrightarrow> r < (1024::nat)"
  by (cases "r < 1024") auto

lemma fp16_norm_branch:
  fixes x m :: "32 word"
  assumes m: "unat m < 8388608" and e: "113 \<le> e" "e \<le> 142"
  defines "sign \<equiv> drop_bit 16 x AND 0x8000"
    and "r \<equiv> drop_bit 13 (m + (0x1000 + (drop_bit 13 m AND 1) - 1))"
    and "E \<equiv> word_of_int (int e - 127 + 15) :: 32 word"
  shows "unat (if r AND 0x400 \<noteq> 0 then
            (if 0x1F \<le> E + 1 then ucast (sign OR 0x7C00)
             else ucast (sign OR push_bit 10 (E + 1) OR 0))
          else ucast (sign OR push_bit 10 E OR r) :: 16 word)
    = unat x div 2147483648 * 32768 + rne 13 ((e - 112) * 8388608 + unat m)"
proof -
  have r: "unat r = rne 13 (unat m)" unfolding r_def by (rule fp16_norm_unat [OF m])
  have r1: "unat r \<le> 1024" using r rne13_le [OF m] by simp
  have E: "unat E = e - 112" 
  proof -
    have "int e - 127 + 15 = int (e - 112)" using e by simp
    then have "E = of_nat (e - 112)" unfolding E_def by (metis of_int_of_nat_eq)
    then have "unat E = (e - 112) mod 2 ^ 32" by (simp only: unat_of_nat) simp
    then show ?thesis using e by simp
  qed
  have E1: "unat (E + 1) = e - 111" using E e by (subst unat_add_lem [THEN iffD1]) simp_all
  have c: "r AND 0x400 \<noteq> 0 \<longleftrightarrow> unat r = 1024"
  proof -
    have "unat (r AND 0x400) = unat r div 1024 mod 2 * 1024"
      using r1 by (simp only: and_bit unat_bits) simp
    then have "r AND 0x400 = 0 \<longleftrightarrow> unat r div 1024 mod 2 = 0"
      by (simp add: unat_eq_0 [symmetric])
    also have "\<dots> \<longleftrightarrow> unat r < 1024" using r1 by (rule bit10_iff)
    finally show ?thesis using r1 by auto
  qed
  have p: "unat (push_bit 10 w OR v) = unat w * 1024 + unat v" if "unat w < 32" "unat v < 1024"
    for w v :: "32 word"
    using that nat_or_add [of "unat v" 10 "unat w"] by (simp only: unsigned_or_eq unat_push_bit) simp
  have rn: "rne 13 ((e - 112) * 8388608 + unat m) = (e - 112) * 1024 + unat r"
    by (simp add: rne13_shift r)
  show ?thesis
  proof (cases "unat r = 1024")
    case True
    show ?thesis
    proof (cases "e = 142")
      case True
      then have "0x1F \<le> E + 1" using E1 by (simp add: word_le_nat_alt)
      then show ?thesis using c \<open>unat r = 1024\<close> True rn
        by (simp add: sign_def ucast_sign_or)
    next
      case False
      then have le: "\<not> 0x1F \<le> E + 1" using E1 e by (simp add: word_le_nat_alt)
      have "unat (push_bit 10 (E + 1) OR 0) = (e - 111) * 1024" using p [of "E + 1" 0] E1 e by simp
      moreover have "(e - 111) * 1024 < 32768" using e False by simp
      moreover have "(e - 111) * 1024 = (e - 112) * 1024 + 1024" using e by simp
      ultimately show ?thesis using c \<open>unat r = 1024\<close> le rn
        by (simp only: if_True if_False or.assoc sign_def not_False_eq_True) (simp add: ucast_sign_or)
    qed
  next
    case False
    then have r2: "unat r < 1024" using r1 by simp
    have a: "unat (push_bit 10 E OR r) = (e - 112) * 1024 + unat r" using p [of E r] E e r2 by simp
    moreover have "(e - 112) * 1024 + unat r < 32768" using e r2 by simp
    moreover have "\<not> r AND 0x400 \<noteq> 0" using c False by simp
    ultimately show ?thesis using rn
      by (simp only: if_False or.assoc sign_def) (simp add: ucast_sign_or)
  qed
qed

lemma fp32_to_fp16_unat:
  "unat (fp32_to_fp16_bits x) =
     unat x div 2147483648 * 32768 + fp16_mag (unat x div 8388608 mod 256) (unat x mod 8388608)"
proof -
  define e where "e = unat x div 8388608 mod 256"
  define m where "m = unat x mod 8388608"
  have e: "uint (drop_bit 23 x AND 0xFF) = int e" by (simp add: uint_e8 e_def)
  have "unat (drop_bit 23 x AND 0xFF) = e" by (simp add: and_masks unat_bits e_def)
  then have e255: "drop_bit 23 x AND 0xFF = 0xFF \<longleftrightarrow> e = 255"
    by (simp add: word_unat_eq_iff)
  have m: "unat (x AND 0x7FFFFF) = m" by (simp add: mant_unat m_def)
  have m0: "x AND 0x7FFFFF = 0 \<longleftrightarrow> m = 0" using m unat_eq_0 by metis
  have mlt: "m < 8388608" by (simp add: m_def)
  have elt: "e < 256" by (simp add: e_def)
  consider (a) "e = 255" | (b) "e \<noteq> 255" "143 \<le> e" | (c) "e < 102" | (d) "102 \<le> e" "e \<le> 112"
    | (n) "113 \<le> e" "e \<le> 142" using elt by linarith
  then have "unat (fp32_to_fp16_bits x) = unat x div 2147483648 * 32768 + fp16_mag e m"
  proof cases
    case a
    have "unat ((ucast ((drop_bit 16 x AND 0x8000) OR 0x7C00) :: 16 word) OR 0x200)
      = unat x div 2147483648 * 32768 + 0x7E00"
    proof -
      have "unat x div 2147483648 = 0 \<or> unat x div 2147483648 = 1" using sign_lt2 [of x] by auto
      then show ?thesis using ucast_sign_or [of "0x7C00" x] by (auto simp: unsigned_or_eq)
    qed
    then show ?thesis using a e255 m0
      by (simp add: fp32_to_fp16_bits_def Let_def fp16_mag_def ucast_sign_or)
  next
    case b
    then show ?thesis using e255
      by (simp add: fp32_to_fp16_bits_def Let_def fp16_mag_def ucast_sign_or e)
  next
    case c
    then show ?thesis using e255
      by (simp add: fp32_to_fp16_bits_def Let_def fp16_mag_def ucast_sign_or0 e)
  next
    case d
    define w where "w = (x AND 0x7FFFFF) OR 0x800000"
    have w: "unat w = 8388608 + m"
      using nat_or_add [of m 23 1] m mlt by (simp add: w_def unsigned_or_eq or.commute)
    have sh: "nat (14 - (int e - 127 + 15)) = 126 - e" using d by simp
    have "unat (drop_bit (126 - e) (w + (push_bit (126 - e - 1) 1 - 1 + (drop_bit (126 - e) w AND 1))))
       = rne (126 - e) (8388608 + m)"
      using fp16_sub_unat [of w "126 - e"] w mlt d by simp
    moreover have "rne (126 - e) (8388608 + m) \<le> 1024" using d by (intro rne_sub_lt [OF mlt]) simp
    ultimately have "unat (fp32_to_fp16_bits x) = unat x div 2147483648 * 32768 + rne (126 - e) (8388608 + m)"
      using d e255 e sh ucast_sign_or
      unfolding fp32_to_fp16_bits_def Let_def e w_def [symmetric] sh
      by simp
    then show ?thesis using d by (simp add: fp16_mag_def)
  next
    case n
    have "unat (fp32_to_fp16_bits x) = unat x div 2147483648 * 32768 + rne 13 ((e - 112) * 8388608 + m)"
      using fp16_norm_branch [of "x AND 0x7FFFFF" e x] n e255 mlt m
      unfolding fp32_to_fp16_bits_def Let_def e by simp
    then show ?thesis using n by (simp add: fp16_mag_def)
  qed
  then show ?thesis by (simp add: e_def m_def)
qed

section \<open>The decoder on natural numbers\<close>

text \<open>One iteration of the renormalising loop, and what the loop computes.\<close>

lemma renorm_step: "fp16_renorm (w, ex) =
   (if unat w div 1024 mod 2 = 0 then fp16_renorm (push_bit 1 w, ex - 1) else (w, ex))"
proof -
  have "unat (w AND 0x400) = unat w div 1024 mod 2 * 1024"
    by (simp only: and_bit unat_bits) simp
  then have "w AND 0x400 = 0 \<longleftrightarrow> unat w div 1024 mod 2 = 0"
    by (simp add: unat_eq_0 [symmetric])
  then show ?thesis
    unfolding fp16_renorm_def by (subst while_unfold) simp
qed

lemma fp16_renorm_eq:
  assumes "2 ^ k \<le> unat w" "unat w < 2 ^ Suc k" "k \<le> 10"
  shows "fp16_renorm (w, ex) = (push_bit (10 - k) w, ex - of_nat (10 - k))"
  using assms
proof (induction "10 - k" arbitrary: k w ex)
  case 0
  then have "k = 10" by simp
  with 0 have "unat w div 1024 mod 2 = 1" by (simp add: div_nat_eqI)
  then show ?case using \<open>k = 10\<close> by (subst renorm_step) simp
next
  case (Suc d)
  then have k: "k < 10" by simp
  have "(2::nat) ^ Suc k \<le> 2 ^ 10" using k by (intro power_increasing) simp_all
  then have lt: "unat w < 1024" using Suc.prems by simp
  have u: "unat (push_bit 1 w) = 2 * unat w"
    using lt by (simp only: unat_push_bit) simp
  have "fp16_renorm (push_bit 1 w, ex - 1) = (push_bit (10 - Suc k) (push_bit 1 w), ex - 1 - of_nat (10 - Suc k))"
    using Suc.hyps(2) Suc.prems k u by (intro Suc.hyps(1)) simp_all
  moreover have "10 - k = Suc (10 - Suc k)" using k by simp
  ultimately show ?case using lt by (subst renorm_step) (simp add: push_bit_push_bit algebra_simps)
qed

lemma dec_sign: "unat (push_bit 16 (ucast b AND (0x8000 :: 32 word))) = unat b div 32768 * 2147483648"
  for b :: "16 word"
proof -
  have "unat b div 32768 < 2" using unat16_lt [of b] by (simp add: less_mult_imp_div_less)
  then show ?thesis using unat16_lt [of b] by (simp only: and_bit unat_bits) simp
qed

lemma dec_exp: "unat (ucast (drop_bit 10 b AND 0x1F) :: 32 word) = unat b div 1024 mod 32"
  for b :: "16 word"
  by (simp only: and_masks unat_bits) simp

lemma dec_mant: "unat (ucast (b AND 0x3FF) :: 32 word) = unat b mod 1024"
  for b :: "16 word"
  by (simp only: and_masks unat_bits) simp

lemma or_fields:
  fixes s e m :: "32 word"
  assumes "unat s = S * 2147483648" "unat e < 256" "unat m < 1024"
  shows "unat (s OR push_bit 23 e OR push_bit 13 m) = S * 2147483648 + unat e * 8388608 + unat m * 8192"
proof -
  have "unat (push_bit 13 m) = unat m * 8192" using assms by (simp only: unat_push_bit) simp
  moreover have "unat (push_bit 23 e) = unat e * 8388608" using assms by (simp only: unat_push_bit) simp
  moreover have "(unat e * 8388608) OR (unat m * 8192) = unat e * 8388608 + unat m * 8192"
    using nat_or_add [of "unat m * 8192" 23 "unat e"] assms by simp
  moreover have "unat e * 8388608 + unat m * 8192 < 2147483648" using assms by simp
  ultimately show ?thesis
    using nat_or_add [of "unat e * 8388608 + unat m * 8192" 31 S] assms(1)
    by (simp add: unsigned_or_eq or.assoc)
qed

lemma fp16_to_fp32_norm:
  assumes "unat b div 1024 mod 32 = e" "0 < e" "e \<noteq> 31"
  shows "unat (fp16_bits_to_fp32 b) =
    unat b div 32768 * 2147483648 + (e + 112) * 8388608 + unat b mod 1024 * 8192"
proof -
  define E where "E = (ucast (drop_bit 10 b AND 0x1F) :: 32 word)"
  have E: "unat E = e" using assms by (simp add: E_def dec_exp)
  then have "E \<noteq> 0" "E \<noteq> 0x1F" using assms by (auto simp: word_unat_eq_iff)
  moreover have "unat (E + (127 - 15)) = e + 112" using E assms
    by (subst unat_add_lem [THEN iffD1]) simp_all
  ultimately show ?thesis
    using or_fields [OF dec_sign, of "E + (127 - 15)" "ucast (b AND 0x3FF)" b] assms
    by (simp add: fp16_bits_to_fp32_def Let_def E_def [symmetric] dec_mant)
qed

lemma fp16_to_fp32_special:
  assumes "unat b div 1024 mod 32 = 31"
  shows "unat (fp16_bits_to_fp32 b) =
    unat b div 32768 * 2147483648 + 255 * 8388608 + unat b mod 1024 * 8192"
proof -
  define E where "E = (ucast (drop_bit 10 b AND 0x1F) :: 32 word)"
  have E: "unat E = 31" using assms by (simp add: E_def dec_exp)
  then have "E \<noteq> 0" "E = 0x1F" by (auto simp: word_unat_eq_iff)
  moreover have "(0x7F800000 :: 32 word) = push_bit 23 0xFF" by simp
  ultimately show ?thesis
    using or_fields [OF dec_sign, of "0xFF" "ucast (b AND 0x3FF)" b] assms
    by (simp add: fp16_bits_to_fp32_def Let_def E_def [symmetric] dec_mant)
qed

lemma fp16_to_fp32_zero:
  assumes "unat b div 1024 mod 32 = 0" "unat b mod 1024 = 0"
  shows "unat (fp16_bits_to_fp32 b) = unat b div 32768 * 2147483648"
proof -
  have "(ucast (drop_bit 10 b AND 0x1F) :: 32 word) = 0" "(ucast (b AND 0x3FF) :: 32 word) = 0"
    using assms dec_exp [of b] dec_mant [of b] by (simp_all add: word_unat_eq_iff)
  then show ?thesis using dec_sign [of b] by (simp add: fp16_bits_to_fp32_def Let_def)
qed

lemma fp16_to_fp32_sub:
  assumes "unat b div 1024 mod 32 = 0" and m: "2 ^ k \<le> unat b mod 1024" "unat b mod 1024 < 2 ^ Suc k"
  shows "unat (fp16_bits_to_fp32 b) =
    unat b div 32768 * 2147483648 + (102 + k) * 8388608 + unat b mod 1024 * 2 ^ (23 - k)"
proof -
  define E where "E = (ucast (drop_bit 10 b AND 0x1F) :: 32 word)"
  define M where "M = (ucast (b AND 0x3FF) :: 32 word)"
  have M: "unat M = unat b mod 1024" by (simp add: M_def dec_mant)
  have k: "k \<le> 9"
  proof (rule ccontr)
    assume "\<not> k \<le> 9"
    then have "(2::nat) ^ 10 \<le> 2 ^ k" by (intro power_increasing) simp_all
    with m show False using mod_less_divisor [of 1024 "unat b"] by simp
  qed
  have E: "E = 0" using assms by (simp add: E_def dec_exp word_unat_eq_iff)
  have M0: "M \<noteq> 0"
  proof
    assume "M = 0"
    then show False using M m by simp
  qed
  have ren: "fp16_renorm (M, 0) = (push_bit (10 - k) M, 0 - of_nat (10 - k))"
    using m k M by (intro fp16_renorm_eq) simp_all
  have pk: "(2::nat) ^ k * 2 ^ (10 - k) = 1024" "(2::nat) ^ Suc k * 2 ^ (10 - k) = 2048"
    using k by (simp_all flip: power_add)
  define Q where "Q = unat b mod 1024 * 2 ^ (10 - k)"
  have Q: "1024 \<le> Q" "Q < 2048"
  proof -
    have "2 ^ k * 2 ^ (10 - k) \<le> Q" unfolding Q_def by (rule mult_le_mono1 [OF m(1)])
    moreover have "Q < 2 ^ Suc k * 2 ^ (10 - k)"
      unfolding Q_def by (rule mult_less_mono1 [OF m(2)]) simp
    ultimately show "1024 \<le> Q" "Q < 2048" unfolding pk by simp_all
  qed
  have pm: "unat (push_bit (10 - k) M) = Q"
    using M Q by (simp only: unat_push_bit Q_def) simp
  have m2: "unat (push_bit (10 - k) M AND 0x3FF) = Q - 1024"
  proof -
    have "unat (push_bit (10 - k) M AND 0x3FF) = Q mod 1024"
      by (simp only: and_masks unat_take_bit pm) simp
    also have "\<dots> = Q - 1024" using Q by (simp add: mod_if)
    finally show ?thesis .
  qed
  have e1: "unat ((0 - of_nat (10 - k) + (127 - 15) + 1) AND 0xFF :: 32 word) = 103 + k"
  proof -
    have "(0 - of_nat (10 - k) + (127 - 15) + 1 :: 32 word) = of_nat (103 + k)"
      using k by (simp add: of_nat_diff)
    then have "unat ((0 - of_nat (10 - k) + (127 - 15) + 1) AND 0xFF :: 32 word) = (103 + k) mod 2 ^ 32 mod 2 ^ 8"
      by (simp only: and_masks unat_take_bit unat_of_nat) simp
    then show ?thesis using k by simp
  qed
  have "unat (fp16_bits_to_fp32 b)
    = unat b div 32768 * 2147483648 + (103 + k) * 8388608 + (Q - 1024) * 8192"
    using or_fields [OF dec_sign, of "(0 - of_nat (10 - k) + (127 - 15) + 1) AND 0xFF"
        "push_bit (10 - k) M AND 0x3FF" b] e1 m2 Q k M0 ren E
    unfolding fp16_bits_to_fp32_def Let_def E_def [symmetric] M_def [symmetric]
    by simp
  moreover obtain q where "Q = 1024 + q" using Q(1) le_Suc_ex by metis
  moreover have "unat b mod 1024 * 2 ^ (23 - k) = Q * 8192"
  proof -
    have "23 - k = (10 - k) + 13" using k by simp
    then show ?thesis by (simp only: Q_def power_add) simp
  qed
  ultimately show ?thesis by simp
qed

section \<open>Round trips and rounding\<close>

lemma is_nan16_unat: "is_nan16 h \<longleftrightarrow> unat h div 1024 mod 32 = 31 \<and> unat h mod 1024 \<noteq> 0"
proof -
  have "unat (drop_bit 10 h AND 0x1F) = unat h div 1024 mod 32"
    by (simp only: and_masks unat_bits) simp
  moreover have "unat (h AND 0x3FF) = unat h mod 1024" by (simp only: and_masks unat_bits) simp
  ultimately show ?thesis by (simp add: is_nan16_def word_unat_eq_iff)
qed

lemma fields32:
  assumes "unat x = S * 2147483648 + e * 8388608 + m" "e < 256" "m < 8388608" "S < 2"
  shows "unat x div 2147483648 = S" "unat x div 8388608 mod 256 = e" "unat x mod 8388608 = m"
proof -
  have lt: "e * 8388608 + m < 2147483648" using assms by simp
  show "unat x div 2147483648 = S" using assms(1) lt by (simp add: div_nat_eqI)
  have "unat x = (S * 256 + e) * 8388608 + m" using assms(1) by simp
  then have "unat x div 8388608 = S * 256 + e" and "unat x mod 8388608 = m"
    using assms(3) by (simp_all only: div_mult_self3 mod_mult_self3) simp_all
  then show "unat x div 8388608 mod 256 = e" "unat x mod 8388608 = m" using assms(2) by simp_all
qed

lemma fields16: "unat h = unat h div 32768 * 32768 + unat h div 1024 mod 32 * 1024 + unat h mod 1024"
proof -
  have "unat h div 1024 = unat h div 32768 * 32 + unat h div 1024 mod 32"
    using div_mult_mod_eq [of "unat h div 1024" 32] by (simp add: div_mult2_eq [symmetric])
  then have "unat h div 1024 * 1024 = unat h div 32768 * 32768 + unat h div 1024 mod 32 * 1024" by simp
  moreover have "unat h = unat h div 1024 * 1024 + unat h mod 1024" by (simp only: div_mult_mod_eq)
  ultimately show ?thesis by linarith
qed

lemma rne13_exact: "rne 13 (m * 8192) = m"
  using rne_exact [of 12 m] by simp

text \<open>
  C36: encoding the decoded value of any FP16 pattern that is not a NaN gives the pattern back.
\<close>

theorem fp16_roundtrip:
  "\<not> is_nan16 h \<Longrightarrow> fp32_to_fp16_bits (fp16_bits_to_fp32 h) = h"
proof -
  assume nan: "\<not> is_nan16 h"
  define S where "S = unat h div 32768"
  define e where "e = unat h div 1024 mod 32"
  define m where "m = unat h mod 1024"
  have S: "S < 2" using unat16_lt [of h] by (simp add: S_def less_mult_imp_div_less)
  have e: "e < 32" and m: "m < 1024" by (simp_all add: e_def m_def)
  have h: "unat h = S * 32768 + e * 1024 + m"
    unfolding S_def e_def m_def by (rule fields16)
  let ?x = "fp16_bits_to_fp32 h"
  consider (n) "e \<noteq> 0" "e \<noteq> 31" | (i) "e = 31" "m = 0" | (z) "e = 0" "m = 0" | (s) "e = 0" "m \<noteq> 0"
    using nan unfolding is_nan16_unat e_def [symmetric] m_def [symmetric] by blast
  then have "unat (fp32_to_fp16_bits ?x) = unat h"
  proof cases
    case n
    have x: "unat ?x = S * 2147483648 + (e + 112) * 8388608 + m * 8192"
      using fp16_to_fp32_norm [of h e] n by (simp add: S_def e_def m_def)
    have f: "unat ?x div 2147483648 = S" "unat ?x div 8388608 mod 256 = e + 112" "unat ?x mod 8388608 = m * 8192"
      using fields32 [OF x] e m S by simp_all
    have "fp16_mag (e + 112) (m * 8192) = e * 1024 + m"
      using n e by (simp add: fp16_mag_def rne13_shift rne13_exact)
    then show ?thesis unfolding fp32_to_fp16_unat f h by simp
  next
    case i
    have x: "unat ?x = S * 2147483648 + 255 * 8388608 + 0"
      using fp16_to_fp32_special [of h] i by (simp add: S_def e_def m_def)
    have f: "unat ?x div 2147483648 = S" "unat ?x div 8388608 mod 256 = 255" "unat ?x mod 8388608 = 0"
      using fields32 [OF x] S by simp_all
    show ?thesis unfolding fp32_to_fp16_unat f h using i by (simp add: fp16_mag_def)
  next
    case z
    have x: "unat ?x = S * 2147483648 + 0 * 8388608 + 0"
      using fp16_to_fp32_zero [of h] z by (simp add: S_def e_def m_def)
    have f: "unat ?x div 2147483648 = S" "unat ?x div 8388608 mod 256 = 0" "unat ?x mod 8388608 = 0"
      using fields32 [OF x] S by simp_all
    show ?thesis unfolding fp32_to_fp16_unat f h using z by (simp add: fp16_mag_def)
  next
    case s
    then obtain k where k: "2 ^ k \<le> m" "m < 2 ^ Suc k"
      using ex_power_ivl1 [of 2 m] by auto
    have k9: "k \<le> 9"
    proof (rule ccontr)
      assume "\<not> k \<le> 9"
      then have "(2::nat) ^ 10 \<le> 2 ^ k" by (intro power_increasing) simp_all
      with k m show False by simp
    qed
    define Q where "Q = m * 2 ^ (23 - k)"
    have pk: "(2::nat) ^ k * 2 ^ (23 - k) = 8388608" "(2::nat) ^ Suc k * 2 ^ (23 - k) = 16777216"
      using k9 by (simp_all flip: power_add)
    have "2 ^ k * 2 ^ (23 - k) \<le> Q" unfolding Q_def by (rule mult_le_mono1 [OF k(1)])
    moreover have "Q < 2 ^ Suc k * 2 ^ (23 - k)"
      unfolding Q_def by (rule mult_less_mono1 [OF k(2)]) simp
    ultimately have Q: "8388608 \<le> Q" "Q < 16777216" unfolding pk by simp_all
    have x: "unat ?x = S * 2147483648 + (103 + k) * 8388608 + (Q - 8388608)"
      using fp16_to_fp32_sub [of h k] s k Q by (simp add: S_def e_def m_def Q_def algebra_simps)
    have f: "unat ?x div 2147483648 = S" "unat ?x div 8388608 mod 256 = 103 + k" "unat ?x mod 8388608 = Q - 8388608"
      using fields32 [OF x] Q k9 S by simp_all
    have "23 - k = Suc (22 - k)" using k9 by simp
    then have "rne (23 - k) Q = m" unfolding Q_def by (simp only: rne_exact)
    then have "fp16_mag (103 + k) (Q - 8388608) = m" using k9 Q by (simp add: fp16_mag_def)
    then show ?thesis unfolding fp32_to_fp16_unat f h using s by simp
  qed
  then show ?thesis by (simp add: word_unat_eq_iff)
qed










theorem fp16_roundtrip_witness:
  "\<not> is_nan16 0x83FF \<and> fp32_to_fp16_bits (fp16_bits_to_fp32 0x83FF) = 0x83FF"
proof -
  have h: "\<not> is_nan16 0x83FF" by code_simp
  show ?thesis using h fp16_roundtrip [OF h] by blast
qed



lemma rne13_eq_1024: "m < 8388608 \<Longrightarrow> rne 13 m = 1024 \<longleftrightarrow> 8384512 \<le> m"
proof -
  assume m: "m < 8388608"
  define a where "a = m div 8192"
  define r where "r = m mod 8192"
  have mm: "m = a * 8192 + r" by (simp only: a_def r_def div_mult_mod_eq)
  have r: "r < 8192" by (simp add: r_def)
  have a: "a \<le> 1023" using m mm by simp
  have "rne 13 m = (if r < 4096 \<or> (r = 4096 \<and> even a) then a else Suc a)"
    using rne_eq [of 12 m] by (simp add: a_def r_def)
  then have "rne 13 m = 1024 \<longleftrightarrow> a = 1023 \<and> 4096 \<le> r"
    using a by (cases "a = 1023") auto
  also have "\<dots> \<longleftrightarrow> 8384512 \<le> m" using mm r a by auto
  finally show ?thesis .
qed

lemma fp16_mag_inf: "e \<noteq> 255 \<Longrightarrow> m < 8388608 \<Longrightarrow>
  fp16_mag e m = 31744 \<longleftrightarrow> 143 \<le> e \<or> (e = 142 \<and> 8384512 \<le> m)"
proof -
  assume e: "e \<noteq> 255" and m: "m < 8388608"
  consider "143 \<le> e" | "e = 142" | "113 \<le> e" "e < 142" | "e \<le> 112" "102 \<le> e" | "e < 102" by linarith
  then show ?thesis
  proof cases
    case 3
    then show ?thesis using rne13_le [OF m] by (simp add: fp16_mag_def rne13_shift)
  next
    case 2
    then have "fp16_mag e m = 30 * 1024 + rne 13 m"
      using rne13_shift [of 30 m] by (simp add: fp16_mag_def)
    then show ?thesis using 2 rne13_eq_1024 [OF m] by simp
  next
    case 4
    then have "rne (126 - e) (8388608 + m) \<le> 1024" by (intro rne_sub_lt [OF m]) simp
    then show ?thesis using 4 by (simp add: fp16_mag_def)
  qed (simp_all add: fp16_mag_def e)
qed

lemma fp16_mag_le: "e \<noteq> 255 \<Longrightarrow> m < 8388608 \<Longrightarrow> fp16_mag e m \<le> 31744"
proof -
  assume e: "e \<noteq> 255" and m: "m < 8388608"
  consider "143 \<le> e" | "113 \<le> e" "e \<le> 142" | "e \<le> 112" "102 \<le> e" | "e < 102" by linarith
  then show ?thesis
  proof cases
    case 2
    then show ?thesis using rne13_le [OF m] by (simp add: fp16_mag_def rne13_shift)
  next
    case 3
    then have "rne (126 - e) (8388608 + m) \<le> 1024" by (intro rne_sub_lt [OF m]) simp
    then show ?thesis using 3 by (simp add: fp16_mag_def)
  qed (simp_all add: fp16_mag_def e)
qed

lemma fp32_abs_ge_65520:
  fixes m e :: nat
  assumes "m < 8388608"
  shows "65520 * 2 ^ 149 \<le> (8388608 + m) * 2 ^ (e - 1) \<longleftrightarrow> 143 \<le> e \<or> (e = 142 \<and> 8384512 \<le> m)"
proof -
  consider "143 \<le> e" | "e = 142" | "e < 142" by linarith
  then show ?thesis
  proof cases
    case 1
    have "(2::nat) ^ 142 \<le> 2 ^ (e - 1)" using 1 by (intro power_increasing) simp_all
    then have "8388608 * 2 ^ 142 \<le> (8388608 + m) * (2::nat) ^ (e - 1)" by (intro mult_le_mono) simp_all
    then show ?thesis using 1 by simp
  next
    case 2
    have "65520 * 2 ^ 149 = 16773120 * (2::nat) ^ 141" by simp
    then have "65520 * 2 ^ 149 \<le> (8388608 + m) * (2::nat) ^ 141 \<longleftrightarrow> 16773120 \<le> 8388608 + m" by simp
    then show ?thesis using 2 by simp
  next
    case 3
    have "(2::nat) ^ (e - 1) \<le> 2 ^ 140" using 3 by (intro power_increasing) simp_all
    then have "(8388608 + m) * (2::nat) ^ (e - 1) \<le> (8388608 + m) * 2 ^ 140" by (rule mult_le_mono2)
    then show ?thesis using 3 assms by simp
  qed
qed

text \<open>
  a finite FP32 value overflows to an FP16 infinity exactly when its magnitude is at least
  65520, the midpoint between the largest FP16 value 65504 and \<open>2 ^ 16\<close>.
\<close>

theorem fp16_overflow_iff:
  assumes "fp32_finite x"
  shows "fp16_finite (fp32_to_fp16_bits x) \<longleftrightarrow> fp32_abs x < 65520 * 2 ^ 149"
proof -
  define S where "S = unat x div 2147483648"
  define e where "e = unat x div 8388608 mod 256"
  define m where "m = unat x mod 8388608"
  have m: "m < 8388608" by (simp add: m_def)
  have e: "e \<noteq> 255" using assms by (simp add: fp32_finite_def e_def)
  have r: "unat (fp32_to_fp16_bits x) = S * 32768 + fp16_mag e m"
    unfolding S_def e_def m_def by (rule fp32_to_fp16_unat)
  have "unat (fp32_to_fp16_bits x) div 1024 mod 32 = fp16_mag e m div 1024 mod 32"
  proof -
    have "S * 32768 + fp16_mag e m = S * 32 * 1024 + fp16_mag e m" by simp
    then have "(S * 32768 + fp16_mag e m) div 1024 = S * 32 + fp16_mag e m div 1024"
      by simp
    then show ?thesis using r by simp
  qed
  also have "\<dots> = 31 \<longleftrightarrow> fp16_mag e m = 31744"
    using fp16_mag_le [OF e m] by (cases "fp16_mag e m = 31744") (auto simp: div_le_mono less_mult_imp_div_less)
  finally have "fp16_finite (fp32_to_fp16_bits x) \<longleftrightarrow> \<not> (143 \<le> e \<or> (e = 142 \<and> 8384512 \<le> m))"
    using fp16_mag_inf [OF e m] by (simp add: fp16_finite_def)
  also have "\<dots> \<longleftrightarrow> fp32_abs x < 65520 * 2 ^ 149"
  proof (cases "e = 0")
    case True
    then show ?thesis using m by (simp add: fp32_abs_def e_def m_def)
  next
    case False
    have "fp32_abs x = (8388608 + m) * 2 ^ (e - 1)" using False by (simp add: fp32_abs_def e_def m_def)
    then show ?thesis using fp32_abs_ge_65520 [OF m, of e] by (metis not_le)
  qed
  finally show ?thesis .
qed

theorem fp16_overflow_iff_witness:
  "fp32_finite 0x477FEFFF \<and> fp16_finite (fp32_to_fp16_bits 0x477FEFFF)"
proof -
  have f: "fp32_finite 0x477FEFFF" by (simp add: fp32_finite_def)
  have l: "fp32_abs 0x477FEFFF < 65520 * 2 ^ 149" by (simp add: fp32_abs_def)
  show ?thesis using fp16_overflow_iff [OF f] f l by blast
qed


subsection \<open>BF16\<close>

lemma bf16_rne: "\<not> is_nan32 x \<Longrightarrow> unat (fp32_to_bf16_bits x) = rne 16 (unat x)"
  by (simp add: bf16_unat rne_def)

lemma bf16_decode_unat: "unat (bf16_bits_to_fp32 b) = unat b * 65536"
  using unat16_lt [of b] unfolding bf16_bits_to_fp32_def
  by (simp only: unat_push_bit unat_ucast_mod) simp

lemma is_nan_bf16_unat: "is_nan_bf16 b \<longleftrightarrow> unat b div 128 mod 256 = 255 \<and> unat b mod 128 \<noteq> 0"
proof -
  have "unat (drop_bit 7 b AND 0xFF) = unat b div 128 mod 256" by (simp only: and_masks unat_bits) simp
  moreover have "unat (b AND 0x7F) = unat b mod 128" by (simp only: and_masks unat_bits) simp
  ultimately show ?thesis by (simp add: is_nan_bf16_def word_unat_eq_iff)
qed

lemma is_nan32_bf16: "is_nan32 (bf16_bits_to_fp32 b) \<longleftrightarrow> is_nan_bf16 b"
proof -
  have "unat b * 65536 div 8388608 = unat b div 128"
    using div_mult_mult1 [of 65536 "unat b" 128] by (simp add: mult.commute)
  moreover have "unat b * 65536 mod 8388608 = unat b mod 128 * 65536"
    using mod_mult_mult1 [of 65536 "unat b" 128] by (simp add: mult.commute)
  ultimately show ?thesis by (simp add: is_nan32_unat is_nan_bf16_unat bf16_decode_unat)
qed

text \<open>
  C37: \<^verbatim>\<open>fp32_to_bf16_bits\<close> rounds every FP32 pattern that is not a NaN to the nearest pattern with
  sixteen low zero bits, ties to the even pattern (between two neighbouring BF16 values the FP32
  patterns are equally spaced values), and converting a BF16 value up and down again is the identity.
\<close>

theorem bf16_nearest_roundtrip:
  assumes "\<not> is_nan32 x" and "\<not> is_nan_bf16 b"
  shows "dist (unat (bf16_bits_to_fp32 (fp32_to_bf16_bits x))) (unat x) \<le> dist (unat (bf16_bits_to_fp32 c)) (unat x)
    \<and> (c \<noteq> fp32_to_bf16_bits x \<and>
        dist (unat (bf16_bits_to_fp32 c)) (unat x) = dist (unat (bf16_bits_to_fp32 (fp32_to_bf16_bits x))) (unat x)
        \<longrightarrow> even (unat (fp32_to_bf16_bits x)))
    \<and> fp32_to_bf16_bits (bf16_bits_to_fp32 b) = b"
proof -
  have r: "unat (fp32_to_bf16_bits x) = rne (Suc 15) (unat x)" using bf16_rne [OF assms(1)] by simp
  have "unat (fp32_to_bf16_bits (bf16_bits_to_fp32 b)) = rne (Suc 15) (unat b * 2 ^ Suc 15)"
    using bf16_rne [of "bf16_bits_to_fp32 b"] assms(2) by (simp add: is_nan32_bf16 bf16_decode_unat)
  then have rt: "fp32_to_bf16_bits (bf16_bits_to_fp32 b) = b"
    by (simp only: rne_exact) (simp add: word_unat_eq_iff)
  have n: "nearer (unat (fp32_to_bf16_bits x) * 65536) (unat c * 65536) (unat x) (even (unat (fp32_to_bf16_bits x)))"
    using rne_nearer [of 15 "unat x" "unat c"] unfolding r by simp
  show ?thesis using n rt unfolding nearer_def bf16_decode_unat by (auto simp: word_unat_eq_iff)
qed

theorem bf16_nearest_roundtrip_witness:
  "\<not> is_nan32 0x3F808000 \<and> \<not> is_nan_bf16 0x3F81 \<and> even (unat (fp32_to_bf16_bits 0x3F808000))
   \<and> fp32_to_bf16_bits (bf16_bits_to_fp32 0x3F81) = 0x3F81"
proof -
  have v: "fp32_to_bf16_bits 0x3F808000 = 0x3F80" by code_simp
  have a: "\<not> is_nan32 0x3F808000" by code_simp
  have b: "\<not> is_nan_bf16 0x3F81" by code_simp
  have t: "dist (unat (bf16_bits_to_fp32 0x3F81)) (unat (0x3F808000 :: 32 word))
    = dist (unat (bf16_bits_to_fp32 (fp32_to_bf16_bits 0x3F808000))) (unat (0x3F808000 :: 32 word))"
    by (simp add: v bf16_decode_unat dist_def)
  have n: "0x3F81 \<noteq> fp32_to_bf16_bits 0x3F808000" by (simp add: v)
  from bf16_nearest_roundtrip [OF a b, of "0x3F81"] a b t n show ?thesis by blast
qed

text \<open>
  the renormalising loop of \<^verbatim>\<open>fp16_bits_to_fp32\<close> ends, with the mantissa's leading bit at
  position 10, for every mantissa on which the code runs it (nonzero and below \<open>0x400\<close>).
\<close>

theorem fp16_renorm_terminates:
  assumes "m \<noteq> 0" and "unat m < 1024"
  shows "\<exists>m' ex'. while_option (\<lambda>(mant, ex). mant AND 0x400 = 0) (\<lambda>(mant, ex). (push_bit 1 mant, ex - 1)) (m, ex)
      = Some (m', ex') \<and> fp16_renorm (m, ex) = (m', ex') \<and> 1024 \<le> unat m' \<and> unat m' < 2048"
proof -
  let ?b = "\<lambda>(mant :: 32 word, ex :: 32 word). mant AND 0x400 = 0"
  let ?c = "\<lambda>(mant :: 32 word, ex :: 32 word). (push_bit 1 mant, ex - 1)"
  let ?P = "\<lambda>s. 0 < unat (fst s) \<and> unat (fst s) < 2048"
  have lt: "unat w < 1024" if "w AND 0x400 = 0" "unat w < 2048" for w :: "32 word"
  proof -
    have "unat (w AND 0x400) = unat w div 1024 mod 2 * 1024" by (simp only: and_bit unat_bits) simp
    then have "unat w div 1024 mod 2 = 0" using that by simp
    then show ?thesis using that(2) by (cases "unat w < 1024") (auto simp: div_nat_eqI)
  qed
  have step: "?P (?c s) \<and> 2048 - unat (fst (?c s)) < 2048 - unat (fst s)" if "?P s" "?b s" for s
  proof -
    obtain w e where s: "s = (w, e)" by (cases s)
    have w: "unat w < 1024" using that lt [of w] by (simp add: s)
    have "unat (push_bit 1 w) = 2 * unat w" using w by (simp only: unat_push_bit) simp
    then show ?thesis using w that(1) unfolding s fst_conv prod.case by simp
  qed
  have P0: "?P (m, ex)" using assms by (simp add: word_neq_0_conv [symmetric] unat_gt_0)
  obtain r where r: "while_option ?b ?c (m, ex) = Some r"
    using measure_while_option_Some [of ?P ?b ?c "\<lambda>s. 2048 - unat (fst s)" "(m, ex)"] step P0 by blast
  have Pr: "?P r" by (rule while_option_rule [where P = ?P, OF _ r P0]) (use step in blast)
  have nb: "\<not> ?b r" by (rule while_option_stop [OF r])
  obtain m' ex' where mm: "r = (m', ex')" by (cases r)
  have "1024 \<le> unat m'"
  proof (rule ccontr)
    assume "\<not> 1024 \<le> unat m'"
    then have "unat (m' AND 0x400) = 0" by (simp only: and_bit unat_bits) simp
    then show False using nb by (simp add: mm unat_eq_0)
  qed
  moreover have "fp16_renorm (m, ex) = r" by (simp only: fp16_renorm_def while_def r option.sel)
  ultimately show ?thesis using r Pr by (simp add: mm)
qed

theorem fp16_renorm_terminates_witness:
  "(3 :: 32 word) \<noteq> 0 \<and> unat (3 :: 32 word) < 1024 \<and>
   (\<exists>m' ex'. fp16_renorm (3, 0) = (m', ex') \<and> 1024 \<le> unat m' \<and> unat m' < 2048)"
  using fp16_renorm_terminates [of 3 0] by auto

end
