(* ===== verification/StUpload.thy ===== *)
theory StUpload
  imports SafetensorsProps TensorProps Floats
begin

text \<open>
  Uploading safetensors views as tensors (\<^verbatim>\<open>upload\<close>, \<^verbatim>\<open>upload_fp16\<close>, \<^verbatim>\<open>upload_as\<close>, \<^verbatim>\<open>upload_compute\<close>,
  \<^verbatim>\<open>upload_compute_checked\<close> of \<^verbatim>\<open>src/safetensors.cpp\<close>). The file is mapped at \<open>base\<close>; the result is what is assigned to
  \<^verbatim>\<open>dst\<close>. The device cast \<^verbatim>\<open>brotensor::cast\<close> is a parameter: on a GPU it is a kernel.
\<close>

section \<open>Conversions\<close>

text \<open>The \<open>k\<close>-byte elements of a byte run, as their bit patterns.\<close>

definition elems :: "nat \<Rightarrow> byte list \<Rightarrow> nat list" where
  "elems k bs = map (\<lambda>i. le_nat (window (k * i) k bs)) [0..<length bs div k]"

text \<open>\<^verbatim>\<open>at_f32\<close>: a source element as FP32.\<close>

definition at_f32 :: "StDtype \<Rightarrow> nat \<Rightarrow> 32 word" where
  "at_f32 d n = (case d of
      StF32 \<Rightarrow> of_nat n
    | StF16 \<Rightarrow> fp16_bits_to_fp32 (of_nat n)
    | _ \<Rightarrow> bf16_bits_to_fp32 (of_nat n))"

text \<open>
  A \<^verbatim>\<open>std::vector\<close> of \<open>k\<close> bytes that lives while \<open>body\<close> runs: allocated (zeroed, then wholly overwritten by \<open>fill\<close>) and freed
  at the end of its scope, exception or not.
\<close>

definition with_vector :: "nat \<Rightarrow> (mem \<Rightarrow> byte list res) \<Rightarrow> (ptr \<Rightarrow> ('o, 'a) act) \<Rightarrow> ('o, 'a) act" where
  "with_vector k fill body w = (
     if int64_max < int k then (Inl (Throw ''vector''), w)
     else case malloc k (heap w) of
       Inl e \<Rightarrow> (Inl e, w)
     | Inr (p, m) \<Rightarrow> (case bnd (fill m) (\<lambda>bs. store p bs m) of
          Inl e \<Rightarrow> (Inl e, snd (heap_act (mfree p) (w\<lparr>heap := m\<rparr>)))
        | Inr m1 \<Rightarrow> (case body p (w\<lparr>heap := m1\<rparr>) of (r, w') \<Rightarrow> (r, snd (heap_act (mfree p) w')))))"

text \<open>The conversion loops: element \<open>i\<close> of the vector is \<open>conv\<close> of element \<open>i\<close> of the source.\<close>

definition convert :: "ptr \<Rightarrow> nat \<Rightarrow> nat \<Rightarrow> (nat \<Rightarrow> byte list) \<Rightarrow> mem \<Rightarrow> byte list res" where
  "convert src n ssz conv m = bnd (load src (n * ssz) m) (\<lambda>bs. Inr (concat (map conv (elems ssz bs))))"

section \<open>Uploads\<close>

definition throw :: "string \<Rightarrow> ('o, 'a) act" where
  "throw msg = lift (Inl (Throw msg))"

text \<open>\<^verbatim>\<open>rows * cols\<close> and the byte count on \<^verbatim>\<open>size_t\<close>.\<close>

definition count_of :: "int \<Rightarrow> int \<Rightarrow> nat" where
  "count_of r c = size_wrap (nat r * nat c)"

definition expected_bytes :: "TensorView \<Rightarrow> int \<Rightarrow> int \<Rightarrow> nat" where
  "expected_bytes v r c = size_wrap (count_of r c * st_dtype_size_bytes (tv_dtype v))"

definition st_upload :: "TensorView \<Rightarrow> ptr \<Rightarrow> int \<Rightarrow> int \<Rightarrow> ('o, Tensor) act" where
  "st_upload v base r c = (
     if r \<le> 0 \<or> c \<le> 0 then throw ''safetensors::upload: rows/cols must be positive''
     else if expected_bytes v r c \<noteq> tv_nbytes v then throw ''safetensors::upload: byte count mismatch''
     else sbnd (lift (ptr_add base (tv_data v))) (\<lambda>p.
       if tv_dtype v = StF32 then from_host p r c
       else if tv_dtype v = StF16 then from_host_fp16 p r c
       else if tv_dtype v = StBF16 then from_host_bf16 p r c
       else throw ''safetensors::upload: unsupported dtype''))"

definition upload_fp16 :: "TensorView \<Rightarrow> ptr \<Rightarrow> int \<Rightarrow> int \<Rightarrow> ('o, Tensor) act" where
  "upload_fp16 v base r c = (
     if r \<le> 0 \<or> c \<le> 0 then throw ''safetensors::upload_fp16: rows/cols must be positive''
     else let n = count_of r c in
     if expected_bytes v r c \<noteq> tv_nbytes v then throw ''safetensors::upload_fp16: byte count mismatch''
     else sbnd (lift (ptr_add base (tv_data v))) (\<lambda>p.
       if tv_dtype v = StF16 then from_host_fp16 p r c
       else if tv_dtype v = StF32 then
         with_vector (n * 2) (convert p n 4 (\<lambda>x. nat_le 2 (unat (fp32_to_fp16_bits (of_nat x))))) (\<lambda>tmp. from_host_fp16 tmp r c)
       else throw ''safetensors::upload_fp16: unsupported dtype''))"

text \<open>The source as a tensor of its own dtype (the first step of the GPU path).\<close>

definition upload_src :: "TensorView \<Rightarrow> ptr \<Rightarrow> int \<Rightarrow> int \<Rightarrow> ('o, Tensor) act" where
  "upload_src v p r c = (case tv_dtype v of
      StF32 \<Rightarrow> from_host p r c
    | StF16 \<Rightarrow> from_host_fp16 p r c
    | _ \<Rightarrow> from_host_bf16 p r c)"

text \<open>The local \<^verbatim>\<open>raw\<close> is destroyed after the cast, exception or not.\<close>

definition gpu_upload :: "(Tensor \<Rightarrow> Dtype \<Rightarrow> ('o, Tensor) act) \<Rightarrow> TensorView \<Rightarrow> ptr \<Rightarrow> int \<Rightarrow> int \<Rightarrow> Dtype \<Rightarrow> ('o, Tensor) act" where
  "gpu_upload cast_op v p r c want = sbnd (upload_src v p r c) (\<lambda>raw.
     if dtype raw = want then ret raw
     else owning raw (sbnd (cast_op raw want) (\<lambda>dst. sbnd (release raw) (\<lambda>_. ret dst))))"

definition cpu_upload :: "TensorView \<Rightarrow> ptr \<Rightarrow> int \<Rightarrow> int \<Rightarrow> Dtype \<Rightarrow> ('o, Tensor) act" where
  "cpu_upload v p r c want = (let n = count_of r c; d = tv_dtype v; ssz = st_dtype_size_bytes d in
     case want of
       FP32 \<Rightarrow> if d = StF32 then from_host p r c
         else with_vector (n * 4) (convert p n ssz (\<lambda>x. nat_le 4 (unat (at_f32 d x)))) (\<lambda>tmp. from_host tmp r c)
     | FP16 \<Rightarrow> if d = StF16 then from_host_fp16 p r c
         else with_vector (n * 2) (convert p n ssz (\<lambda>x. nat_le 2 (unat (fp32_to_fp16_bits (at_f32 d x))))) (\<lambda>tmp. from_host_fp16 tmp r c)
     | BF16 \<Rightarrow> if d = StBF16 then from_host_bf16 p r c
         else with_vector (n * 2) (convert p n ssz (\<lambda>x. nat_le 2 (unat (fp32_to_bf16_bits (at_f32 d x))))) (\<lambda>tmp. from_host_bf16 tmp r c)
     | _ \<Rightarrow> throw ''safetensors::upload_as: target dtype must be FP32/FP16/BF16'')"

definition upload_as :: "(Tensor \<Rightarrow> Dtype \<Rightarrow> ('o, Tensor) act) \<Rightarrow> TensorView \<Rightarrow> ptr \<Rightarrow> int \<Rightarrow> int \<Rightarrow> Dtype \<Rightarrow> ('o, Tensor) act" where
  "upload_as cast_op v base r c want = (
     if r \<le> 0 \<or> c \<le> 0 then throw ''safetensors::upload_as: rows/cols must be positive''
     else if expected_bytes v r c \<noteq> tv_nbytes v then throw ''safetensors::upload_as: byte count mismatch''
     else if tv_dtype v \<noteq> StF16 \<and> tv_dtype v \<noteq> StF32 \<and> tv_dtype v \<noteq> StBF16 then throw ''safetensors::upload_as: unsupported source dtype''
     else sbnd (lift (ptr_add base (tv_data v))) (\<lambda>p. reading (\<lambda>w.
       if default_device (rt w) \<noteq> cpu then gpu_upload cast_op v p r c want else cpu_upload v p r c want)))"

definition upload_compute :: "(Tensor \<Rightarrow> Dtype \<Rightarrow> ('o, Tensor) act) \<Rightarrow> TensorView \<Rightarrow> ptr \<Rightarrow> int \<Rightarrow> int \<Rightarrow> ('o, Tensor) act" where
  "upload_compute cast_op v base r c = reading (\<lambda>w. upload_as cast_op v base r c (compute_dtype (default_device (rt w))))"

definition upload_compute_checked :: "(Tensor \<Rightarrow> Dtype \<Rightarrow> ('o, Tensor) act) \<Rightarrow> TensorView \<Rightarrow> ptr \<Rightarrow> int \<Rightarrow> int \<Rightarrow> ('o, Tensor) act" where
  "upload_compute_checked cast_op v base r c = (
     if tv_dtype v \<noteq> StF16 \<and> tv_dtype v \<noteq> StF32 \<and> tv_dtype v \<noteq> StBF16 then throw ''expected F16, F32, or BF16''
     else sbnd (lift (numel v)) (\<lambda>n.
       if n \<noteq> r * c then throw ''shape mismatch'' else upload_compute cast_op v base r c))"

section \<open>What an upload holds\<close>

lemma plain_bytes:
  assumes "0 < r" "0 < c" "is_int32 r" "is_int32 c" "dt \<in> {FP32, FP16, BF16}" "rows t = r" "cols t = c" "dtype t = dt"
  shows "bytes t = Inr (nat r * nat c * dtype_size_bytes dt)"
proof -
  have "dtype_storage_bytes dt (r * c) = Inr (nat (r * c) div dtype_block_size dt * dtype_block_bytes dt)"
    by (rule storage_no_wrap) (use assms numel_le [of r c] in \<open>auto simp: dtype_defs\<close>)
  then show ?thesis using assms
    by (auto simp: bytes_def check_dims_def check_quant_cols_def dtype_defs nat_mult_distrib)
qed

lemma from_host_typed_spec:
  assumes i: "world_inv E w" and rc: "is_int32 r" "is_int32 c" "0 < r" "0 < c" and dt: "dt \<in> {FP32, FP16, BF16}"
    and l: "load src (nat r * nat c * dtype_size_bytes dt) (heap w) = Inr bs"
  shows "spec (from_host_typed d src r c dt) w
    (\<lambda>t w'. made E w d r c dt t w' \<and> load (data t) (nat r * nat c * dtype_size_bytes dt) (heap w') = Inr bs) (failed E w)"
proof -
  let ?n = "nat r * nat c * dtype_size_bytes dt"
  have n0: "?n \<noteq> 0" using rc dt by (auto simp: dtype_defs)
  have b: "bytes t = Inr ?n" if "made E w d r c dt t w1" for t w1
    using plain_bytes [OF rc(3,4,1,2) dt] that by (auto simp: made_def)
  have "spec (upload d (data t) src n) w1 (\<lambda>_ w2. fresh_tensor E w t w2 \<and> load (data t) ?n (heap w2) = Inr bs) (fresh_tensor E w t)"
    if m: "made E w d r c dt t w1" "bytes t = Inr n" "\<not> n = 0" for t w1 n
    using spec_upload [OF m] l b [OF m(1)] m(2) by simp
  from spec_make_fill [OF i rc(1,2) refl this] show ?thesis
    unfolding from_host_typed_def by (rule spec_mono) (use b n0 in auto)
qed

lemma with_vector_spec:
  assumes i: "world_inv E w" and rc: "is_int32 r" "is_int32 c" "0 < r" "0 < c" and dt: "dt \<in> {FP32, FP16, BF16}"
    and k: "k = nat r * nat c * dtype_size_bytes dt" "length bs = k"
    and fill: "\<And>m. extends (heap w) m \<Longrightarrow> fill m = Inr bs"
    and body: "\<And>p m. body p (w\<lparr>heap := m\<rparr>) = from_host_typed d p r c dt (w\<lparr>heap := m\<rparr>)"
  shows "spec (with_vector k fill body) w
    (\<lambda>t w'. made E w d r c dt t w' \<and> load (data t) k (heap w') = Inr bs) (failed E w)"
proof (cases "int64_max < int k \<or> (\<exists>e. malloc k (heap w) = Inl e)")
  case True
  then show ?thesis using i by (auto simp: spec_def with_vector_def failed_def malloc_def guard_def Let_def split: if_splits)
next
  case False
  then obtain p m where a: "malloc k (heap w) = Inr (p, m)" and nl: "\<not> int64_max < int k" by (cases "malloc k (heap w)") auto
  from malloc_fresh [OF a invD(1) [OF i]] obtain b zs where b: "p = Ptr b 0" "blocks (heap w) b = None" "mem_inv m"
    "length zs = k" "blocks m = (blocks (heap w))(b \<mapsto> zs)" by auto
  let ?m1 = "m\<lparr>blocks := (blocks (heap w))(b \<mapsto> bs)\<rparr>"
  let ?w1 = "w\<lparr>heap := ?m1\<rparr>"
  have st: "fill m = Inr bs" "store p bs m = Inr ?m1"
    using fill [of m] b k(2) by (simp_all add: extends_def store_def overlay_0_full)
  have mi: "mem_inv ?m1" using b by (auto simp: mem_inv_def)
  have i1: "world_inv (insert b E) ?w1" by (rule inv_new_block [OF i b(2) _ mi]) simp
  have "load p (nat r * nat c * dtype_size_bytes dt) (heap ?w1) = Inr bs" using b k by (simp add: load_def window_def)
  note sp = from_host_typed_spec [OF i1 rc dt this, of d]
  have bE: "b \<notin> E" using invD(5) [OF i] b(2) by auto
  obtain x w' where x: "body p ?w1 = (x, w')" by force
  then have xh: "from_host_typed d p r c dt ?w1 = (x, w')" using body by simp
  have run: "with_vector k fill body w = (x, snd (heap_act (mfree p) w'))" using nl a st x by (simp add: with_vector_def)
  show ?thesis
  proof (cases x)
    case (Inl e)
    then have f: "failed (insert b E) ?w1 w'" "\<exists>s. e = Throw s" using spec_throws [OF sp] xh by auto
    then have bl: "blocks (heap w') = (blocks (heap w))(b \<mapsto> bs)" by (simp add: failed_def)
    let ?m2 = "heap w'\<lparr>blocks := (blocks (heap w'))(b := None)\<rparr>"
    have fr: "mfree p (heap w') = Inr ?m2" using b bl by (simp add: mfree_def)
    have w2: "world_inv E (w'\<lparr>heap := ?m2\<rparr>)"
      by (rule inv_drop_block [OF _ bE _ mfree_inv [OF fr]]) (use f in \<open>auto simp: failed_def dest: invD(1)\<close>)
    have "(blocks (heap w))(b := None) = blocks (heap w)" using b(2) by (rule fun_upd_idem)
    then show ?thesis using Inl f w2 bl run fr by (auto simp: spec_def failed_def keeps_def heap_act_def)
  next
    case (Inr t)
    then have t: "made (insert b E) ?w1 d r c dt t w'" "load (data t) k (heap w') = Inr bs" using spec_result [OF sp] xh k by auto
    then have fr1: "fresh_tensor (insert b E) ?w1 t w'" by (simp add: made_def)
    have bt: "b \<notin> tset t" "tset t \<inter> dom (blocks (heap w)) = {}" using fr1 by (auto simp: fresh_tensor_def)
    have bl: "blocks (heap w') b = Some bs" using fr1 by (simp add: fresh_tensor_def extends_def)
    let ?m2 = "heap w'\<lparr>blocks := (blocks (heap w'))(b := None)\<rparr>"
    have fr: "mfree p (heap w') = Inr ?m2" using b bl by (simp add: mfree_def)
    have w': "world_inv (insert b (tset t \<union> E)) w'" using fr1 by (simp add: fresh_tensor_def)
    have w2: "world_inv (tset t \<union> E) (w'\<lparr>heap := ?m2\<rparr>)"
      by (rule inv_drop_block [OF w' _ _ mfree_inv [OF fr invD(1) [OF w']]]) (use bE bt in auto)
    have ex: "extends (heap w) ?m2" using fr1 b(2) by (auto simp: fresh_tensor_def extends_def)
    have ok: "tensor_ok (rt w') ?m2 t" by (rule tensor_ok_blocks [of _ "heap w'"]) (use fr1 bt in \<open>auto simp: fresh_tensor_def\<close>)
    have "load (data t) k ?m2 = Inr bs"
    proof (cases "data t")
      case (Ptr c off)
      then have "owns t" using t(1) by (auto simp: made_def split: if_splits)
      then show ?thesis using t(2) bt(1) Ptr by (auto simp: load_def)
    qed (use t(2) in \<open>simp add: load_def\<close>)
    then show ?thesis using Inr t w2 ex ok bt run fr fr1
      by (auto simp: spec_def made_def fresh_tensor_def keeps_def heap_act_def)
  qed
qed


lemma length_elems [simp]: "length (elems k bs) = length bs div k"
  by (simp add: elems_def)

lemma length_concat_const: "(\<And>x. length (f x) = k) \<Longrightarrow> length (concat (map f xs)) = length xs * k"
  by (induction xs) simp_all

text \<open>The bytes of a tensor of dtype \<open>want\<close> made from source bytes of dtype \<open>d\<close>: unchanged when the dtypes agree.\<close>

definition target_of :: "StDtype \<Rightarrow> Dtype" where
  "target_of d = (case d of StF32 \<Rightarrow> FP32 | StF16 \<Rightarrow> FP16 | _ \<Rightarrow> BF16)"

definition conv_to :: "Dtype \<Rightarrow> 32 word \<Rightarrow> byte list" where
  "conv_to want x = (case want of FP32 \<Rightarrow> nat_le 4 (unat x) | FP16 \<Rightarrow> nat_le 2 (unat (fp32_to_fp16_bits x)) | _ \<Rightarrow> nat_le 2 (unat (fp32_to_bf16_bits x)))"

definition upload_result :: "StDtype \<Rightarrow> Dtype \<Rightarrow> byte list \<Rightarrow> byte list" where
  "upload_result d want bs = (if target_of d = want then bs
     else concat (map (\<lambda>x. conv_to want (at_f32 d x)) (elems (st_dtype_size_bytes d) bs)))"

lemma count_of_id: "is_int32 r \<Longrightarrow> is_int32 c \<Longrightarrow> 0 < r \<Longrightarrow> 0 < c \<Longrightarrow> count_of r c = nat r * nat c"
proof -
  assume a: "is_int32 r" "is_int32 c" "0 < r" "0 < c"
  have "nat r * nat c \<le> 2147483647 * 2147483647" by (rule mult_mono) (use a in \<open>auto simp: is_int32_def int32_max_def\<close>)
  then show ?thesis unfolding count_of_def by (intro size_wrap_id) (simp add: size_max_def)
qed

lemma from_host_eqs:
  "(\<lambda>tmp. from_host tmp r c) = (\<lambda>p w. from_host_typed (default_device (rt w)) p r c FP32 w)"
  "(\<lambda>tmp. from_host_fp16 tmp r c) = (\<lambda>p w. from_host_typed (default_device (rt w)) p r c FP16 w)"
  "(\<lambda>tmp. from_host_bf16 tmp r c) = (\<lambda>p w. from_host_typed (default_device (rt w)) p r c BF16 w)"
  by (auto simp: fun_eq_iff from_host_def from_host_on_def from_host_fp16_def from_host_fp16_on_def from_host_bf16_def from_host_bf16_on_def)

lemma cpu_upload_spec:
  fixes w :: "'o world"
  assumes i: "world_inv E w" and rc: "is_int32 r" "is_int32 c" "0 < r" "0 < c" and want: "want \<in> {FP32, FP16, BF16}"
    and d: "tv_dtype v \<in> {StF32, StF16, StBF16}"
    and l: "load p (nat r * nat c * st_dtype_size_bytes (tv_dtype v)) (heap w) = Inr bs"
  shows "spec (cpu_upload v p r c want) w (\<lambda>t w'. made E w (default_device (rt w)) r c want t w'
      \<and> load (data t) (nat r * nat c * dtype_size_bytes want) (heap w') = Inr (upload_result (tv_dtype v) want bs)) (failed E w)"
proof -
  let ?d = "tv_dtype v"
  let ?n = "nat r * nat c"
  let ?host = "\<lambda>p w. from_host_typed (default_device (rt w)) p r c want w :: Tensor res \<times> 'o world"
  have lb: "length bs = ?n * st_dtype_size_bytes ?d" using load_eq_Inr [OF l] by simp
  have sz: "st_dtype_size_bytes ?d \<noteq> 0" using d by auto
  show ?thesis
  proof (cases "target_of ?d = want")
    case True
    then have s: "st_dtype_size_bytes ?d = dtype_size_bytes want" using d by (auto simp: target_of_def dtype_defs)
    have "spec (from_host_typed (default_device (rt w)) p r c want) w
      (\<lambda>t w'. made E w (default_device (rt w)) r c want t w' \<and> load (data t) (?n * dtype_size_bytes want) (heap w') = Inr bs) (failed E w)"
      by (rule from_host_typed_spec [OF i rc want]) (use l s in simp)
    moreover have "cpu_upload v p r c want w = from_host_typed (default_device (rt w)) p r c want w"
      using d True by (auto simp: cpu_upload_def target_of_def Let_def from_host_def from_host_on_def from_host_fp16_def
          from_host_fp16_on_def from_host_bf16_def from_host_bf16_on_def)
    ultimately show ?thesis using True by (simp add: spec_def upload_result_def)
  next
    case False
    let ?out = "upload_result ?d want bs"
    let ?fill = "convert p ?n (st_dtype_size_bytes ?d) (\<lambda>x. conv_to want (at_f32 ?d x))"
    have lo: "length ?out = ?n * dtype_size_bytes want"
      using False want lb sz by (auto simp: upload_result_def conv_to_def dtype_defs length_concat_const)
    have "spec (with_vector (?n * dtype_size_bytes want) ?fill ?host) w
      (\<lambda>t w'. made E w (default_device (rt w)) r c want t w' \<and> load (data t) (?n * dtype_size_bytes want) (heap w') = Inr ?out) (failed E w)"
    proof (rule with_vector_spec [OF i rc want refl lo])
      fix m
      assume "extends (heap w) m"
      from extends_load [OF this l] show "?fill m = Inr ?out" using False by (simp add: convert_def upload_result_def)
    qed simp
    moreover have "cpu_upload v p r c want = with_vector (?n * dtype_size_bytes want) ?fill ?host"
      using d want False by (auto simp: cpu_upload_def target_of_def Let_def from_host_eqs count_of_id [OF rc] conv_to_def dtype_defs)
    ultimately show ?thesis by simp
  qed
qed


lemma st_open_view:
  "st_open file = Inr f \<Longrightarrow> le_nat (take 8 file) \<le> 2147483647 \<Longrightarrow> v \<in> set (st_tensors f) \<Longrightarrow> st_view_ok (length file) v"
  using st_open_wp by (auto simp: wp_def st_ok_def)

text \<open>
  C33: weights arrive converted. On a CPU default device \<^verbatim>\<open>upload_as\<close> of a tensor of an opened safetensors file, mapped at a block
  of memory, either throws, leaving memory as it was, or gives a tensor of the wanted dtype with \<^verbatim>\<open>rows * cols\<close> equal to the
  element count, whose bytes are the file's bytes (same dtype) or the conversion of every element through FP32.
\<close>

theorem upload_as_contents:
  assumes w: "world_inv E w" and m: "blocks (heap w) b = Some file" and f: "st_open file = Inr f" "le_nat (take 8 file) \<le> 2147483647"
    "v \<in> set (st_tensors f)" and rc: "is_int32 r" "is_int32 c" and cpu: "default_device (rt w) = cpu"
  shows "case upload_as cast_op v (Ptr b 0) r c want w of
      (Inr t, w') \<Rightarrow> 0 < r \<and> 0 < c \<and> r * c = prod_list (tv_shape v) \<and> rows t = r \<and> cols t = c \<and> dtype t = want
        \<and> load (data t) (nat r * nat c * dtype_size_bytes want) (heap w')
           = Inr (upload_result (tv_dtype v) want (window (tv_data v) (tv_nbytes v) file))
    | (Inl e, w') \<Rightarrow> (\<exists>m. e = Throw m) \<and> blocks (heap w') = blocks (heap w)"
proof (cases "0 < r \<and> 0 < c \<and> expected_bytes v r c = tv_nbytes v \<and> tv_dtype v \<in> {StF32, StF16, StBF16} \<and> want \<in> {FP32, FP16, BF16}")
  case True
  then have rc0: "0 < r" "0 < c" and eb: "expected_bytes v r c = tv_nbytes v" and d: "tv_dtype v \<in> {StF32, StF16, StBF16}"
    and wt: "want \<in> {FP32, FP16, BF16}" by auto
  let ?dsz = "st_dtype_size_bytes (tv_dtype v)"
  have v: "st_view_ok (length file) v" using st_open_view [OF f] .
  have "nat r * nat c \<le> 2147483647 * 2147483647" by (rule mult_mono) (use rc rc0 in \<open>auto simp: is_int32_def int32_max_def\<close>)
  moreover have z: "?dsz \<noteq> 0" "?dsz \<le> 4" using d by auto
  ultimately have "nat r * nat c * ?dsz \<le> (2147483647 * 2147483647) * 4" using mult_le_mono by blast
  then have nb: "tv_nbytes v = nat r * nat c * ?dsz"
    using eb by (simp add: expected_bytes_def count_of_id [OF rc rc0] size_wrap_id size_max_def)
  then have "int (nat r * nat c * ?dsz) = prod_list (tv_shape v) * int ?dsz" using v by (simp add: st_view_ok_def)
  then have pr: "r * c = prod_list (tv_shape v)" using rc0 z(1) by (simp add: nat_mult_distrib)
  have "load (Ptr b (tv_data v)) (nat r * nat c * ?dsz) (heap w) = Inr (window (tv_data v) (tv_nbytes v) file)"
    using m v nb by (simp add: load_def st_view_ok_def)
  note sp = cpu_upload_spec [OF w rc rc0 wt d this]
  have e: "upload_as cast_op v (Ptr b 0) r c want w = cpu_upload v (Ptr b (tv_data v)) r c want w"
    using rc0 eb d cpu by (auto simp: upload_as_def ptr_add_def sbnd_def lift_def reading_def)
  obtain x w' where x: "upload_as cast_op v (Ptr b 0) r c want w = (x, w')" by force
  then show ?thesis using spec_throws [OF sp] spec_result [OF sp] e rc0 pr by (cases x) (auto simp: made_def failed_def)
next
  case False
  have "\<exists>m. upload_as cast_op v (Ptr b 0) r c want w = (Inl (Throw m), w)"
  proof (cases "0 < r \<and> 0 < c \<and> expected_bytes v r c = tv_nbytes v \<and> tv_dtype v \<in> {StF32, StF16, StBF16}")
    case True
    then have "want \<notin> {FP32, FP16, BF16}" using False by blast
    then show ?thesis using True cpu
      by (cases want) (auto simp: upload_as_def cpu_upload_def throw_def lift_def ptr_add_def sbnd_def reading_def Let_def)
  qed (auto simp: upload_as_def throw_def lift_def not_less)
  then show ?thesis by auto
qed


text \<open>A file with one F16 element, mapped at block 0 of a world whose default device is the CPU.\<close>

definition demo_entry16 :: WriteEntry where
  "demo_entry16 = \<lparr>we_name = ''w'', we_dtype = StF16, we_shape = [1], we_host_data = Ptr 0 0, we_bytes = 2\<rparr>"

lemma demo16_opened:
  "\<exists>file f v. st_open file = Inr f \<and> le_nat (take 8 file) \<le> 2147483647 \<and> st_tensors f = [v] \<and> tv_dtype v = StF16
     \<and> tv_nbytes v = 2 \<and> tv_shape v = [1] \<and> window (tv_data v) 2 file = ''ab''"
proof -
  have "write_offsets {} 0 [demo_entry16] = Inr [(0, 2)]"
    by (simp add: demo_entry16_def mul_int64_def is_int64_def int64_max_def Let_def size_max_def size_wrap_def)
  moreover obtain s where s: "entry_json demo_entry16 (0, 2) = Inr s" "length s \<le> 200"
    by (simp add: entry_json_def dtype_safetensors_name_def demo_entry16_def int_dec_def nat_dec.simps json_escape_def escape_char_def)
  moreover have "length (pad8 (CHR ''{'' # s @ ''}'')) \<le> 300" using s(2) by (simp add: pad8_def)
  moreover have l: "load (Ptr 0 0) 2 demo_host = Inr ''ab''" by (simp add: load_def demo_host_def window_def)
  moreover have e: "we_bytes demo_entry16 = 2" "we_host_data demo_entry16 = Ptr 0 0" by (simp_all add: demo_entry16_def)
  ultimately obtain fl where w: "write_file True 1000 demo_host [demo_entry16] = Inr fl"
    unfolding write_file_def by (simp add: fwrite_def Let_def guard_def del: write_offsets.simps)
  have len: "length fl \<le> 1000" using write_file_room [OF w] .
  moreover have "we_ok demo_entry16" by (simp add: we_ok_def demo_entry16_def is_int64_def int64_max_def)
  ultimately obtain f where f: "st_open fl = Inr f" "list_all2 (written_as demo_host fl) [demo_entry16] (st_tensors f)"
    using st_open_write_file [OF w] by (auto simp: int64_max_def)
  then obtain v where v: "st_tensors f = [v]" "written_as demo_host fl demo_entry16 v" by (auto simp: list_all2_Cons1)
  have "le_nat (take 8 fl) \<le> length fl - 8" using f(1) by (simp add: st_open_def Let_def not_less)
  then have "le_nat (take 8 fl) \<le> 2147483647" using len by linarith
  moreover have "tv_dtype v = StF16" "tv_nbytes v = 2" "tv_shape v = [1]" "window (tv_data v) 2 fl = ''ab''"
    using v(2) l by (simp_all add: written_as_def demo_entry16_def)
  ultimately show ?thesis using f(1) v(1) by blast
qed

definition st_world :: "byte list \<Rightarrow> unit world" where
  "st_world bs = demo_world\<lparr>heap := demo_mem\<lparr>blocks := [0 \<mapsto> bs]\<rparr>, rt := demo_rt\<lparr>scope_override := Some cpu\<rparr>\<rparr>"

lemma st_world_inv: "world_inv {0} (st_world bs)"
  using demo_world_ok by (auto simp: st_world_def world_ok_def world_inv_def mem_inv_def demo_mem_def backends_ok_def split: if_splits)

lemma st_world_alloc: "alloc_for (rt (st_world bs)) cpu = Inr cpu_alloc_table" "default_device (rt (st_world bs)) = cpu"
  "resolve_device_alias (rt (st_world bs)) cpu = cpu"
  by (simp_all add: st_world_def alloc_for_def resolve_device_alias_def device_test_defs demo_rt_def default_device_def)

lemma demo_upload_ok:
  assumes "k + 2 \<le> length bs" "tv_dtype v = StF16" "tv_nbytes v = 2" "tv_data v = k"
  shows "\<exists>t w'. upload_as cast_op v (Ptr 0 0) 1 1 FP32 (st_world bs) = (Inr t, w')"
proof -
  have c: "count_of 1 1 = 1" "expected_bytes v 1 1 = 2" using assms by (simp_all add: count_of_def expected_bytes_def size_wrap_def)
  show ?thesis
  using assms c st_world_alloc [of bs]
  by (simp add: upload_as_def cpu_upload_def with_vector_def from_host_eqs from_host_typed_def empty_on_def owning_def upload_def
    demo_eval convert_def elems_def st_world_def int64_max_def ptr_add_def cong: if_cong)
qed


theorem upload_as_contents_witness:
  "\<exists>file f v t w'. st_open file = Inr f \<and> st_tensors f = [v] \<and> window (tv_data v) 2 file = ''ab''
     \<and> upload_as (\<lambda>t d. ret t) v (Ptr 0 0) 1 1 FP32 (st_world file) = (Inr t, w')
     \<and> load (data t) 4 (heap w') = Inr (nat_le 4 (unat (fp16_bits_to_fp32 0x6261)))"
proof -
  obtain fl f v where f: "st_open fl = Inr f" "le_nat (take 8 fl) \<le> 2147483647" "st_tensors f = [v]" "tv_dtype v = StF16"
    "tv_nbytes v = 2" "tv_shape v = [1]" "window (tv_data v) 2 fl = ''ab''" using demo16_opened by blast
  have v: "v \<in> set (st_tensors f)" using f(3) by simp
  have "tv_data v + 2 \<le> length fl" using st_open_view [OF f(1,2) v] f(5) by (simp add: st_view_ok_def)
  then obtain t w' where t: "upload_as (\<lambda>t d. ret t) v (Ptr 0 0) 1 1 FP32 (st_world fl) = (Inr t, w')"
    using demo_upload_ok [of "tv_data v" fl v "\<lambda>t d. ret t"] f(4,5) by auto
  have l: "le_nat ''ab'' = 0x6261" by simp
  have "elems 2 ''ab'' = [0x6261]" using l by (simp add: elems_def window_def)
  then have r: "upload_result StF16 FP32 ''ab'' = nat_le 4 (unat (fp16_bits_to_fp32 0x6261))"
    by (simp add: upload_result_def target_of_def conv_to_def at_f32_def)
  have b: "blocks (heap (st_world fl)) 0 = Some fl" by (simp add: st_world_def)
  have "is_int32 1" by (simp add: is_int32_def int32_max_def)
  from upload_as_contents [OF st_world_inv b f(1,2) v this this st_world_alloc(2), where cast_op = "\<lambda>t d. ret t" and want = FP32] t f r
  have "load (data t) 4 (heap w') = Inr (nat_le 4 (unat (fp16_bits_to_fp32 0x6261)))" by (simp add: dtype_defs)
  then show ?thesis using f t by blast
qed

end
