(* ===== verification/Json.thy ===== *)
theory Json
  imports Text
begin

unbundle bit_operations_syntax

text \<open>
  The JSON parser and value accessors (\<^verbatim>\<open>include/brotensor/json.h\<close>). The cursor is the list of the characters left. The type of
  doubles is \<open>'d\<close>; the parameter \<open>dbl\<close> holds the operations on them the code uses: \<^verbatim>\<open>std::stod\<close> (\<open>None\<close> when it throws), the
  three non-finite constants, the integer part of a finite double, and the conversion to \<^verbatim>\<open>float\<close>.
\<close>

section \<open>Values\<close>

record 'd dbl =
  stod :: "string \<Rightarrow> 'd option"
  d_inf :: 'd
  d_ninf :: 'd
  d_nan :: 'd
  d_trunc :: "'d \<Rightarrow> int option"
  d_float :: "'d \<Rightarrow> 32 word"

datatype 'd jvalue =
    JNull
  | JBool bool
  | JNumber 'd
  | JString string
  | JArray "'d jvalue list"
  | JObject "(string \<times> 'd jvalue) list"

definition as_number :: "'d jvalue \<Rightarrow> 'd res" where
  "as_number v = (case v of JNumber d \<Rightarrow> Inr d | _ \<Rightarrow> Inl (Throw ''json: value is not a number''))"

definition as_bool :: "'d jvalue \<Rightarrow> bool res" where
  "as_bool v = (case v of JBool b \<Rightarrow> Inr b | _ \<Rightarrow> Inl (Throw ''json: value is not a bool''))"

definition as_string :: "'d jvalue \<Rightarrow> string res" where
  "as_string v = (case v of JString s \<Rightarrow> Inr s | _ \<Rightarrow> Inl (Throw ''json: value is not a string''))"

definition as_array :: "'d jvalue \<Rightarrow> 'd jvalue list res" where
  "as_array v = (case v of JArray a \<Rightarrow> Inr a | _ \<Rightarrow> Inl (Throw ''json: value is not an array''))"

definition as_object :: "'d jvalue \<Rightarrow> (string \<times> 'd jvalue) list res" where
  "as_object v = (case v of JObject m \<Rightarrow> Inr m | _ \<Rightarrow> Inl (Throw ''json: value is not an object''))"

fun find_member :: "string \<Rightarrow> (string \<times> 'd jvalue) list \<Rightarrow> 'd jvalue option" where
  "find_member key [] = None"
| "find_member key ((k, v) # ms) = (if k = key then Some v else find_member key ms)"

definition jfind :: "'d jvalue \<Rightarrow> string \<Rightarrow> 'd jvalue option" where
  "jfind v key = (case v of JObject m \<Rightarrow> find_member key m | _ \<Rightarrow> None)"

definition contains :: "'d jvalue \<Rightarrow> string \<Rightarrow> bool" where
  "contains v key \<longleftrightarrow> jfind v key \<noteq> None"

definition jat :: "'d jvalue \<Rightarrow> string \<Rightarrow> 'd jvalue res" where
  "jat v key = (case jfind v key of None \<Rightarrow> Inl (Throw ''json: missing key'') | Some x \<Rightarrow> Inr x)"

text \<open>\<^verbatim>\<open>static_cast<int>\<close> of a double whose integer part does not fit is undefined.\<close>

definition cast_int :: "'d dbl \<Rightarrow> 'd \<Rightarrow> int res" where
  "cast_int D d = (case d_trunc D d of
      None \<Rightarrow> Inl (UB ''float to int'')
    | Some i \<Rightarrow> if is_int32 i then Inr i else Inl (UB ''float to int''))"

text \<open>The getters with defaults: absent and null give the default.\<close>

definition get_or :: "'d jvalue \<Rightarrow> string \<Rightarrow> 'a \<Rightarrow> ('d jvalue \<Rightarrow> 'a res) \<Rightarrow> 'a res" where
  "get_or v key dflt conv = (case jfind v key of None \<Rightarrow> Inr dflt | Some JNull \<Rightarrow> Inr dflt | Some x \<Rightarrow> conv x)"

definition get_int :: "'d dbl \<Rightarrow> 'd jvalue \<Rightarrow> string \<Rightarrow> int \<Rightarrow> int res" where
  "get_int D v key dflt = get_or v key dflt (\<lambda>x. bnd (as_number x) (cast_int D))"

definition get_float :: "'d dbl \<Rightarrow> 'd jvalue \<Rightarrow> string \<Rightarrow> 32 word \<Rightarrow> 32 word res" where
  "get_float D v key dflt = get_or v key dflt (\<lambda>x. bnd (as_number x) (\<lambda>d. Inr (d_float D d)))"

definition get_bool :: "'d jvalue \<Rightarrow> string \<Rightarrow> bool \<Rightarrow> bool res" where
  "get_bool v key dflt = get_or v key dflt as_bool"

definition get_string :: "'d jvalue \<Rightarrow> string \<Rightarrow> string \<Rightarrow> string res" where
  "get_string v key dflt = get_or v key dflt as_string"

fun int_elems :: "'d dbl \<Rightarrow> 'd jvalue list \<Rightarrow> int list res" where
  "int_elems D [] = Inr []"
| "int_elems D (e # es) = bnd (as_number e) (\<lambda>d. bnd (cast_int D d) (\<lambda>i. bnd (int_elems D es) (\<lambda>is. Inr (i # is))))"

definition get_int_array :: "'d dbl \<Rightarrow> 'd jvalue \<Rightarrow> string \<Rightarrow> int list \<Rightarrow> int list res" where
  "get_int_array D v key dflt = get_or v key dflt (\<lambda>x. bnd (as_array x) (int_elems D))"

section \<open>Scanning\<close>

definition jfail :: "string \<Rightarrow> 'a res" where
  "jfail msg = Inl (Throw (''json: '' @ msg))"

definition peek :: "string \<Rightarrow> char" where
  "peek p = (case p of [] \<Rightarrow> CHR 0x00 | c # _ \<Rightarrow> c)"

definition parse_hex4 :: "string \<Rightarrow> (nat \<times> string) res" where
  "parse_hex4 p = (if length p < 4 then jfail ''truncated u escape''
     else bnd (hex4 p) (\<lambda>h. case h of None \<Rightarrow> jfail ''bad hex digit in u escape'' | Some cp \<Rightarrow> Inr (cp, drop 4 p)))"

text \<open>The escape after \<^verbatim>\<open>\u\<close>: the bytes it adds and the text after it. An unpaired high surrogate is emitted as it is.\<close>

definition pair_cp :: "nat \<Rightarrow> nat \<Rightarrow> nat" where
  "pair_cp cp lo = 0x10000 + push_bit 10 (cp - 0xD800) + (lo - 0xDC00)"

definition junicode :: "string \<Rightarrow> (string \<times> string) res" where
  "junicode p = bnd (parse_hex4 p) (\<lambda>(cp, q).
     if 0xD800 \<le> cp \<and> cp \<le> 0xDBFF \<and> 2 \<le> length q \<and> q ! 0 = CHR 0x5C \<and> q ! 1 = CHR ''u'' then
       bnd (parse_hex4 (drop 2 q)) (\<lambda>(lo, r).
       if 0xDC00 \<le> lo \<and> lo \<le> 0xDFFF then Inr (append_utf8 (pair_cp cp lo), r)
       else Inr (append_utf8 cp @ append_utf8 lo, r))
     else Inr (append_utf8 cp, q))"

lemma jfail_neq [simp]: "jfail m \<noteq> Inr x"
  by (simp add: jfail_def)

lemma parse_hex4_length: "parse_hex4 p = Inr (cp, q) \<Longrightarrow> length q < length p"
  by (cases "length p < 4") (auto simp: parse_hex4_def split: option.splits)

lemma junicode_length: "junicode p = Inr (s, q) \<Longrightarrow> length q < length p"
  unfolding junicode_def by (auto split: if_split_asm dest!: parse_hex4_length)

text \<open>\<^verbatim>\<open>parse_string\<close> after its opening quote.\<close>

function jchars :: "string \<Rightarrow> (string \<times> string) res" where
  "jchars p = (case p of
      [] \<Rightarrow> jfail ''unterminated string''
    | c # q \<Rightarrow>
       if c = CHR 0x22 then Inr ([], q)
       else if c = CHR 0x5C then (case q of
           [] \<Rightarrow> jfail ''unterminated escape in string''
         | e # r \<Rightarrow>
            if e = CHR ''u'' then bnd (junicode r) (\<lambda>(u, r1). bnd (jchars r1) (\<lambda>(s, t). Inr (u @ s, t)))
            else (case simple_escape e of
                None \<Rightarrow> jfail ''unsupported escape sequence''
              | Some x \<Rightarrow> bnd (jchars r) (\<lambda>(s, t). Inr (x # s, t))))
       else bnd (jchars q) (\<lambda>(s, t). Inr (c # s, t)))"
  by pat_completeness auto
termination
  by (relation "measure length") (auto dest: junicode_length)

declare jchars.simps [simp del]

definition jstring :: "string \<Rightarrow> (string \<times> string) res" where
  "jstring p = (if peek p \<noteq> CHR 0x22 then jfail ''expected string'' else jchars (tl p))"

lemma jchars_length: "jchars p = Inr (s, r) \<Longrightarrow> length r < length p"
proof (induction p arbitrary: s r rule: length_induct)
  case (1 p)
  then obtain c q where p: "p = c # q" by (cases p) (auto simp: jchars.simps)
  have ih: "length r' < length q'" if "length q' < length p" "jchars q' = Inr (s', r')" for q' s' r' using 1(1) that by blast
  consider "c = CHR 0x22" | "c \<noteq> CHR 0x22" "c \<noteq> CHR 0x5C" | "c = CHR 0x5C" by blast
  then show ?case
  proof cases
    case 1
    then show ?thesis using "1.prems" p by (subst (asm) jchars.simps) simp
  next
    case 2
    then obtain s1 where "jchars q = Inr (s1, r)" using "1.prems" p by (subst (asm) jchars.simps) auto
    then show ?thesis using ih [of q s1 r] p by simp
  next
    case 3
    then obtain e q2 where q: "q = e # q2" using "1.prems" p by (cases q) (auto simp: jchars.simps)
    show ?thesis
    proof (cases "e = CHR ''u''")
      case True
      then obtain u r1 s1 where "junicode q2 = Inr (u, r1)" "jchars r1 = Inr (s1, r)"
        using "1.prems" p q 3 by (subst (asm) jchars.simps) auto
      then show ?thesis using junicode_length [of q2 u r1] ih [of r1 s1 r] p q by fastforce
    next
      case False
      then obtain s1 where "jchars q2 = Inr (s1, r)"
        using "1.prems" p q 3 by (subst (asm) jchars.simps) (auto split: option.splits)
      then show ?thesis using ih [of q2 s1 r] p q by fastforce
    qed
  qed
qed

lemma jstring_length: "jstring p = Inr (s, q) \<Longrightarrow> length q < length p"
  by (cases p) (auto simp: jstring_def peek_def dest!: jchars_length split: if_splits)

lemma skip_ws_less: "length (skip_ws p) \<noteq> length p \<Longrightarrow> length (skip_ws p) < length p"
  using skip_ws_length [of p] by linarith

lemma skip_ws_tl: "p \<noteq> [] \<Longrightarrow> length (skip_ws (tl p)) < length p"
  using skip_ws_length [of "tl p"] by (cases p) auto

lemma object_step: "jstring (skip_ws p) = Inr (key, q1) \<Longrightarrow> length (tl (skip_ws q1)) < length p"
  using jstring_length [of "skip_ws p" key q1] skip_ws_length [of p] skip_ws_length [of q1] unfolding length_tl by linarith

text \<open>\<^verbatim>\<open>expect_literal\<close>, and the scanners of \<^verbatim>\<open>parse_bool\<close> and \<^verbatim>\<open>parse_null\<close>.\<close>

definition at_literal :: "string \<Rightarrow> string \<Rightarrow> bool" where
  "at_literal lit p \<longleftrightarrow> length lit \<le> length p \<and> take (length lit) p = lit"

definition expect_literal :: "string \<Rightarrow> string \<Rightarrow> string res" where
  "expect_literal lit p = (if \<not> at_literal lit p then jfail ''invalid literal'' else Inr (drop (length lit) p))"

definition parse_nan :: "'d dbl \<Rightarrow> string \<Rightarrow> ('d jvalue \<times> string) res" where
  "parse_nan D p = bnd (expect_literal ''NaN'' p) (\<lambda>q. Inr (JNumber (d_nan D), q))"

definition parse_bool :: "string \<Rightarrow> ('d jvalue \<times> string) res" where
  "parse_bool p = (
     if at_literal ''true'' p then Inr (JBool True, drop 4 p)
     else if at_literal ''false'' p then Inr (JBool False, drop 5 p)
     else jfail ''invalid literal'')"

definition parse_null :: "string \<Rightarrow> ('d jvalue \<times> string) res" where
  "parse_null p = (if at_literal ''null'' p then Inr (JNull, drop 4 p) else jfail ''invalid literal'')"

section \<open>Numbers\<close>

definition skip_digits :: "string \<Rightarrow> string" where
  "skip_digits p = dropWhile is_digit p"

definition scan_int :: "string \<Rightarrow> string res" where
  "scan_int p = (
     if peek p = CHR ''0'' then Inr (tl p)
     else if is_digit (peek p) then Inr (skip_digits p)
     else jfail ''invalid number'')"

definition scan_frac :: "string \<Rightarrow> string res" where
  "scan_frac p = (if peek p = CHR ''.'' then
       if \<not> is_digit (peek (tl p)) then jfail ''invalid number: digits expected after '.' ''
       else Inr (skip_digits (tl p))
     else Inr p)"

definition scan_exp :: "string \<Rightarrow> string res" where
  "scan_exp p = (if peek p = CHR ''e'' \<or> peek p = CHR ''E'' then
       (let q = tl p; r = (if peek q = CHR ''+'' \<or> peek q = CHR ''-'' then tl q else q) in
        if \<not> is_digit (peek r) then jfail ''invalid number: digits expected in exponent'' else Inr (skip_digits r))
     else Inr p)"

definition parse_number :: "'d dbl \<Rightarrow> string \<Rightarrow> ('d jvalue \<times> string) res" where
  "parse_number D start = (let neg = (peek start = CHR ''-''); p = (if neg then tl start else start) in
     if peek p = CHR ''I'' then
       bnd (expect_literal ''Infinity'' p) (\<lambda>q. Inr (JNumber (if neg then d_ninf D else d_inf D), q))
     else
       bnd (scan_int p) (\<lambda>p1. bnd (scan_frac p1) (\<lambda>p2. bnd (scan_exp p2) (\<lambda>p3.
       case stod D (take (length start - length p3) start) of
         None \<Rightarrow> jfail ''number out of range''
       | Some d \<Rightarrow> Inr (JNumber d, p3)))))"

section \<open>Values and documents\<close>

definition kMaxDepth :: nat where
  "kMaxDepth = 256"

text \<open>
  The recursive descent; \<open>depth\<close> is \<^verbatim>\<open>depth_\<close>. The two loops stop with \<open>UB\<close> if an element consumed nothing: the check is not in
  the code, and the safety theorem shows that it never fires.
\<close>

function jparse_value :: "'d dbl \<Rightarrow> nat \<Rightarrow> string \<Rightarrow> ('d jvalue \<times> string) res"
  and parse_object :: "'d dbl \<Rightarrow> nat \<Rightarrow> string \<Rightarrow> ('d jvalue \<times> string) res"
  and object_loop :: "'d dbl \<Rightarrow> nat \<Rightarrow> string \<Rightarrow> ((string \<times> 'd jvalue) list \<times> string) res"
  and parse_array :: "'d dbl \<Rightarrow> nat \<Rightarrow> string \<Rightarrow> ('d jvalue \<times> string) res"
  and array_loop :: "'d dbl \<Rightarrow> nat \<Rightarrow> string \<Rightarrow> ('d jvalue list \<times> string) res" where
  "jparse_value D depth p = (let q = skip_ws p in
     if q = [] then jfail ''unexpected end of input''
     else if hd q = CHR ''{'' then parse_object D depth q
     else if hd q = CHR ''['' then parse_array D depth q
     else if hd q = CHR 0x22 then bnd (jstring q) (\<lambda>(s, r). Inr (JString s, r))
     else if hd q = CHR ''t'' \<or> hd q = CHR ''f'' then parse_bool q
     else if hd q = CHR ''n'' then parse_null q
     else if hd q = CHR ''I'' then parse_number D q
     else if hd q = CHR ''N'' then parse_nan D q
     else if hd q = CHR ''-'' \<or> is_digit (hd q) then parse_number D q
     else jfail ''unexpected character'')"
| "parse_object D depth p = (
     if p = [] then Inl (UB ''read past the end of the text'')
     else if kMaxDepth < depth + 1 then jfail ''maximum nesting depth exceeded''
     else let q = skip_ws (tl p) in
       if peek q = CHR ''}'' then Inr (JObject [], tl q)
       else bnd (object_loop D (depth + 1) q) (\<lambda>(ms, r). Inr (JObject ms, r)))"
| "object_loop D depth p = (let q = skip_ws p in
     if peek q \<noteq> CHR 0x22 then jfail ''expected object key string''
     else bnd (jstring q) (\<lambda>(key, q1). let q2 = skip_ws q1 in
       if peek q2 \<noteq> CHR '':'' then jfail ''expected ':' after object key''
       else bnd (jparse_value D depth (tl q2)) (\<lambda>(val, q3). let q4 = skip_ws q3 in
         if peek q4 = CHR '','' then
           if length p \<le> length (tl q4) then Inl (UB ''no progress'')
           else bnd (object_loop D depth (tl q4)) (\<lambda>(ms, r). Inr ((key, val) # ms, r))
         else if peek q4 = CHR ''}'' then Inr ([(key, val)], tl q4)
         else jfail ''expected ',' or '}' in object'')))"
| "parse_array D depth p = (
     if p = [] then Inl (UB ''read past the end of the text'')
     else if kMaxDepth < depth + 1 then jfail ''maximum nesting depth exceeded''
     else let q = skip_ws (tl p) in
       if peek q = CHR '']'' then Inr (JArray [], tl q)
       else bnd (array_loop D (depth + 1) q) (\<lambda>(vs, r). Inr (JArray vs, r)))"
| "array_loop D depth p =
     bnd (jparse_value D depth p) (\<lambda>(v, q3). let q4 = skip_ws q3 in
       if peek q4 = CHR '','' then
         if length p \<le> length (tl q4) then Inl (UB ''no progress'')
         else bnd (array_loop D depth (tl q4)) (\<lambda>(vs, r). Inr (v # vs, r))
       else if peek q4 = CHR '']'' then Inr ([v], tl q4)
       else jfail ''expected ',' or ']' in array'')"
  by pat_completeness auto
termination
  by (relation "inv_image (less_than <*lex*> less_than) (\<lambda>x. case x of
      Inl (Inl (D, d, p)) \<Rightarrow> (length p, 1 :: nat)
    | Inl (Inr (D, d, p)) \<Rightarrow> (length p, 0)
    | Inr (Inl (D, d, p)) \<Rightarrow> (length p, 0)
    | Inr (Inr (Inl (D, d, p))) \<Rightarrow> (length p, 0)
    | Inr (Inr (Inr (D, d, p))) \<Rightarrow> (length p, 2))")
    (auto intro: skip_ws_less skip_ws_tl dest!: object_step)


declare jparse_value.simps [simp del] parse_object.simps [simp del] object_loop.simps [simp del]
  parse_array.simps [simp del] array_loop.simps [simp del]

definition parse_document :: "'d dbl \<Rightarrow> string \<Rightarrow> 'd jvalue res" where
  "parse_document D text = bnd (jparse_value D 0 (skip_ws text)) (\<lambda>(v, q).
     if skip_ws q \<noteq> [] then jfail ''trailing characters after document'' else Inr v)"

end
