(* ===== verification/JsonProps.thy ===== *)
theory JsonProps
  imports Json SafetensorsProps
begin

text \<open>
  What the JSON parser promises: every text is parsed or rejected with an exception, values nest at most \<^verbatim>\<open>kMaxDepth\<close> deep, and
  a printed value is read back.
\<close>

section \<open>Safety and depth\<close>

fun jdepth :: "'d jvalue \<Rightarrow> nat" where
  "jdepth (JArray vs) = Suc (foldr max (map jdepth vs) 0)"
| "jdepth (JObject ms) = Suc (foldr max (map (\<lambda>m. jdepth (snd m)) ms) 0)"
| "jdepth _ = 0"

lemma foldr_max_le: "foldr max xs 0 \<le> (n :: nat) \<longleftrightarrow> (\<forall>x\<in>set xs. x \<le> n)"
  by (induction xs) auto

lemma safe_jfail [simp]: "safe (jfail m)"
  by (simp add: jfail_def)

lemma wp_jfail [simp]: "wp (jfail m) Q"
  by (simp add: jfail_def)

lemma safe_parse_hex4: "safe (parse_hex4 p)"
  by (auto simp: parse_hex4_def intro!: safe_bnd safe_hex4 split: option.split)

lemma safe_junicode: "safe (junicode p)"
  unfolding junicode_def by (auto intro!: safe_bnd safe_parse_hex4)

lemma safe_jchars: "safe (jchars p)"
proof (induction p rule: length_induct)
  case (1 p)
  show ?case
  proof (cases p)
    case (Cons c q)
    show ?thesis
    proof (cases q)
      case Nil
      then show ?thesis using 1 Cons by (subst jchars.simps) (auto intro!: safe_bnd)
    next
      case (Cons e r)
      have "safe (jchars r1)" if "junicode r = Inr (u, r1)" for u r1
        using 1 junicode_length [OF that] \<open>p = c # q\<close> Cons by auto
      then show ?thesis using 1 \<open>p = c # q\<close> Cons
        by (subst jchars.simps) (auto intro!: safe_bnd safe_junicode split: option.split)
    qed
  qed (simp add: jchars.simps)
qed

lemma safe_jstring: "safe (jstring p)"
  by (simp add: jstring_def safe_jchars)

lemma peek_Cons: "peek p = c \<Longrightarrow> c \<noteq> CHR 0x00 \<Longrightarrow> p = c # tl p"
  by (cases p) (auto simp: peek_def)

lemma skip_digits_length: "length (skip_digits p) \<le> length p" "is_digit (peek p) \<Longrightarrow> length (skip_digits p) < length p"
proof -
  show "length (skip_digits p) \<le> length p" by (simp add: skip_digits_def length_dropWhile_le)
  assume "is_digit (peek p)"
  then obtain c q where "p = c # q" "is_digit c" by (cases p) (auto simp: peek_def is_digit_def)
  then show "length (skip_digits p) < length p" using length_dropWhile_le [of is_digit q] by (simp add: skip_digits_def le_imp_less_Suc)
qed

lemma scan_length:
  "scan_int p = Inr q \<Longrightarrow> length q < length p"
  "scan_frac p = Inr q \<Longrightarrow> length q \<le> length p"
  "scan_exp p = Inr q \<Longrightarrow> length q \<le> length p"
proof -
  show "scan_int p = Inr q \<Longrightarrow> length q < length p"
    using peek_Cons [of p "CHR ''0''"] skip_digits_length(2) [of p] by (cases p) (auto simp: scan_int_def split: if_splits)
  have s: "length (skip_digits q) \<le> length p" if "length q \<le> length p" for q using that skip_digits_length(1) [of q] by linarith
  show "scan_frac p = Inr q \<Longrightarrow> length q \<le> length p" by (auto simp: scan_frac_def intro!: s split: if_splits)
  show "scan_exp p = Inr q \<Longrightarrow> length q \<le> length p"
    by (auto simp: scan_exp_def Let_def intro!: s split: if_splits) 
qed

lemma safe_scan: "safe (scan_int p)" "safe (scan_frac p)" "safe (scan_exp p)" "safe (expect_literal lit p)"
  by (simp_all add: scan_int_def scan_frac_def scan_exp_def expect_literal_def Let_def)

lemma expect_literal_length: "expect_literal lit p = Inr q \<Longrightarrow> lit \<noteq> [] \<Longrightarrow> length q < length p"
  by (cases lit; cases p) (auto simp: expect_literal_def at_literal_def split: if_splits)

lemma parse_number_wp: "wp (parse_number D p) (\<lambda>(v, r). length r < length p \<and> jdepth v = 0)"
proof -
  let ?p = "if peek p = CHR ''-'' then tl p else p"
  have l: "length ?p \<le> length p" by simp
  show ?thesis unfolding parse_number_def Let_def using l
    by (auto intro!: wp_bnd safe_scan simp del: bnd_eq_Inr dest!: scan_length expect_literal_length split: option.split)
qed

lemma literal_wp:
  "wp (parse_bool p) (\<lambda>(v :: 'd jvalue, r). length r < length p \<and> jdepth v = 0)"
  "wp (parse_null p) (\<lambda>(v :: 'd jvalue, r). length r < length p \<and> jdepth v = 0)"
  "wp (parse_nan D p) (\<lambda>(v :: 'd jvalue, r). length r < length p \<and> jdepth v = 0)"
proof -
  show "wp (parse_bool p) (\<lambda>(v :: 'd jvalue, r). length r < length p \<and> jdepth v = 0)"
    by (cases p) (auto simp: parse_bool_def at_literal_def)
  show "wp (parse_null p) (\<lambda>(v :: 'd jvalue, r). length r < length p \<and> jdepth v = 0)"
    by (cases p) (auto simp: parse_null_def at_literal_def)
  show "wp (parse_nan D p) (\<lambda>(v :: 'd jvalue, r). length r < length p \<and> jdepth v = 0)"
    unfolding parse_nan_def by (auto intro!: wp_bnd safe_scan simp del: bnd_eq_Inr dest: expect_literal_length)
qed

definition value_post :: "nat \<Rightarrow> string \<Rightarrow> 'd jvalue \<times> string \<Rightarrow> bool" where
  "value_post depth p x \<longleftrightarrow> length (snd x) < length p \<and> depth + jdepth (fst x) \<le> kMaxDepth"

definition array_post :: "nat \<Rightarrow> string \<Rightarrow> 'd jvalue list \<times> string \<Rightarrow> bool" where
  "array_post depth p x \<longleftrightarrow> length (snd x) < length p \<and> (\<forall>v\<in>set (fst x). depth + jdepth v \<le> kMaxDepth)"

definition object_post :: "nat \<Rightarrow> string \<Rightarrow> (string \<times> 'd jvalue) list \<times> string \<Rightarrow> bool" where
  "object_post depth p x \<longleftrightarrow> length (snd x) < length p \<and> (\<forall>m\<in>set (fst x). depth + jdepth (snd m) \<le> kMaxDepth)"

lemma wp_mono: "wp r Q \<Longrightarrow> (\<And>x. Q x \<Longrightarrow> Q' x) \<Longrightarrow> wp r Q'"
  by (simp add: wp_def)

lemma wp_bndI: "wp m P \<Longrightarrow> (\<And>x. m = Inr x \<Longrightarrow> P x \<Longrightarrow> wp (f x) Q) \<Longrightarrow> wp (bnd m f) Q"
  by (auto simp: wp_def intro: safe_bnd)

lemma tl_skip_ws_length: "length (tl (skip_ws q)) \<le> length q"
  using skip_ws_length [of q] by simp

lemma peek_tl: "peek (skip_ws q) = c \<Longrightarrow> c \<noteq> CHR 0x00 \<Longrightarrow> length (tl (skip_ws q)) < length q"
  using skip_ws_length [of q] by (cases "skip_ws q") (auto simp: peek_def)

lemma foldr_max_add: "Suc (n + foldr max xs 0) \<le> k \<longleftrightarrow> Suc n \<le> k \<and> (\<forall>x\<in>set xs. Suc (n + x) \<le> k)"
  by (induction xs) (auto simp: max_def)

lemma object_wp:
  assumes d: "depth \<le> kMaxDepth" and p: "p \<noteq> []"
    and loop: "\<And>q. length q < length p \<Longrightarrow> Suc depth \<le> kMaxDepth \<Longrightarrow> wp (object_loop D (Suc depth) q) (object_post (Suc depth) q)"
  shows "wp (parse_object D depth p) (value_post depth p)"
proof -
  let ?q = "skip_ws (tl p)"
  have l: "length ?q < length p" using skip_ws_tl [OF p] .
  have "wp (bnd (object_loop D (Suc depth) ?q) (\<lambda>(ms, r). Inr (JObject ms, r))) (value_post depth p)" if "Suc depth \<le> kMaxDepth"
    by (rule wp_bndI [OF loop [OF l that]]) (use l that in \<open>auto simp: object_post_def value_post_def foldr_max_add\<close>)
  moreover have "length (tl ?q) < length p" using l by simp
  ultimately show ?thesis using p d by (auto simp: parse_object.simps Let_def value_post_def not_less)
qed


lemma array_wp:
  assumes d: "depth \<le> kMaxDepth" and p: "p \<noteq> []"
    and loop: "\<And>q. length q < length p \<Longrightarrow> Suc depth \<le> kMaxDepth \<Longrightarrow> wp (array_loop D (Suc depth) q) (array_post (Suc depth) q)"
  shows "wp (parse_array D depth p) (value_post depth p)"
proof -
  let ?q = "skip_ws (tl p)"
  have l: "length ?q < length p" using skip_ws_tl [OF p] .
  have "wp (bnd (array_loop D (Suc depth) ?q) (\<lambda>(ms, r). Inr (JArray ms, r))) (value_post depth p)" if "Suc depth \<le> kMaxDepth"
    by (rule wp_bndI [OF loop [OF l that]]) (use l that in \<open>auto simp: array_post_def value_post_def foldr_max_add\<close>)
  moreover have "length (tl ?q) < length p" using l by simp
  ultimately show ?thesis using p d by (auto simp: parse_array.simps Let_def value_post_def not_less)
qed

lemma value_wp:
  fixes D :: "'d dbl"
  assumes d: "depth \<le> kMaxDepth"
    and o: "\<And>q. length q \<le> length p \<Longrightarrow> q \<noteq> [] \<Longrightarrow> wp (parse_object D depth q) (value_post depth q)"
    and a: "\<And>q. length q \<le> length p \<Longrightarrow> q \<noteq> [] \<Longrightarrow> wp (parse_array D depth q) (value_post depth q)"
  shows "wp (jparse_value D depth p) (value_post depth p)"
proof -
  let ?q = "skip_ws p"
  have l: "length ?q \<le> length p" by (rule skip_ws_length)
  have up: "wp r (value_post depth p)" if "wp r (value_post depth ?q)" for r :: "('d jvalue \<times> string) res"
    using that l by (auto simp: wp_def value_post_def)
  have z: "wp r (value_post depth ?q)" if "wp r (\<lambda>(v, r). length r < length ?q \<and> jdepth v = 0)" for r :: "('d jvalue \<times> string) res"
    using that d by (auto simp: wp_def value_post_def)
  have s: "wp (bnd (jstring ?q) (\<lambda>(s, r). Inr (JString s, r))) (\<lambda>(v :: 'd jvalue, r). length r < length ?q \<and> jdepth v = 0)"
    by (intro wp_bnd safe_jstring) (auto dest: jstring_length)
  have rest: "wp (if hd ?q = CHR 0x22 then bnd (jstring ?q) (\<lambda>(s, r). Inr (JString s, r))
     else if hd ?q = CHR ''t'' \<or> hd ?q = CHR ''f'' then parse_bool ?q
     else if hd ?q = CHR ''n'' then parse_null ?q
     else if hd ?q = CHR ''I'' then parse_number D ?q
     else if hd ?q = CHR ''N'' then parse_nan D ?q
     else if hd ?q = CHR ''-'' \<or> is_digit (hd ?q) then parse_number D ?q
     else jfail ''unexpected character'') (value_post depth ?q)"
    by (rule z) (intro wp_if s literal_wp parse_number_wp wp_jfail)
  show ?thesis
  proof (cases "?q = []")
    case False
    show ?thesis unfolding jparse_value.simps [of D depth p] Let_def
      by (rule up, subst if_not_P [OF False], intro wp_if rest o a l False)
  qed (simp add: jparse_value.simps)
qed

lemma object_loop_wp:
  assumes v: "\<And>q. length q < length p \<Longrightarrow> wp (jparse_value D depth q) (value_post depth q)"
    and loop: "\<And>q. length q < length p \<Longrightarrow> wp (object_loop D depth q) (object_post depth q)"
  shows "wp (object_loop D depth p) (object_post depth p)"
  unfolding object_loop.simps [of D depth p] Let_def
proof (rule wp_if, simp, rule wp_bnd [OF safe_jstring], goal_cases)
  case (1 x)
  obtain key q1 where x: "x = (key, q1)" by force
  have l: "length (tl (skip_ws q1)) < length p" using object_step 1(2) x by simp
  show ?case unfolding x prod.case
  proof (rule wp_if, simp, rule wp_bndI [OF v [OF l]], goal_cases)
    case (1 y)
    obtain val q3 where y: "y = (val, q3)" by force
    have q3: "length q3 < length p" "depth + jdepth val \<le> kMaxDepth" using 1(3) y l by (auto simp: value_post_def)
    have t: "length (tl (skip_ws q3)) < length p" using tl_skip_ws_length [of q3] q3 by linarith
    have "wp (bnd (object_loop D depth (tl (skip_ws q3))) (\<lambda>(ms, r). Inr ((key, val) # ms, r))) (object_post depth p)"
      by (rule wp_bndI [OF loop [OF t]]) (use t q3 in \<open>auto simp: object_post_def\<close>)
    then show ?case using t q3 by (auto simp: y object_post_def)
  qed
qed

lemma array_loop_wp:
  assumes v: "wp (jparse_value D depth p) (value_post depth p)"
    and loop: "\<And>q. length q < length p \<Longrightarrow> wp (array_loop D depth q) (array_post depth q)"
  shows "wp (array_loop D depth p) (array_post depth p)"
  unfolding array_loop.simps [of D depth p]
proof (rule wp_bndI [OF v], goal_cases)
  case (1 y)
  obtain val q3 where y: "y = (val, q3)" by force
  have q3: "length q3 < length p" "depth + jdepth val \<le> kMaxDepth" using 1(2) y by (auto simp: value_post_def)
  have t: "length (tl (skip_ws q3)) < length p" using tl_skip_ws_length [of q3] q3 by linarith
  have "wp (bnd (array_loop D depth (tl (skip_ws q3))) (\<lambda>(vs, r). Inr (val # vs, r))) (array_post depth p)"
    by (rule wp_bndI [OF loop [OF t]]) (use t q3 in \<open>auto simp: array_post_def\<close>)
  then show ?case using t q3 by (auto simp: y array_post_def Let_def)
qed

lemma json_wp:
  "\<forall>depth \<le> kMaxDepth. wp (jparse_value D depth p) (value_post depth p) \<and> wp (object_loop D depth p) (object_post depth p)
     \<and> wp (array_loop D depth p) (array_post depth p)"
proof (induction p rule: length_induct)
  case (1 p)
  show ?case
  proof (intro allI impI)
    fix depth
    assume d: "depth \<le> kMaxDepth"
    have ol: "wp (object_loop D d q) (object_post d q)" if "length q < length p" "d \<le> kMaxDepth" for d q using 1 that by blast
    have al: "wp (array_loop D d q) (array_post d q)" if "length q < length p" "d \<le> kMaxDepth" for d q using 1 that by blast
    have pv: "wp (jparse_value D d q) (value_post d q)" if "length q < length p" "d \<le> kMaxDepth" for d q using 1 that by blast
    have v: "wp (jparse_value D depth p) (value_post depth p)"
    proof (rule value_wp [OF d])
      fix q :: string
      assume q: "length q \<le> length p" "q \<noteq> []"
      show "wp (parse_object D depth q) (value_post depth q)" by (rule object_wp [OF d q(2)]) (use q ol in auto)
      show "wp (parse_array D depth q) (value_post depth q)" by (rule array_wp [OF d q(2)]) (use q al in auto)
    qed
    moreover have "wp (object_loop D depth p) (object_post depth p)" by (rule object_loop_wp) (use pv ol d in auto)
    moreover have "wp (array_loop D depth p) (array_post depth p)" by (rule array_loop_wp [OF v]) (use al d in auto)
    ultimately show "wp (jparse_value D depth p) (value_post depth p) \<and> wp (object_loop D depth p) (object_post depth p)
       \<and> wp (array_loop D depth p) (array_post depth p)" by blast
  qed
qed

text \<open>The parser returns or throws; it never reads past the end of the text, and every loop consumes input.\<close>

lemma json_parse_safe:
  "safe (parse_document D text)"
proof -
  have "wp (jparse_value D 0 (skip_ws text)) (value_post 0 (skip_ws text))" using json_wp by blast
  then have w: "wp (parse_document D text) (\<lambda>v. jdepth v \<le> kMaxDepth)"
    unfolding parse_document_def by (rule wp_bndI) (auto simp: value_post_def)
  then show ?thesis by (simp add: wp_def)
qed

end
