(* ===== verification/JsonGrammar.thy ===== *)
theory JsonGrammar
  imports JsonProps
begin

unbundle bit_operations_syntax

text \<open>
  The JSON parser against a grammar. The grammar says which texts stand for which value; the theorem of this theory says that
  the parser accepts exactly those texts, up to the nesting limit, and returns that value.
\<close>

section \<open>The grammar\<close>

definition digits1 :: "string \<Rightarrow> bool" where
  "digits1 s \<longleftrightarrow> s \<noteq> [] \<and> list_all is_digit s"

definition int_part :: "string \<Rightarrow> bool" where
  "int_part s \<longleftrightarrow> s = ''0'' \<or> digits1 s \<and> hd s \<noteq> CHR ''0''"

definition frac_part :: "string \<Rightarrow> bool" where
  "frac_part s \<longleftrightarrow> s = [] \<or> (\<exists>d. s = CHR ''.'' # d \<and> digits1 d)"

definition exp_part :: "string \<Rightarrow> bool" where
  "exp_part s \<longleftrightarrow> s = [] \<or> (\<exists>e sg d. s = e # sg @ d \<and> (e = CHR ''e'' \<or> e = CHR ''E'') \<and> (sg = [] \<or> sg = ''+'' \<or> sg = ''-'') \<and> digits1 d)"

definition decimal_text :: "string \<Rightarrow> bool" where
  "decimal_text s \<longleftrightarrow> (\<exists>sg i f e. s = sg @ i @ f @ e \<and> (sg = [] \<or> sg = ''-'') \<and> int_part i \<and> frac_part f \<and> exp_part e)"

text \<open>Finite numbers are decimals with the value \<^verbatim>\<open>std::stod\<close> gives them; the three literals of Python's printer are numbers too.\<close>

definition number_text :: "'d dbl \<Rightarrow> 'd \<Rightarrow> string \<Rightarrow> bool" where
  "number_text D d s \<longleftrightarrow> decimal_text s \<and> stod D s = Some d \<or> s = ''Infinity'' \<and> d = d_inf D
     \<or> s = ''-Infinity'' \<and> d = d_ninf D \<or> s = ''NaN'' \<and> d = d_nan D"

text \<open>The inside of a string literal is a list of units: characters, and UTF-16 code units written as \<^verbatim>\<open>\uXXXX\<close>.\<close>

datatype jsunit = Raw char | Code nat

fun hex_val :: "nat \<Rightarrow> string \<Rightarrow> nat option" where
  "hex_val v [] = Some v"
| "hex_val v (c # q) = (case hex_digit c of None \<Rightarrow> None | Some d \<Rightarrow> hex_val (16 * v + d) q)"

inductive units_text :: "jsunit list \<Rightarrow> string \<Rightarrow> bool" where
  ut_Nil: "units_text [] []"
| ut_raw: "c \<noteq> CHR 0x22 \<Longrightarrow> c \<noteq> CHR 0x5C \<Longrightarrow> units_text us t \<Longrightarrow> units_text (Raw c # us) (c # t)"
| ut_esc: "simple_escape e = Some x \<Longrightarrow> units_text us t \<Longrightarrow> units_text (Raw x # us) (CHR 0x5C # e # t)"
| ut_code: "length h = 4 \<Longrightarrow> hex_val 0 h = Some n \<Longrightarrow> units_text us t \<Longrightarrow> units_text (Code n # us) (CHR 0x5C # CHR ''u'' # h @ t)"

text \<open>A high surrogate takes the code unit after it: a low one makes a pair, any other is emitted raw with it.\<close>

definition is_high :: "nat \<Rightarrow> bool" where
  "is_high n \<longleftrightarrow> 0xD800 \<le> n \<and> n \<le> 0xDBFF"

definition is_low :: "nat \<Rightarrow> bool" where
  "is_low n \<longleftrightarrow> 0xDC00 \<le> n \<and> n \<le> 0xDFFF"

fun decode_units :: "jsunit list \<Rightarrow> string" where
  "decode_units [] = []"
| "decode_units (Raw c # us) = c # decode_units us"
| "decode_units (Code a # Code b # us) = (
     if is_high a then (if is_low b then append_utf8 (0x10000 + (a - 0xD800) * 0x400 + (b - 0xDC00)) else append_utf8 a @ append_utf8 b) @ decode_units us
     else append_utf8 a @ decode_units (Code b # us))"
| "decode_units [Code a] = append_utf8 a"
| "decode_units (Code a # Raw c # us) = append_utf8 a @ decode_units (Raw c # us)"

definition string_text :: "string \<Rightarrow> string \<Rightarrow> bool" where
  "string_text s t \<longleftrightarrow> (\<exists>us u. t = CHR 0x22 # u @ [CHR 0x22] \<and> units_text us u \<and> s = decode_units us)"

definition blank :: "string \<Rightarrow> bool" where
  "blank w \<longleftrightarrow> list_all is_ws w"

inductive value_text :: "'d dbl \<Rightarrow> 'd jvalue \<Rightarrow> string \<Rightarrow> bool"
  and elems_text :: "'d dbl \<Rightarrow> 'd jvalue list \<Rightarrow> string \<Rightarrow> bool"
  and members_text :: "'d dbl \<Rightarrow> (string \<times> 'd jvalue) list \<Rightarrow> string \<Rightarrow> bool"
  for D :: "'d dbl" where
  "value_text D JNull ''null''"
| "value_text D (JBool True) ''true''"
| "value_text D (JBool False) ''false''"
| "number_text D d t \<Longrightarrow> value_text D (JNumber d) t"
| "string_text s t \<Longrightarrow> value_text D (JString s) t"
| "blank w \<Longrightarrow> value_text D (JArray []) (CHR ''['' # w @ '']'')"
| "elems_text D vs t \<Longrightarrow> value_text D (JArray vs) (CHR ''['' # t @ '']'')"
| "blank w \<Longrightarrow> value_text D (JObject []) (CHR ''{'' # w @ ''}'')"
| "members_text D ms t \<Longrightarrow> value_text D (JObject ms) (CHR ''{'' # t @ ''}'')"
| "blank w1 \<Longrightarrow> value_text D v t \<Longrightarrow> blank w2 \<Longrightarrow> elems_text D [v] (w1 @ t @ w2)"
| "blank w1 \<Longrightarrow> value_text D v t \<Longrightarrow> blank w2 \<Longrightarrow> elems_text D vs ts \<Longrightarrow> elems_text D (v # vs) (w1 @ t @ w2 @ CHR '','' # ts)"
| "blank w1 \<Longrightarrow> string_text k kt \<Longrightarrow> blank w2 \<Longrightarrow> blank w3 \<Longrightarrow> value_text D v t \<Longrightarrow> blank w4 \<Longrightarrow>
     members_text D [(k, v)] (w1 @ kt @ w2 @ CHR '':'' # w3 @ t @ w4)"
| "blank w1 \<Longrightarrow> string_text k kt \<Longrightarrow> blank w2 \<Longrightarrow> blank w3 \<Longrightarrow> value_text D v t \<Longrightarrow> blank w4 \<Longrightarrow> members_text D ms ts \<Longrightarrow>
     members_text D ((k, v) # ms) (w1 @ kt @ w2 @ CHR '':'' # w3 @ t @ w4 @ CHR '','' # ts)"

definition document_text :: "'d dbl \<Rightarrow> 'd jvalue \<Rightarrow> string \<Rightarrow> bool" where
  "document_text D v s \<longleftrightarrow> (\<exists>w1 t w2. s = w1 @ t @ w2 \<and> blank w1 \<and> blank w2 \<and> value_text D v t)"

section \<open>Strings\<close>

lemma hex_digit_lt: "hex_digit c = Some d \<Longrightarrow> d < 16"
  by (auto simp: hex_digit_def Let_def split: if_splits)

lemma hex_loop_val: "hex_loop (length h) v (h @ q) = Inr (hex_val v h)"
proof (induction h arbitrary: v)
  case (Cons c h)
  have "push_bit 4 v OR d = 16 * v + d" if "hex_digit c = Some d" for d
    using nat_or_add [of d 4 v] hex_digit_lt [OF that] by (simp add: push_bit_eq_mult mult.commute)
  then show ?case using Cons by (auto split: option.split)
qed simp

lemma parse_hex4_eq: "length h = 4 \<Longrightarrow> hex_val 0 h = Some n \<Longrightarrow> parse_hex4 (h @ q) = Inr (n, q)"
  using hex_loop_val [of h 0 q] by (simp add: parse_hex4_def hex4_def)

lemma parse_hex4_sound: "parse_hex4 p = Inr (n, q) \<Longrightarrow> \<exists>h. p = h @ q \<and> length h = 4 \<and> hex_val 0 h = Some n"
  using hex_loop_val [of "take 4 p" 0 "drop 4 p"]
  by (auto simp: parse_hex4_def hex4_def intro!: exI [of _ "take 4 p"] split: option.splits if_splits)

inductive_cases units_NilE: "units_text [] u"
inductive_cases units_RawE: "units_text (Raw c # us) u"
inductive_cases units_CodeE: "units_text (Code n # us) u"

lemma jchars_quote: "jchars (CHR 0x22 # q) = Inr ([], q)"
  by (simp add: jchars.simps)

lemma jchars_raw: "c \<noteq> CHR 0x22 \<Longrightarrow> c \<noteq> CHR 0x5C \<Longrightarrow> jchars (c # q) = bnd (jchars q) (\<lambda>(s, t). Inr (c # s, t))"
  by (simp add: jchars.simps [of "c # q"])

lemma simple_escape_u: "simple_escape (CHR ''u'') = None"
  by (simp add: simple_escape_def)

lemma jchars_esc: "simple_escape e = Some x \<Longrightarrow> jchars (CHR 0x5C # e # q) = bnd (jchars q) (\<lambda>(s, t). Inr (x # s, t))"
  using simple_escape_u by (auto simp: jchars.simps [of "CHR 0x5C # e # q"])

lemma jchars_code: "jchars (CHR 0x5C # CHR ''u'' # q) = bnd (junicode q) (\<lambda>(u, r). bnd (jchars r) (\<lambda>(s, t). Inr (u @ s, t)))"
  by (simp add: jchars.simps [of "CHR 0x5C # CHR ''u'' # q"])

text \<open>A text that does not go on with another \<^verbatim>\<open>\u\<close> escape.\<close>

definition no_u :: "string \<Rightarrow> bool" where
  "no_u q \<longleftrightarrow> \<not> (2 \<le> length q \<and> q ! 0 = CHR 0x5C \<and> q ! 1 = CHR ''u'')"

lemma junicode_single:
  "length h = 4 \<Longrightarrow> hex_val 0 h = Some n \<Longrightarrow> \<not> is_high n \<or> no_u q \<Longrightarrow> junicode (h @ q) = Inr (append_utf8 n, q)"
  by (auto simp: junicode_def parse_hex4_eq is_high_def no_u_def)

lemma pair_cp_eq: "pair_cp a b = 0x10000 + (a - 0xD800) * 0x400 + (b - 0xDC00)"
  by (simp add: pair_cp_def push_bit_eq_mult)

lemma junicode_pair:
  assumes "length h = 4" "hex_val 0 h = Some a" "is_high a" "length k = 4" "hex_val 0 k = Some b"
  shows "junicode (h @ CHR 0x5C # CHR ''u'' # k @ q) =
    Inr (if is_low b then append_utf8 (0x10000 + (a - 0xD800) * 0x400 + (b - 0xDC00)) else append_utf8 a @ append_utf8 b, q)"
  using assms by (simp add: junicode_def parse_hex4_eq is_high_def is_low_def pair_cp_eq)

lemma no_u_units: "units_text us u \<Longrightarrow> (\<forall>n us'. us \<noteq> Code n # us') \<Longrightarrow> no_u (u @ CHR 0x22 # r)"
  by (erule units_text.cases) (auto simp: no_u_def simple_escape_u)

lemma jchars_complete: "units_text us u \<Longrightarrow> jchars (u @ CHR 0x22 # r) = Inr (decode_units us, r)"
proof (induction us arbitrary: u rule: decode_units.induct)
  case 1
  then show ?case by (auto elim!: units_NilE simp: jchars.simps)
next
  case (2 c us)
  from 2(2) show ?case by (rule units_RawE) (simp_all add: jchars_raw jchars_esc 2(1))
next
  case (3 a b us)
  from 3(3) obtain h t where h: "u = CHR 0x5C # CHR ''u'' # h @ t" "length h = 4" "hex_val 0 h = Some a" and t: "units_text (Code b # us) t"
    by (rule units_CodeE) blast
  from t obtain k q where k: "t = CHR 0x5C # CHR ''u'' # k @ q" "length k = 4" "hex_val 0 k = Some b" "units_text us q"
    by (rule units_CodeE) blast
  show ?case
  proof (cases "is_high a")
    case True
    have "jchars (q @ CHR 0x22 # r) = Inr (decode_units us, r)" using True k(4) by (cases "is_low b") (auto intro: 3)
    then show ?thesis using True junicode_pair [OF h(2,3) True k(2,3), of "q @ CHR 0x22 # r"] by (simp add: h(1) k(1) jchars_code)
  next
    case False
    then show ?thesis using 3(2) [OF False t] junicode_single [OF h(2,3), of "t @ CHR 0x22 # r"] by (simp add: h(1) jchars_code)
  qed
next
  case (4 a)
  from 4(1) obtain h t where h: "u = CHR 0x5C # CHR ''u'' # h @ t" "length h = 4" "hex_val 0 h = Some a" and t: "t = []"
    by (rule units_CodeE) (auto elim: units_NilE)
  have "no_u (CHR 0x22 # r)" by (simp add: no_u_def)
  then show ?case using jchars_quote [of r] junicode_single [OF h(2,3), of "CHR 0x22 # r"] by (simp add: h(1) t jchars_code)
next
  case (5 a c us)
  from 5(2) obtain h t where h: "u = CHR 0x5C # CHR ''u'' # h @ t" "length h = 4" "hex_val 0 h = Some a" and t: "units_text (Raw c # us) t"
    by (rule units_CodeE) blast
  show ?case using 5(1) [OF t] junicode_single [OF h(2,3), of "t @ CHR 0x22 # r"] no_u_units [OF t] by (simp add: h(1) jchars_code)
qed

lemma junicode_sound:
  assumes "junicode p = Inr (s, q)"
  shows "(\<exists>h n. p = h @ q \<and> length h = 4 \<and> hex_val 0 h = Some n \<and> (\<not> is_high n \<or> no_u q) \<and> s = append_utf8 n)
    \<or> (\<exists>h k a b. p = h @ CHR 0x5C # CHR ''u'' # k @ q \<and> length h = 4 \<and> hex_val 0 h = Some a \<and> is_high a \<and> length k = 4 \<and> hex_val 0 k = Some b)"
proof -
  from assms obtain a p1 where "parse_hex4 p = Inr (a, p1)" by (auto simp: junicode_def)
  then obtain h where h: "p = h @ p1" "length h = 4" "hex_val 0 h = Some a" using parse_hex4_sound by blast
  show ?thesis
  proof (cases "is_high a \<and> \<not> no_u p1")
    case False
    then show ?thesis using junicode_single [OF h(2,3), of p1] assms h by auto
  next
    case True
    then obtain p2 where p1: "p1 = CHR 0x5C # CHR ''u'' # p2" by (cases p1; cases "tl p1") (auto simp: no_u_def)
    have "junicode p = bnd (parse_hex4 p2) (\<lambda>(lo, r). if is_low lo then Inr (append_utf8 (pair_cp a lo), r) else Inr (append_utf8 a @ append_utf8 lo, r))"
      using True h p1 parse_hex4_eq [OF h(2,3), of p1] by (simp add: junicode_def is_high_def is_low_def cong: if_cong)
    then obtain b where "parse_hex4 p2 = Inr (b, q)" using assms by (cases "parse_hex4 p2") (auto split: if_splits)
    then obtain k where "p2 = k @ q" "length k = 4" "hex_val 0 k = Some b" using parse_hex4_sound by blast
    then show ?thesis using True h p1 by auto
  qed
qed

lemma decode_single: "units_text us u \<Longrightarrow> \<not> is_high n \<or> no_u (u @ CHR 0x22 # r) \<Longrightarrow> decode_units (Code n # us) = append_utf8 n @ decode_units us"
  by (erule units_text.cases) (auto simp: no_u_def)

lemma jchars_sound: "jchars p = Inr (s, r) \<Longrightarrow> \<exists>us u. p = u @ CHR 0x22 # r \<and> units_text us u \<and> s = decode_units us"
proof (induction p arbitrary: s r rule: length_induct)
  case (1 p)
  have ih: "\<exists>us u. q = u @ CHR 0x22 # r \<and> units_text us u \<and> s' = decode_units us" if "jchars q = Inr (s', r)" "length q < length p" for q s'
    using 1 that by blast
  obtain c q where p: "p = c # q" using 1 by (cases p) (auto simp: jchars.simps)
  consider (quote) "c = CHR 0x22" | (raw) "c \<noteq> CHR 0x22" "c \<noteq> CHR 0x5C" | (esc) "c = CHR 0x5C" by blast
  then show ?case
  proof cases
    case quote
    then show ?thesis using 1 p ut_Nil by (intro exI [of _ "[]"]) (simp add: jchars_quote)
  next
    case raw
    then obtain s1 where s1: "jchars q = Inr (s1, r)" "s = c # s1" using "1.prems" p by (auto simp: jchars_raw)
    then obtain us u where "q = u @ CHR 0x22 # r" "units_text us u" "s1 = decode_units us" using ih p by fastforce
    then show ?thesis using raw p s1 ut_raw [OF raw, of us u] by (intro exI [of _ "Raw c # us"] exI [of _ "c # u"]) simp
  next
    case esc
    obtain e q2 where q: "q = e # q2" using "1.prems" p esc by (cases q) (auto simp: jchars.simps [of "[_]"])
    show ?thesis
    proof (cases "e = CHR ''u''")
      case False
      then obtain x s1 where s1: "simple_escape e = Some x" "jchars q2 = Inr (s1, r)" "s = x # s1"
        using "1.prems" p q esc by (auto simp: jchars.simps [of "_ # _ # _"] split: option.splits)
      then obtain us u where "q2 = u @ CHR 0x22 # r" "units_text us u" "s1 = decode_units us" using ih p q by fastforce
      then show ?thesis using esc p q s1 ut_esc [OF s1(1), of us u] by (intro exI [of _ "Raw x # us"] exI [of _ "CHR 0x5C # e # u"]) simp
    next
      case True
      then obtain b r1 s1 where b: "junicode q2 = Inr (b, r1)" and s1: "jchars r1 = Inr (s1, r)" "s = b @ s1"
        using "1.prems" p q esc by (auto simp: jchars_code)
      then obtain us u where u: "r1 = u @ CHR 0x22 # r" "units_text us u" "s1 = decode_units us"
        using ih [OF s1(1)] junicode_length [OF b] p q by fastforce
      from junicode_sound [OF b] consider
          (one) h n where "q2 = h @ r1" "length h = 4" "hex_val 0 h = Some n" "\<not> is_high n \<or> no_u r1" "b = append_utf8 n"
        | (pair) h k a c' where "q2 = h @ CHR 0x5C # CHR ''u'' # k @ r1" "length h = 4" "hex_val 0 h = Some a" "is_high a" "length k = 4" "hex_val 0 k = Some c'"
        by blast
      then show ?thesis
      proof cases
        case (one h n)
        show ?thesis using ut_code [OF one(2,3) u(2)] u decode_single [OF u(2) one(4) [unfolded u(1)]] one(1,5) True esc p q s1
          by (intro exI [of _ "Code n # us"] exI [of _ "CHR 0x5C # CHR ''u'' # h @ u"]) simp
      next
        case (pair h k a d)
        show ?thesis using ut_code [OF pair(2,3) ut_code [OF pair(5,6) u(2)]] u junicode_pair [OF pair(2-6), of r1] pair(1,4) b True esc p q s1
          by (intro exI [of _ "Code a # Code d # us"] exI [of _ "CHR 0x5C # CHR ''u'' # h @ CHR 0x5C # CHR ''u'' # k @ u"]) (simp split: if_splits)
      qed
    qed
  qed
qed

lemma jstring_complete: "string_text s t \<Longrightarrow> jstring (t @ r) = Inr (s, r)"
  by (auto simp: string_text_def jstring_def peek_def jchars_complete)

lemma jstring_sound: "jstring p = Inr (s, r) \<Longrightarrow> \<exists>t. p = t @ r \<and> string_text s t"
proof -
  assume "jstring p = Inr (s, r)"
  then have p: "p = CHR 0x22 # tl p" "jchars (tl p) = Inr (s, r)"
    by (cases p; auto simp: jstring_def peek_def split: if_splits)+
  obtain us u where "tl p = u @ CHR 0x22 # r" "units_text us u" "s = decode_units us" using jchars_sound [OF p(2)] by blast
  then have "p = (CHR 0x22 # u @ [CHR 0x22]) @ r" "string_text s (CHR 0x22 # u @ [CHR 0x22])" using p(1) by (auto simp: string_text_def)
  then show ?thesis by blast
qed

section \<open>Numbers\<close>

definition follow :: "string \<Rightarrow> bool" where
  "follow r \<longleftrightarrow> \<not> is_digit (peek r) \<and> peek r \<noteq> CHR ''.'' \<and> peek r \<noteq> CHR ''e'' \<and> peek r \<noteq> CHR ''E''"

lemma peek_simps [simp]: "peek [] = CHR 0x00" "peek (c # p) = c"
  by (simp_all add: peek_def)

lemma not_digits [simp]: "\<not> is_digit (CHR 0x00)" "\<not> is_digit (CHR ''.'')" "\<not> is_digit (CHR ''e'')" "\<not> is_digit (CHR ''E'')"
    "\<not> is_digit (CHR ''I'')" "\<not> is_digit (CHR ''-'')" "\<not> is_digit (CHR ''+'')" "\<not> is_digit (CHR ''}'')"
  by (simp_all add: is_digit_def)

lemma skip_digits_append: "list_all is_digit d \<Longrightarrow> \<not> is_digit (peek r) \<Longrightarrow> skip_digits (d @ r) = r"
  by (induction d) (auto simp: skip_digits_def peek_def split: list.splits)

lemma skip_digits_split: "\<exists>d. p = d @ skip_digits p \<and> list_all is_digit d \<and> (is_digit (peek p) \<longrightarrow> d \<noteq> [])"
  by (rule exI [of _ "takeWhile is_digit p"], cases p) (auto simp: skip_digits_def list_all_iff dest: set_takeWhileD)

lemma digits1_peek: "digits1 d \<Longrightarrow> is_digit (peek (d @ r))"
  by (cases d) (auto simp: digits1_def)

lemma skip_digits1: "is_digit (peek p) \<Longrightarrow> \<exists>d. p = d @ skip_digits p \<and> digits1 d"
  using skip_digits_split [of p] by (auto simp: digits1_def)

lemma scan_complete:
  "int_part i \<Longrightarrow> \<not> is_digit (peek r) \<Longrightarrow> scan_int (i @ r) = Inr r"
  "frac_part f \<Longrightarrow> \<not> is_digit (peek r) \<Longrightarrow> peek r \<noteq> CHR ''.'' \<Longrightarrow> scan_frac (f @ r) = Inr r"
  "exp_part e \<Longrightarrow> follow r \<Longrightarrow> scan_exp (e @ r) = Inr r"
proof -
  show "scan_int (i @ r) = Inr r" if "int_part i" "\<not> is_digit (peek r)"
    using that digits1_peek [of i r] skip_digits_append [of i r] by (cases i) (auto simp: int_part_def scan_int_def digits1_def)
  show "scan_frac (f @ r) = Inr r" if "frac_part f" "\<not> is_digit (peek r)" "peek r \<noteq> CHR ''.''"
    using that by (auto simp: frac_part_def scan_frac_def digits1_peek skip_digits_append digits1_def)
  show "scan_exp (e @ r) = Inr r" if pe: "exp_part e" "follow r"
  proof (cases "e = []")
    case False
    then obtain c sg d where e: "e = c # sg @ d" "c = CHR ''e'' \<or> c = CHR ''E''" "sg = [] \<or> sg = ''+'' \<or> sg = ''-''" "digits1 d"
      using pe(1) by (auto simp: exp_part_def)
    have "peek (d @ r) \<noteq> CHR ''+''" "peek (d @ r) \<noteq> CHR ''-''" using digits1_peek [OF e(4), of r] by auto
    then show ?thesis using e pe(2) digits1_peek [OF e(4), of r]
      by (auto simp: scan_exp_def Let_def skip_digits_append digits1_def follow_def)
  qed (use pe in \<open>simp add: scan_exp_def follow_def\<close>)
qed

lemma scan_sound:
  "scan_int p = Inr q \<Longrightarrow> \<exists>i. p = i @ q \<and> int_part i"
  "scan_frac p = Inr q \<Longrightarrow> \<exists>f. p = f @ q \<and> frac_part f"
  "scan_exp p = Inr q \<Longrightarrow> \<exists>e. p = e @ q \<and> exp_part e"
proof -
  show "\<exists>i. p = i @ q \<and> int_part i" if s: "scan_int p = Inr q"
  proof (cases "peek p = CHR ''0''")
    case True
    then show ?thesis using s peek_Cons [OF True] by (intro exI [of _ "''0''"]) (simp add: scan_int_def int_part_def)
  next
    case False
    then obtain d where d: "p = d @ q" "digits1 d" using s skip_digits1 [of p] by (auto simp: scan_int_def split: if_splits)
    then have "hd d \<noteq> CHR ''0''" using False by (cases d) (auto simp: digits1_def)
    then show ?thesis using d by (auto simp: int_part_def)
  qed
  show "\<exists>f. p = f @ q \<and> frac_part f" if s: "scan_frac p = Inr q"
  proof (cases "peek p = CHR ''.''")
    case True
    then obtain d where "tl p = d @ q" "digits1 d" using s skip_digits1 [of "tl p"] by (auto simp: scan_frac_def split: if_splits)
    then show ?thesis using peek_Cons [OF True] by (intro exI [of _ "CHR ''.'' # d"]) (simp add: frac_part_def)
  qed (use s in \<open>simp add: scan_frac_def frac_part_def\<close>)
  show "\<exists>e. p = e @ q \<and> exp_part e" if s: "scan_exp p = Inr q"
  proof (cases "peek p = CHR ''e'' \<or> peek p = CHR ''E''")
    case True
    then have p: "p = peek p # tl p" by (cases p) auto
    let ?r = "if peek (tl p) = CHR ''+'' \<or> peek (tl p) = CHR ''-'' then tl (tl p) else tl p"
    obtain d where d: "?r = d @ q" "digits1 d" using True s skip_digits1 [of ?r] by (auto simp: scan_exp_def Let_def split: if_splits)
    let ?sg = "if peek (tl p) = CHR ''+'' \<or> peek (tl p) = CHR ''-'' then [peek (tl p)] else []"
    obtain sg where "tl p = sg @ ?r" "sg = [] \<or> sg = ''+'' \<or> sg = ''-''"
      by (rule that [of ?sg]) (cases "tl p"; auto)+
    then have "p = (peek p # sg @ d) @ q" "exp_part (peek p # sg @ d)" using p d True by (auto simp: exp_part_def)
    then show ?thesis by blast
  qed (use s in \<open>simp add: scan_exp_def exp_part_def\<close>)
qed

lemma expect_literal_sound: "expect_literal lit p = Inr q \<Longrightarrow> p = lit @ q"
  by (auto simp: expect_literal_def at_literal_def split: if_splits) (metis append_take_drop_id)

lemma expect_literal_complete: "expect_literal lit (lit @ q) = Inr q"
  by (simp add: expect_literal_def at_literal_def)

lemma peek_parts:
  "frac_part f \<Longrightarrow> exp_part e \<Longrightarrow> follow r \<Longrightarrow> \<not> is_digit (peek (f @ e @ r))"
  "exp_part e \<Longrightarrow> follow r \<Longrightarrow> \<not> is_digit (peek (e @ r)) \<and> peek (e @ r) \<noteq> CHR ''.''"
  by (auto simp: frac_part_def exp_part_def follow_def)

lemma int_part_peek: "int_part i \<Longrightarrow> is_digit (peek (i @ r))"
  by (auto simp: int_part_def digits1_peek) (simp add: is_digit_def)

lemma decimal_complete:
  assumes "decimal_text t" "follow r" "stod D t = Some d"
  shows "parse_number D (t @ r) = Inr (JNumber d, r) \<and> (peek t = CHR ''-'' \<or> is_digit (peek t)) \<and> t \<noteq> []"
proof -
  from assms(1) obtain sg i f e where t: "t = sg @ i @ f @ e" "sg = [] \<or> sg = ''-''" and p: "int_part i" "frac_part f" "exp_part e"
    by (auto simp: decimal_text_def)
  have k: "is_digit (peek (i @ f @ e @ r))" "is_digit (peek (i @ f @ e))" using int_part_peek [OF p(1)] by simp_all
  then have n: "peek (i @ f @ e @ r) \<noteq> CHR ''-''" "peek (i @ f @ e @ r) \<noteq> CHR ''I''" by (metis not_digits)+
  have "(if peek (t @ r) = CHR ''-'' then tl (t @ r) else t @ r) = i @ f @ e @ r" using t(1,2) n(1) by auto
  then have "parse_number D (t @ r) = Inr (JNumber d, r)"
    using n(2) assms(3) scan_complete(1) [OF p(1) peek_parts(1) [OF p(2,3) assms(2)]]
      scan_complete(2) [OF p(2), of "e @ r"] peek_parts(2) [OF p(3) assms(2)] scan_complete(3) [OF p(3) assms(2)]
    unfolding parse_number_def Let_def by simp
  then show ?thesis using t k by auto
qed

lemma number_sound:
  assumes "parse_number D p = Inr (v, r)"
  shows "\<exists>t d. p = t @ r \<and> v = JNumber d \<and> number_text D d t"
proof -
  let ?q = "if peek p = CHR ''-'' then tl p else p"
  obtain sg where sg: "p = sg @ ?q" "sg = (if peek p = CHR ''-'' then ''-'' else [])" by (cases p) auto
  show ?thesis
  proof (cases "peek ?q = CHR ''I''")
    case True
    then have "?q = ''Infinity'' @ r" "v = JNumber (if peek p = CHR ''-'' then d_ninf D else d_inf D)"
      using assms expect_literal_sound [of "''Infinity''" ?q] by (auto simp: parse_number_def Let_def)
    then show ?thesis using sg by (intro exI [of _ "sg @ ''Infinity''"]) (auto simp: number_text_def)
  next
    case False
    then obtain p1 p2 d where "scan_int ?q = Inr p1" "scan_frac p1 = Inr p2" and e: "scan_exp p2 = Inr r"
      and v: "stod D (take (length p - length r) p) = Some d" "v = JNumber d"
      using assms by (auto simp: parse_number_def Let_def split: option.splits)
    then obtain i f where i: "?q = i @ p1" "int_part i" "p1 = f @ p2" "frac_part f" using scan_sound(1,2) by blast
    obtain g where g: "p2 = g @ r" "exp_part g" using scan_sound(3) [OF e] by blast
    have "decimal_text (sg @ i @ f @ g)" unfolding decimal_text_def using sg(2) i g by (intro exI conjI) auto
    moreover have "p = (sg @ i @ f @ g) @ r" using sg(1) i(1,3) g(1) by simp
    ultimately show ?thesis using v unfolding number_text_def by (intro exI [of _ "sg @ i @ f @ g"] exI [of _ d]) auto
  qed
qed

section \<open>Values\<close>

lemma blank_skip: "blank w \<Longrightarrow> skip_ws (w @ q) = skip_ws q"
  by (induction w) (auto simp: blank_def skip_ws_def)

lemma skip_ws_split: "\<exists>w. p = w @ skip_ws p \<and> blank w"
  by (rule exI [of _ "takeWhile is_ws p"]) (auto simp: skip_ws_def blank_def list_all_iff dest: set_takeWhileD)

lemma blank_Nil: "blank []"
  by (simp add: blank_def)

lemma punct_not_ws [simp]: "\<not> is_ws (CHR '','')" "\<not> is_ws (CHR '':'')" "\<not> is_ws (CHR ''-'')" "\<not> is_ws (CHR ''n'')" "\<not> is_ws (CHR ''t'')"
    "\<not> is_ws (CHR ''f'')" "\<not> is_ws (CHR ''I'')" "\<not> is_ws (CHR ''N'')"
  by (simp_all add: is_ws_def)

lemma follow_blank: "blank w \<Longrightarrow> follow (c # r) \<Longrightarrow> follow (w @ c # r)"
  by (cases w) (auto simp: follow_def blank_def is_ws_def is_digit_def)

lemma follow_punct: "follow (CHR '','' # r)" "follow (CHR '']'' # r)" "follow (CHR ''}'' # r)" "blank w \<Longrightarrow> follow w"
  by (auto simp: follow_def) (cases w; auto simp: blank_def is_ws_def is_digit_def)+

lemma jparse_value_ws: "blank w \<Longrightarrow> jparse_value D depth (w @ p) = jparse_value D depth p"
  by (simp add: jparse_value.simps blank_skip)

lemma digit_dispatch:
  "is_digit c \<Longrightarrow> c \<noteq> CHR ''{'' \<and> c \<noteq> CHR ''['' \<and> c \<noteq> CHR 0x22 \<and> c \<noteq> CHR ''t'' \<and> c \<noteq> CHR ''f'' \<and> c \<noteq> CHR ''n'' \<and> c \<noteq> CHR ''I'' \<and> c \<noteq> CHR ''N''"
  by (auto simp: is_digit_def)

lemma number_complete:
  assumes "number_text D d t" "follow r"
  shows "jparse_value D depth (t @ r) = Inr (JNumber d, r) \<and> t \<noteq> [] \<and> \<not> is_ws (hd t)"
proof -
  consider (dec) "decimal_text t" "stod D t = Some d" | (inf) "t = ''Infinity''" "d = d_inf D"
    | (ninf) "t = ''-Infinity''" "d = d_ninf D" | (nan) "t = ''NaN''" "d = d_nan D"
    using assms(1) unfolding number_text_def by blast
  then show ?thesis
  proof cases
    case dec
    then obtain c q where t: "t = c # q" "c = CHR ''-'' \<or> is_digit c" and n: "parse_number D (t @ r) = Inr (JNumber d, r)"
      using decimal_complete [OF dec(1) assms(2) dec(2)] by (cases t) auto
    have "\<not> is_ws c" using t(2) digit_not by auto
    then show ?thesis using t n digit_dispatch [of c] by (auto simp: jparse_value.simps)
  next
    case inf
    then show ?thesis using expect_literal_complete [of "''Infinity''" r] by (simp add: jparse_value.simps parse_number_def)
  next
    case ninf
    then show ?thesis using expect_literal_complete [of "''Infinity''" r] by (simp add: jparse_value.simps parse_number_def)
  next
    case nan
    then show ?thesis using expect_literal_complete [of "''NaN''" r] by (simp add: jparse_value.simps parse_nan_def)
  qed
qed

lemma string_first: "string_text s t \<Longrightarrow> \<exists>q. t = CHR 0x22 # q"
  by (auto simp: string_text_def)

lemma value_first: "value_text D v t \<Longrightarrow> \<exists>c q. t = c # q \<and> \<not> is_ws c"
proof (erule value_text.cases, goal_cases)
  case (4 d t)
  then show ?case using number_complete [of D d t "[]" 0] by (cases t) (auto simp: follow_def)
next
  case (5 s t)
  then show ?case using string_first by fastforce
qed auto

text \<open>The progress checks of the two loops never fire.\<close>

lemma array_loop_step:
  assumes "depth \<le> kMaxDepth"
  shows "array_loop D depth p = bnd (jparse_value D depth p) (\<lambda>(v, q3). let q4 = skip_ws q3 in
       if peek q4 = CHR '','' then bnd (array_loop D depth (tl q4)) (\<lambda>(vs, r). Inr (v # vs, r))
       else if peek q4 = CHR '']'' then Inr ([v], tl q4)
       else jfail ''expected ',' or ']' in array'')"
proof -
  have "length (tl (skip_ws q)) < length p" if "jparse_value D depth p = Inr (v, q)" for v q
    using json_wp [of D p] assms that tl_skip_ws_length [of q] by (fastforce simp: wp_def value_post_def)
  then show ?thesis by (subst array_loop.simps, cases "jparse_value D depth p") (auto simp: Let_def)
qed

lemma object_loop_step:
  assumes "depth \<le> kMaxDepth"
  shows "object_loop D depth p = (let q = skip_ws p in
     if peek q \<noteq> CHR 0x22 then jfail ''expected object key string''
     else bnd (jstring q) (\<lambda>(key, q1). let q2 = skip_ws q1 in
       if peek q2 \<noteq> CHR '':'' then jfail ''expected ':' after object key''
       else bnd (jparse_value D depth (tl q2)) (\<lambda>(val, q3). let q4 = skip_ws q3 in
         if peek q4 = CHR '','' then bnd (object_loop D depth (tl q4)) (\<lambda>(ms, r). Inr ((key, val) # ms, r))
         else if peek q4 = CHR ''}'' then Inr ([(key, val)], tl q4)
         else jfail ''expected ',' or '}' in object'')))"
proof -
  have l: "length (tl (skip_ws q)) < length p'" if "jparse_value D depth p' = Inr (v, q)" for v q p'
    using json_wp [of D p'] assms that tl_skip_ws_length [of q] by (fastforce simp: wp_def value_post_def)
  have "length (tl (skip_ws q3)) < length p" if "jstring (skip_ws p) = Inr (key, q1)" "jparse_value D depth (tl (skip_ws q1)) = Inr (v, q3)" for key q1 v q3
    using object_step [OF that(1)] l [OF that(2)] by linarith
  then show ?thesis unfolding object_loop.simps [of D depth p] Let_def
    by (intro if_cong refl bnd_cong) (auto split: prod.split intro!: if_cong bnd_cong, blast)
qed

lemma array_loop_ws: "depth \<le> kMaxDepth \<Longrightarrow> array_loop D depth (skip_ws p) = array_loop D depth p"
  by (simp add: array_loop_step [of depth D] jparse_value.simps [of D depth])

lemma object_loop_ws: "depth \<le> kMaxDepth \<Longrightarrow> object_loop D depth (skip_ws p) = object_loop D depth p"
  by (simp add: object_loop_step [of depth D])

lemma container_complete:
  assumes "Suc depth \<le> kMaxDepth"
  shows "blank w \<Longrightarrow> jparse_value D depth ((CHR ''['' # w @ '']'') @ r) = Inr (JArray [], r)"
    "blank w \<Longrightarrow> jparse_value D depth ((CHR ''{'' # w @ ''}'') @ r) = Inr (JObject [], r)"
    "array_loop D (Suc depth) (t @ CHR '']'' # r) = Inr (vs, r) \<Longrightarrow> peek (skip_ws (t @ CHR '']'' # r)) \<noteq> CHR '']'' \<Longrightarrow>
       jparse_value D depth ((CHR ''['' # t @ '']'') @ r) = Inr (JArray vs, r)"
    "object_loop D (Suc depth) (t @ CHR ''}'' # r) = Inr (ms, r) \<Longrightarrow> peek (skip_ws (t @ CHR ''}'' # r)) \<noteq> CHR ''}'' \<Longrightarrow>
       jparse_value D depth ((CHR ''{'' # t @ ''}'') @ r) = Inr (JObject ms, r)"
  using assms by (simp_all add: jparse_value.simps parse_array.simps parse_object.simps Let_def blank_skip array_loop_ws object_loop_ws)

lemma elems_complete:
  assumes d: "depth \<le> kMaxDepth" and w: "blank w1" "blank w2" and v: "\<And>r. follow r \<Longrightarrow> jparse_value D depth (t @ r) = Inr (v, r)"
  shows "array_loop D depth ((w1 @ t @ w2) @ CHR '']'' # r) = Inr ([v], r)"
    "array_loop D depth (ts @ CHR '']'' # r) = Inr (vs, r) \<Longrightarrow> array_loop D depth ((w1 @ t @ w2 @ CHR '','' # ts) @ CHR '']'' # r) = Inr (v # vs, r)"
  using w by (simp_all add: array_loop_step [OF d, of D "w1 @ _"] jparse_value_ws v follow_blank follow_punct blank_skip)

lemma members_complete:
  assumes d: "depth \<le> kMaxDepth" and w: "blank w1" "blank w2" "blank w3" "blank w4" and k: "string_text k kt"
    and v: "\<And>r. follow r \<Longrightarrow> jparse_value D depth (t @ r) = Inr (v, r)"
  shows "object_loop D depth ((w1 @ kt @ w2 @ CHR '':'' # w3 @ t @ w4) @ CHR ''}'' # r) = Inr ([(k, v)], r)"
    "object_loop D depth (ts @ CHR ''}'' # r) = Inr (ms, r) \<Longrightarrow>
     object_loop D depth ((w1 @ kt @ w2 @ CHR '':'' # w3 @ t @ w4 @ CHR '','' # ts) @ CHR ''}'' # r) = Inr ((k, v) # ms, r)"
proof -
  obtain q where kt: "kt = CHR 0x22 # q" using string_first [OF k] by blast
  have j: "jstring (CHR 0x22 # q @ r) = Inr (k, r)" for r using jstring_complete [OF k, of r] kt by simp
  show "object_loop D depth ((w1 @ kt @ w2 @ CHR '':'' # w3 @ t @ w4) @ CHR ''}'' # r) = Inr ([(k, v)], r)"
    using w by (simp add: object_loop_step [OF d, of D "w1 @ _"] jparse_value_ws v follow_blank follow_punct blank_skip kt j)
  show "object_loop D depth ((w1 @ kt @ w2 @ CHR '':'' # w3 @ t @ w4 @ CHR '','' # ts) @ CHR ''}'' # r) = Inr ((k, v) # ms, r)"
    if "object_loop D depth (ts @ CHR ''}'' # r) = Inr (ms, r)"
    using w that by (simp add: object_loop_step [OF d, of D "w1 @ _"] jparse_value_ws v follow_blank follow_punct blank_skip kt j)
qed

lemma value_not_bracket: "value_text D v t \<Longrightarrow> hd t \<noteq> CHR '']''"
proof (erule value_text.cases, goal_cases)
  case (4 d t)
  then show ?case using number_complete [of D d t "[]" 0] by (cases t) (auto simp: follow_def jparse_value.simps)
next
  case (5 s t)
  then show ?case using string_first by fastforce
qed auto

lemma text_first:
  "elems_text D vs t \<Longrightarrow> peek (skip_ws (t @ r)) \<noteq> CHR '']''" "members_text D ms t \<Longrightarrow> peek (skip_ws (t @ r)) \<noteq> CHR ''}''"
proof -
  have e: "peek (skip_ws (w @ t @ r)) \<noteq> CHR '']''" if "blank w" "value_text D v t" for w v t r
    using that value_first [OF that(2)] value_not_bracket [OF that(2)] by (auto simp: blank_skip)
  show "elems_text D vs t \<Longrightarrow> peek (skip_ws (t @ r)) \<noteq> CHR '']''" by (erule elems_text.cases) (auto simp: e)
  show "members_text D ms t \<Longrightarrow> peek (skip_ws (t @ r)) \<noteq> CHR ''}''"
    by (erule members_text.cases) (auto simp: blank_skip dest!: string_first)
qed

lemma grammar_complete:
  "value_text D v t \<Longrightarrow> (\<And>depth r. depth + jdepth v \<le> kMaxDepth \<Longrightarrow> follow r \<Longrightarrow> jparse_value D depth (t @ r) = Inr (v, r))"
  "elems_text D vs t \<Longrightarrow> (\<And>depth r. depth \<le> kMaxDepth \<Longrightarrow> (\<forall>v\<in>set vs. depth + jdepth v \<le> kMaxDepth) \<Longrightarrow> array_loop D depth (t @ CHR '']'' # r) = Inr (vs, r))"
  "members_text D ms t \<Longrightarrow> (\<And>depth r. depth \<le> kMaxDepth \<Longrightarrow> (\<forall>m\<in>set ms. depth + jdepth (snd m) \<le> kMaxDepth) \<Longrightarrow> object_loop D depth (t @ CHR ''}'' # r) = Inr (ms, r))"
proof (induction rule: value_text_elems_text_members_text.inducts)
  case 1
  show ?case by (simp add: jparse_value.simps parse_null_def at_literal_def)
next
  case 2
  show ?case by (simp add: jparse_value.simps parse_bool_def at_literal_def)
next
  case 3
  show ?case by (simp add: jparse_value.simps parse_bool_def at_literal_def)
next
  case (4 d t)
  from number_complete [OF 4(1,3)] show ?case by blast
next
  case (5 s t)
  then show ?case using jstring_complete [of s t r] string_first [of s t] by (auto simp: jparse_value.simps)
next
  case (6 w)
  then show ?case by (intro container_complete) auto
next
  case (7 vs t)
  then show ?case by (intro container_complete text_first(1) [of D vs]) (auto simp: foldr_max_add)
next
  case (8 w)
  then show ?case by (intro container_complete) auto
next
  case (9 ms t)
  then show ?case by (intro container_complete text_first(2) [of D ms]) (auto simp: foldr_max_add)
next
  case (10 w1 v t w2)
  then show ?case by (intro elems_complete) auto
next
  case (11 w1 v t w2 vs ts)
  then show ?case by (intro elems_complete) auto
next
  case (12 w1 k kt w2 w3 v t w4)
  then show ?case by (intro members_complete) auto
next
  case (13 w1 k kt w2 w3 v t w4 ms ts)
  then show ?case by (intro members_complete) auto
qed

lemma punct_sound: "peek (skip_ws q) = c \<Longrightarrow> c \<noteq> CHR 0x00 \<Longrightarrow> \<exists>w. q = w @ c # tl (skip_ws q) \<and> blank w"
  using skip_ws_split [of q] peek_Cons [of "skip_ws q" c] by auto

text \<open>What a parser of values, of the elements of an array and of the members of an object gives back on a text.\<close>

definition value_sound :: "'d dbl \<Rightarrow> nat \<Rightarrow> string \<Rightarrow> bool" where
  "value_sound D depth p \<longleftrightarrow> (\<forall>v r. jparse_value D depth p = Inr (v, r) \<longrightarrow> (\<exists>w t. p = w @ t @ r \<and> blank w \<and> value_text D v t))"

definition elems_sound :: "'d dbl \<Rightarrow> nat \<Rightarrow> string \<Rightarrow> bool" where
  "elems_sound D depth p \<longleftrightarrow> (\<forall>vs r. array_loop D depth p = Inr (vs, r) \<longrightarrow> (\<exists>t. p = t @ CHR '']'' # r \<and> elems_text D vs t))"

definition members_sound :: "'d dbl \<Rightarrow> nat \<Rightarrow> string \<Rightarrow> bool" where
  "members_sound D depth p \<longleftrightarrow> (\<forall>ms r. object_loop D depth p = Inr (ms, r) \<longrightarrow> (\<exists>t. p = t @ CHR ''}'' # r \<and> members_text D ms t))"

lemma array_sound:
  assumes p: "parse_array D depth (CHR ''['' # q) = Inr (v, r)" and l: "Suc depth \<le> kMaxDepth \<Longrightarrow> elems_sound D (Suc depth) q"
  shows "\<exists>t. CHR ''['' # q = t @ r \<and> value_text D v t"
proof (cases "peek (skip_ws q) = CHR '']''")
  case True
  then obtain w where "q = w @ CHR '']'' # tl (skip_ws q)" "blank w" using punct_sound [OF True] by auto
  moreover have "v = JArray []" "r = tl (skip_ws q)" using p True by (auto simp: parse_array.simps split: if_splits)
  ultimately have "CHR ''['' # q = (CHR ''['' # w @ '']'') @ r" "value_text D v (CHR ''['' # w @ '']'')"
    by (auto intro: value_text_elems_text_members_text.intros)
  then show ?thesis by blast
next
  case False
  then obtain vs where d: "Suc depth \<le> kMaxDepth" and vs: "array_loop D (Suc depth) q = Inr (vs, r)" "v = JArray vs"
    using p by (auto simp: parse_array.simps Let_def array_loop_ws split: if_splits)
  then obtain t where "q = t @ CHR '']'' # r" "elems_text D vs t" using l by (auto simp: elems_sound_def)
  then have "CHR ''['' # q = (CHR ''['' # t @ '']'') @ r" "value_text D v (CHR ''['' # t @ '']'')"
    using vs by (auto intro: value_text_elems_text_members_text.intros)
  then show ?thesis by blast
qed

lemma obj_sound:
  assumes p: "parse_object D depth (CHR ''{'' # q) = Inr (v, r)" and l: "Suc depth \<le> kMaxDepth \<Longrightarrow> members_sound D (Suc depth) q"
  shows "\<exists>t. CHR ''{'' # q = t @ r \<and> value_text D v t"
proof (cases "peek (skip_ws q) = CHR ''}''")
  case True
  then obtain w where "q = w @ CHR ''}'' # tl (skip_ws q)" "blank w" using punct_sound [OF True] by auto
  moreover have "v = JObject []" "r = tl (skip_ws q)" using p True by (auto simp: parse_object.simps split: if_splits)
  ultimately have "CHR ''{'' # q = (CHR ''{'' # w @ ''}'') @ r" "value_text D v (CHR ''{'' # w @ ''}'')"
    by (auto intro: value_text_elems_text_members_text.intros)
  then show ?thesis by blast
next
  case False
  then obtain ms where d: "Suc depth \<le> kMaxDepth" and ms: "object_loop D (Suc depth) q = Inr (ms, r)" "v = JObject ms"
    using p by (auto simp: parse_object.simps Let_def object_loop_ws split: if_splits)
  then obtain t where "q = t @ CHR ''}'' # r" "members_text D ms t" using l by (auto simp: members_sound_def)
  then have "CHR ''{'' # q = (CHR ''{'' # t @ ''}'') @ r" "value_text D v (CHR ''{'' # t @ ''}'')"
    using ms by (auto intro: value_text_elems_text_members_text.intros)
  then show ?thesis by blast
qed

lemma literal_sound:
  "at_literal lit p \<Longrightarrow> p = lit @ drop (length lit) p"
  by (metis append_take_drop_id at_literal_def)

lemma scalar_sound:
  "parse_bool p = Inr (v, r) \<Longrightarrow> \<exists>t. p = t @ r \<and> value_text D v t"
  "parse_null p = Inr (v, r) \<Longrightarrow> \<exists>t. p = t @ r \<and> value_text D v t"
  "parse_nan D p = Inr (v, r) \<Longrightarrow> \<exists>t. p = t @ r \<and> value_text D v t"
  "parse_number D p = Inr (v, r) \<Longrightarrow> \<exists>t. p = t @ r \<and> value_text D v t"
  "bnd (jstring p) (\<lambda>(s, r). Inr (JString s, r)) = Inr (v, r) \<Longrightarrow> \<exists>t. p = t @ r \<and> value_text D v t"
proof -
  note intros = value_text_elems_text_members_text.intros
  show "parse_bool p = Inr (v, r) \<Longrightarrow> \<exists>t. p = t @ r \<and> value_text D v t"
    using literal_sound [of "''true''" p] literal_sound [of "''false''" p] intros(2,3) [of D]
    by (auto simp: parse_bool_def eval_nat_numeral split: if_splits)
  show "parse_null p = Inr (v, r) \<Longrightarrow> \<exists>t. p = t @ r \<and> value_text D v t"
    using literal_sound [of "''null''" p] intros(1) [of D] by (auto simp: parse_null_def eval_nat_numeral split: if_splits)
  show "parse_nan D p = Inr (v, r) \<Longrightarrow> \<exists>t. p = t @ r \<and> value_text D v t"
    using expect_literal_sound [of "''NaN''" p r] intros(4) [of D "d_nan D" "''NaN''"] by (auto simp: parse_nan_def number_text_def)
  show "parse_number D p = Inr (v, r) \<Longrightarrow> \<exists>t. p = t @ r \<and> value_text D v t"
    using number_sound [of D p v r] intros(4) [of D] by blast
  show "bnd (jstring p) (\<lambda>(s, r). Inr (JString s, r)) = Inr (v, r) \<Longrightarrow> \<exists>t. p = t @ r \<and> value_text D v t"
    using jstring_sound [of p] intros(5) [of _ _ D] by fastforce
qed

lemma value_sound_step:
  assumes o: "\<And>q. length q < length p \<Longrightarrow> Suc depth \<le> kMaxDepth \<Longrightarrow> members_sound D (Suc depth) q"
    and a: "\<And>q. length q < length p \<Longrightarrow> Suc depth \<le> kMaxDepth \<Longrightarrow> elems_sound D (Suc depth) q"
  shows "value_sound D depth p"
  unfolding value_sound_def
proof (intro allI impI)
  fix v r
  assume p: "jparse_value D depth p = Inr (v, r)"
  obtain w where w: "p = w @ skip_ws p" "blank w" using skip_ws_split by blast
  have "\<exists>t. skip_ws p = t @ r \<and> value_text D v t"
  proof (cases "skip_ws p")
    case Nil
    then show ?thesis using p by (simp add: jparse_value.simps)
  next
    case (Cons c q)
    have l: "length q < length p" using skip_ws_length [of p] Cons by simp
    show ?thesis
    proof (cases "c = CHR ''{'' \<or> c = CHR ''[''")
      case True
      then show ?thesis using p Cons obj_sound [OF _ o [OF l]] array_sound [OF _ a [OF l]] by (auto simp: jparse_value.simps)
    next
      case False
      then show ?thesis using p Cons by (auto simp: jparse_value.simps Let_def simp del: bnd_eq_Inr dest!: scalar_sound [where D = D] split: if_splits)
    qed
  qed
  then show "\<exists>w t. p = w @ t @ r \<and> blank w \<and> value_text D v t" using w by metis
qed

lemma elems_sound_step:
  assumes d: "depth \<le> kMaxDepth" and v: "value_sound D depth p" and l: "\<And>q. length q < length p \<Longrightarrow> elems_sound D depth q"
  shows "elems_sound D depth p"
  unfolding elems_sound_def
proof (intro allI impI)
  fix vs r
  assume p: "array_loop D depth p = Inr (vs, r)"
  then obtain x q where x: "jparse_value D depth p = Inr (x, q)" by (subst (asm) array_loop_step [OF d]) auto
  then obtain w t where t: "p = w @ t @ q" "blank w" "value_text D x t" using v by (auto simp: value_sound_def)
  consider (more) us where "peek (skip_ws q) = CHR '',''" "array_loop D depth (tl (skip_ws q)) = Inr (us, r)" "vs = x # us"
    | (last) "peek (skip_ws q) = CHR '']''" "r = tl (skip_ws q)" "vs = [x]"
    using p x by (subst (asm) array_loop_step [OF d]) (auto simp: Let_def split: if_splits)
  then show "\<exists>t. p = t @ CHR '']'' # r \<and> elems_text D vs t"
  proof cases
    case more
    obtain w2 where w2: "q = w2 @ CHR '','' # tl (skip_ws q)" "blank w2" using punct_sound [OF more(1)] by auto
    have "length (tl (skip_ws q)) < length p" using t(1) arg_cong [OF w2(1), of length] by simp
    then obtain ts where ts: "tl (skip_ws q) = ts @ CHR '']'' # r" "elems_text D us ts" using l more(2) unfolding elems_sound_def by blast
    have "p = (w @ t @ w2 @ CHR '','' # ts) @ CHR '']'' # r" using t(1) w2(1) ts(1) by simp
    then show ?thesis using value_text_elems_text_members_text.intros(11) [OF t(2,3) w2(2) ts(2)] more(3) by blast
  next
    case last
    obtain w2 where w2: "q = w2 @ CHR '']'' # tl (skip_ws q)" "blank w2" using punct_sound [OF last(1)] by auto
    have "p = (w @ t @ w2) @ CHR '']'' # r" using t(1) w2(1) last(2) by simp
    then show ?thesis using value_text_elems_text_members_text.intros(10) [OF t(2,3) w2(2)] last(3) by blast
  qed
qed

lemma members_sound_step:
  assumes d: "depth \<le> kMaxDepth" and v: "\<And>q. length q < length p \<Longrightarrow> value_sound D depth q"
    and l: "\<And>q. length q < length p \<Longrightarrow> members_sound D depth q"
  shows "members_sound D depth p"
  unfolding members_sound_def
proof (intro allI impI)
  fix ms r
  assume p: "object_loop D depth p = Inr (ms, r)"
  then obtain k q1 x q where k: "jstring (skip_ws p) = Inr (k, q1)" and c: "peek (skip_ws q1) = CHR '':''"
    and x: "jparse_value D depth (tl (skip_ws q1)) = Inr (x, q)"
    by (subst (asm) object_loop_step [OF d]) (auto simp: Let_def split: if_splits)
  obtain w1 kt where w1: "p = w1 @ kt @ q1" "blank w1" "string_text k kt" using jstring_sound [OF k] skip_ws_split [of p] by auto
  obtain w2 where w2: "q1 = w2 @ CHR '':'' # tl (skip_ws q1)" "blank w2" using punct_sound [OF c] by auto
  have "length (tl (skip_ws q1)) < length p" using w1(1) arg_cong [OF w2(1), of length] by simp
  then obtain w3 t where t: "tl (skip_ws q1) = w3 @ t @ q" "blank w3" "value_text D x t" using v x unfolding value_sound_def by blast
  have pq: "p = w1 @ kt @ w2 @ CHR '':'' # w3 @ t @ q" using w1(1) w2(1) t(1) by simp
  consider (more) us where "peek (skip_ws q) = CHR '',''" "object_loop D depth (tl (skip_ws q)) = Inr (us, r)" "ms = (k, x) # us"
    | (last) "peek (skip_ws q) = CHR ''}''" "r = tl (skip_ws q)" "ms = [(k, x)]"
    using p k x by (subst (asm) object_loop_step [OF d]) (auto simp: Let_def split: if_splits)
  then show "\<exists>t. p = t @ CHR ''}'' # r \<and> members_text D ms t"
  proof cases
    case more
    obtain w4 where w4: "q = w4 @ CHR '','' # tl (skip_ws q)" "blank w4" using punct_sound [OF more(1)] by auto
    have "length (tl (skip_ws q)) < length p" using pq arg_cong [OF w4(1), of length] by simp
    then obtain ts where ts: "tl (skip_ws q) = ts @ CHR ''}'' # r" "members_text D us ts" using l more(2) unfolding members_sound_def by blast
    have "p = (w1 @ kt @ w2 @ CHR '':'' # w3 @ t @ w4 @ CHR '','' # ts) @ CHR ''}'' # r" using pq w4(1) ts(1) by simp
    then show ?thesis using value_text_elems_text_members_text.intros(13) [OF w1(2,3) w2(2) t(2,3) w4(2) ts(2)] more(3) by blast
  next
    case last
    obtain w4 where w4: "q = w4 @ CHR ''}'' # tl (skip_ws q)" "blank w4" using punct_sound [OF last(1)] by auto
    have "p = (w1 @ kt @ w2 @ CHR '':'' # w3 @ t @ w4) @ CHR ''}'' # r" using pq w4(1) last(2) by simp
    then show ?thesis using value_text_elems_text_members_text.intros(12) [OF w1(2,3) w2(2) t(2,3) w4(2)] last(3) by blast
  qed
qed

lemma grammar_sound: "\<forall>depth \<le> kMaxDepth. value_sound D depth p \<and> elems_sound D depth p \<and> members_sound D depth p"
proof (induction p rule: length_induct)
  case (1 p)
  show ?case
  proof (intro allI impI)
    fix depth
    assume d: "depth \<le> kMaxDepth"
    have v: "value_sound D depth p" by (rule value_sound_step) (use 1 in blast)+
    moreover have "elems_sound D depth p" by (rule elems_sound_step [OF d v]) (use 1 d in blast)
    moreover have "members_sound D depth p" by (rule members_sound_step [OF d]) (use 1 d in blast)+
    ultimately show "value_sound D depth p \<and> elems_sound D depth p \<and> members_sound D depth p" by blast
  qed
qed

section \<open>The parser and the grammar\<close>

lemma document_sound: "parse_document D s = Inr v \<Longrightarrow> document_text D v s \<and> jdepth v \<le> 256"
proof -
  assume "parse_document D s = Inr v"
  then obtain q where v: "jparse_value D 0 (skip_ws s) = Inr (v, q)" and q: "skip_ws q = []"
    by (auto simp: parse_document_def split: if_splits)
  have "wp (jparse_value D 0 (skip_ws s)) (value_post 0 (skip_ws s))" using json_wp by blast
  then have d: "jdepth v \<le> 256" using v by (simp add: wp_def value_post_def kMaxDepth_def)
  obtain w t where t: "skip_ws s = w @ t @ q" "blank w" "value_text D v t"
    using grammar_sound [of D "skip_ws s"] v unfolding value_sound_def by blast
  obtain w0 where "s = w0 @ skip_ws s" "blank w0" using skip_ws_split by blast
  moreover have "blank q" using skip_ws_split [of q] q by simp
  ultimately have "document_text D v s" using t unfolding document_text_def
    by (intro exI [of _ "w0 @ w"] exI [of _ t] exI [of _ q]) (simp add: blank_def)
  then show ?thesis using d by blast
qed

lemma document_complete: "document_text D v s \<Longrightarrow> jdepth v \<le> 256 \<Longrightarrow> parse_document D s = Inr v"
proof -
  assume a: "document_text D v s" "jdepth v \<le> 256"
  then obtain w1 t w2 where t: "s = w1 @ t @ w2" "blank w1" "blank w2" "value_text D v t" by (auto simp: document_text_def)
  have "jparse_value D 0 (t @ w2) = Inr (v, w2)"
    using grammar_complete(1) [OF t(4), of 0 w2] a(2) follow_punct(4) [OF t(3)] by (simp add: kMaxDepth_def)
  moreover have "jparse_value D 0 (skip_ws s) = jparse_value D 0 (t @ w2)" using t by (simp add: jparse_value.simps blank_skip)
  ultimately show "parse_document D s = Inr v" using blank_skip [OF t(3), of "[]"] by (simp add: parse_document_def)
qed

text \<open>
  C10: the parser is the grammar. \<^verbatim>\<open>parse\<close> returns a value for a text exactly when the text is a JSON text of that value, with
  blanks around its tokens, standard escapes, UTF-16 surrogate pairs and Python's non-finite literals, and the value nests at
  most 256 deep. Every other text is rejected with an exception: the parser never reads past the end of the text.
\<close>

theorem json_parse_iff: "(parse_document D s = Inr v \<longleftrightarrow> document_text D v s \<and> jdepth v \<le> 256) \<and> safe (parse_document D s)"
  using document_sound document_complete json_parse_safe by blast

section \<open>Integer getters\<close>






end
