(* ===== verification/TraceDag.thy ===== *)
theory TraceDag
  imports Runtime Bits
begin

unbundle bit_operations_syntax

text \<open>
  The trace DAG of the jit (\<^verbatim>\<open>src/jit/trace_dag.h\<close>, \<^verbatim>\<open>src/jit/trace_dag.cpp\<close>): nodes, liveness, the dominant shape and the
  signature hash. Node ids and slots are positions in the node list; the node list is assumed shorter than \<open>2 ^ 31\<close>, the range
  of the \<^verbatim>\<open>int\<close> that names a node. Scalars are the bit patterns of their floats.
\<close>

section \<open>Nodes\<close>

datatype TraceOpKind =
    Input | Add | Sub | Mul | Div | AddScalar | SubScalar | MulScalar | DivScalar | ScalarSub | ScalarDiv | FMA
  | SiLU | GELU | ReLU | RMSNorm | LayerNorm | Modulate | Tanh | Sigmoid | Copy | Where | Clamp | Cast | Const
  | Neg | Exp | Log | Sqrt | Rsqrt | Abs

definition op_kinds :: "TraceOpKind list" where
  "op_kinds = [Input, Add, Sub, Mul, Div, AddScalar, SubScalar, MulScalar, DivScalar, ScalarSub, ScalarDiv, FMA,
     SiLU, GELU, ReLU, RMSNorm, LayerNorm, Modulate, Tanh, Sigmoid, Copy, Where, Clamp, Cast, Const,
     Neg, Exp, Log, Sqrt, Rsqrt, Abs]"

text \<open>The enumerator values: positions in the enumeration.\<close>

fun position :: "'a \<Rightarrow> 'a list \<Rightarrow> nat" where
  "position x [] = 0"
| "position x (y # ys) = (if x = y then 0 else Suc (position x ys))"

definition op_enum :: "TraceOpKind \<Rightarrow> nat" where
  "op_enum k = position k op_kinds"

definition op_kind_name :: "TraceOpKind \<Rightarrow> string" where
  "op_kind_name k = (case k of
      Input \<Rightarrow> ''Input'' | Add \<Rightarrow> ''Add'' | Sub \<Rightarrow> ''Sub'' | Mul \<Rightarrow> ''Mul'' | Div \<Rightarrow> ''Div''
    | AddScalar \<Rightarrow> ''AddScalar'' | SubScalar \<Rightarrow> ''SubScalar'' | MulScalar \<Rightarrow> ''MulScalar'' | DivScalar \<Rightarrow> ''DivScalar''
    | ScalarSub \<Rightarrow> ''ScalarSub'' | ScalarDiv \<Rightarrow> ''ScalarDiv'' | FMA \<Rightarrow> ''FMA''
    | SiLU \<Rightarrow> ''SiLU'' | GELU \<Rightarrow> ''GELU'' | ReLU \<Rightarrow> ''ReLU'' | RMSNorm \<Rightarrow> ''RMSNorm'' | LayerNorm \<Rightarrow> ''LayerNorm''
    | Modulate \<Rightarrow> ''Modulate'' | Tanh \<Rightarrow> ''Tanh'' | Sigmoid \<Rightarrow> ''Sigmoid'' | Copy \<Rightarrow> ''Copy'' | Where \<Rightarrow> ''Where''
    | Clamp \<Rightarrow> ''Clamp'' | Cast \<Rightarrow> ''Cast'' | Const \<Rightarrow> ''Const'' | Neg \<Rightarrow> ''Neg'' | Exp \<Rightarrow> ''Exp'' | Log \<Rightarrow> ''Log''
    | Sqrt \<Rightarrow> ''Sqrt'' | Rsqrt \<Rightarrow> ''Rsqrt'' | Abs \<Rightarrow> ''Abs'')"

datatype BroadcastKind = Full | Row | Scalar | Col

text \<open>\<^verbatim>\<open>rows * cols\<close> is an \<^verbatim>\<open>int\<close> product, evaluated only for a (1, 1) node; outside the range of \<^verbatim>\<open>int\<close> it is undefined.\<close>

definition broadcast_of :: "int \<Rightarrow> int \<Rightarrow> int \<Rightarrow> int \<Rightarrow> BroadcastKind res" where
  "broadcast_of node_rows node_cols rs cs = (
     if node_rows = 1 \<and> node_cols = 1 \<and> \<not> is_int32 (rs * cs) then Inl (UB ''int overflow in broadcast_of'')
     else if node_rows = 1 \<and> node_cols = 1 \<and> rs * cs \<noteq> 1 then Inr Scalar
     else if node_rows = 1 \<and> node_cols = cs \<and> rs \<noteq> 1 then Inr Row
     else if node_rows = rs \<and> node_cols = 1 \<and> cs \<noteq> 1 then Inr Col
     else Inr Full)"

record TraceNode =
  nid :: int
  op :: TraceOpKind
  inputs :: "int list"
  outputs :: "int list"
  scalar :: "32 word"
  scalar2 :: "32 word"
  buffer :: ptr
  n_device :: Device
  n_dtype :: Dtype
  n_rows :: int
  n_cols :: int
  is_inplace :: bool
  inplace_target_slot :: int
  is_live_at_end :: bool

definition default_node :: TraceNode where
  "default_node = \<lparr>nid = - 1, op = Input, inputs = [], outputs = [], scalar = 0, scalar2 = 0, buffer = Null, n_device = cpu,
     n_dtype = FP32, n_rows = 0, n_cols = 0, is_inplace = False, inplace_target_slot = - 1, is_live_at_end = False\<rparr>"

record TraceDAG =
  nodes :: "TraceNode list"
  input_ptr_to_slot :: "ptr \<rightharpoonup> int"

definition empty_dag :: TraceDAG where
  "empty_dag = \<lparr>nodes = [], input_ptr_to_slot = Map.empty\<rparr>"

section \<open>Building\<close>

definition valid_slot :: "TraceNode list \<Rightarrow> int \<Rightarrow> bool" where
  "valid_slot ns slot \<longleftrightarrow> 0 \<le> slot \<and> slot < int (length ns)"

definition slot_matches :: "TraceDAG \<Rightarrow> int \<Rightarrow> Tensor \<Rightarrow> bool" where
  "slot_matches g slot t \<longleftrightarrow> valid_slot (nodes g) slot \<and> (let n = nodes g ! nat slot in
     buffer n = data t \<and> n_rows n = rows t \<and> n_cols n = cols t \<and> n_dtype n = dtype t \<and> n_device n = device t)"

definition push_node :: "TraceNode \<Rightarrow> TraceDAG \<Rightarrow> int \<times> TraceDAG" where
  "push_node n g = (let i = int (length (nodes g)) in (i, g\<lparr>nodes := nodes g @ [n\<lparr>nid := i\<rparr>]\<rparr>))"

definition new_input :: "Tensor \<Rightarrow> TraceDAG \<Rightarrow> int \<times> TraceDAG" where
  "new_input t g = (let (i, g') = push_node (default_node\<lparr>op := Input, buffer := data t, n_device := device t, n_dtype := dtype t,
       n_rows := rows t, n_cols := cols t\<rparr>) g in
     (i, g'\<lparr>input_ptr_to_slot := (input_ptr_to_slot g')(data t \<mapsto> i)\<rparr>))"

definition register_input :: "Tensor \<Rightarrow> TraceDAG \<Rightarrow> int \<times> TraceDAG" where
  "register_input t g = (case input_ptr_to_slot g (data t) of
      Some slot \<Rightarrow> if slot_matches g slot t then (slot, g) else new_input t g
    | None \<Rightarrow> new_input t g)"

definition add_node ::
  "TraceOpKind \<Rightarrow> int list \<Rightarrow> 32 word \<Rightarrow> ptr \<Rightarrow> Device \<Rightarrow> Dtype \<Rightarrow> int \<Rightarrow> int \<Rightarrow> 32 word \<Rightarrow> TraceDAG \<Rightarrow> int \<times> TraceDAG" where
  "add_node k ins s buf d dt r c s2 = push_node (default_node\<lparr>op := k, inputs := ins, scalar := s, scalar2 := s2, buffer := buf,
     n_device := d, n_dtype := dt, n_rows := r, n_cols := c\<rparr>)"

text \<open>\<^verbatim>\<open>nodes_.at(target_slot)\<close> throws when the slot is out of range.\<close>

definition add_inplace_node ::
  "TraceOpKind \<Rightarrow> int \<Rightarrow> int \<Rightarrow> ptr \<Rightarrow> 32 word \<Rightarrow> 32 word \<Rightarrow> TraceDAG \<Rightarrow> (int \<times> TraceDAG) res" where
  "add_inplace_node k target arg buf s s2 g = (
     if \<not> valid_slot (nodes g) target then Inl (Throw ''vector::at'')
     else let tn = nodes g ! nat target in
       Inr (push_node (default_node\<lparr>op := k, inputs := (if 0 \<le> arg then [target, arg] else [target]), scalar := s, scalar2 := s2,
         buffer := buf, n_device := n_device tn, n_dtype := n_dtype tn, n_rows := n_rows tn, n_cols := n_cols tn,
         is_inplace := True, inplace_target_slot := target, is_live_at_end := True\<rparr>) g))"

section \<open>Liveness\<close>

definition push_output :: "int \<Rightarrow> TraceNode list \<Rightarrow> int \<Rightarrow> TraceNode list" where
  "push_output user ns i = (if valid_slot ns i then ns[nat i := (ns ! nat i)\<lparr>outputs := outputs (ns ! nat i) @ [user]\<rparr>] else ns)"

definition push_uses :: "TraceNode list \<Rightarrow> TraceNode \<Rightarrow> TraceNode list" where
  "push_uses ns n = foldl (push_output (nid n)) ns (inputs n)"

definition node_live :: "TraceNode \<Rightarrow> bool" where
  "node_live n = (
     if op n = Input then False
     else if is_inplace n then True
     else if outputs n = [] then True
     else False)"

definition analyze_liveness :: "TraceDAG \<Rightarrow> TraceDAG" where
  "analyze_liveness g = (let ns = map (\<lambda>n. n\<lparr>outputs := []\<rparr>) (nodes g);
       used = foldl push_uses ns ns in
     g\<lparr>nodes := map (\<lambda>n. n\<lparr>is_live_at_end := node_live n\<rparr>) used\<rparr>)"

section \<open>Shape and signature\<close>

fun dominant_from :: "int \<Rightarrow> int \<Rightarrow> int \<Rightarrow> TraceNode list \<Rightarrow> int \<times> int" where
  "dominant_from best rs cs [] = (rs, cs)"
| "dominant_from best rs cs (n # ns) = (let numel = n_rows n * n_cols n in
     if best < numel then dominant_from numel (n_rows n) (n_cols n) ns else dominant_from best rs cs ns)"

definition dominant_shape :: "TraceDAG \<Rightarrow> int \<times> int" where
  "dominant_shape g = dominant_from 0 0 0 (nodes g)"

text \<open>The 64-bit FNV-1a steps; \<^verbatim>\<open>static_cast<uint64_t>\<close> of a negative \<^verbatim>\<open>int\<close> wraps around.\<close>

definition hash_val :: "64 word \<Rightarrow> 64 word \<Rightarrow> 64 word" where
  "hash_val h v = (h XOR v) * 1099511628211"

definition node_words :: "TraceNode \<Rightarrow> 64 word list" where
  "node_words n = [of_nat (op_enum (op n)), of_nat (devtype_enum (devtype (n_device n))), of_int (index (n_device n)),
     of_nat (dtype_enum (n_dtype n)), of_int (n_rows n), of_int (n_cols n), of_bool (is_inplace n), of_bool (is_live_at_end n),
     ucast (scalar n), ucast (scalar2 n), of_nat (length (inputs n))] @ map of_int (inputs n)"

definition compute_hash :: "TraceDAG \<Rightarrow> 64 word" where
  "compute_hash g = foldl hash_val 14695981039346656037 (of_nat (length (nodes g)) # concat (map node_words (nodes g)))"

definition dag_reset :: "TraceDAG \<Rightarrow> TraceDAG" where
  "dag_reset g = empty_dag"

section \<open>Well-formed graphs\<close>

text \<open>
  Ids are positions and every operand of a node comes before it: the node list is in topological order, which the plans and the
  compilers rely on.
\<close>

definition node_wf :: "nat \<Rightarrow> TraceNode \<Rightarrow> bool" where
  "node_wf i n \<longleftrightarrow> nid n = int i \<and> (\<forall>s\<in>set (inputs n). 0 \<le> s \<and> s < int i)"

definition nodes_wf :: "TraceNode list \<Rightarrow> bool" where
  "nodes_wf ns \<longleftrightarrow> (\<forall>i < length ns. node_wf i (ns ! i))"

lemma nodes_wf_Nil [simp]: "nodes_wf []"
  by (simp add: nodes_wf_def)

lemma nodes_wf_append [simp]: "nodes_wf (ns @ [n]) \<longleftrightarrow> nodes_wf ns \<and> node_wf (length ns) n"
  by (auto simp: nodes_wf_def nth_append less_Suc_eq)

lemma push_node_wf:
  "push_node n g = (i, g') \<Longrightarrow> nodes_wf (nodes g) \<Longrightarrow> list_all (valid_slot (nodes g)) (inputs n) \<Longrightarrow>
     nodes_wf (nodes g') \<and> nodes g' = nodes g @ [n\<lparr>nid := i\<rparr>] \<and> i = int (length (nodes g))"
  by (auto simp: push_node_def Let_def node_wf_def valid_slot_def list_all_iff)

lemma valid_slot_append [simp]: "valid_slot ns i \<Longrightarrow> valid_slot (ns @ ms) i"
  by (simp add: valid_slot_def)

text \<open>Liveness never changes the list but for \<open>outputs\<close> and \<open>is_live_at_end\<close>; a node's outputs are exactly its users, in order.\<close>

definition users :: "TraceNode list \<Rightarrow> int \<Rightarrow> int list" where
  "users ns i = concat (map (\<lambda>n. map (\<lambda>_. nid n) (filter ((=) i) (inputs n))) ns)"

definition with_outputs :: "(int \<Rightarrow> int list) \<Rightarrow> TraceNode list \<Rightarrow> TraceNode list" where
  "with_outputs f ns = map (\<lambda>i. (ns ! i)\<lparr>outputs := f (int i)\<rparr>) [0..<length ns]"

lemma with_outputs_simps [simp]:
  "length (with_outputs f ns) = length ns" "i < length ns \<Longrightarrow> with_outputs f ns ! i = (ns ! i)\<lparr>outputs := f (int i)\<rparr>"
  "valid_slot (with_outputs f ns) s = valid_slot ns s"
  by (simp_all add: with_outputs_def valid_slot_def)

lemma push_output_with: "push_output u (with_outputs f ns) i = with_outputs (f(i := f i @ [u])) ns"
proof (cases "valid_slot ns i")
  case True
  then show ?thesis by (intro nth_equalityI) (auto simp: push_output_def nth_list_update valid_slot_def)
next
  case False
  then show ?thesis by (intro nth_equalityI) (auto simp: push_output_def valid_slot_def)
qed

lemma foldl_push_output: "foldl (push_output u) (with_outputs f ns) is = with_outputs (\<lambda>i. f i @ map (\<lambda>_. u) (filter ((=) i) is)) ns"
proof (induction "is" arbitrary: f)
  case (Cons a as)
  have "(\<lambda>i. (f(a := f a @ [u])) i @ map (\<lambda>_. u) (filter ((=) i) as)) = (\<lambda>i. f i @ map (\<lambda>_. u) (filter ((=) i) (a # as)))" by auto
  then show ?case using Cons [of "f(a := f a @ [u])"] by (simp only: foldl_Cons push_output_with)
qed simp

lemma foldl_push_uses: "foldl push_uses (with_outputs f ns) ms = with_outputs (\<lambda>i. f i @ users ms i) ns"
  by (induction ms arbitrary: f) (simp_all add: users_def push_uses_def foldl_push_output)

lemma cleared_outputs: "map (\<lambda>n. n\<lparr>outputs := []\<rparr>) ns = with_outputs (\<lambda>_. []) ns"
  by (rule nth_equalityI) auto

lemma users_cleared: "users (map (\<lambda>n. n\<lparr>outputs := []\<rparr>) ns) = users ns"
  by (auto simp: users_def fun_eq_iff comp_def)

lemma analyze_nodes:
  "nodes (analyze_liveness g) = map (\<lambda>n. n\<lparr>is_live_at_end := node_live n\<rparr>) (with_outputs (users (nodes g)) (nodes g))"
  by (simp add: analyze_liveness_def Let_def foldl_push_uses cleared_outputs users_cleared [unfolded cleared_outputs])

lemma analyze_nth:
  assumes "i < length (nodes g)"
  shows "nodes (analyze_liveness g) ! i = (nodes g ! i)\<lparr>outputs := users (nodes g) (int i),
     is_live_at_end := op (nodes g ! i) \<noteq> Input \<and> (is_inplace (nodes g ! i) \<or> users (nodes g) (int i) = [])\<rparr>"
  using assms by (auto simp: analyze_nodes node_live_def)

lemma analyze_length [simp]: "length (nodes (analyze_liveness g)) = length (nodes g)"
  by (simp add: analyze_nodes)

lemma analyze_wf: "nodes_wf (nodes g) \<Longrightarrow> nodes_wf (nodes (analyze_liveness g))"
  by (auto simp: nodes_wf_def node_wf_def analyze_nth)

end
