(* ===== verification/TraceCtx.thy ===== *)
theory TraceCtx
  imports TraceDag TensorInv
begin

text \<open>
  The thread's trace in progress (\<^verbatim>\<open>TraceContext\<close> of \<^verbatim>\<open>src/jit/trace_dag.cpp\<close>) and the traced branches of the operators
  (\<^verbatim>\<open>src/jit/trace_ops.cpp\<close>). The table \<^verbatim>\<open>slot_to_tensor_\<close> and the hook that the Tensor class calls live in the world of theory
  \<open>Tensors\<close>, where moves and destructors keep it; this theory adds the rest of the context.
\<close>

section \<open>State and actions\<close>

record 'o tstate =
  tw :: "'o world"
  active :: bool
  dag :: TraceDAG
  active_ptr_to_slot :: "ptr \<rightharpoonup> int"

type_synonym ('o, 'a) tact = "'o tstate \<Rightarrow> 'a res \<times> 'o tstate"

definition tret :: "'a \<Rightarrow> ('o, 'a) tact" where
  "tret x s = (Inr x, s)"

definition tbnd :: "('o, 'a) tact \<Rightarrow> ('a \<Rightarrow> ('o, 'b) tact) \<Rightarrow> ('o, 'b) tact" where
  "tbnd m f s = (case m s of (Inl e, s') \<Rightarrow> (Inl e, s') | (Inr x, s') \<Rightarrow> f x s')"

definition tlift :: "'a res \<Rightarrow> ('o, 'a) tact" where
  "tlift r s = (r, s)"

text \<open>A tensor operation, run in the world of the context.\<close>

definition in_world :: "('o, 'a) act \<Rightarrow> ('o, 'a) tact" where
  "in_world m s = (case m (tw s) of (r, w) \<Rightarrow> (r, s\<lparr>tw := w\<rparr>))"

text \<open>The value of the object at \<open>i\<close>; reading a dead object is undefined.\<close>

definition peek_obj :: "nat \<Rightarrow> ('o, Tensor) tact" where
  "peek_obj i s = (case objs (tw s) i of None \<Rightarrow> (Inl (UB ''dead object''), s) | Some t \<Rightarrow> (Inr t, s))"

definition on_dag :: "(TraceDAG \<Rightarrow> 'a \<times> TraceDAG) \<Rightarrow> ('o, 'a) tact" where
  "on_dag f s = (case f (dag s) of (x, g) \<Rightarrow> (Inr x, s\<lparr>dag := g\<rparr>))"

section \<open>Life cycle\<close>

definition neutral :: "Tensor \<Rightarrow> Tensor" where
  "neutral t = t\<lparr>jit_slot := - 1, rows := 0, cols := 0\<rparr>"

definition release_tracked :: "('o, unit) act" where
  "release_tracked w = (
     if \<exists>i \<in> ran (slot_to_tensor w). objs w i = None then (Inl (UB ''dead object''), w)
     else (Inr (), w\<lparr>objs := (\<lambda>i. if i \<in> ran (slot_to_tensor w) then map_option neutral (objs w i) else objs w i),
                    slot_to_tensor := Map.empty\<rparr>))"

definition begin_trace :: "('o, unit) tact" where
  "begin_trace s = (
     if active s then (Inl (Throw ''brotensor::jit: Nested begin_trace() calls are not permitted''), s)
     else let s1 = s\<lparr>tw := (tw s)\<lparr>retarget_hook := True\<rparr>, dag := dag_reset (dag s), active_ptr_to_slot := Map.empty\<rparr> in
       tbnd (in_world release_tracked) (\<lambda>_ s2. (Inr (), s2\<lparr>active := True\<rparr>)) s1)"

definition discard :: "('o, unit) tact" where
  "discard s = tbnd (in_world release_tracked) (\<lambda>_ s2. (Inr (), s2\<lparr>active := False\<rparr>))
     (s\<lparr>dag := dag_reset (dag s), active_ptr_to_slot := Map.empty\<rparr>)"

text \<open>
  One round of \<^verbatim>\<open>materialize_\<close> for the node at position \<open>k\<close>; \<^verbatim>\<open>buf\<close> is the local at the address \<open>tmp\<close>, destroyed at the end of
  the round.
\<close>

definition update_node :: "nat \<Rightarrow> (TraceNode \<Rightarrow> TraceNode) \<Rightarrow> 'o tstate \<Rightarrow> 'o tstate" where
  "update_node k f s = s\<lparr>dag := (dag s)\<lparr>nodes := (nodes (dag s))[k := f (nodes (dag s) ! k)]\<rparr>\<rparr>"

definition install :: "nat \<Rightarrow> int \<Rightarrow> nat \<Rightarrow> ('o, ptr) act" where
  "install tmp slot held w = with_obj held (\<lambda>h w1.
     sbnd (move_assign held tmp) (\<lambda>_. sbnd (dtor tmp) (\<lambda>_. with_obj held (\<lambda>h'. ret (data h'))))
       (set_obj held (Some (h\<lparr>jit_slot := - 1\<rparr>)) w1)) (w\<lparr>slot_to_tensor := (slot_to_tensor w)(slot := None)\<rparr>)"

definition set_node :: "nat \<Rightarrow> (TraceNode \<Rightarrow> TraceNode) \<Rightarrow> ('o, unit) tact" where
  "set_node k f s = (Inr (), update_node k f s)"

definition hand_over :: "nat \<Rightarrow> nat \<Rightarrow> int \<Rightarrow> nat \<Rightarrow> Tensor \<Rightarrow> ('o, unit) tact" where
  "hand_over tmp k slot held buf = (
     if data buf = Null then tbnd (in_world (dtor tmp)) (\<lambda>_. set_node k (\<lambda>n. n\<lparr>is_live_at_end := False\<rparr>))
     else tbnd (in_world (install tmp slot held)) (\<lambda>p. set_node k (\<lambda>n. n\<lparr>buffer := p\<rparr>)))"

definition materialize_one :: "nat \<Rightarrow> nat \<Rightarrow> ('o, unit) tact" where
  "materialize_one tmp k s = (let n = nodes (dag s) ! k in
     if \<not> is_live_at_end n then (Inr (), s)
     else if buffer n \<noteq> Null then (Inr (), s)
     else case slot_to_tensor (tw s) (nid n) of
       None \<Rightarrow> set_node k (\<lambda>n. n\<lparr>is_live_at_end := False\<rparr>) s
     | Some held \<Rightarrow>
        tbnd (in_world (construct tmp (empty_on (n_device n) (n_rows n) (n_cols n) (n_dtype n)))) (\<lambda>_.
        tbnd (peek_obj tmp) (hand_over tmp k (nid n) held)) s)"

fun materialize_from :: "nat \<Rightarrow> nat list \<Rightarrow> ('o, unit) tact" where
  "materialize_from tmp [] = tret ()"
| "materialize_from tmp (k # ks) = tbnd (materialize_one tmp k) (\<lambda>_. materialize_from tmp ks)"

definition materialize :: "nat \<Rightarrow> ('o, unit) tact" where
  "materialize tmp s = materialize_from tmp [0..<length (nodes (dag s))] s"

definition end_dag :: "nat \<Rightarrow> ('o, TraceDAG) tact" where
  "end_dag tmp s = (
     if \<not> active s then (Inl (Throw ''brotensor::jit: end_trace() called without matching begin_trace()''), s)
     else tbnd (materialize tmp) (\<lambda>_ s1.
       tbnd (in_world release_tracked) (\<lambda>_ s2.
         if \<not> list_ex is_live_at_end (nodes (dag s2)) then
           (Inl (Throw ''brotensor::jit: the trace has no observable result''), s2\<lparr>dag := dag_reset (dag s2)\<rparr>)
         else (Inr (dag s2), s2\<lparr>dag := empty_dag\<rparr>))
         (s1\<lparr>active := False, active_ptr_to_slot := Map.empty\<rparr>))
       (s\<lparr>dag := analyze_liveness (dag s)\<rparr>))"

section \<open>Recording\<close>

definition new_slot :: "Tensor \<Rightarrow> ('o, int) tact" where
  "new_slot t = tbnd (on_dag (register_input t)) (\<lambda>slot s.
     (Inr slot, s\<lparr>active_ptr_to_slot := (active_ptr_to_slot s)(data t \<mapsto> slot)\<rparr>))"

definition get_or_register_slot :: "Tensor \<Rightarrow> ('o, int) tact" where
  "get_or_register_slot t s = (
     if 0 \<le> jit_slot t then (Inr (jit_slot t), s)
     else case active_ptr_to_slot s (data t) of
       Some slot \<Rightarrow> if slot_matches (dag s) slot t then (Inr slot, s) else new_slot t s
     | None \<Rightarrow> new_slot t s)"

text \<open>The symbolic result is constructed at the address \<open>i\<close> of the caller's object.\<close>

definition symbolic :: "int \<Rightarrow> Device \<Rightarrow> Dtype \<Rightarrow> int \<Rightarrow> int \<Rightarrow> Tensor" where
  "symbolic slot d dt r c = empty_tensor\<lparr>device := d, dtype := dt, rows := r, cols := c, jit_slot := slot\<rparr>"

definition track :: "int \<Rightarrow> nat \<Rightarrow> Tensor \<Rightarrow> ('o, unit) act" where
  "track slot i t w = (Inr (), set_obj i (Some t) (w\<lparr>slot_to_tensor := (slot_to_tensor w)(slot \<mapsto> i)\<rparr>))"

definition record_op ::
  "nat \<Rightarrow> TraceOpKind \<Rightarrow> int list \<Rightarrow> 32 word \<Rightarrow> Device \<Rightarrow> Dtype \<Rightarrow> int \<Rightarrow> int \<Rightarrow> 32 word \<Rightarrow> ('o, unit) tact" where
  "record_op i k ins s d dt r c s2 = tbnd (on_dag (add_node k ins s Null d dt r c s2)) (\<lambda>slot.
     in_world (track slot i (symbolic slot d dt r c)))"

definition point_at :: "ptr \<Rightarrow> int \<Rightarrow> ('o, unit) tact" where
  "point_at p slot s = (Inr (), s\<lparr>active_ptr_to_slot := (active_ptr_to_slot s)(p \<mapsto> slot)\<rparr>)"

definition record_store :: "int \<Rightarrow> Tensor \<Rightarrow> ('o, unit) tact" where
  "record_store src_slot dst = (
     if 0 \<le> jit_slot dst then tlift (Inl (Throw ''brotensor::jit: store() needs a destination the caller owns''))
     else tbnd (on_dag (add_node Copy [src_slot] 0 (data dst) (device dst) (dtype dst) (rows dst) (cols dst) 0)) (point_at (data dst)))"

text \<open>\<^verbatim>\<open>dst = record_op(...)\<close>: the result lives in the temporary \<open>tmp\<close> until it is moved.\<close>

definition record_cast_out :: "nat \<Rightarrow> int \<Rightarrow> Tensor \<Rightarrow> nat \<Rightarrow> Dtype \<Rightarrow> ('o, unit) tact" where
  "record_cast_out tmp src_slot src dst out_dtype = tbnd (peek_obj dst) (\<lambda>t.
     if jit_slot t < 0 \<and> data t \<noteq> Null \<and> device t = device src \<and> rows t = rows src \<and> cols t = cols src \<and> dtype t = out_dtype then
       tbnd (on_dag (add_node Cast [src_slot] 0 (data t) (device t) out_dtype (rows t) (cols t) 0)) (point_at (data t))
     else
       tbnd (record_op tmp Cast [src_slot] 0 (device src) out_dtype (rows src) (cols src) 0) (\<lambda>_.
       in_world (sbnd (move_assign dst tmp) (\<lambda>_. dtor tmp))))"

definition retrack :: "int \<Rightarrow> nat \<Rightarrow> Tensor \<Rightarrow> ('o, unit) act" where
  "retrack slot i t w = (Inr (), set_obj i (Some (t\<lparr>jit_slot := slot\<rparr>))
     (w\<lparr>slot_to_tensor := (slot_to_tensor w)(jit_slot t := None, slot \<mapsto> i)\<rparr>))"

definition record_inplace_op :: "TraceOpKind \<Rightarrow> int \<Rightarrow> int \<Rightarrow> 32 word \<Rightarrow> nat \<Rightarrow> 32 word \<Rightarrow> ('o, int) tact" where
  "record_inplace_op k target arg s i s2 = tbnd (peek_obj i) (\<lambda>t st.
     case add_inplace_node k target arg (data t) s s2 (dag st) of
       Inl e \<Rightarrow> (Inl e, st)
     | Inr (slot, g) \<Rightarrow>
         tbnd (if 0 \<le> jit_slot t then in_world (retrack slot i t) else point_at (data t) slot) (\<lambda>_. tret slot) (st\<lparr>dag := g\<rparr>))"

section \<open>Traced operators\<close>

text \<open>
  The branch every operator takes while a trace is active. Operands are objects; \<open>i\<close> is the address of the result. Outside a
  trace the operators run the eager kernels, which are not modelled.
\<close>

definition shape_of :: "Tensor \<Rightarrow> int \<times> int" where
  "shape_of t = (rows t, cols t)"

definition binary_shape :: "Tensor \<Rightarrow> Tensor \<Rightarrow> Tensor" where
  "binary_shape a b = (if rows a * cols a < rows b * cols b then b else a)"

definition dims_ok :: "int \<Rightarrow> int \<Rightarrow> bool" where
  "dims_ok a b \<longleftrightarrow> a = b \<or> a = 1 \<or> b = 1"

definition broadcast_shape :: "Tensor \<Rightarrow> Tensor \<Rightarrow> int \<times> int" where
  "broadcast_shape a b = (if dims_ok (rows a) (rows b) \<and> dims_ok (cols a) (cols b)
     then (max (rows a) (rows b), max (cols a) (cols b))
     else shape_of (binary_shape a b))"

definition broadcast_shape3 :: "Tensor \<Rightarrow> Tensor \<Rightarrow> Tensor \<Rightarrow> int \<times> int" where
  "broadcast_shape3 c a b = (let (ab_r, ab_c) = broadcast_shape a b in
     if dims_ok (rows c) ab_r \<and> dims_ok (rows a) (rows b) \<and> dims_ok (cols c) ab_c \<and> dims_ok (cols a) (cols b)
     then (max (rows c) ab_r, max (cols c) ab_c)
     else shape_of (binary_shape c (binary_shape a b)))"

text \<open>\<^verbatim>\<open>absent\<close>: an operand the caller did not supply; \<^verbatim>\<open>empty()\<close> multiplies the dimensions as \<^verbatim>\<open>int\<close>s.\<close>

definition absent :: "Tensor \<Rightarrow> bool res" where
  "absent t = (if jit_slot t < 0 then tempty t else Inr False)"

definition slot_of_obj :: "nat \<Rightarrow> ('o, Tensor \<times> int) tact" where
  "slot_of_obj i = tbnd (peek_obj i) (\<lambda>t. tbnd (get_or_register_slot t) (\<lambda>s. tret (t, s)))"

definition traced_binary :: "TraceOpKind \<Rightarrow> nat \<Rightarrow> nat \<Rightarrow> nat \<Rightarrow> ('o, unit) tact" where
  "traced_binary k a b i = tbnd (slot_of_obj a) (\<lambda>(ta, sa). tbnd (slot_of_obj b) (\<lambda>(tb, sb).
     let r = binary_shape ta tb; (rs, cs) = broadcast_shape ta tb in
     record_op i k [sa, sb] 0 (device r) (dtype r) rs cs 0))"

definition traced_unary :: "TraceOpKind \<Rightarrow> 32 word \<Rightarrow> 32 word \<Rightarrow> nat \<Rightarrow> nat \<Rightarrow> ('o, unit) tact" where
  "traced_unary k s s2 a i = tbnd (slot_of_obj a) (\<lambda>(ta, sa).
     record_op i k [sa] s (device ta) (dtype ta) (rows ta) (cols ta) s2)"

definition op_add :: "nat \<Rightarrow> nat \<Rightarrow> nat \<Rightarrow> ('o, unit) tact" where "op_add = traced_binary Add"
definition op_sub :: "nat \<Rightarrow> nat \<Rightarrow> nat \<Rightarrow> ('o, unit) tact" where "op_sub = traced_binary Sub"
definition op_mul :: "nat \<Rightarrow> nat \<Rightarrow> nat \<Rightarrow> ('o, unit) tact" where "op_mul = traced_binary Mul"
definition op_div :: "nat \<Rightarrow> nat \<Rightarrow> nat \<Rightarrow> ('o, unit) tact" where "op_div = traced_binary Div"
definition op_add_scalar :: "32 word \<Rightarrow> nat \<Rightarrow> nat \<Rightarrow> ('o, unit) tact" where "op_add_scalar s = traced_unary AddScalar s 0"
definition op_mul_scalar :: "32 word \<Rightarrow> nat \<Rightarrow> nat \<Rightarrow> ('o, unit) tact" where "op_mul_scalar s = traced_unary MulScalar s 0"
definition op_scalar_sub :: "32 word \<Rightarrow> nat \<Rightarrow> nat \<Rightarrow> ('o, unit) tact" where "op_scalar_sub s = traced_unary ScalarSub s 0"
definition op_scalar_div :: "32 word \<Rightarrow> nat \<Rightarrow> nat \<Rightarrow> ('o, unit) tact" where "op_scalar_div s = traced_unary ScalarDiv s 0"
definition op_neg :: "nat \<Rightarrow> nat \<Rightarrow> ('o, unit) tact" where "op_neg = traced_unary Neg 0 0"
definition op_abs :: "nat \<Rightarrow> nat \<Rightarrow> ('o, unit) tact" where "op_abs = traced_unary Abs 0 0"
definition op_exp :: "nat \<Rightarrow> nat \<Rightarrow> ('o, unit) tact" where "op_exp = traced_unary Exp 0 0"
definition op_log :: "nat \<Rightarrow> nat \<Rightarrow> ('o, unit) tact" where "op_log = traced_unary Log 0 0"
definition op_sqrt :: "nat \<Rightarrow> nat \<Rightarrow> ('o, unit) tact" where "op_sqrt = traced_unary Sqrt 0 0"
definition op_rsqrt :: "nat \<Rightarrow> nat \<Rightarrow> ('o, unit) tact" where "op_rsqrt = traced_unary Rsqrt 0 0"
definition op_silu :: "nat \<Rightarrow> nat \<Rightarrow> ('o, unit) tact" where "op_silu = traced_unary SiLU 0 0"
definition op_gelu :: "nat \<Rightarrow> nat \<Rightarrow> ('o, unit) tact" where "op_gelu = traced_unary GELU 0 0"
definition op_relu :: "nat \<Rightarrow> nat \<Rightarrow> ('o, unit) tact" where "op_relu = traced_unary ReLU 0 0"
definition op_tanh :: "nat \<Rightarrow> nat \<Rightarrow> ('o, unit) tact" where "op_tanh = traced_unary Tanh 0 0"
definition op_sigmoid :: "nat \<Rightarrow> nat \<Rightarrow> ('o, unit) tact" where "op_sigmoid = traced_unary Sigmoid 0 0"
definition op_clamp :: "32 word \<Rightarrow> 32 word \<Rightarrow> nat \<Rightarrow> nat \<Rightarrow> ('o, unit) tact" where "op_clamp lo hi = traced_unary Clamp lo hi"

definition op_cast :: "Dtype \<Rightarrow> nat \<Rightarrow> nat \<Rightarrow> ('o, unit) tact" where
  "op_cast out_dtype a i = tbnd (slot_of_obj a) (\<lambda>(ta, sa).
     record_op i Cast [sa] 0 (device ta) out_dtype (rows ta) (cols ta) 0)"

definition op_where :: "nat \<Rightarrow> nat \<Rightarrow> nat \<Rightarrow> nat \<Rightarrow> ('o, unit) tact" where
  "op_where cnd a b i = tbnd (slot_of_obj cnd) (\<lambda>(tc, sc). tbnd (slot_of_obj a) (\<lambda>(ta, sa). tbnd (slot_of_obj b) (\<lambda>(tb, sb).
     let r = binary_shape ta tb; (rs, cs) = broadcast_shape3 tc ta tb in
     record_op i Where [sc, sa, sb] 0 (device r) (dtype r) rs cs 0)))"

definition op_modulate :: "nat \<Rightarrow> nat \<Rightarrow> nat \<Rightarrow> nat \<Rightarrow> ('o, unit) tact" where
  "op_modulate x sc sh i = tbnd (slot_of_obj x) (\<lambda>(tx, sx). tbnd (slot_of_obj sc) (\<lambda>(_, s1). tbnd (slot_of_obj sh) (\<lambda>(_, s2).
     record_op i Modulate [sx, s1, s2] 0 (device tx) (dtype tx) (rows tx) (cols tx) 0)))"

text \<open>The slots of an optional operand: none when it is absent.\<close>

definition optional_slot :: "nat \<Rightarrow> ('o, int list) tact" where
  "optional_slot i = tbnd (peek_obj i) (\<lambda>t. tbnd (tlift (absent t)) (\<lambda>b.
     if b then tret [] else tbnd (get_or_register_slot t) (\<lambda>s. tret [s])))"

definition op_rms_norm :: "32 word \<Rightarrow> nat \<Rightarrow> nat \<Rightarrow> nat \<Rightarrow> ('o, unit) tact" where
  "op_rms_norm eps x gamma i = tbnd (slot_of_obj x) (\<lambda>(tx, sx). tbnd (optional_slot gamma) (\<lambda>g.
     record_op i RMSNorm (sx # g) eps (device tx) (dtype tx) (rows tx) (cols tx) 0))"

definition op_layernorm :: "32 word \<Rightarrow> nat \<Rightarrow> nat \<Rightarrow> nat \<Rightarrow> nat \<Rightarrow> ('o, unit) tact" where
  "op_layernorm eps x gamma beta i = tbnd (slot_of_obj x) (\<lambda>(tx, sx). tbnd (optional_slot gamma) (\<lambda>g. tbnd (optional_slot beta) (\<lambda>b.
     record_op i LayerNorm (sx # g @ b) eps (device tx) (dtype tx) (rows tx) (cols tx) 0)))"

definition op_add_assign :: "nat \<Rightarrow> nat \<Rightarrow> ('o, int) tact" where
  "op_add_assign a b = tbnd (slot_of_obj a) (\<lambda>(_, sa). tbnd (slot_of_obj b) (\<lambda>(_, sb). record_inplace_op Add sa sb 0 a 0))"

definition op_mul_assign :: "nat \<Rightarrow> nat \<Rightarrow> ('o, int) tact" where
  "op_mul_assign a b = tbnd (slot_of_obj a) (\<lambda>(_, sa). tbnd (slot_of_obj b) (\<lambda>(_, sb). record_inplace_op Mul sa sb 0 a 0))"

definition op_add_assign_scalar :: "32 word \<Rightarrow> nat \<Rightarrow> ('o, int) tact" where
  "op_add_assign_scalar v a = tbnd (slot_of_obj a) (\<lambda>(_, sa). record_inplace_op AddScalar sa (- 1) v a 0)"

definition op_mul_assign_scalar :: "32 word \<Rightarrow> nat \<Rightarrow> ('o, int) tact" where
  "op_mul_assign_scalar v a = tbnd (slot_of_obj a) (\<lambda>(_, sa). record_inplace_op MulScalar sa (- 1) v a 0)"

definition op_store :: "nat \<Rightarrow> nat \<Rightarrow> ('o, unit) tact" where
  "op_store dst src = tbnd (slot_of_obj src) (\<lambda>(_, ss). tbnd (peek_obj dst) (record_store ss))"

text \<open>The hooks of the in-place \<^verbatim>\<open>clamp\<close> and the three-argument \<^verbatim>\<open>cast\<close>: they tell whether the call was traced.\<close>

definition clamp_inplace_hook :: "nat \<Rightarrow> 32 word \<Rightarrow> 32 word \<Rightarrow> ('o, bool) tact" where
  "clamp_inplace_hook y lo hi s = (if \<not> active s then (Inr False, s)
     else tbnd (slot_of_obj y) (\<lambda>(_, sy). tbnd (record_inplace_op Clamp sy (- 1) lo y hi) (\<lambda>_. tret True)) s)"

definition cast_out_hook :: "nat \<Rightarrow> nat \<Rightarrow> nat \<Rightarrow> Dtype \<Rightarrow> ('o, bool) tact" where
  "cast_out_hook tmp src dst out_dtype s = (if \<not> active s then (Inr False, s)
     else tbnd (slot_of_obj src) (\<lambda>(ts, ss). tbnd (record_cast_out tmp ss ts dst out_dtype) (\<lambda>_. tret True)) s)"

end
