(* ===== verification/TraceInv.thy ===== *)
theory TraceInv
  imports TraceCtx
begin

text \<open>
  The invariant of the trace context: the graph is in topological order and every symbolic tensor alive names a node of the
  active trace that describes it. Every command keeps it.
\<close>

section \<open>Symbolic tensors under tensor commands\<close>

definition syms :: "'o world \<Rightarrow> Tensor set" where
  "syms w = {t \<in> ran (objs w). 0 \<le> jit_slot t}"

definition hooked :: "('o, 'a) act \<Rightarrow> bool" where
  "hooked m \<longleftrightarrow> (\<forall>w. retarget_hook (snd (m w)) = retarget_hook w)"

named_theorems hooked_intros

lemma hookedD: "hooked m \<Longrightarrow> m w = (r, w') \<Longrightarrow> retarget_hook w' = retarget_hook w"
  unfolding hooked_def by (metis snd_conv)

lemma hookedI: "(\<And>w r w'. m w = (r, w') \<Longrightarrow> retarget_hook w' = retarget_hook w) \<Longrightarrow> hooked m"
  unfolding hooked_def by (metis prod.collapse)

lemma hooked_simple [hooked_intros]: "hooked (ret x)" "hooked (lift r)" "hooked (heap_act f)" "hooked (backend_act d g)"
  by (auto simp: hooked_def ret_def lift_def heap_act_def backend_act_def split: sum.split)

lemma hooked_sbnd [hooked_intros]: "hooked m \<Longrightarrow> (\<And>x. hooked (f x)) \<Longrightarrow> hooked (sbnd m f)"
  by (rule hookedI) (auto simp: sbnd_def dest!: hookedD split: prod.splits sum.splits)

lemma hooked_reading [hooked_intros]: "(\<And>w. hooked (f w)) \<Longrightarrow> hooked (reading f)"
  by (simp add: hooked_def reading_def)

lemma hooked_if [hooked_intros]: "hooked m \<Longrightarrow> hooked n \<Longrightarrow> hooked (if b then m else n)"
  by simp

lemma hooked_alloc [hooked_intros]: "hooked (backend_alloc d n)" "hooked (backend_free d p)" "hooked (backend_zero d p n)" "hooked (release t)"
proof -
  show a: "hooked (backend_alloc d n)" by (auto simp: hooked_def backend_alloc_def Let_def split: sum.split prod.split)
  show b: "hooked (backend_free d p)" "hooked (backend_zero d p n)" unfolding backend_free_def backend_zero_def by (intro hooked_intros)+
  show "hooked (release t)" using release_keeps unfolding hooked_def keeps_def by (metis prod.collapse)
qed

lemma hooked_owning [hooked_intros]: "hooked m \<Longrightarrow> hooked (owning t m)"
  by (rule hookedI) (auto simp: owning_def hooked_alloc(4) [unfolded hooked_def] dest!: hookedD split: prod.splits sum.splits)

lemma hooked_with_obj [hooked_intros]: "(\<And>t. hooked (f t)) \<Longrightarrow> hooked (with_obj i f)"
  by (auto simp: hooked_def with_obj_def split: option.split)

lemma hooked_let [hooked_intros]: "(\<And>y. hooked (f y)) \<Longrightarrow> hooked (Let x f)"
  by simp

lemma hooked_factories [hooked_intros]: "hooked (empty_on d r c dt)" "hooked (zeros_on d r c dt)" "hooked (view d p r c dt)" "hooked (clone t)"
  unfolding zeros_on_def clone_def empty_on_def view_def by (intro hooked_intros)+

lemma hooked_staging [hooked_intros]: "(\<And>p. hooked (body p)) \<Longrightarrow> hooked (via_staging n body)"
  by (rule hookedI) (fastforce simp: via_staging_def heap_act_def dest!: hookedD split: sum.splits prod.splits)

lemma hooked_to_device [hooked_intros]: "hooked (to_device t d)"
proof -
  have b: "hooked (bounce target dst source src n)" for target dst source src n unfolding bounce_def by (intro hooked_intros)
  have "hooked (to_copy target dst source src n)" for target dst source src n
    by (rule hookedI) (auto simp: to_copy_def heap_act_def backend_act_def dest: hookedD [OF b] split: if_splits sum.splits option.splits)
  then show ?thesis unfolding to_device_def by (intro hooked_intros)
qed

lemma hooked_construct [hooked_intros]: "hooked m \<Longrightarrow> hooked (construct i m)"
  unfolding construct_def by (intro hooked_intros) (simp_all add: hooked_def)

lemma hooked_lifetime [hooked_intros]: "hooked (dtor i)" "hooked (move_ctor i j)" "hooked (move_assign i j)" "hooked (resize_obj i r c dt)"
proof -
  note r = hookedD [OF hooked_alloc(4)]
  show "hooked (dtor i)"
    by (rule hookedI) (auto simp: dtor_def with_obj_def sbnd_def dest!: r split: option.splits prod.splits sum.splits)
  show "hooked (move_ctor i j)" by (auto simp: hooked_def move_ctor_def with_obj_def split: option.split)
  show "hooked (move_assign i j)"
    by (rule hookedI) (auto simp: move_assign_def ret_def with_obj_def sbnd_def dest!: r split: option.splits prod.splits sum.splits if_splits)
  show "hooked (resize_obj i r c dt)"
    by (rule hookedI) (auto simp: resize_obj_def with_obj_def keeps_def dest!: resize_keeps split: option.splits prod.splits)
qed

lemma hooked_run_cmd: "hooked (run_cmd c)"
proof -
  have a: "hooked (assign_clone i j k)" for i j k unfolding assign_clone_def by (intro hooked_intros)
  have "hooked (copy_ctor i j k)" for i j k
    by (rule hookedI) (auto simp: copy_ctor_def dest!: hookedD [OF a] split: prod.splits sum.splits)
  then show ?thesis using a by (cases c) (auto simp: copy_assign_def intro!: hooked_intros)
qed

text \<open>No command on tensors makes a new symbolic tensor: the ones alive afterwards were alive before.\<close>

lemma syms_upd: "objs w' = (objs w)(i \<mapsto> v) \<Longrightarrow> (0 \<le> jit_slot v \<Longrightarrow> v \<in> syms w) \<Longrightarrow> syms w' \<subseteq> syms w"
  by (auto simp: syms_def ran_def)

lemma syms_keeps: "keeps w w' \<Longrightarrow> syms w' = syms w"
  by (simp add: keeps_def syms_def)

lemma construct_syms:
  fixes w :: "'a world"
  assumes k: "world_ok E w" and n: "objs w i = None" and m: "spec m w Q (failed E w)"
    and q: "\<And>t w'. Q t w' \<Longrightarrow> fresh_tensor E w t w' \<and> jit_slot t < 0"
  shows "spec (construct i m) w (\<lambda>_ w'. syms w' \<subseteq> syms w) (\<lambda>w'. syms w' \<subseteq> syms w)"
proof (rule spec_mono [OF spec_construct [OF k n, where P = "\<lambda>t _. jit_slot t < 0"]])
  show "spec m w (\<lambda>t w'. fresh_tensor E w t w' \<and> jit_slot t < 0 \<and> jit_slot t < 0) (failed E w)"
    by (rule spec_mono [OF m]) (auto dest: q)
  show "failed E w w' \<Longrightarrow> syms w' \<subseteq> syms w" for w' using syms_keeps [of w w'] by (auto simp: failed_def)
  fix x and w' :: "'a world"
  assume "world_ok E w' \<and> (\<exists>t w1. objs w' = (objs w)(i \<mapsto> t) \<and> jit_slot t < 0 \<and> fresh_tensor E w t w1 \<and> w' = set_obj i (Some t) w1)"
  then obtain t where "objs w' = (objs w)(i \<mapsto> t)" "jit_slot t < 0" by blast
  then show "syms w' \<subseteq> syms w" by (intro syms_upd) auto
qed

lemma not_symbolic_moved: "\<not> 0 \<le> jit_slot (moved_from u)"
  by (simp add: moved_from_def)

lemma run_cmd_syms:
  assumes k: "world_ok E w" and c: "cmd_ok w cmd"
  shows "spec (run_cmd cmd) w (\<lambda>_ w'. syms w' \<subseteq> syms w) (\<lambda>w'. syms w' \<subseteq> syms w)"
proof -
  from k have i: "world_inv E w" by (simp add: world_ok_def)
  have f: "failed E w w' \<Longrightarrow> syms w' \<subseteq> syms w" for w' using syms_keeps [of w w'] by (auto simp: failed_def)
  have mv: "syms w' \<subseteq> syms w" if "objs w' = (objs w)(x \<mapsto> u', y \<mapsto> moved_from u)" "objs w y = Some u" "u' = u \<or> jit_slot u' < 0" for w' x y u u'
    using that not_symbolic_moved [of u] by (auto simp: syms_def ran_def split: if_splits)
  show ?thesis
  proof (cases cmd)
    case (EmptyOn x d r c dt)
    then show ?thesis using c by (auto intro!: construct_syms [OF k _ spec_empty_on [OF i]] simp: made_def)
  next
    case (ZerosOn x d r c dt)
    then show ?thesis using c by (auto intro!: construct_syms [OF k _ spec_zeros_on [OF i]] simp: made_def)
  next
    case (View x d p r c dt)
    then show ?thesis using c by (auto intro!: construct_syms [OF k _ spec_view [OF i]])
  next
    case (ToDevice x j d)
    with c k obtain t where t: "objs w j = Some t" "readable w t" "is_int32 (rows t)" "is_int32 (cols t)"
      by (auto elim: source_okE)
    from t have "spec (with_obj j (\<lambda>s. to_device s d)) w
        (\<lambda>v w'. made E w d (rows t) (cols t) (dtype t) v w' \<and> same_contents w t w' v) (failed E w)"
      using spec_to_device [OF i] by (simp add: spec_with_obj)
    then show ?thesis using ToDevice c by (auto intro!: construct_syms [OF k] simp: made_def)
  next
    case (MoveCtor x j)
    then show ?thesis using c by (auto intro!: spec_mono [OF spec_move_ctor [OF k]] dest: mv)
  next
    case (MoveAssign x j)
    then show ?thesis using c k
      by (cases "x = j") (auto intro!: spec_mono [OF spec_move_assign [OF k]] simp: move_assign_def [of j j] dest!: mv split: if_splits)
  next
    case (CopyCtor x j tmp)
    then show ?thesis using c k by (auto intro!: spec_mono [OF spec_copy_ctor [OF k]] elim!: source_okE dest: syms_upd simp: syms_def)
  next
    case (CopyAssign x j tmp)
    then show ?thesis using c k f
      by (cases "x = j") (auto intro!: spec_mono [OF spec_assign_clone [OF k]] elim!: source_okE dest: syms_upd simp: copy_assign_def)
  next
    case (Resize x r c dt)
    then obtain t where "objs w x = Some t" using c by auto
    then show ?thesis using c Resize
      by (auto intro!: spec_mono [OF spec_resize_obj [OF k]] simp: syms_def ran_def split: if_splits)
  next
    case (Destroy x)
    then show ?thesis using c by (auto intro!: spec_mono [OF spec_dtor [OF k]] simp: syms_def ran_def split: if_splits)
  qed
qed

section \<open>The invariant of the context\<close>

definition sym_node :: "TraceNode \<Rightarrow> Tensor \<Rightarrow> bool" where
  "sym_node n t \<longleftrightarrow> n_rows n = rows t \<and> n_cols n = cols t \<and> n_dtype n = dtype t \<and> n_device n = device t \<and> op n \<noteq> Input \<and> buffer n = Null"

definition named_by :: "TraceNode list \<Rightarrow> Tensor \<Rightarrow> bool" where
  "named_by ns t \<longleftrightarrow> valid_slot ns (jit_slot t) \<and> sym_node (ns ! nat (jit_slot t)) t"

definition ctx_ok :: "nat set \<Rightarrow> 'o tstate \<Rightarrow> bool" where
  "ctx_ok E s \<longleftrightarrow> world_ok E (tw s) \<and> nodes_wf (nodes (dag s)) \<and> (active s \<longrightarrow> retarget_hook (tw s))
     \<and> (\<forall>t\<in>syms (tw s). active s \<and> named_by (nodes (dag s)) t)"

definition tspec :: "('o, 'a) tact \<Rightarrow> 'o tstate \<Rightarrow> ('a \<Rightarrow> 'o tstate \<Rightarrow> bool) \<Rightarrow> ('o tstate \<Rightarrow> bool) \<Rightarrow> bool" where
  "tspec m s Q R \<longleftrightarrow> (case m s of (Inr x, s') \<Rightarrow> Q x s' | (Inl (Throw e), s') \<Rightarrow> R s' | (Inl (UB e), s') \<Rightarrow> False)"

lemma tspec_ret [simp]: "tspec (tret x) s Q R = Q x s"
  by (simp add: tspec_def tret_def)

lemma tspec_tbnd: "tspec (tbnd m f) s Q R \<longleftrightarrow> tspec m s (\<lambda>x s'. tspec (f x) s' Q R) R"
  by (auto simp: tspec_def tbnd_def split: prod.splits sum.splits err.splits)

lemma tspec_mono:
  "tspec m s Q R \<Longrightarrow> (\<And>x s'. Q x s' \<Longrightarrow> Q' x s') \<Longrightarrow> (\<And>s'. R s' \<Longrightarrow> R' s') \<Longrightarrow> tspec m s Q' R'"
  by (auto simp: tspec_def split: prod.splits sum.splits err.splits)

lemma tspec_bnd: "tspec m s P R \<Longrightarrow> (\<And>x s'. P x s' \<Longrightarrow> tspec (f x) s' Q R) \<Longrightarrow> tspec (tbnd m f) s Q R"
  unfolding tspec_tbnd by (erule tspec_mono) auto

lemma tspec_in_world:
  "tspec (in_world m) s Q R \<longleftrightarrow> spec m (tw s) (\<lambda>x w'. Q x (s\<lparr>tw := w'\<rparr>)) (\<lambda>w'. R (s\<lparr>tw := w'\<rparr>))"
  by (auto simp: tspec_def spec_def in_world_def split: prod.splits sum.splits err.splits)

lemma tspec_peek: "objs (tw s) i = Some t \<Longrightarrow> tspec (peek_obj i) s Q R \<longleftrightarrow> Q t s"
  by (simp add: tspec_def peek_obj_def)

lemma tspec_on_dag: "tspec (on_dag f) s Q R \<longleftrightarrow> (case f (dag s) of (x, g) \<Rightarrow> Q x (s\<lparr>dag := g\<rparr>))"
  by (auto simp: tspec_def on_dag_def split: prod.split)

lemmas tspec_simps = tspec_tbnd tspec_in_world tspec_peek tspec_on_dag

lemma tspec_point [simp]: "tspec (point_at p slot) s Q R = Q () (s\<lparr>active_ptr_to_slot := (active_ptr_to_slot s)(p \<mapsto> slot)\<rparr>)"
  by (simp add: tspec_def point_at_def)

text \<open>Recording only appends nodes; the world and the mode stay.\<close>

definition grows :: "nat set \<Rightarrow> 'o tstate \<Rightarrow> 'o tstate \<Rightarrow> bool" where
  "grows E s s' \<longleftrightarrow> ctx_ok E s' \<and> active s' = active s \<and> tw s' = tw s \<and> (\<exists>ms. nodes (dag s') = nodes (dag s) @ ms)"

lemma grows_refl: "ctx_ok E s \<Longrightarrow> grows E s s"
  by (simp add: grows_def)

lemma grows_trans: "grows E s s' \<Longrightarrow> grows E s' s'' \<Longrightarrow> grows E s s''"
  by (auto simp: grows_def)

lemma grows_valid: "grows E s s' \<Longrightarrow> valid_slot (nodes (dag s)) i \<Longrightarrow> valid_slot (nodes (dag s')) i"
  by (auto simp: grows_def)

lemma named_by_append: "named_by ns t \<Longrightarrow> named_by (ns @ ms) t"
  by (auto simp: named_by_def valid_slot_def nth_append)

lemma ctx_ok_append:
  "ctx_ok E s \<Longrightarrow> nodes g = nodes (dag s) @ ms \<Longrightarrow> nodes_wf (nodes g) \<Longrightarrow> grows E s (s\<lparr>dag := g\<rparr>)"
  by (auto simp: ctx_ok_def grows_def intro: named_by_append)

lemma ctx_ok_ptr [simp]: "ctx_ok E (s\<lparr>active_ptr_to_slot := f\<rparr>) = ctx_ok E s" "grows E s (s'\<lparr>active_ptr_to_slot := f\<rparr>) = grows E s s'"
  by (simp_all add: ctx_ok_def grows_def)

lemma push_node_grows:
  assumes "ctx_ok E s" "list_all (valid_slot (nodes (dag s))) (inputs n)"
  obtains i g where "push_node n (dag s) = (i, g)" "grows E s (s\<lparr>dag := g\<rparr>)" "nodes g = nodes (dag s) @ [n\<lparr>nid := i\<rparr>]"
    "i = int (length (nodes (dag s)))" "valid_slot (nodes g) i"
proof -
  obtain i g where p: "push_node n (dag s) = (i, g)" by force
  have w: "nodes_wf (nodes g)" "nodes g = nodes (dag s) @ [n\<lparr>nid := i\<rparr>]" "i = int (length (nodes (dag s)))"
    using push_node_wf [OF p] assms by (auto simp: ctx_ok_def)
  then show ?thesis using that p ctx_ok_append [OF assms(1) w(2,1)] by (simp add: valid_slot_def)
qed

lemma register_input_grows:
  assumes "ctx_ok E s"
  shows "\<exists>i g. register_input t (dag s) = (i, g) \<and> grows E s (s\<lparr>dag := g\<rparr>) \<and> valid_slot (nodes g) i"
proof -
  have new: "\<exists>i g. new_input t (dag s) = (i, g) \<and> grows E s (s\<lparr>dag := g\<rparr>) \<and> valid_slot (nodes g) i"
  proof -
    let ?n = "default_node\<lparr>op := Input, buffer := data t, n_device := device t, n_dtype := dtype t, n_rows := rows t, n_cols := cols t\<rparr>"
    obtain i g where p: "push_node ?n (dag s) = (i, g)" "grows E s (s\<lparr>dag := g\<rparr>)" "valid_slot (nodes g) i"
      by (rule push_node_grows [OF assms, of ?n]) (simp_all add: default_node_def)
    then show ?thesis by (auto simp: new_input_def grows_def ctx_ok_def)
  qed
  show ?thesis
  proof (cases "input_ptr_to_slot (dag s) (data t)")
    case (Some slot)
    then show ?thesis using new grows_refl [OF assms] by (auto simp: register_input_def slot_matches_def)
  qed (use new in \<open>simp add: register_input_def\<close>)
qed

lemma spec_get_slot:
  assumes k: "ctx_ok E s" and t: "t \<in> ran (objs (tw s))"
  shows "tspec (get_or_register_slot t) s (\<lambda>slot s'. grows E s s' \<and> valid_slot (nodes (dag s')) slot) R"
proof -
  obtain i g where g: "register_input t (dag s) = (i, g)" "grows E s (s\<lparr>dag := g\<rparr>)" "valid_slot (nodes g) i"
    using register_input_grows [OF k] by blast
  then have new: "tspec (new_slot t) s (\<lambda>slot s'. grows E s s' \<and> valid_slot (nodes (dag s')) slot) R"
    by (simp add: new_slot_def tspec_def tbnd_def on_dag_def)
  show ?thesis
  proof (cases "0 \<le> jit_slot t")
    case True
    then have "valid_slot (nodes (dag s)) (jit_slot t)" using k t by (auto simp: ctx_ok_def syms_def named_by_def)
    then show ?thesis using True grows_refl [OF k] by (simp add: tspec_def get_or_register_slot_def)
  next
    case False
    then show ?thesis using new grows_refl [OF k]
      by (cases "active_ptr_to_slot s (data t)") (auto simp: tspec_def get_or_register_slot_def slot_matches_def)
  qed
qed

lemma spec_slot_of_obj:
  assumes k: "ctx_ok E s" and t: "objs (tw s) i = Some t"
  shows "tspec (slot_of_obj i) s (\<lambda>(u, slot) s'. u = t \<and> grows E s s' \<and> valid_slot (nodes (dag s')) slot) R"
  unfolding slot_of_obj_def tspec_tbnd tspec_peek [OF t]
  by (rule tspec_mono [OF spec_get_slot [OF k ranI [of _ i]]]) (use t in auto)

section \<open>Recording keeps the invariant\<close>

lemma symbolic_simps [simp]:
  "rows (symbolic slot d dt r c) = r" "cols (symbolic slot d dt r c) = c" "dtype (symbolic slot d dt r c) = dt"
  "device (symbolic slot d dt r c) = d" "jit_slot (symbolic slot d dt r c) = slot" "data (symbolic slot d dt r c) = Null"
  "owns (symbolic slot d dt r c) = False" "cap_bytes (symbolic slot d dt r c) = 0" "tset (symbolic slot d dt r c) = {}"
  by (simp_all add: symbolic_def empty_tensor_def tset_def)

definition dims_int :: "int \<Rightarrow> int \<Rightarrow> bool" where
  "dims_int r c \<longleftrightarrow> 0 \<le> r \<and> 0 \<le> c \<and> is_int32 r \<and> is_int32 c"

lemma obj_dims: "ctx_ok E s \<Longrightarrow> objs (tw s) i = Some t \<Longrightarrow> dims_int (rows t) (cols t)"
  using invD(3) by (fastforce simp: ctx_ok_def world_ok_def tensor_ok_def dims_int_def)

lemma fresh_slot: "ctx_ok E s \<Longrightarrow> slot_to_tensor (tw s) (int (length (nodes (dag s)))) = None"
proof (rule ccontr)
  let ?n = "int (length (nodes (dag s)))"
  assume k: "ctx_ok E s" and "slot_to_tensor (tw s) ?n \<noteq> None"
  then obtain i t where "objs (tw s) i = Some t" "jit_slot t = ?n" by (auto simp: ctx_ok_def world_ok_def slots_ok_def)
  then have "named_by (nodes (dag s)) t" using k by (auto simp: ctx_ok_def syms_def intro: ranI)
  then show False using \<open>jit_slot t = ?n\<close> by (simp add: named_by_def valid_slot_def)
qed

lemma track_world_ok:
  assumes k: "world_ok E w" and i: "objs w i = None" and f: "slot_to_tensor w slot = None" "0 \<le> slot" and h: "retarget_hook w"
    and d: "dims_int r c"
  shows "world_ok E (set_obj i (Some (symbolic slot dv dt r c)) (w\<lparr>slot_to_tensor := (slot_to_tensor w)(slot \<mapsto> i)\<rparr>))"
proof -
  let ?w = "w\<lparr>slot_to_tensor := (slot_to_tensor w)(slot \<mapsto> i)\<rparr>"
  from k have iw: "world_inv E ?w" and sl: "slots_ok w" by (simp_all add: world_ok_def world_inv_def)
  have g: "slot_to_tensor w sl = Some j \<longleftrightarrow> 0 \<le> sl \<and> (\<exists>t. objs w j = Some t \<and> jit_slot t = sl)" for sl j
    using sl by (simp add: slots_ok_def)
  have "world_inv E (set_obj i (Some (symbolic slot dv dt r c)) ?w)"
    by (rule inv_put) (use iw i d in \<open>simp_all add: tensor_ok_def dims_int_def\<close>)
  moreover have "slots_ok (set_obj i (Some (symbolic slot dv dt r c)) ?w)"
    unfolding slots_ok_def using h f i g [of slot] by (auto simp: g)
  ultimately show ?thesis by (simp add: world_ok_def)
qed

lemma spec_record_op:
  assumes k: "ctx_ok E s" and a: "active s" and i: "objs (tw s) i = None" and ins: "list_all (valid_slot (nodes (dag s))) ins"
    and op: "kd \<noteq> Input" and d: "dims_int r c"
  shows "tspec (record_op i kd ins v dv dt r c v2) s (\<lambda>_ s'. ctx_ok E s' \<and> active s' \<and>
      objs (tw s') = (objs (tw s))(i \<mapsto> symbolic (int (length (nodes (dag s)))) dv dt r c)) R"
proof -
  let ?n = "default_node\<lparr>op := kd, inputs := ins, scalar := v, scalar2 := v2, buffer := Null, n_device := dv, n_dtype := dt, n_rows := r, n_cols := c\<rparr>"
  let ?slot = "int (length (nodes (dag s)))"
  let ?t = "symbolic ?slot dv dt r c"
  obtain j g where p: "push_node ?n (dag s) = (j, g)" "grows E s (s\<lparr>dag := g\<rparr>)" "nodes g = nodes (dag s) @ [?n\<lparr>nid := j\<rparr>]" "j = ?slot"
    by (rule push_node_grows [OF k, of ?n]) (use ins in simp_all)
  let ?w = "set_obj i (Some ?t) ((tw s)\<lparr>slot_to_tensor := (slot_to_tensor (tw s))(?slot \<mapsto> i)\<rparr>)"
  have kg: "ctx_ok E (s\<lparr>dag := g\<rparr>)" using p(2) by (simp add: grows_def)
  have w: "world_ok E ?w"
    by (rule track_world_ok) (use k a i d fresh_slot [OF k] in \<open>simp_all add: ctx_ok_def\<close>)
  have "syms ?w \<subseteq> insert ?t (syms (tw s))" by (auto simp: syms_def ran_def split: if_splits)
  moreover have "named_by (nodes g) ?t" using p(3,4) op by (simp add: named_by_def valid_slot_def sym_node_def nth_append)
  ultimately have "ctx_ok E (s\<lparr>dag := g, tw := ?w\<rparr>)" using kg w a unfolding ctx_ok_def by auto
  then show ?thesis using a p(1,4) by (simp add: record_op_def tspec_simps add_node_def spec_def track_def)
qed

lemma spec_record_store:
  assumes k: "ctx_ok E s" and v: "valid_slot (nodes (dag s)) slot"
  shows "tspec (record_store slot t) s (\<lambda>_ s'. grows E s s') (ctx_ok E)"
proof (cases "0 \<le> jit_slot t")
  case True
  then show ?thesis using k by (simp add: record_store_def tlift_def tspec_def)
next
  case False
  let ?n = "default_node\<lparr>op := Copy, inputs := [slot], scalar := 0, scalar2 := 0, buffer := data t, n_device := device t, n_dtype := dtype t, n_rows := rows t, n_cols := cols t\<rparr>"
  obtain j g where "push_node ?n (dag s) = (j, g)" "grows E s (s\<lparr>dag := g\<rparr>)"
    by (rule push_node_grows [OF k, of ?n]) (use v in simp_all)
  then show ?thesis using False by (simp add: record_store_def tspec_simps add_node_def)
qed

lemma sym_tensor: "tensor_ok s m t \<Longrightarrow> 0 \<le> jit_slot t \<Longrightarrow> data t = Null \<and> \<not> owns t \<and> cap_bytes t = 0"
  by (auto simp: tensor_ok_def split: if_splits)

lemma retrack_world_ok:
  assumes k: "world_ok E w" and t: "objs w i = Some t" "0 \<le> jit_slot t" and f: "slot_to_tensor w slot = None" "0 \<le> slot"
  shows "world_ok E (set_obj i (Some (t\<lparr>jit_slot := slot\<rparr>)) (w\<lparr>slot_to_tensor := (slot_to_tensor w)(jit_slot t := None, slot \<mapsto> i)\<rparr>))"
proof -
  let ?w = "w\<lparr>slot_to_tensor := (slot_to_tensor w)(jit_slot t := None, slot \<mapsto> i)\<rparr>"
  from k have iw: "world_inv E ?w" and sl: "slots_ok w" by (simp_all add: world_ok_def world_inv_def)
  have g: "slot_to_tensor w sl = Some j \<longleftrightarrow> 0 \<le> sl \<and> (\<exists>t. objs w j = Some t \<and> jit_slot t = sl)" for sl j
    using sl by (simp add: slots_ok_def)
  have ok: "tensor_ok (rt w) (heap w) t" "tset t \<inter> E = {}" using invD(3,4) [of E w i t] k t by (simp_all add: world_ok_def)
  note tk = inv_take [OF iw, of i t]
  have "world_inv E (set_obj i (Some (t\<lparr>jit_slot := slot\<rparr>)) (set_obj i None ?w))"
    by (rule inv_put) (use tk t ok sym_tensor [OF ok(1)] in \<open>simp_all add: tensor_ok_def\<close>)
  moreover have "slots_ok (set_obj i (Some (t\<lparr>jit_slot := slot\<rparr>)) ?w)"
  proof -
    have tr: "slot_to_tensor w (jit_slot t) = Some i" "retarget_hook w" using slots_tracked [OF sl t] by simp_all
    have "((slot_to_tensor w)(jit_slot t := None, slot \<mapsto> i)) k = Some j \<longleftrightarrow>
        0 \<le> k \<and> (\<exists>u. ((objs w)(i \<mapsto> t\<lparr>jit_slot := slot\<rparr>)) j = Some u \<and> jit_slot u = k)" for k j
    proof (cases "j = i")
      case True
      then show ?thesis using f t(1) g [of k i] by auto
    next
      case False
      then show ?thesis using f tr g [of k j] by auto
    qed
    then show ?thesis using tr by (simp add: slots_ok_def)
  qed
  ultimately show ?thesis by (simp add: world_ok_def set_obj_same)
qed

text \<open>The in-place result stands for its target: \<open>target\<close> is the slot of the tensor at \<open>i\<close>.\<close>

definition names :: "'o tstate \<Rightarrow> int \<Rightarrow> Tensor \<Rightarrow> bool" where
  "names s slot t \<longleftrightarrow> valid_slot (nodes (dag s)) slot \<and> (0 \<le> jit_slot t \<longrightarrow> slot = jit_slot t)"

lemma spec_slot_names:
  assumes k: "ctx_ok E s" and t: "objs (tw s) i = Some t"
  shows "tspec (slot_of_obj i) s (\<lambda>(u, slot) s'. u = t \<and> grows E s s' \<and> names s' slot t) R"
proof (cases "0 \<le> jit_slot t")
  case True
  then have "named_by (nodes (dag s)) t" using k t by (auto simp: ctx_ok_def syms_def intro: ranI)
  then show ?thesis using True t grows_refl [OF k]
    by (simp add: slot_of_obj_def tspec_simps, simp add: tspec_def get_or_register_slot_def names_def named_by_def)
next
  case False
  then show ?thesis using spec_slot_of_obj [OF k t, of R] by (elim tspec_mono) (auto simp: names_def)
qed

lemma spec_record_inplace:
  assumes k: "ctx_ok E s" and a: "active s" and t: "objs (tw s) i = Some t" and n: "names s target t"
    and arg: "arg < 0 \<or> valid_slot (nodes (dag s)) arg" and op: "kd \<noteq> Input"
  shows "tspec (record_inplace_op kd target arg v i v2) s (\<lambda>_ s'. ctx_ok E s' \<and> active s' \<and>
     (\<exists>u. objs (tw s') = (objs (tw s))(i \<mapsto> u) \<and> u\<lparr>jit_slot := jit_slot t\<rparr> = t)) R"
proof -
  let ?tn = "nodes (dag s) ! nat target"
  let ?n = "default_node\<lparr>op := kd, inputs := (if 0 \<le> arg then [target, arg] else [target]), scalar := v, scalar2 := v2,
         buffer := data t, n_device := n_device ?tn, n_dtype := n_dtype ?tn, n_rows := n_rows ?tn, n_cols := n_cols ?tn,
         is_inplace := True, inplace_target_slot := target, is_live_at_end := True\<rparr>"
  let ?slot = "int (length (nodes (dag s)))"
  have v: "valid_slot (nodes (dag s)) target" using n by (simp add: names_def)
  obtain j g where p: "push_node ?n (dag s) = (j, g)" "grows E s (s\<lparr>dag := g\<rparr>)" "nodes g = nodes (dag s) @ [?n\<lparr>nid := j\<rparr>]" "j = ?slot"
    by (rule push_node_grows [OF k, of ?n]) (use v arg in auto)
  have add: "add_inplace_node kd target arg (data t) v v2 (dag s) = Inr (?slot, g)"
    using v p(1,4) by (simp add: add_inplace_node_def Let_def)
  have kg: "ctx_ok E (s\<lparr>dag := g\<rparr>)" using p(2) by (simp add: grows_def)
  have obj: "(objs (tw s))(i \<mapsto> t) = objs (tw s)" using t by (simp add: fun_upd_idem)
  show ?thesis
  proof (cases "0 \<le> jit_slot t")
    case False
    then show ?thesis using kg a t obj by (auto simp: record_inplace_op_def tspec_tbnd tspec_peek [OF t] tspec_def [of "\<lambda>st. case _ st of Inl e \<Rightarrow> _ e st | Inr x \<Rightarrow> _ x st"] add tbnd_def point_at_def tret_def intro!: exI [of _ t])
  next
    case True
    let ?u = "t\<lparr>jit_slot := ?slot\<rparr>"
    let ?w = "set_obj i (Some ?u) ((tw s)\<lparr>slot_to_tensor := (slot_to_tensor (tw s))(jit_slot t := None, ?slot \<mapsto> i)\<rparr>)"
    have w: "world_ok E ?w" by (rule retrack_world_ok) (use k t True fresh_slot [OF k] in \<open>simp_all add: ctx_ok_def\<close>)
    have st: "sym_node ?tn t" "data t = Null"
      using k t True n sym_tensor [of "rt (tw s)" "heap (tw s)" t] invD(3) [of E "tw s" i t]
      by (auto simp: ctx_ok_def world_ok_def syms_def named_by_def names_def intro: ranI)
    have "syms ?w \<subseteq> insert ?u (syms (tw s))" by (auto simp: syms_def ran_def split: if_splits)
    moreover have "named_by (nodes g) ?u" using p(3,4) op st by (simp add: named_by_def valid_slot_def sym_node_def nth_append)
    ultimately have "ctx_ok E (s\<lparr>dag := g, tw := ?w\<rparr>)" using kg w a unfolding ctx_ok_def by auto
    then show ?thesis using True a
      by (auto simp: record_inplace_op_def tspec_tbnd tspec_peek [OF t] tspec_def [of "\<lambda>st. case _ st of Inl e \<Rightarrow> _ e st | Inr x \<Rightarrow> _ x st"] add tbnd_def in_world_def retrack_def tret_def intro!: exI [of _ ?u])
  qed
qed

end
