(* ===== verification/TraceEnd.thy ===== *)
theory TraceEnd
  imports TraceInv
begin

text \<open>
  The life cycle of a trace: starting, discarding and ending it. Ending allocates storage for the results the caller still holds
  and hands the graph over; it leaves no symbolic tensor behind.
\<close>

section \<open>Starting and discarding\<close>

definition desym :: "Tensor \<Rightarrow> Tensor" where
  "desym t = (if 0 \<le> jit_slot t then neutral t else t)"

definition released :: "'o world \<Rightarrow> 'o world" where
  "released w = w\<lparr>objs := (\<lambda>i. map_option desym (objs w i)), slot_to_tensor := Map.empty\<rparr>"

lemma release_tracked_eq:
  assumes "slots_ok w"
  shows "release_tracked w = (Inr (), released w)"
proof -
  have r: "i \<in> ran (slot_to_tensor w) \<longleftrightarrow> (\<exists>t. objs w i = Some t \<and> 0 \<le> jit_slot t)" for i
    using assms by (auto simp: slots_ok_def ran_def)
  have "(\<lambda>i. if i \<in> ran (slot_to_tensor w) then map_option neutral (objs w i) else objs w i) = (\<lambda>i. map_option desym (objs w i))"
  proof
    fix i
    show "(if i \<in> ran (slot_to_tensor w) then map_option neutral (objs w i) else objs w i) = map_option desym (objs w i)"
      by (cases "objs w i") (auto simp: r desym_def)
  qed
  moreover have "\<not> (\<exists>i \<in> ran (slot_to_tensor w). objs w i = None)" by (auto simp: r)
  ultimately show ?thesis by (simp add: release_tracked_def released_def)
qed

lemma desym_simps [simp]: "jit_slot (desym t) < 0" "data (desym t) = data t" "owns (desym t) = owns t" "tset (desym t) = tset t"
  by (simp_all add: desym_def neutral_def)

lemma desym_not_symbolic [simp]: "\<not> 0 \<le> jit_slot (desym t)"
  by (simp add: desym_def neutral_def)

lemma tensor_ok_desym:
  assumes "tensor_ok s m t"
  shows "tensor_ok s m (desym t)"
proof (cases "0 \<le> jit_slot t")
  case True
  then show ?thesis using sym_tensor [OF assms True] by (simp add: desym_def neutral_def tensor_ok_def is_int32_def int32_max_def)
qed (use assms in \<open>simp add: desym_def\<close>)

lemma released_ok:
  assumes "world_ok E w"
  shows "world_ok E (released w) \<and> syms (released w) = {}"
proof -
  from assms have i: "world_inv E w" by (simp add: world_ok_def)
  have o: "objs (released w) j = Some u \<longleftrightarrow> (\<exists>t. objs w j = Some t \<and> u = desym t)" for j u
    by (auto simp: released_def)
  have u: "(\<Union>t\<in>ran (objs (released w)). tset t) = (\<Union>t\<in>ran (objs w). tset t)"
    by (auto simp: ran_def o) (metis desym_simps(4))+
  have f: "heap (released w) = heap w" "rt (released w) = rt w" by (simp_all add: released_def)
  have "world_inv E (released w)"
  proof (rule invI)
    show "tset t \<inter> tset u = {}" if "objs (released w) i = Some t" "objs (released w) j = Some u" "i \<noteq> j" for i j t u
      using that invD(6) [OF i] by (metis o desym_simps(4))
    show "tset t \<inter> E = {}" if "objs (released w) i = Some t" for i t using that invD(4) [OF i] by (metis o desym_simps(4))
  qed (use invD [OF i] in \<open>auto simp: f o u intro: tensor_ok_desym\<close>)
  moreover have "slots_ok (released w)" by (auto simp: slots_ok_def o) (auto simp: released_def)
  moreover have "syms (released w) = {}" by (auto simp: syms_def ran_def o)
  ultimately show ?thesis by (simp add: world_ok_def)
qed

lemma spec_begin:
  assumes "ctx_ok E s"
  shows "tspec begin_trace s (\<lambda>_ s'. ctx_ok E s' \<and> active s' \<and> nodes (dag s') = []
      \<and> tw s' = released ((tw s)\<lparr>retarget_hook := True\<rparr>)) (\<lambda>s'. s' = s \<and> active s)"
proof (cases "active s")
  case False
  let ?w = "(tw s)\<lparr>retarget_hook := True\<rparr>"
  have w: "world_ok E ?w" using assms by (simp add: ctx_ok_def world_ok_def world_inv_def slots_ok_def)
  then have "release_tracked ?w = (Inr (), released ?w)" by (intro release_tracked_eq) (simp add: world_ok_def)
  then show ?thesis using False released_ok [OF w]
    by (simp add: begin_trace_def tspec_def tbnd_def in_world_def dag_reset_def empty_dag_def ctx_ok_def released_def)
qed (simp add: begin_trace_def tspec_def)

lemma spec_discard:
  assumes "ctx_ok E s"
  shows "tspec discard s (\<lambda>_ s'. ctx_ok E s' \<and> \<not> active s' \<and> nodes (dag s') = [] \<and> tw s' = released (tw s)) R"
proof -
  have w: "world_ok E (tw s)" using assms by (simp add: ctx_ok_def)
  then have "release_tracked (tw s) = (Inr (), released (tw s))" by (intro release_tracked_eq) (simp add: world_ok_def)
  then show ?thesis using released_ok [OF w]
    by (simp add: discard_def tspec_def tbnd_def in_world_def dag_reset_def empty_dag_def ctx_ok_def)
qed

section \<open>Casting into a tensor\<close>

lemma ctx_ok_world:
  "ctx_ok E s \<Longrightarrow> world_ok E w \<Longrightarrow> retarget_hook w = retarget_hook (tw s) \<Longrightarrow> syms w \<subseteq> syms (tw s) \<Longrightarrow> ctx_ok E (s\<lparr>tw := w\<rparr>)"
  by (auto simp: ctx_ok_def)

lemma move_dtor_ok:
  assumes k: "world_ok E w" and t: "objs w this = Some t" and s: "objs w tmp = Some u" and ne: "this \<noteq> tmp"
  shows "spec (sbnd (move_assign this tmp) (\<lambda>_. dtor tmp)) w (\<lambda>_ w'. world_ok E w' \<and>
    objs w' = (objs w)(this \<mapsto> u\<lparr>jit_slot := (if 0 \<le> jit_slot u then jit_slot u else - 1)\<rparr>, tmp := None)) (\<lambda>_. False)"
proof (rule spec_seq [OF spec_move_assign [OF k t s ne]])
  fix x and w' :: "'a world"
  let ?u = "u\<lparr>jit_slot := (if 0 \<le> jit_slot u then jit_slot u else - 1)\<rparr>"
  assume a: "world_ok E w' \<and> objs w' = (objs w)(this \<mapsto> ?u, tmp \<mapsto> moved_from u) \<and> (\<forall>b. b \<notin> tset t \<longrightarrow> blocks (heap w') b = blocks (heap w) b)"
  then have o: "objs w' tmp = Some (moved_from u)" by simp
  show "spec (dtor tmp) w' (\<lambda>_ w'. world_ok E w' \<and> objs w' = (objs w)(this \<mapsto> ?u, tmp := None)) (\<lambda>_. False)"
    by (rule spec_mono [OF spec_dtor [OF _ o]]) (use a in auto)
qed simp

lemma spec_cast_out:
  assumes k: "ctx_ok E s" and a: "active s" and v: "valid_slot (nodes (dag s)) slot" and d: "objs (tw s) dst = Some t"
    and tmp: "objs (tw s) tmp = None" and r: "dims_int (rows src) (cols src)"
  shows "tspec (record_cast_out tmp slot src dst dt) s (\<lambda>_ s'. ctx_ok E s' \<and> active s') R"
proof (cases "jit_slot t < 0 \<and> data t \<noteq> Null \<and> device t = device src \<and> rows t = rows src \<and> cols t = cols src \<and> dtype t = dt")
  case True
  let ?n = "default_node\<lparr>op := Cast, inputs := [slot], scalar := 0, scalar2 := 0, buffer := data t, n_device := device t, n_dtype := dt, n_rows := rows t, n_cols := cols t\<rparr>"
  obtain j g where "push_node ?n (dag s) = (j, g)" "grows E s (s\<lparr>dag := g\<rparr>)"
    by (rule push_node_grows [OF k, of ?n]) (use v in simp_all)
  then show ?thesis using True a unfolding record_cast_out_def tspec_tbnd tspec_peek [OF d]
    by (simp add: tspec_simps add_node_def grows_def)
next
  case False
  let ?t = "symbolic (int (length (nodes (dag s)))) (device src) dt (rows src) (cols src)"
  have ne: "dst \<noteq> tmp" using d tmp by auto
  have ins: "list_all (valid_slot (nodes (dag s))) [slot]" using v by simp
  note ro = spec_record_op [OF k a tmp ins _ r]
  show ?thesis unfolding record_cast_out_def tspec_tbnd tspec_peek [OF d] if_not_P [OF False] tspec_in_world
  proof (rule tspec_mono [OF ro], goal_cases)
    case (2 x s')
    then have k': "ctx_ok E s'" "active s'" and o: "objs (tw s') = (objs (tw s))(tmp \<mapsto> ?t)" by auto
    have w: "world_ok E (tw s')" using k' by (simp add: ctx_ok_def)
    have h: "hooked (sbnd (move_assign dst tmp) (\<lambda>_. dtor tmp))" by (intro hooked_intros)
    have sp: "spec (sbnd (move_assign dst tmp) (\<lambda>_. dtor tmp)) (tw s') (\<lambda>_ w'. world_ok E w' \<and>
      objs w' = (objs (tw s'))(dst \<mapsto> ?t, tmp := None)) (\<lambda>_. False)"
      using move_dtor_ok [OF w, of dst t tmp ?t] o d ne by (simp add: symbolic_def)
    then obtain w' where w': "sbnd (move_assign dst tmp) (\<lambda>_. dtor tmp) (tw s') = (Inr (), w')" "world_ok E w'"
      "objs w' = (objs (tw s'))(dst \<mapsto> ?t, tmp := None)"
      by (auto simp: spec_def split: prod.splits sum.splits err.splits)
    have "syms w' \<subseteq> syms (tw s')" using w'(3) o ne by (auto simp: syms_def ran_def split: if_splits)
    then have "ctx_ok E (s'\<lparr>tw := w'\<rparr>)" using ctx_ok_world [OF k'(1) w'(2)] hookedD [OF h w'(1)] by simp
    then show ?case using k' w' by (simp add: spec_def)
  qed simp_all
qed

section \<open>Materialising\<close>

lemma sbnd_assoc: "sbnd (sbnd m f) g = sbnd m (\<lambda>x. sbnd (f x) g)"
  by (rule ext) (auto simp: sbnd_def split: prod.split sum.split)

lemma untrack_ok:
  assumes k: "world_ok E w" and t: "objs w i = Some t" "0 \<le> jit_slot t"
  shows "world_ok E (set_obj i (Some (t\<lparr>jit_slot := - 1\<rparr>)) (w\<lparr>slot_to_tensor := (slot_to_tensor w)(jit_slot t := None)\<rparr>))"
proof -
  let ?w = "w\<lparr>slot_to_tensor := (slot_to_tensor w)(jit_slot t := None)\<rparr>"
  from k have iw: "world_inv E ?w" and sl: "slots_ok w" by (simp_all add: world_ok_def world_inv_def)
  have g: "slot_to_tensor w sl = Some j \<longleftrightarrow> 0 \<le> sl \<and> (\<exists>t. objs w j = Some t \<and> jit_slot t = sl)" for sl j
    using sl by (simp add: slots_ok_def)
  have ok: "tensor_ok (rt w) (heap w) t" "tset t \<inter> E = {}" using invD(3,4) [of E w i t] k t by (simp_all add: world_ok_def)
  note tk = inv_take [OF iw, of i t]
  have "world_inv E (set_obj i (Some (t\<lparr>jit_slot := - 1\<rparr>)) (set_obj i None ?w))"
    by (rule inv_put) (use tk t ok sym_tensor [OF ok(1)] in \<open>simp_all add: tensor_ok_def\<close>)
  moreover have "slots_ok (set_obj i (Some (t\<lparr>jit_slot := - 1\<rparr>)) ?w)"
  proof -
    have tr: "slot_to_tensor w (jit_slot t) = Some i" "retarget_hook w" using slots_tracked [OF sl t] by simp_all
    have "((slot_to_tensor w)(jit_slot t := None)) k = Some j \<longleftrightarrow>
        0 \<le> k \<and> (\<exists>u. ((objs w)(i \<mapsto> t\<lparr>jit_slot := - 1\<rparr>)) j = Some u \<and> jit_slot u = k)" for k j
    proof (cases "j = i")
      case True
      then show ?thesis using t(1) g [of k i] by auto
    next
      case False
      then show ?thesis using tr g [of k j] by auto
    qed
    then show ?thesis using tr by (simp add: slots_ok_def)
  qed
  ultimately show ?thesis by (simp add: world_ok_def set_obj_same)
qed

lemma spec_install:
  assumes k: "world_ok E w" and t: "objs w held = Some t" "0 \<le> jit_slot t" and b: "objs w tmp = Some buf" "jit_slot buf = - 1"
  shows "spec (install tmp (jit_slot t) held) w (\<lambda>p w'. world_ok E w' \<and> p = data buf \<and> objs w' = (objs w)(held \<mapsto> buf, tmp := None)) (\<lambda>_. False)"
proof -
  let ?w = "set_obj held (Some (t\<lparr>jit_slot := - 1\<rparr>)) (w\<lparr>slot_to_tensor := (slot_to_tensor w)(jit_slot t := None)\<rparr>)"
  have ne: "held \<noteq> tmp" using t b by auto
  have buf: "buf\<lparr>jit_slot := - 1\<rparr> = buf" using b(2) by simp
  have "spec (sbnd (sbnd (move_assign held tmp) (\<lambda>_. dtor tmp)) (\<lambda>_. with_obj held (\<lambda>h. ret (data h)))) ?w
    (\<lambda>p w'. world_ok E w' \<and> p = data buf \<and> objs w' = (objs w)(held \<mapsto> buf, tmp := None)) (\<lambda>_. False)"
  proof (rule spec_seq [OF move_dtor_ok [OF untrack_ok [OF k t] _ _ ne, of "t\<lparr>jit_slot := - 1\<rparr>" buf]], goal_cases)
    case (3 x w')
    then have "world_ok E w'" "objs w' = (objs w)(held \<mapsto> buf, tmp := None)" using b(2) buf by auto
    moreover have "objs w' held = Some buf" using calculation(2) ne by simp
    ultimately show ?case by (simp add: spec_with_obj)
  qed (use b ne in auto)
  then have "spec (sbnd (move_assign held tmp) (\<lambda>_. sbnd (dtor tmp) (\<lambda>_. with_obj held (\<lambda>h. ret (data h))))) ?w
    (\<lambda>p w'. world_ok E w' \<and> p = data buf \<and> objs w' = (objs w)(held \<mapsto> buf, tmp := None)) (\<lambda>_. False)"
    unfolding sbnd_assoc .
  then show ?thesis unfolding install_def spec_def using t(1) by (simp add: with_obj_def)
qed

lemma hooked_install_body: "hooked (sbnd (move_assign held tmp) (\<lambda>_. sbnd (dtor tmp) (\<lambda>_. with_obj held (\<lambda>h. ret (data h)))))"
  by (intro hooked_intros)

lemma hooked_install: "hooked (install tmp slot held)"
  by (rule hookedI) (auto simp: install_def with_obj_def [of held "\<lambda>h. _ h"] dest!: hookedD [OF hooked_install_body] split: option.splits)

text \<open>The tensor \<open>u\<close> took the place of the symbolic \<open>t\<close>: same shape, storage of its own.\<close>

definition adopts :: "Tensor \<Rightarrow> Tensor \<Rightarrow> bool" where
  "adopts t u \<longleftrightarrow> owns u \<and> data u \<noteq> Null \<and> jit_slot u < 0 \<and> rows u = rows t \<and> cols u = cols t \<and> dtype u = dtype t \<and> bytes t \<noteq> Inr 0"

definition pending :: "TraceNode \<Rightarrow> bool" where
  "pending n \<longleftrightarrow> is_live_at_end n \<and> buffer n = Null"

definition mat_step :: "nat set \<Rightarrow> nat \<Rightarrow> nat \<Rightarrow> 'o tstate \<Rightarrow> 'o tstate \<Rightarrow> bool" where
  "mat_step E tmp k s s' \<longleftrightarrow> ctx_ok E s' \<and> active s' \<and> objs (tw s') tmp = None \<and> (let ns = nodes (dag s); n = ns ! k in
     (\<not> pending n \<and> s' = s)
     \<or> (pending n \<and> nodes (dag s') = ns[k := n\<lparr>is_live_at_end := False\<rparr>] \<and> objs (tw s') = objs (tw s)
         \<and> (\<forall>t\<in>syms (tw s). jit_slot t = int k \<longrightarrow> bytes t = Inr 0))
     \<or> (pending n \<and> (\<exists>held t u. objs (tw s) held = Some t \<and> jit_slot t = int k \<and> adopts t u
         \<and> nodes (dag s') = ns[k := n\<lparr>buffer := data u\<rparr>] \<and> objs (tw s') = (objs (tw s))(held \<mapsto> u))))"

lemma update_node_simps [simp]:
  "tw (update_node k f s) = tw s" "active (update_node k f s) = active s"
  "nodes (dag (update_node k f s)) = (nodes (dag s))[k := f (nodes (dag s) ! k)]"
  by (simp_all add: update_node_def)

lemma nodes_wf_update: "nodes_wf ns \<Longrightarrow> nid n = nid (ns ! k) \<Longrightarrow> inputs n = inputs (ns ! k) \<Longrightarrow> nodes_wf (ns[k := n])"
  unfolding nodes_wf_def node_wf_def by (metis length_list_update nth_list_update_eq nth_list_update_neq)

lemma demote_ok:
  assumes "ctx_ok E s" "k < length (nodes (dag s))"
  shows "ctx_ok E (update_node k (\<lambda>n. n\<lparr>is_live_at_end := False\<rparr>) s)"
proof -
  have "named_by ((nodes (dag s))[k := (nodes (dag s) ! k)\<lparr>is_live_at_end := False\<rparr>]) t" if "named_by (nodes (dag s)) t" for t
    using that by (cases "nat (jit_slot t) = k") (auto simp: named_by_def valid_slot_def sym_node_def)
  then show ?thesis using assms by (auto simp: ctx_ok_def intro!: nodes_wf_update)
qed

lemma tracked_sym: "ctx_ok E s \<Longrightarrow> t \<in> syms (tw s) \<longleftrightarrow> (\<exists>i. objs (tw s) i = Some t \<and> slot_to_tensor (tw s) (jit_slot t) = Some i)"
  unfolding ctx_ok_def world_ok_def slots_ok_def syms_def ran_def by auto

lemma made_data:
  assumes "made E w d r c dt u w'"
  shows "jit_slot u = - 1" "rows u = r" "cols u = c" "dtype u = dt" "\<exists>n. bytes u = Inr n \<and> (if n = 0 then data u = Null else owns u \<and> data u \<noteq> Null)"
proof -
  from assms obtain n where n: "bytes u = Inr n" "if n = 0 then data u = Null else owns u \<and> cap_bytes u = n \<and> (\<exists>b. data u = Ptr b 0)"
    unfolding made_def by blast
  show "\<exists>n. bytes u = Inr n \<and> (if n = 0 then data u = Null else owns u \<and> data u \<noteq> Null)"
    by (rule exI [of _ n]) (use n in \<open>auto split: if_splits\<close>)
qed (use assms in \<open>simp_all add: made_def\<close>)

lemma spec_hooked: "spec m w Q R \<Longrightarrow> hooked m \<Longrightarrow>
   spec m w (\<lambda>x w'. Q x w' \<and> retarget_hook w' = retarget_hook w) (\<lambda>w'. R w' \<and> retarget_hook w' = retarget_hook w)"
  by (auto simp: spec_def dest!: hookedD split: prod.splits sum.splits err.splits)

lemma tspec_set_node [simp]: "tspec (set_node k f) s Q R = Q () (update_node k f s)"
  by (simp add: tspec_def set_node_def)

text \<open>Between the allocation of the buffer \<open>u\<close> at \<open>tmp\<close> and the end of the round.\<close>

definition mid_round :: "nat set \<Rightarrow> nat \<Rightarrow> 'o tstate \<Rightarrow> Tensor \<Rightarrow> Tensor \<Rightarrow> 'o world \<Rightarrow> bool" where
  "mid_round E tmp s t u w1 \<longleftrightarrow> world_ok E w1 \<and> retarget_hook w1 = retarget_hook (tw s) \<and> objs w1 = (objs (tw s))(tmp \<mapsto> u)
     \<and> jit_slot u = - 1 \<and> rows u = rows t \<and> cols u = cols t \<and> dtype u = dtype t
     \<and> (\<exists>n. bytes u = Inr n \<and> (if n = 0 then data u = Null else owns u \<and> data u \<noteq> Null))"

lemma spec_hand_over_empty:
  assumes k: "ctx_ok E s" and a: "active s" and tmp: "objs (tw s) tmp = None" and l: "j < length (nodes (dag s))" and p: "pending (nodes (dag s) ! j)"
    and t: "objs (tw s) held = Some t" "jit_slot t = int j" and m: "mid_round E tmp s t u w1" and n: "data u = Null"
  shows "tspec (hand_over tmp j (int j) held u) (s\<lparr>tw := w1\<rparr>) (\<lambda>_ s'. mat_step E tmp j s s') R"
proof -
  from m have w1: "world_ok E w1" and h1: "retarget_hook w1 = retarget_hook (tw s)" and o: "objs w1 = (objs (tw s))(tmp \<mapsto> u)" by (simp_all add: mid_round_def)
  have ou: "objs w1 tmp = Some u" using o by simp
  have b: "bytes t = Inr 0" using m n bytes_cong [of t u] by (auto simp: mid_round_def split: if_splits)
  have sl: "slots_ok (tw s)" using k by (simp add: ctx_ok_def world_ok_def)
  have only: "v = t" if "v \<in> syms (tw s)" "jit_slot v = int j" for v
    using that t slots_unique [OF sl t(1)] by (auto simp: syms_def ran_def)
  have "spec (dtor tmp) w1 (\<lambda>_ w2. mat_step E tmp j s (update_node j (\<lambda>n. n\<lparr>is_live_at_end := False\<rparr>) (s\<lparr>tw := w2\<rparr>))) R'" for R'
  proof (rule spec_mono [OF spec_hooked [OF spec_dtor [OF w1 ou] hooked_lifetime(1)]], goal_cases)
    case (1 x w2)
    then have w2: "world_ok E w2" "objs w2 = objs (tw s)" "retarget_hook w2 = retarget_hook (tw s)" using o h1 tmp by (auto simp: fun_upd_idem)
    have "ctx_ok E (s\<lparr>tw := w2\<rparr>)" by (rule ctx_ok_world [OF k w2(1,3)]) (simp add: syms_def w2(2))
    then show ?case using demote_ok [of E "s\<lparr>tw := w2\<rparr>" j] l w2 tmp p a b only by (auto simp: mat_step_def Let_def)
  qed simp
  then show ?thesis using n by (simp add: hand_over_def tspec_simps)
qed

lemma adopt_ok:
  assumes k: "ctx_ok E s" and l: "j < length (nodes (dag s))" and t: "objs (tw s) held = Some t" "jit_slot t = int j"
    and w2: "world_ok E w2" "retarget_hook w2 = retarget_hook (tw s)" "objs w2 = (objs (tw s))(held \<mapsto> u)" and u: "jit_slot u < 0"
  shows "ctx_ok E (update_node j (\<lambda>n. n\<lparr>buffer := p\<rparr>) (s\<lparr>tw := w2\<rparr>))"
proof -
  let ?ns = "nodes (dag s)"
  have sl: "slots_ok (tw s)" using k by (simp add: ctx_ok_def world_ok_def)
  have s: "v \<in> syms (tw s) \<and> jit_slot v \<noteq> int j" if v: "v \<in> syms w2" for v
  proof -
    obtain i where i: "objs w2 i = Some v" "0 \<le> jit_slot v" using v by (auto simp: syms_def ran_def)
    then have "i \<noteq> held" "objs (tw s) i = Some v" using w2(3) u by (auto split: if_splits)
    then show ?thesis using i slots_unique [OF sl t(1), of i v] t(2) by (auto simp: syms_def ran_def)
  qed
  have "named_by (?ns[j := (?ns ! j)\<lparr>buffer := p\<rparr>]) v" if "named_by ?ns v" "jit_slot v \<noteq> int j" for v
    using that by (auto simp: named_by_def valid_slot_def)
  then show ?thesis using k l w2 s by (auto simp: ctx_ok_def intro!: nodes_wf_update)
qed

lemma spec_hand_over:
  assumes k: "ctx_ok E s" and a: "active s" and tmp: "objs (tw s) tmp = None" and l: "j < length (nodes (dag s))" and p: "pending (nodes (dag s) ! j)"
    and t: "objs (tw s) held = Some t" "jit_slot t = int j" and m: "mid_round E tmp s t u w1" and n: "data u \<noteq> Null"
  shows "tspec (hand_over tmp j (int j) held u) (s\<lparr>tw := w1\<rparr>) (\<lambda>_ s'. mat_step E tmp j s s') R"
proof -
  from m have w1: "world_ok E w1" and h1: "retarget_hook w1 = retarget_hook (tw s)" and o: "objs w1 = (objs (tw s))(tmp \<mapsto> u)"
    and ju: "jit_slot u = - 1" by (simp_all add: mid_round_def)
  have ne: "held \<noteq> tmp" using t tmp by auto
  have ot: "objs w1 held = Some t" "0 \<le> jit_slot t" and ou: "objs w1 tmp = Some u" using o t ne by auto
  have ad: "adopts t u" using m n bytes_cong [of t u] by (auto simp: mid_round_def adopts_def split: if_splits)
  have "spec (install tmp (int j) held) w1 (\<lambda>q w2. mat_step E tmp j s (update_node j (\<lambda>n. n\<lparr>buffer := q\<rparr>) (s\<lparr>tw := w2\<rparr>))) R'" for R'
    unfolding t(2) [symmetric]
  proof (rule spec_mono [OF spec_hooked [OF spec_install [OF w1 ot ou ju] hooked_install]], goal_cases)
    case (1 q w2)
    then have w2: "world_ok E w2" "retarget_hook w2 = retarget_hook (tw s)" "objs w2 = (objs (tw s))(held \<mapsto> u)" and q: "q = data u"
      using o h1 tmp ne by (auto simp: fun_upd_twist fun_upd_idem)
    have "ctx_ok E (update_node j (\<lambda>n. n\<lparr>buffer := q\<rparr>) (s\<lparr>tw := w2\<rparr>))"
      by (rule adopt_ok [OF k l t w2]) (use ju in simp)
    then show ?case using w2 tmp ne p a ad t q by (auto simp: mat_step_def Let_def)
  qed simp
  then show ?thesis using n by (simp add: hand_over_def tspec_simps)
qed

lemma spec_round_alloc:
  assumes k: "ctx_ok E s" and tmp: "objs (tw s) tmp = None" and t: "objs (tw s) held = Some t" and n: "sym_node n t"
  shows "spec (construct tmp (empty_on (n_device n) (n_rows n) (n_cols n) (n_dtype n))) (tw s)
     (\<lambda>_ w1. \<exists>u. mid_round E tmp s t u w1) (\<lambda>w1. failed E (tw s) w1)"
proof -
  let ?m = "empty_on (n_device n) (n_rows n) (n_cols n) (n_dtype n)"
  have w: "world_ok E (tw s)" and wi: "world_inv E (tw s)" using k by (simp_all add: ctx_ok_def world_ok_def)
  have d: "is_int32 (n_rows n)" "is_int32 (n_cols n)" using obj_dims [OF k t] n by (simp_all add: dims_int_def sym_node_def)
  have e: "spec ?m (tw s) (\<lambda>u w'. fresh_tensor E (tw s) u w' \<and> jit_slot u < 0 \<and> made E (tw s) (n_device n) (n_rows n) (n_cols n) (n_dtype n) u w') (failed E (tw s))"
    by (rule spec_mono [OF spec_empty_on [OF wi d]]) (simp_all add: made_def)
  have h: "hooked (construct tmp ?m)" by (intro hooked_intros)
  show ?thesis
  proof (rule spec_mono [OF spec_hooked [OF spec_construct [OF w tmp e] h]], goal_cases)
    case (1 x w1)
    then obtain u w2 where "world_ok E w1" "objs w1 = (objs (tw s))(tmp \<mapsto> u)" "retarget_hook w1 = retarget_hook (tw s)"
      and m: "made E (tw s) (n_device n) (n_rows n) (n_cols n) (n_dtype n) u w2" by blast
    then have "mid_round E tmp s t u w1" using made_data [OF m] n unfolding mid_round_def sym_node_def by simp
    then show ?case by blast
  qed simp
qed

lemma spec_materialize_one:
  assumes k: "ctx_ok E s" and a: "active s" and tmp: "objs (tw s) tmp = None" and l: "j < length (nodes (dag s))"
  shows "tspec (materialize_one tmp j) s (\<lambda>_ s'. mat_step E tmp j s s') (\<lambda>s'. ctx_ok E s' \<and> active s')"
proof -
  let ?n = "nodes (dag s) ! j"
  have id: "nid ?n = int j" using k l by (auto simp: ctx_ok_def nodes_wf_def node_wf_def)
  have w: "world_ok E (tw s)" using k by (simp add: ctx_ok_def)
  consider (skip) "\<not> pending ?n" | (none) "pending ?n" "slot_to_tensor (tw s) (int j) = None"
    | (some) held where "pending ?n" "slot_to_tensor (tw s) (int j) = Some held" by (meson option.exhaust)
  then show ?thesis
  proof cases
    case skip
    then have "materialize_one tmp j s = (Inr (), s)" by (auto simp: materialize_one_def Let_def pending_def)
    then show ?thesis using skip k a tmp by (simp add: tspec_def mat_step_def Let_def)
  next
    case none
    then have "materialize_one tmp j s = (Inr (), update_node j (\<lambda>n. n\<lparr>is_live_at_end := False\<rparr>) s)"
      by (simp add: materialize_one_def Let_def pending_def id set_node_def)
    moreover have "\<forall>t\<in>syms (tw s). jit_slot t \<noteq> int j" using none(2) tracked_sym [OF k] by force
    ultimately show ?thesis using none k a tmp demote_ok [OF k l] by (simp add: tspec_def mat_step_def Let_def)
  next
    case some
    then obtain t where t: "objs (tw s) held = Some t" "jit_slot t = int j" using w by (auto simp: world_ok_def slots_ok_def)
    have tn: "sym_node ?n t" using k t by (auto simp: ctx_ok_def syms_def named_by_def intro: ranI)
    let ?mk = "construct tmp (empty_on (n_device ?n) (n_rows ?n) (n_cols ?n) (n_dtype ?n))"
    have "tspec (tbnd (in_world ?mk) (\<lambda>_. tbnd (peek_obj tmp) (hand_over tmp j (int j) held))) s
        (\<lambda>_ s'. mat_step E tmp j s s') (\<lambda>s'. ctx_ok E s' \<and> active s')"
      unfolding tspec_tbnd tspec_in_world
    proof (rule spec_mono [OF spec_hooked [OF spec_round_alloc [OF k tmp t(1) tn]]], goal_cases)
      case 1
      show ?case by (intro hooked_intros)
    next
      case (2 x w1)
      then obtain u where m: "mid_round E tmp s t u w1" by blast
      have ou: "objs (tw (s\<lparr>tw := w1\<rparr>)) tmp = Some u" using m by (simp add: mid_round_def)
      show ?case unfolding tspec_peek [OF ou]
        using spec_hand_over [OF k a tmp l some(1) t m] spec_hand_over_empty [OF k a tmp l some(1) t m] by blast
    next
      case (3 w')
      then show ?case using ctx_ok_world [OF k, of w'] syms_keeps [of "tw s" w'] failed_world_ok [OF _ w] a by (auto simp: failed_def)
    qed
    moreover have "materialize_one tmp j s = tbnd (in_world ?mk) (\<lambda>_. tbnd (peek_obj tmp) (hand_over tmp j (int j) held)) s"
      using some by (simp add: materialize_one_def Let_def pending_def id)
    ultimately show ?thesis by (simp add: tspec_def)
  qed
qed

section \<open>The rounds together\<close>

definition node_after :: "TraceNode \<Rightarrow> TraceNode \<Rightarrow> bool" where
  "node_after m n \<longleftrightarrow> (if pending m then n = m\<lparr>is_live_at_end := False\<rparr> \<or> buffer n \<noteq> Null \<and> n = m\<lparr>buffer := buffer n\<rparr> else n = m)"

definition due :: "TraceNode list \<Rightarrow> nat \<Rightarrow> Tensor \<Rightarrow> bool" where
  "due ns k t \<longleftrightarrow> 0 \<le> jit_slot t \<and> jit_slot t < int k \<and> pending (ns ! nat (jit_slot t))"

definition obj_after :: "TraceNode list \<Rightarrow> TraceNode list \<Rightarrow> nat \<Rightarrow> Tensor \<Rightarrow> Tensor \<Rightarrow> bool" where
  "obj_after ns ns' k t u \<longleftrightarrow> (u = t \<and> (due ns k t \<longrightarrow> bytes t = Inr 0)) \<or> (due ns k t \<and> adopts t u \<and> data u = buffer (ns' ! nat (jit_slot t)))"

definition nodes_after :: "TraceNode list \<Rightarrow> TraceNode list \<Rightarrow> nat \<Rightarrow> bool" where
  "nodes_after ns ns' k \<longleftrightarrow> length ns' = length ns \<and> (\<forall>j < k. node_after (ns ! j) (ns' ! j)) \<and> (\<forall>j \<ge> k. j < length ns \<longrightarrow> ns' ! j = ns ! j)"

definition mat_upto :: "nat set \<Rightarrow> nat \<Rightarrow> 'o tstate \<Rightarrow> nat \<Rightarrow> 'o tstate \<Rightarrow> bool" where
  "mat_upto E tmp s k s' \<longleftrightarrow> ctx_ok E s' \<and> active s' \<and> objs (tw s') tmp = None
     \<and> nodes_after (nodes (dag s)) (nodes (dag s')) k
     \<and> (\<forall>i. rel_option (obj_after (nodes (dag s)) (nodes (dag s')) k) (objs (tw s) i) (objs (tw s') i))"

lemma mat_upto_0: "ctx_ok E s \<Longrightarrow> active s \<Longrightarrow> objs (tw s) tmp = None \<Longrightarrow> mat_upto E tmp s 0 s"
  by (auto simp: mat_upto_def nodes_after_def obj_after_def due_def intro!: option.rel_refl)

lemma nodes_after_Suc: "nodes_after ns ns' k \<Longrightarrow> k < length ns \<Longrightarrow> node_after (ns ! k) n \<Longrightarrow> nodes_after ns (ns'[k := n]) (Suc k)"
  by (auto simp: nodes_after_def nth_list_update less_Suc_eq)

lemma due_Suc: "due ns (Suc k) t \<longleftrightarrow> due ns k t \<or> (jit_slot t = int k \<and> pending (ns ! k))"
proof -
  have "jit_slot t < int (Suc k) \<longleftrightarrow> jit_slot t < int k \<or> jit_slot t = int k" by auto
  then show ?thesis by (auto simp: due_def)
qed

lemma obj_after_later:
  "obj_after ns ns' k t u \<Longrightarrow> (\<And>j. j < k \<Longrightarrow> ns'' ! j = ns' ! j) \<Longrightarrow> (u \<in> U \<Longrightarrow> 0 \<le> jit_slot u \<Longrightarrow> jit_slot u = int k \<Longrightarrow> pending (ns ! k) \<Longrightarrow> bytes u = Inr 0)
     \<Longrightarrow> u \<in> U \<Longrightarrow> obj_after ns ns'' (Suc k) t u"
  by (auto simp: obj_after_def due_Suc) (auto simp: due_def adopts_def)

lemma mat_upto_step:
  assumes m: "mat_upto E tmp s k s1" and st: "mat_step E tmp k s1 s2" and l: "k < length (nodes (dag s))"
  shows "mat_upto E tmp s (Suc k) s2"
proof -
  let ?ns = "nodes (dag s)" and ?ns1 = "nodes (dag s1)" and ?ns2 = "nodes (dag s2)"
  from m have len: "length ?ns1 = length ?ns" and kk: "?ns1 ! k = ?ns ! k"
    and nd: "nodes_after ?ns ?ns1 k"
    and ob: "\<And>i. rel_option (obj_after ?ns ?ns1 k) (objs (tw s) i) (objs (tw s1) i)"
    using l by (auto simp: mat_upto_def nodes_after_def)
  have upd: "?ns1[k := ?ns ! k] = ?ns1" by (metis kk list_update_id)
  note nds = nodes_after_Suc [OF nd l]
  from st have base: "ctx_ok E s2" "active s2" "objs (tw s2) tmp = None" by (simp_all add: mat_step_def)
  from st consider (skip) "\<not> pending (?ns ! k)" "s2 = s1"
    | (demote) "pending (?ns ! k)" "?ns2 = ?ns1[k := (?ns ! k)\<lparr>is_live_at_end := False\<rparr>]" "objs (tw s2) = objs (tw s1)"
        "\<forall>t\<in>syms (tw s1). jit_slot t = int k \<longrightarrow> bytes t = Inr 0"
    | (adopt) held t u where "pending (?ns ! k)" "objs (tw s1) held = Some t" "jit_slot t = int k" "adopts t u"
        "?ns2 = ?ns1[k := (?ns ! k)\<lparr>buffer := data u\<rparr>]" "objs (tw s2) = (objs (tw s1))(held \<mapsto> u)"
    unfolding mat_step_def Let_def kk by blast
  then show ?thesis
  proof cases
    case skip
    have "rel_option (obj_after ?ns ?ns1 (Suc k)) (objs (tw s) i) (objs (tw s1) i)" for i
      by (rule option.rel_mono_strong [OF ob]) (rule obj_after_later [where U = UNIV], use skip in auto)
    then show ?thesis using base skip nds [of "?ns ! k"] upd by (simp add: mat_upto_def node_after_def)
  next
    case demote
    have "rel_option (obj_after ?ns ?ns2 (Suc k)) (objs (tw s) i) (objs (tw s1) i)" for i
      by (rule option.rel_mono_strong [OF ob], rule obj_after_later [where U = "ran (objs (tw s1))"])
        (use demote in \<open>auto simp: syms_def ran_def elem_set\<close>)
    then show ?thesis using base demote nds by (simp add: mat_upto_def node_after_def)
  next
    case adopt
    have "slots_ok (tw s1)" using m by (simp add: mat_upto_def ctx_ok_def world_ok_def)
    note uniq = slots_unique [OF this adopt(2)]
    have "rel_option (obj_after ?ns ?ns2 (Suc k)) (objs (tw s) i) (objs (tw s2) i)" for i
    proof (cases "i = held")
      case True
      from ob [of held] adopt(2) obtain t0 where t0: "objs (tw s) held = Some t0" "obj_after ?ns ?ns1 k t0 t" by (auto simp: option_rel_Some2)
      then have "t0 = t" using adopt(3) by (auto simp: obj_after_def adopts_def)
      then show ?thesis using True t0 adopt l len by (auto simp: obj_after_def due_Suc)
    next
      case False
      have "rel_option (obj_after ?ns ?ns2 (Suc k)) (objs (tw s) i) (objs (tw s1) i)"
        by (rule option.rel_mono_strong [OF ob], rule obj_after_later [where U = "{v. objs (tw s1) i = Some v}"])
          (use adopt uniq [of i] False in \<open>auto simp: elem_set\<close>)
      then show ?thesis using adopt False by simp
    qed
    then show ?thesis using base adopt nds by (simp add: mat_upto_def node_after_def adopts_def)
  qed
qed

lemma spec_materialize_from:
  assumes "mat_upto E tmp s k s1" "k \<le> length (nodes (dag s))"
  shows "tspec (materialize_from tmp [k..<length (nodes (dag s))]) s1 (\<lambda>_ s'. mat_upto E tmp s (length (nodes (dag s))) s') (\<lambda>s'. ctx_ok E s' \<and> active s')"
  using assms
proof (induction "length (nodes (dag s)) - k" arbitrary: k s1)
  case (Suc d)
  then have l: "k < length (nodes (dag s))" "k < length (nodes (dag s1))" by (auto simp: mat_upto_def nodes_after_def)
  then have "tspec (materialize_one tmp k) s1 (\<lambda>_ s'. mat_step E tmp k s1 s') (\<lambda>s'. ctx_ok E s' \<and> active s')"
    using Suc by (intro spec_materialize_one) (auto simp: mat_upto_def)
  then show ?case unfolding upt_conv_Cons [OF l(1)] materialize_from.simps
    by (rule tspec_bnd) (rule Suc.hyps(1), use Suc l mat_upto_step in auto)
qed simp

lemma spec_materialize:
  assumes "ctx_ok E s" "active s" "objs (tw s) tmp = None"
  shows "tspec (materialize tmp) s (\<lambda>_ s'. mat_upto E tmp s (length (nodes (dag s))) s') (\<lambda>s'. ctx_ok E s' \<and> active s')"
  using spec_materialize_from [OF mat_upto_0 [OF assms]] by (simp add: tspec_def materialize_def)


section \<open>The end of a trace\<close>

text \<open>A value the fused kernel has to write: its node is in place or has no user.\<close>

definition observable :: "TraceNode list \<Rightarrow> int \<Rightarrow> bool" where
  "observable ns slot \<longleftrightarrow> is_inplace (ns ! nat slot) \<or> users ns slot = []"

text \<open>What the end of the trace makes of a symbolic tensor: storage at the buffer of its live node, or an empty tensor.\<close>

definition settled :: "TraceNode list \<Rightarrow> TraceNode list \<Rightarrow> Tensor \<Rightarrow> Tensor \<Rightarrow> bool" where
  "settled ns ns' t u \<longleftrightarrow> (let n = ns' ! nat (jit_slot t) in
     if observable ns (jit_slot t) \<and> bytes t \<noteq> Inr 0 then adopts t u \<and> is_live_at_end n \<and> buffer n = data u
     else u = neutral t)"

definition runnable :: "TraceNode list \<Rightarrow> bool" where
  "runnable ns \<longleftrightarrow> nodes_wf ns \<and> list_ex is_live_at_end ns \<and> list_all (\<lambda>n. is_live_at_end n \<longrightarrow> op n \<noteq> Input \<and> buffer n \<noteq> Null) ns"

lemma analyzed_ok: "ctx_ok E s \<Longrightarrow> ctx_ok E (s\<lparr>dag := analyze_liveness (dag s)\<rparr>)"
  by (auto simp: ctx_ok_def analyze_wf named_by_def valid_slot_def sym_node_def analyze_nth)

lemma node_after_live: "node_after m n \<Longrightarrow> is_live_at_end n \<Longrightarrow> is_live_at_end m \<and> op n = op m \<and> buffer n \<noteq> Null"
  by (auto simp: node_after_def pending_def split: if_splits) (metis TraceNode.select_convs(2) TraceNode.surjective TraceNode.update_convs(7))

lemma materialized_live:
  assumes "mat_upto E tmp s (length (nodes (dag s))) s1" "dag s = analyze_liveness g"
  shows "list_all (\<lambda>n. is_live_at_end n \<longrightarrow> op n \<noteq> Input \<and> buffer n \<noteq> Null) (nodes (dag s1))"
  unfolding list_all_length
proof (intro allI impI)
  fix j assume j: "j < length (nodes (dag s1))" and l: "is_live_at_end (nodes (dag s1) ! j)"
  have a: "node_after (nodes (dag s) ! j) (nodes (dag s1) ! j)" and j': "j < length (nodes g)" using assms j by (auto simp: mat_upto_def nodes_after_def)
  show "op (nodes (dag s1) ! j) \<noteq> Input \<and> buffer (nodes (dag s1) ! j) \<noteq> Null"
    using node_after_live [OF a l] j' assms(2) by (auto simp: analyze_nth)
qed

lemma pending_analyzed:
  "named_by (nodes g) t \<Longrightarrow> pending (nodes (analyze_liveness g) ! nat (jit_slot t)) \<longleftrightarrow> observable (nodes g) (jit_slot t)"
  by (auto simp: named_by_def valid_slot_def sym_node_def pending_def analyze_nth observable_def)

lemma materialized_obj:
  assumes k: "ctx_ok E s" and m: "mat_upto E tmp (s\<lparr>dag := analyze_liveness (dag s)\<rparr>) (length (nodes (dag s))) s1"
    and t: "objs (tw s) i = Some t"
  shows "\<exists>u. objs (released (tw s1)) i = Some u \<and> (if jit_slot t < 0 then u = t else settled (nodes (dag s)) (nodes (dag s1)) t u)"
proof -
  let ?ns = "nodes (analyze_liveness (dag s))"
  obtain v where v: "objs (tw s1) i = Some v" "obj_after ?ns (nodes (dag s1)) (length (nodes (dag s))) t v"
    using m t by (auto simp: mat_upto_def option_rel_Some1 dest!: spec [where x = i])
  have u: "objs (released (tw s1)) i = Some (desym v)" using v by (simp add: released_def)
  show ?thesis
  proof (cases "jit_slot t < 0")
    case True
    then show ?thesis using u v by (auto simp: obj_after_def due_def desym_def)
  next
    case False
    then have n: "named_by (nodes (dag s)) t" using k t by (auto simp: ctx_ok_def syms_def intro: ranI)
    then have d: "due ?ns (length (nodes (dag s))) t \<longleftrightarrow> observable (nodes (dag s)) (jit_slot t)"
      using False by (auto simp: due_def pending_analyzed) (auto simp: named_by_def valid_slot_def)
    have "is_live_at_end (nodes (dag s1) ! nat (jit_slot t))" if "data v = buffer (nodes (dag s1) ! nat (jit_slot t))" "adopts t v" "observable (nodes (dag s)) (jit_slot t)"
    proof -
      have "node_after (?ns ! nat (jit_slot t)) (nodes (dag s1) ! nat (jit_slot t))" using m n by (auto simp: mat_upto_def nodes_after_def named_by_def valid_slot_def)
      moreover have "pending (?ns ! nat (jit_slot t))" using that pending_analyzed [OF n] by simp
      ultimately show ?thesis using that by (auto simp: node_after_def adopts_def pending_def) (metis TraceNode.select_convs(14) TraceNode.surjective TraceNode.update_convs(7))
    qed
    then show ?thesis using u v(2) d False by (auto simp: obj_after_def settled_def Let_def desym_def adopts_def)
  qed
qed

lemma spec_end:
  assumes k: "ctx_ok E s" and a: "active s" and tmp: "objs (tw s) tmp = None"
  shows "tspec (end_dag tmp) s (\<lambda>g s'. ctx_ok E s' \<and> \<not> active s' \<and> runnable (nodes g) \<and> length (nodes g) = length (nodes (dag s))
     \<and> (\<forall>i t. objs (tw s) i = Some t \<longrightarrow> (\<exists>u. objs (tw s') i = Some u \<and> (if jit_slot t < 0 then u = t else settled (nodes (dag s)) (nodes g) t u))))
     (\<lambda>s'. ctx_ok E s' \<and> (active s' \<or> nodes (dag s') = []))"
proof -
  let ?s = "s\<lparr>dag := analyze_liveness (dag s)\<rparr>"
  have "tspec (tbnd (materialize tmp) (\<lambda>_ s1.
       tbnd (in_world release_tracked) (\<lambda>_ s2.
         if \<not> list_ex is_live_at_end (nodes (dag s2)) then
           (Inl (Throw ''brotensor::jit: the trace has no observable result''), s2\<lparr>dag := dag_reset (dag s2)\<rparr>)
         else (Inr (dag s2), s2\<lparr>dag := empty_dag\<rparr>))
         (s1\<lparr>active := False, active_ptr_to_slot := Map.empty\<rparr>))) ?s (\<lambda>g s'. ctx_ok E s' \<and> \<not> active s' \<and> runnable (nodes g) \<and> length (nodes g) = length (nodes (dag s))
     \<and> (\<forall>i t. objs (tw s) i = Some t \<longrightarrow> (\<exists>u. objs (tw s') i = Some u \<and> (if jit_slot t < 0 then u = t else settled (nodes (dag s)) (nodes g) t u))))
     (\<lambda>s'. ctx_ok E s' \<and> (active s' \<or> nodes (dag s') = []))" (is "tspec (tbnd _ ?f) _ _ _")
    unfolding tspec_tbnd
  proof (rule tspec_mono [OF spec_materialize [OF analyzed_ok [OF k]]], goal_cases)
    case (3 x s1)
    then have m: "mat_upto E tmp ?s (length (nodes (dag s))) s1" by simp
    then have k1: "ctx_ok E s1" and len: "length (nodes (dag s1)) = length (nodes (dag s))" by (simp_all add: mat_upto_def nodes_after_def)
    then have w: "world_ok E (tw s1)" "nodes_wf (nodes (dag s1))" by (simp_all add: ctx_ok_def)
    then have r: "release_tracked (tw s1) = (Inr (), released (tw s1))" by (intro release_tracked_eq) (simp add: world_ok_def)
    have lv: "list_all (\<lambda>n. is_live_at_end n \<longrightarrow> op n \<noteq> Input \<and> buffer n \<noteq> Null) (nodes (dag s1))"
      by (rule materialized_live [of E tmp ?s s1 "dag s"]) (use m in simp_all)
    show ?case using released_ok [OF w(1)] materialized_obj [OF k m] len w lv
      by (auto simp: tspec_def tbnd_def in_world_def r ctx_ok_def runnable_def dag_reset_def empty_dag_def)
  qed (use a tmp in auto)
  then show ?thesis using a by (simp add: end_dag_def tspec_def)
qed

end
