(* ===== verification/TracePrograms.thy ===== *)
theory TracePrograms
  imports TraceEnd
begin

text \<open>
  Every call a thread can make on tensors and on its trace, as one command language, and that each call keeps the invariant of
  theory \<open>TraceInv\<close>.
\<close>

section \<open>Programs\<close>

text \<open>
  The calls a thread makes on tensors and on its trace. \<open>Host\<close> is a tensor operation outside the jit; the traced operators take
  operands and result by address.
\<close>

datatype tcmd =
    Host cmd | Begin | End nat | Discard
  | Binary TraceOpKind nat nat nat
  | Unary TraceOpKind "32 word" "32 word" nat nat
  | CastTo Dtype nat nat
  | Select nat nat nat nat
  | Mod nat nat nat nat
  | RmsNorm "32 word" nat nat nat
  | LayerNormOp "32 word" nat nat nat nat
  | AddAssign nat nat | MulAssign nat nat | AddAssignScalar "32 word" nat | MulAssignScalar "32 word" nat
  | Store nat nat
  | ClampInplace nat "32 word" "32 word"
  | CastOut nat nat nat Dtype

definition unit_of :: "('o, 'a) tact \<Rightarrow> ('o, unit) tact" where
  "unit_of m = tbnd m (\<lambda>_. tret ())"

fun run_tcmd :: "tcmd \<Rightarrow> ('o, unit) tact" where
  "run_tcmd (Host c) = in_world (run_cmd c)"
| "run_tcmd Begin = begin_trace"
| "run_tcmd (End tmp) = unit_of (end_dag tmp)"
| "run_tcmd Discard = discard"
| "run_tcmd (Binary k a b i) = traced_binary k a b i"
| "run_tcmd (Unary k v v2 a i) = traced_unary k v v2 a i"
| "run_tcmd (CastTo dt a i) = op_cast dt a i"
| "run_tcmd (Select c a b i) = op_where c a b i"
| "run_tcmd (Mod x sc sh i) = op_modulate x sc sh i"
| "run_tcmd (RmsNorm eps x g i) = op_rms_norm eps x g i"
| "run_tcmd (LayerNormOp eps x g b i) = op_layernorm eps x g b i"
| "run_tcmd (AddAssign a b) = unit_of (op_add_assign a b)"
| "run_tcmd (MulAssign a b) = unit_of (op_mul_assign a b)"
| "run_tcmd (AddAssignScalar v a) = unit_of (op_add_assign_scalar v a)"
| "run_tcmd (MulAssignScalar v a) = unit_of (op_mul_assign_scalar v a)"
| "run_tcmd (Store dst src) = op_store dst src"
| "run_tcmd (ClampInplace y lo hi) = unit_of (clamp_inplace_hook y lo hi)"
| "run_tcmd (CastOut tmp src dst dt) = unit_of (cast_out_hook tmp src dst dt)"

text \<open>An operand that may be absent has a number of elements that fits an \<^verbatim>\<open>int\<close>, unless it is symbolic.\<close>

definition alive :: "'o tstate \<Rightarrow> nat \<Rightarrow> bool" where
  "alive s i \<longleftrightarrow> objs (tw s) i \<noteq> None"

definition countable_obj :: "'o tstate \<Rightarrow> nat \<Rightarrow> bool" where
  "countable_obj s i \<longleftrightarrow> (case objs (tw s) i of None \<Rightarrow> False | Some t \<Rightarrow> 0 \<le> jit_slot t \<or> is_int32 (rows t * cols t))"

fun tcmd_ok :: "'o tstate \<Rightarrow> tcmd \<Rightarrow> bool" where
  "tcmd_ok s (Host c) \<longleftrightarrow> cmd_ok (tw s) c"
| "tcmd_ok s Begin \<longleftrightarrow> True"
| "tcmd_ok s (End tmp) \<longleftrightarrow> \<not> alive s tmp"
| "tcmd_ok s Discard \<longleftrightarrow> True"
| "tcmd_ok s (Binary k a b i) \<longleftrightarrow> active s \<and> k \<in> {Add, Sub, Mul, Div} \<and> alive s a \<and> alive s b \<and> \<not> alive s i"
| "tcmd_ok s (Unary k v v2 a i) \<longleftrightarrow> active s \<and> k \<in> {AddScalar, MulScalar, ScalarSub, ScalarDiv, Neg, Abs, Exp, Log, Sqrt, Rsqrt,
     SiLU, GELU, ReLU, Tanh, Sigmoid, Clamp} \<and> alive s a \<and> \<not> alive s i"
| "tcmd_ok s (CastTo dt a i) \<longleftrightarrow> active s \<and> alive s a \<and> \<not> alive s i"
| "tcmd_ok s (Select c a b i) \<longleftrightarrow> active s \<and> alive s c \<and> alive s a \<and> alive s b \<and> \<not> alive s i"
| "tcmd_ok s (Mod x sc sh i) \<longleftrightarrow> active s \<and> alive s x \<and> alive s sc \<and> alive s sh \<and> \<not> alive s i"
| "tcmd_ok s (RmsNorm eps x g i) \<longleftrightarrow> active s \<and> alive s x \<and> countable_obj s g \<and> \<not> alive s i"
| "tcmd_ok s (LayerNormOp eps x g b i) \<longleftrightarrow> active s \<and> alive s x \<and> countable_obj s g \<and> countable_obj s b \<and> \<not> alive s i"
| "tcmd_ok s (AddAssign a b) \<longleftrightarrow> active s \<and> alive s a \<and> alive s b"
| "tcmd_ok s (MulAssign a b) \<longleftrightarrow> active s \<and> alive s a \<and> alive s b"
| "tcmd_ok s (AddAssignScalar v a) \<longleftrightarrow> active s \<and> alive s a"
| "tcmd_ok s (MulAssignScalar v a) \<longleftrightarrow> active s \<and> alive s a"
| "tcmd_ok s (Store dst src) \<longleftrightarrow> active s \<and> alive s dst \<and> alive s src"
| "tcmd_ok s (ClampInplace y lo hi) \<longleftrightarrow> alive s y"
| "tcmd_ok s (CastOut tmp src dst dt) \<longleftrightarrow> alive s src \<and> alive s dst \<and> \<not> alive s tmp"

lemma tspec_unit_of: "tspec (unit_of m) s Q R \<longleftrightarrow> tspec m s (\<lambda>_. Q ()) R"
  by (simp add: unit_of_def tspec_tbnd)

lemma aliveE: "alive s i \<Longrightarrow> (\<And>t. objs (tw s) i = Some t \<Longrightarrow> thesis) \<Longrightarrow> thesis"
  by (auto simp: alive_def)

lemma slot_then:
  assumes "grows E s0 s" "objs (tw s0) i = Some t"
    and "\<And>slot s'. grows E s0 s' \<Longrightarrow> grows E s s' \<Longrightarrow> names s' slot t \<Longrightarrow> tspec (f (t, slot)) s' Q R"
  shows "tspec (tbnd (slot_of_obj i) f) s Q R"
proof (rule tspec_bnd [OF spec_slot_names])
  show "ctx_ok E s" "objs (tw s) i = Some t" using assms by (simp_all add: grows_def)
  show "(case x of (u, slot) \<Rightarrow> \<lambda>s'. u = t \<and> grows E s s' \<and> names s' slot t) s' \<Longrightarrow> tspec (f x) s' Q R" for x s'
    using assms(3) grows_trans [OF assms(1)] by auto
qed

lemma dims_int_broadcast:
  assumes "dims_int (rows a) (cols a)" "dims_int (rows b) (cols b)" "broadcast_shape a b = (r, c)"
  shows "dims_int r c"
  using assms by (auto simp: broadcast_shape_def binary_shape_def shape_of_def dims_int_def max_def split: if_splits)

lemma dims_int_broadcast3:
  assumes "dims_int (rows c) (cols c)" "dims_int (rows a) (cols a)" "dims_int (rows b) (cols b)" "broadcast_shape3 c a b = (r, cl)"
  shows "dims_int r cl"
proof -
  obtain r1 c1 where bs: "broadcast_shape a b = (r1, c1)" by force
  show ?thesis using dims_int_broadcast [OF assms(2,3) bs] assms bs
    by (auto simp: broadcast_shape3_def binary_shape_def shape_of_def dims_int_def max_def split: if_splits)
qed

lemma record_kept:
  assumes "grows E s0 s" "active s0" "objs (tw s0) i = None" "list_all (valid_slot (nodes (dag s))) ins" "kd \<noteq> Input" "dims_int r c"
  shows "tspec (record_op i kd ins v dv dt r c v2) s (\<lambda>_. ctx_ok E) R"
  by (rule tspec_mono [OF spec_record_op]) (use assms in \<open>auto simp: grows_def\<close>)

lemma names_grows: "names s slot t \<Longrightarrow> grows E s s' \<Longrightarrow> names s' slot t"
  using grows_valid by (auto simp: names_def)

lemma names_valid: "names s slot t \<Longrightarrow> valid_slot (nodes (dag s)) slot"
  by (simp add: names_def)

lemma spec_binary:
  assumes k: "ctx_ok E s" "active s" "objs (tw s) i = None" and t: "objs (tw s) a = Some ta" "objs (tw s) b = Some tb" and op: "kd \<noteq> Input"
  shows "tspec (traced_binary kd a b i) s (\<lambda>_. ctx_ok E) R"
proof -
  obtain r c where rc: "broadcast_shape ta tb = (r, c)" by force
  have d: "dims_int r c" by (rule dims_int_broadcast [OF obj_dims [OF k(1) t(1)] obj_dims [OF k(1) t(2)] rc])
  show ?thesis unfolding traced_binary_def
    apply (rule slot_then [OF grows_refl [OF k(1)] t(1)], unfold prod.case)
    apply (rule slot_then [OF _ t(2)], assumption, unfold prod.case rc Let_def)
    apply (rule record_kept [OF _ k(2,3) _ op d], assumption)
    apply (auto intro: names_valid grows_valid)
    done
qed

lemma spec_unary:
  assumes k: "ctx_ok E s" "active s" "objs (tw s) i = None" and t: "objs (tw s) a = Some ta" and op: "kd \<noteq> Input"
  shows "tspec (traced_unary kd v v2 a i) s (\<lambda>_. ctx_ok E) R" "tspec (op_cast dt a i) s (\<lambda>_. ctx_ok E) R"
  unfolding traced_unary_def op_cast_def
  by (rule slot_then [OF grows_refl [OF k(1)] t], unfold prod.case,
      rule record_kept [OF _ k(2,3) _ _ obj_dims [OF k(1) t]], assumption, simp add: names_valid, simp add: op)+

lemma spec_where:
  assumes k: "ctx_ok E s" "active s" "objs (tw s) i = None"
    and t: "objs (tw s) cnd = Some tc" "objs (tw s) a = Some ta" "objs (tw s) b = Some tb"
  shows "tspec (op_where cnd a b i) s (\<lambda>_. ctx_ok E) R"
proof -
  obtain r c where rc: "broadcast_shape3 tc ta tb = (r, c)" by (meson surj_pair)
  have d: "dims_int r c" by (rule dims_int_broadcast3 [OF obj_dims [OF k(1) t(1)] obj_dims [OF k(1) t(2)] obj_dims [OF k(1) t(3)] rc])
  show ?thesis unfolding op_where_def
    apply (rule slot_then [OF grows_refl [OF k(1)] t(1)], unfold prod.case)
    apply (rule slot_then [OF _ t(2)], assumption, unfold prod.case)
    apply (rule slot_then [OF _ t(3)], assumption, unfold prod.case rc Let_def)
    apply (rule record_kept [OF _ k(2,3) _ _ d], assumption)
     apply (auto intro: names_valid; meson names_valid names_grows)
    apply simp
    done
qed

lemma spec_modulate:
  assumes k: "ctx_ok E s" "active s" "objs (tw s) i = None"
    and t: "objs (tw s) x = Some tx" "objs (tw s) sc = Some ts" "objs (tw s) sh = Some tb"
  shows "tspec (op_modulate x sc sh i) s (\<lambda>_. ctx_ok E) R"
  unfolding op_modulate_def
  apply (rule slot_then [OF grows_refl [OF k(1)] t(1)], unfold prod.case)
  apply (rule slot_then [OF _ t(2)], assumption, unfold prod.case)
  apply (rule slot_then [OF _ t(3)], assumption, unfold prod.case)
  apply (rule record_kept [OF _ k(2,3) _ _ obj_dims [OF k(1) t(1)]], assumption)
   apply (auto intro: names_valid; meson names_valid names_grows)
    apply simp
  done

lemma optional_then:
  assumes g: "grows E s0 s" and c: "countable_obj s0 i"
    and f: "\<And>ss s'. grows E s0 s' \<Longrightarrow> grows E s s' \<Longrightarrow> list_all (valid_slot (nodes (dag s'))) ss \<Longrightarrow> tspec (f ss) s' Q R"
  shows "tspec (tbnd (optional_slot i) f) s Q R"
proof -
  have k: "ctx_ok E s" using g by (simp add: grows_def)
  obtain t where t: "objs (tw s) i = Some t" "0 \<le> jit_slot t \<or> is_int32 (rows t * cols t)"
    using c g by (auto simp: countable_obj_def grows_def split: option.splits)
  have "\<exists>b. absent t = Inr b" using t(2) by (auto simp: absent_def tempty_def tsize_def)
  then obtain b where b: "absent t = Inr b" by blast
  have lift: "tspec (tlift (Inr b)) s Q' R' = Q' b s" for Q' :: "bool \<Rightarrow> _" and R' by (simp add: tspec_def tlift_def)
  show ?thesis
  proof (cases b)
    case True
    then show ?thesis using f [OF g grows_refl [OF k]] lift by (simp add: optional_slot_def tspec_tbnd tspec_peek [OF t(1)] b)
  next
    case False
    have "tspec (get_or_register_slot t) s (\<lambda>slot s'. tspec (f [slot]) s' Q R) R"
      by (rule tspec_mono [OF spec_get_slot [OF k ranI [of _ i]]]) (use t f grows_trans [OF g] in auto)
    then show ?thesis using False lift by (simp add: optional_slot_def tspec_tbnd tspec_peek [OF t(1)] b)
  qed
qed

lemma spec_norms:
  assumes k: "ctx_ok E s" "active s" "objs (tw s) i = None" and t: "objs (tw s) x = Some tx" and g: "countable_obj s g" "countable_obj s b"
  shows "tspec (op_rms_norm eps x g i) s (\<lambda>_. ctx_ok E) R" "tspec (op_layernorm eps x g b i) s (\<lambda>_. ctx_ok E) R"
proof -
  note fin = record_kept [OF _ k(2,3) _ _ obj_dims [OF k(1) t]]
  show "tspec (op_rms_norm eps x g i) s (\<lambda>_. ctx_ok E) R" unfolding op_rms_norm_def
    apply (rule slot_then [OF grows_refl [OF k(1)] t], unfold prod.case)
    apply (rule optional_then [OF _ g(1)], assumption)
    apply (rule fin, assumption)
     apply (auto intro: names_valid grows_valid)
    done
  show "tspec (op_layernorm eps x g b i) s (\<lambda>_. ctx_ok E) R" unfolding op_layernorm_def
    apply (rule slot_then [OF grows_refl [OF k(1)] t], unfold prod.case)
    apply (rule optional_then [OF _ g(1)], assumption)
    apply (rule optional_then [OF _ g(2)], assumption)
    apply (rule fin, assumption)
     apply (auto elim!: list.pred_mono_strong; meson names_valid names_grows grows_valid)
    apply simp
    done
qed

lemma inplace_kept:
  assumes "grows E s0 s" "active s0" "objs (tw s0) i = Some t" "names s target t" "arg < 0 \<or> valid_slot (nodes (dag s)) arg" "kd \<noteq> Input"
  shows "tspec (record_inplace_op kd target arg v i v2) s (\<lambda>_. ctx_ok E) R"
  by (rule tspec_mono [OF spec_record_inplace [of E s i t]]) (use assms in \<open>auto simp: grows_def\<close>)

lemma spec_assign:
  assumes k: "ctx_ok E s" "active s" and t: "objs (tw s) a = Some ta" "objs (tw s) b = Some tb"
  shows "tspec (op_add_assign a b) s (\<lambda>_. ctx_ok E) R" "tspec (op_mul_assign a b) s (\<lambda>_. ctx_ok E) R"
  unfolding op_add_assign_def op_mul_assign_def
  by (rule slot_then [OF grows_refl [OF k(1)] t(1)], unfold prod.case, rule slot_then [OF _ t(2)], assumption, unfold prod.case,
      rule inplace_kept [OF _ k(2) t(1)], assumption, auto intro: names_valid names_grows)+

lemma spec_assign_scalar:
  assumes k: "ctx_ok E s" "active s" and t: "objs (tw s) a = Some ta"
  shows "tspec (op_add_assign_scalar v a) s (\<lambda>_. ctx_ok E) R" "tspec (op_mul_assign_scalar v a) s (\<lambda>_. ctx_ok E) R"
  unfolding op_add_assign_scalar_def op_mul_assign_scalar_def
  by (rule slot_then [OF grows_refl [OF k(1)] t], unfold prod.case,
      rule inplace_kept [OF _ k(2) t], assumption, auto)+

lemma spec_op_store:
  assumes k: "ctx_ok E s" and t: "objs (tw s) src = Some ts" "objs (tw s) dst = Some td"
  shows "tspec (op_store dst src) s (\<lambda>_. ctx_ok E) (ctx_ok E)"
  unfolding op_store_def
proof (rule slot_then [OF grows_refl [OF k] t(1)], unfold prod.case)
  fix slot s' assume g: "grows E s s'" "names s' slot ts"
  then have td: "objs (tw s') dst = Some td" and k': "ctx_ok E s'" using t by (simp_all add: grows_def)
  show "tspec (tbnd (peek_obj dst) (record_store slot)) s' (\<lambda>_. ctx_ok E) (ctx_ok E)"
    unfolding tspec_tbnd tspec_peek [OF td] by (rule tspec_mono [OF spec_record_store [OF k' names_valid [OF g(2)]]]) (auto simp: grows_def)
qed

lemma spec_hooks:
  assumes k: "ctx_ok E s"
  shows "objs (tw s) y = Some ty \<Longrightarrow> tspec (clamp_inplace_hook y lo hi) s (\<lambda>_. ctx_ok E) R"
    and "objs (tw s) src = Some ts \<Longrightarrow> objs (tw s) dst = Some td \<Longrightarrow> objs (tw s) tmp = None \<Longrightarrow>
      tspec (cast_out_hook tmp src dst dt) s (\<lambda>_. ctx_ok E) R"
proof -
  assume t: "objs (tw s) y = Some ty"
  have "tspec (tbnd (slot_of_obj y) (\<lambda>(_, sy). tbnd (record_inplace_op Clamp sy (- 1) lo y hi) (\<lambda>_. tret True))) s (\<lambda>_. ctx_ok E) R" if a: "active s"
    apply (rule slot_then [OF grows_refl [OF k] t], unfold prod.case tspec_tbnd tspec_ret)
    apply (rule inplace_kept [OF _ a t], assumption)
      apply auto
    done
  then show "tspec (clamp_inplace_hook y lo hi) s (\<lambda>_. ctx_ok E) R" using k by (auto simp: tspec_def clamp_inplace_hook_def)
next
  assume t: "objs (tw s) src = Some ts" "objs (tw s) dst = Some td" "objs (tw s) tmp = None"
  have "tspec (tbnd (slot_of_obj src) (\<lambda>(ts, ss). tbnd (record_cast_out tmp ss ts dst dt) (\<lambda>_. tret True))) s (\<lambda>_. ctx_ok E) R" if a: "active s"
    apply (rule slot_then [OF grows_refl [OF k] t(1)], unfold prod.case tspec_tbnd tspec_ret)
    apply (rule tspec_mono [OF spec_cast_out])
    using obj_dims [OF k t(1)] t a apply (auto simp: grows_def intro: names_valid)
    done
  then show "tspec (cast_out_hook tmp src dst dt) s (\<lambda>_. ctx_ok E) R" using k by (auto simp: tspec_def cast_out_hook_def)
qed

lemma spec_host:
  assumes k: "ctx_ok E s" and c: "cmd_ok (tw s) c"
  shows "tspec (in_world (run_cmd c)) s (\<lambda>_. ctx_ok E) (ctx_ok E)"
proof -
  have w: "world_ok E (tw s)" using k by (simp add: ctx_ok_def)
  obtain r w' where r: "run_cmd c (tw s) = (r, w')" by force
  have "retarget_hook w' = retarget_hook (tw s)" by (rule hookedD [OF hooked_run_cmd r])
  then show ?thesis using run_cmd_ok [OF w c] run_cmd_syms [OF w c] r ctx_ok_world [OF k, of w']
    by (auto simp: tspec_in_world spec_def split: sum.splits err.splits)
qed

lemma run_tcmd_ok:
  assumes k: "ctx_ok E s" and c: "tcmd_ok s c"
  shows "tspec (run_tcmd c) s (\<lambda>_. ctx_ok E) (ctx_ok E)"
proof (cases c)
  case (Host c)
  then show ?thesis using spec_host k c assms(2) by simp
next
  case Begin
  then show ?thesis using k by (auto intro: tspec_mono [OF spec_begin [OF k]])
next
  case (End tmp)
  show ?thesis
  proof (cases "active s")
    case False
    then show ?thesis using k End by (simp add: tspec_unit_of) (simp add: end_dag_def tspec_def)
  next
    case True
    then show ?thesis using k c End by (auto simp: tspec_unit_of alive_def intro: tspec_mono [OF spec_end [OF k]])
  qed
next
  case Discard
  then show ?thesis using k by (auto intro: tspec_mono [OF spec_discard [OF k]])
next
  case (ClampInplace y lo hi)
  then obtain t where "objs (tw s) y = Some t" using c by (auto simp: alive_def)
  then show ?thesis using spec_hooks(1) [OF k] ClampInplace by (simp add: tspec_unit_of)
next
  case (RmsNorm eps x g i)
  then show ?thesis using spec_norms(1) [OF k] c by (auto simp: alive_def)
qed (use c in \<open>auto simp: tspec_unit_of alive_def intro!: spec_binary [OF k] spec_unary [OF k] spec_where [OF k] spec_modulate [OF k]
       spec_norms [OF k] spec_assign [OF k] spec_assign_scalar [OF k] spec_op_store [OF k] spec_hooks [OF k]\<close>)

end
