(* ===== verification/TraceProps.thy ===== *)
theory TraceProps
  imports TracePrograms TensorProps
begin

text \<open>
  The properties of the trace context: programs are safe, the end of a trace settles every tensor, and where recording loses
  information: a stored value that is read back, a missing scale in \<^verbatim>\<open>layernorm\<close>, and the hash that names a trace.
\<close>

section \<open>Reachable states\<close>

inductive treach :: "'o tstate \<Rightarrow> 'o tstate \<Rightarrow> bool" for s0 where
  treach_refl: "treach s0 s0"
| treach_step: "treach s0 s \<Longrightarrow> tcmd_ok s c \<Longrightarrow> run_tcmd c s = (r, s') \<Longrightarrow> treach s0 s'"

lemma tspec_outcome: "tspec m s (\<lambda>_. P) P \<Longrightarrow> m s = (r, s') \<Longrightarrow> P s' \<and> safe r"
  by (auto simp: tspec_def safe_def split: sum.splits err.splits)

lemma treach_ctx_ok: "treach s0 s \<Longrightarrow> ctx_ok E s0 \<Longrightarrow> ctx_ok E s"
  by (induction rule: treach.induct) (auto dest: tspec_outcome [OF run_tcmd_ok])

definition demo_state :: "unit tstate" where
  "demo_state = \<lparr>tw = demo_world1, active = False, dag = empty_dag, active_ptr_to_slot = Map.empty\<rparr>"

lemma demo_state_ok: "ctx_ok {0} demo_state"
  using demo_world1_ok by (simp add: ctx_ok_def demo_state_def empty_dag_def syms_def demo_world1_simps demo_tensor_def empty_tensor_def)

definition demo_begun :: "unit tstate" where
  "demo_begun = \<lparr>tw = demo_world1\<lparr>retarget_hook := True\<rparr>, active = True, dag = empty_dag, active_ptr_to_slot = Map.empty\<rparr>"

lemma demo_begun_simps: "active demo_begun" "objs (tw demo_begun) = [7 \<mapsto> demo_tensor]" "dag demo_begun = empty_dag"
  "active_ptr_to_slot demo_begun = Map.empty" "heap (tw demo_begun) = heap demo_world1" "rt (tw demo_begun) = demo_rt"
  by (simp_all add: demo_begun_def demo_world1_simps)

lemma demo_begun_eq: "run_tcmd Begin demo_state = (Inr (), demo_begun)"
proof -
  let ?w = "demo_world1\<lparr>retarget_hook := True\<rparr>"
  have "slots_ok ?w" using demo_world1_ok by (simp add: world_ok_def slots_ok_def)
  then have r: "release_tracked ?w = (Inr (), released ?w)" by (rule release_tracked_eq)
  have m: "slot_to_tensor demo_world1 = Map.empty"
  proof (rule ext, rule ccontr)
    fix k assume "slot_to_tensor demo_world1 k \<noteq> None"
    then have "0 \<le> jit_slot demo_tensor" using demo_world1_ok by (auto simp: world_ok_def slots_ok_def demo_world1_simps split: if_splits)
    then show False by (simp add: demo_tensor_def empty_tensor_def)
  qed
  have "released ?w = ?w"
    by (rule world.equality) (simp_all add: released_def demo_world1_simps m fun_eq_iff desym_def demo_tensor_def empty_tensor_def)
  then show ?thesis by (simp add: demo_begun_def demo_state_def begin_trace_def tbnd_def in_world_def r dag_reset_def)
qed

lemma demo_treach: "treach demo_state demo_begun"
  by (rule treach_step [OF treach_refl _ demo_begun_eq]) simp

text \<open>
  C11: tracing is memory safe. Run any sequence of tensor operations, \<^verbatim>\<open>begin_trace\<close>, traced operators, in-place operators,
  \<^verbatim>\<open>store\<close>, \<^verbatim>\<open>end_trace\<close> and \<^verbatim>\<open>abort_trace\<close>, each of which may throw. In every state reached, no further call is undefined
  behaviour; the graph is in topological order (each node's operands come before it); a symbolic tensor exists only while a
  trace is active and names a non-input node of it with its own shape, dtype and device; the table of tracked tensors lists
  exactly the symbolic tensors alive; and the storage invariant of the tensors still holds.
\<close>

theorem trace_programs_safe:
  assumes "ctx_ok E s0" and "treach s0 s"
  shows "(\<forall>c. tcmd_ok s c \<longrightarrow> safe (fst (run_tcmd c s)))
    \<and> (\<forall>i < length (nodes (dag s)). nid (nodes (dag s) ! i) = int i \<and> (\<forall>j\<in>set (inputs (nodes (dag s) ! i)). 0 \<le> j \<and> j < int i))
    \<and> (\<forall>i t. objs (tw s) i = Some t \<and> 0 \<le> jit_slot t \<longrightarrow> active s \<and> jit_slot t < int (length (nodes (dag s)))
         \<and> sym_node (nodes (dag s) ! nat (jit_slot t)) t)
    \<and> (\<forall>slot i. slot_to_tensor (tw s) slot = Some i \<longleftrightarrow> 0 \<le> slot \<and> (\<exists>t. objs (tw s) i = Some t \<and> jit_slot t = slot))
    \<and> world_inv E (tw s)"
proof -
  have k: "ctx_ok E s" using assms treach_ctx_ok by blast
  show ?thesis
  proof (intro conjI allI impI)
    show "safe (fst (run_tcmd c s))" if "tcmd_ok s c" for c
      using tspec_outcome [OF run_tcmd_ok [OF k that]] by (metis prod.collapse)
    show "world_inv E (tw s)" "slot_to_tensor (tw s) slot = Some i \<longleftrightarrow> 0 \<le> slot \<and> (\<exists>t. objs (tw s) i = Some t \<and> jit_slot t = slot)" for slot i
      using k by (simp_all add: ctx_ok_def world_ok_def slots_ok_def)
  qed (use k in \<open>auto simp: ctx_ok_def nodes_wf_def node_wf_def syms_def named_by_def valid_slot_def ran_def\<close>)
qed

theorem trace_programs_safe_witness:
  "ctx_ok {0} demo_state \<and> treach demo_state demo_begun \<and> tcmd_ok demo_begun (Binary Add 7 7 8)
   \<and> safe (fst (run_tcmd (Binary Add 7 7 8) demo_begun))"
proof -
  have "tcmd_ok demo_begun (Binary Add 7 7 8)" by (simp add: alive_def demo_begun_simps)
  moreover note conjunct1 [OF trace_programs_safe [OF demo_state_ok demo_treach]]
  ultimately show ?thesis using demo_state_ok demo_treach by blast
qed

section \<open>The end of a trace\<close>

text \<open>
  C18: what \<^verbatim>\<open>end_trace\<close> does. When it returns the graph, no trace is active and no symbolic tensor is left; the graph is in
  topological order and has a node to write; every node to write is an operation with a buffer. A tensor that was not symbolic
  is as before. A symbolic tensor whose node has no user or is in place, and whose size is not zero, owns fresh storage of its
  shape and dtype, and its node is written there; every other symbolic tensor is empty now. When it throws, nothing leaks:
  either the trace is still active, or it is gone and its graph is empty.
\<close>

theorem trace_end:
  assumes "ctx_ok E s" "active s" "objs (tw s) tmp = None"
  shows "case end_dag tmp s of
      (Inr g, s') \<Rightarrow> ctx_ok E s' \<and> \<not> active s' \<and> syms (tw s') = {} \<and> runnable (nodes g) \<and> length (nodes g) = length (nodes (dag s))
        \<and> (\<forall>i t. objs (tw s) i = Some t \<longrightarrow> (\<exists>u. objs (tw s') i = Some u \<and>
             (if jit_slot t < 0 then u = t else settled (nodes (dag s)) (nodes g) t u)))
    | (Inl e, s') \<Rightarrow> (\<exists>m. e = Throw m) \<and> ctx_ok E s' \<and> (active s' \<or> nodes (dag s') = [])"
proof -
  obtain r s' where r: "end_dag tmp s = (r, s')" by force
  show ?thesis
  proof (cases r)
    case (Inl e)
    then show ?thesis using spec_end [OF assms] r by (cases e) (auto simp: tspec_def)
  next
    case (Inr g)
    note e = spec_end [OF assms, unfolded tspec_def r Inr, simplified]
    have "syms (tw s') = {}" using e by (auto simp: ctx_ok_def)
    then show ?thesis using e r Inr by simp
  qed
qed

text \<open>The demo trace: \<open>silu\<close> of the tensor at 7, held at 8.\<close>

definition demo_input :: TraceNode where
  "demo_input = default_node\<lparr>nid := 0, op := Input, buffer := Ptr 1 0, n_device := vulkan 0, n_rows := 1, n_cols := 2\<rparr>"

definition demo_silu :: TraceNode where
  "demo_silu = default_node\<lparr>nid := 1, op := SiLU, inputs := [0], n_device := vulkan 0, n_rows := 1, n_cols := 2\<rparr>"

definition demo_traced :: "unit tstate" where
  "demo_traced = snd (run_tcmd (Unary SiLU 0 0 7 8) demo_begun)"

lemma demo_traced_eq: "run_tcmd (Unary SiLU 0 0 7 8) demo_begun = (Inr (), demo_traced)"
  and demo_traced_simps: "active demo_traced" "objs (tw demo_traced) = [7 \<mapsto> demo_tensor, 8 \<mapsto> symbolic 1 (vulkan 0) FP32 1 2]"
  "nodes (dag demo_traced) = [demo_input, demo_silu]" "heap (tw demo_traced) = heap demo_world1" "rt (tw demo_traced) = demo_rt"
  "slot_to_tensor (tw demo_traced) 1 = Some 8"
  by (simp_all add: demo_traced_def traced_unary_def slot_of_obj_def tbnd_def peek_obj_def demo_begun_simps get_or_register_slot_def tret_def
      demo_tensor_def empty_tensor_def new_slot_def on_dag_def register_input_def empty_dag_def new_input_def push_node_def Let_def
      record_op_def add_node_def in_world_def track_def symbolic_def demo_input_def demo_silu_def default_node_def)

lemma demo_traced_ok: "ctx_ok {0} demo_traced"
proof -
  have "treach demo_state demo_traced"
    by (rule treach_step [OF demo_treach _ demo_traced_eq]) (simp add: alive_def demo_begun_simps)
  then show ?thesis using demo_state_ok treach_ctx_ok by blast
qed

lemma demo_traced_live: "nodes (analyze_liveness (dag demo_traced)) = [demo_input\<lparr>outputs := [1]\<rparr>, demo_silu\<lparr>is_live_at_end := True\<rparr>]"
  by (simp add: analyze_liveness_def Let_def demo_traced_simps demo_input_def demo_silu_def default_node_def push_uses_def push_output_def valid_slot_def node_live_def)


lemmas trace_eval = tbnd_def in_world_def tret_def set_node_def update_node_def peek_obj_def

lemma demo_empty_on1: "rt w = demo_rt \<Longrightarrow> heap w = heap demo_world1 \<Longrightarrow> \<exists>w'. empty_on (vulkan 0) 1 2 FP32 w = (Inr
   (empty_tensor\<lparr>device := vulkan 0, rows := 1, cols := 2, data := Ptr 2 0, owns := True, cap_bytes := 8\<rparr>), w')
   \<and> objs w' = objs w \<and> retarget_hook w' = retarget_hook w \<and> slot_to_tensor w' = slot_to_tensor w \<and> rt w' = rt w"
  by (simp add: empty_on_def demo_eval)


lemma demo_install:
  assumes "objs w 8 = Some (symbolic 1 (vulkan 0) FP32 1 2)" "objs w 9 = Some u" "jit_slot u = - 1"
  shows "\<exists>w'. install 9 1 8 w = (Inr (data u), w') \<and> slot_to_tensor w' = (slot_to_tensor w)(1 := None) \<and> objs w' = (objs w)(8 \<mapsto> u, 9 := None)"
  using assms by (simp add: install_def with_obj_def move_assign_def dtor_def release_def hook_def set_obj_def moved_from_def sbnd_def ret_def fun_upd_twist)
    (simp add: fun_eq_iff)

lemma demo_round: "\<exists>s'. materialize_one 9 1 (demo_traced\<lparr>dag := analyze_liveness (dag demo_traced)\<rparr>) = (Inr (), s')
    \<and> slot_to_tensor (tw s') = (slot_to_tensor (tw demo_traced))(1 := None) \<and> objs (tw s') = [7 \<mapsto> demo_tensor, 8 \<mapsto> empty_tensor\<lparr>device := vulkan 0, rows := 1, cols := 2, data := Ptr 2 0, owns := True, cap_bytes := 8\<rparr>]
    \<and> nodes (dag s') = [demo_input\<lparr>outputs := [1]\<rparr>, demo_silu\<lparr>is_live_at_end := True, buffer := Ptr 2 0\<rparr>]"
proof -
  let ?u = "empty_tensor\<lparr>device := vulkan 0, rows := 1, cols := 2, data := Ptr 2 0, owns := True, cap_bytes := 8\<rparr>"
  obtain w1 where w1: "empty_on (vulkan 0) 1 2 FP32 (tw demo_traced) = (Inr ?u, w1)" "objs w1 = objs (tw demo_traced)" "slot_to_tensor w1 = slot_to_tensor (tw demo_traced)"
    using demo_empty_on1 [OF demo_traced_simps(5,4)] by blast
  let ?w1 = "w1\<lparr>objs := (objs w1)(9 \<mapsto> ?u)\<rparr>"
  obtain w2 where w2: "install 9 1 8 ?w1 = (Inr (Ptr 2 0), w2)" "slot_to_tensor w2 = (slot_to_tensor ?w1)(1 := None)" "objs w2 = (objs ?w1)(8 \<mapsto> ?u, 9 := None)"
    using demo_install [of ?w1 ?u] w1 by (auto simp: demo_traced_simps empty_tensor_def)
  show ?thesis using w1 w2
    by (simp add: materialize_one_def demo_traced_live demo_silu_def demo_traced_simps default_node_def hand_over_def trace_eval construct_def sbnd_def)
qed

lemma demo_end: "\<exists>g s'. end_dag 9 demo_traced = (Inr g, s')"
proof -
  let ?s = "demo_traced\<lparr>dag := analyze_liveness (dag demo_traced)\<rparr>"
  obtain s' where s': "materialize_one 9 1 ?s = (Inr (), s')" "slot_to_tensor (tw s') = (slot_to_tensor (tw demo_traced))(1 := None)"
    "nodes (dag s') = [demo_input\<lparr>outputs := [1]\<rparr>, demo_silu\<lparr>is_live_at_end := True, buffer := Ptr 2 0\<rparr>]"
    using demo_round by blast
  have "materialize_one 9 0 ?s = (Inr (), ?s)" by (simp add: materialize_one_def demo_traced_live demo_input_def default_node_def)
  then have m: "materialize 9 ?s = (Inr (), s')" using s'(1)
    by (simp add: materialize_def demo_traced_live trace_eval upt_conv_Cons)
  have sl: "slots_ok (tw s')"
    using spec_materialize [OF analyzed_ok [OF demo_traced_ok], of 9] m by (simp add: demo_traced_simps tspec_def mat_upto_def ctx_ok_def world_ok_def)
  show ?thesis using m s'(3) release_tracked_eq [OF sl]
    by (simp add: end_dag_def demo_traced_simps trace_eval)
qed

theorem trace_end_witness:
  "ctx_ok {0} demo_traced \<and> (\<exists>g s' u. end_dag 9 demo_traced = (Inr g, s') \<and> \<not> active s' \<and> runnable (nodes g)
     \<and> objs (tw s') 8 = Some u \<and> owns u \<and> buffer (nodes g ! 1) = data u)"
proof -
  obtain g s' where e: "end_dag 9 demo_traced = (Inr g, s')" using demo_end by blast
  have t: "objs (tw demo_traced) 9 = None" "objs (tw demo_traced) 8 = Some (symbolic 1 (vulkan 0) FP32 1 2)" by (simp_all add: demo_traced_simps)
  have "settled [demo_input, demo_silu] (nodes g) (symbolic 1 (vulkan 0) FP32 1 2) u \<Longrightarrow> owns u \<and> buffer (nodes g ! 1) = data u" for u
    by (simp add: settled_def observable_def users_def demo_input_def demo_silu_def default_node_def act_eval adopts_def)
  then show ?thesis using trace_end [OF demo_traced_ok demo_traced_simps(1) t(1)] e t(2) demo_traced_ok
    by (fastforce simp: demo_traced_simps(3))
qed


section \<open>What recording loses\<close>

lemma get_slot_world: "get_or_register_slot t s = (r, s') \<Longrightarrow> tw s' = tw s"
  by (auto simp: get_or_register_slot_def new_slot_def tbnd_def on_dag_def split: if_splits option.splits prod.splits)

lemma slot_of_obj_world: "slot_of_obj i s = (r, s') \<Longrightarrow> tw s' = tw s"
  by (auto simp: slot_of_obj_def tbnd_def peek_obj_def tret_def dest!: get_slot_world split: option.splits prod.splits sum.splits)

lemma optional_slot_world: "optional_slot i s = (r, s') \<Longrightarrow> tw s' = tw s"
  by (auto simp: optional_slot_def tbnd_def peek_obj_def tret_def tlift_def dest!: get_slot_world split: option.splits prod.splits sum.splits if_splits)

lemma optional_absent: "objs (tw s) g = Some t \<Longrightarrow> absent t = Inr True \<Longrightarrow> optional_slot g s = (Inr [], s)"
  by (simp add: optional_slot_def tbnd_def peek_obj_def tret_def tlift_def)

text \<open>
  C27: \<^verbatim>\<open>layernorm\<close> under a trace forgets which of its optional operands it was given. With an absent operand \<open>g\<close>, the call with
  \<open>g\<close> as scale and \<open>b\<close> as shift records the very same graph as the call with \<open>b\<close> as scale and \<open>g\<close> as shift: a shift without a
  scale is recorded as a scale without a shift.
\<close>

theorem layernorm_forgets_roles:
  assumes "objs (tw s) g = Some t" "absent t = Inr True"
  shows "op_layernorm eps x g b i s = op_layernorm eps x b g i s"
proof -
  have g: "optional_slot g s' = (Inr [], s')" if "tw s' = tw s" for s' using optional_absent [of s' g t] assms that by simp
  obtain r s1 where x: "slot_of_obj x s = (r, s1)" by force
  obtain r2 s2 where b: "optional_slot b s1 = (r2, s2)" by force
  have "tw s1 = tw s" "tw s2 = tw s" using slot_of_obj_world [OF x] optional_slot_world [OF b] by simp_all
  then show ?thesis using g x b by (auto simp: op_layernorm_def tbnd_def split: sum.split)
qed

theorem layernorm_forgets_roles_witness:
  "absent empty_tensor = Inr True \<and>
   (let s = demo_begun\<lparr>tw := (tw demo_begun)\<lparr>objs := [7 \<mapsto> demo_tensor, 6 \<mapsto> empty_tensor]\<rparr>\<rparr> in
    op_layernorm 0 7 6 7 8 s = op_layernorm 0 7 7 6 8 s)"
  using layernorm_forgets_roles [of "demo_begun\<lparr>tw := (tw demo_begun)\<lparr>objs := [7 \<mapsto> demo_tensor, 6 \<mapsto> empty_tensor]\<rparr>\<rparr>" 6 empty_tensor 0 7 7 8]
  by (simp add: absent_def tempty_def empty_tensor_def)

text \<open>Two ways the value of a \<open>Copy\<close> node stays in registers: a user keeps it from being live, and nothing later makes it live.\<close>

lemma used_not_live:
  assumes "j < length (nodes g)" "n \<in> set (nodes g)" "int j \<in> set (inputs n)" "\<not> is_inplace (nodes g ! j)"
  shows "\<not> is_live_at_end (nodes (analyze_liveness g) ! j)"
proof -
  have "users (nodes g) (int j) \<noteq> []" using assms(2,3) by (auto simp: users_def filter_empty_conv)
  then show ?thesis using assms by (simp add: analyze_nth)
qed

lemma op_store_last:
  assumes s: "op_store dst src s = (Inr (), s1)" and d: "objs (tw s) dst = Some td"
  shows "jit_slot td < 0 \<and> tw s1 = tw s \<and> nodes (dag s1) \<noteq> [] \<and> (let j = length (nodes (dag s1)) - 1; n = nodes (dag s1) ! j in
     op n = Copy \<and> buffer n = data td \<and> \<not> is_inplace n \<and> slot_matches (dag s1) (int j) td \<and> active_ptr_to_slot s1 (data td) = Some (int j))"
proof -
  obtain r s0 where x: "slot_of_obj src s = (r, s0)" by force
  then have w: "tw s0 = tw s" by (rule slot_of_obj_world)
  obtain ts ss where r: "r = Inr (ts, ss)" using s x by (cases r) (auto simp: op_store_def tbnd_def)
  have "objs (tw s0) dst = Some td" using w d by simp
  then have e: "record_store ss td s0 = (Inr (), s1)" using s x r by (simp add: op_store_def tbnd_def peek_obj_def)
  then show ?thesis using w
    by (auto simp: record_store_def tbnd_def tlift_def on_dag_def add_node_def push_node_def Let_def point_at_def slot_matches_def valid_slot_def default_node_def split: if_splits)
qed

text \<open>
  C28: a stored value that is read back is not written. After \<^verbatim>\<open>store(dst, src)\<close>, reading \<open>dst\<close> in the same trace (here by any
  unary operator) finds the \<^verbatim>\<open>Copy\<close> node, gives it a user, and so, whatever is recorded after, liveness does not mark it: the
  end of the trace leaves the buffer of \<open>dst\<close> as it was.
\<close>

theorem store_read_back_dropped:
  assumes "op_store dst src s = (Inr (), s1)" "objs (tw s) dst = Some td"
    and "traced_unary k v v2 dst i s1 = (Inr (), s2)" and "nodes g = nodes (dag s2) @ ms"
  shows "\<exists>j < length (nodes (dag s1)). op (nodes g ! j) = Copy \<and> buffer (nodes g ! j) = data td
     \<and> \<not> is_live_at_end (nodes (analyze_liveness g) ! j)"
proof -
  let ?j = "length (nodes (dag s1)) - 1"
  note l = op_store_last [OF assms(1,2), unfolded Let_def]
  then have d: "objs (tw s1) dst = Some td" and len: "?j < length (nodes (dag s1))" using assms(2) by simp_all
  have "slot_of_obj dst s1 = (Inr (td, int ?j), s1)"
    using l d by (simp add: slot_of_obj_def tbnd_def peek_obj_def get_or_register_slot_def tret_def)
  then obtain n where n: "nodes (dag s2) = nodes (dag s1) @ [n]" "inputs n = [int ?j]"
    using assms(3) by (auto simp: traced_unary_def tbnd_def record_op_def on_dag_def add_node_def push_node_def Let_def in_world_def track_def)
  have g: "nodes g ! ?j = nodes (dag s1) ! ?j" "?j < length (nodes g)" "n \<in> set (nodes g)" using assms(4) n(1) len by (simp_all add: nth_append)
  have "\<not> is_live_at_end (nodes (analyze_liveness g) ! ?j)" by (rule used_not_live [OF g(2,3)]) (use n(2) g(1) l in simp_all)
  then show ?thesis using g(1) l len by (intro exI [of _ ?j]) simp
qed


text \<open>The demo: \<^verbatim>\<open>store\<close> of the symbolic tensor at 8 into the tensor at 7, which is read back into 10.\<close>

theorem store_read_back_dropped_witness:
  "\<exists>s1 s2. op_store 7 8 demo_traced = (Inr (), s1) \<and> traced_unary Neg 0 0 7 10 s1 = (Inr (), s2)
     \<and> (\<exists>j < length (nodes (dag s1)). op (nodes (dag s2) ! j) = Copy \<and> buffer (nodes (dag s2) ! j) = Ptr 1 0
          \<and> \<not> is_live_at_end (nodes (analyze_liveness (dag s2)) ! j))"
proof -
  have o: "objs (tw demo_traced) 7 = Some demo_tensor" "objs (tw demo_traced) 8 = Some (symbolic 1 (vulkan 0) FP32 1 2)"
    by (simp_all add: demo_traced_simps)
  have "\<exists>s1. op_store 7 8 demo_traced = (Inr (), s1)" using o
    by (simp add: op_store_def slot_of_obj_def tbnd_def peek_obj_def get_or_register_slot_def tret_def record_store_def demo_tensor_def
        empty_tensor_def on_dag_def add_node_def push_node_def Let_def point_at_def)
  then obtain s1 where s1: "op_store 7 8 demo_traced = (Inr (), s1)" by blast
  have d: "tw s1 = tw demo_traced" using op_store_last [OF s1 o(1)] by simp
  have "\<exists>s2. traced_unary Neg 0 0 7 10 s1 = (Inr (), s2)" using o d
    by (auto simp: traced_unary_def slot_of_obj_def tbnd_def peek_obj_def get_or_register_slot_def tret_def new_slot_def on_dag_def
        record_op_def add_node_def push_node_def Let_def in_world_def track_def split: option.splits prod.splits sum.splits if_splits)
  then obtain s2 where s2: "traced_unary Neg 0 0 7 10 s1 = (Inr (), s2)" by blast
  show ?thesis using s1 s2 store_read_back_dropped [OF s1 o(1) s2, of "dag s2" "[]"]
    by (auto simp: demo_tensor_def)
qed

section \<open>The signature of a trace\<close>

text \<open>The graph of \<^verbatim>\<open>clamp(x, lo, hi)\<close>, as recording and liveness leave it.\<close>

definition clamp_dag :: "Tensor \<Rightarrow> 32 word \<Rightarrow> 32 word \<Rightarrow> TraceDAG" where
  "clamp_dag t lo hi = (let (a, g) = register_input t empty_dag;
       (_, g') = add_node Clamp [a] lo Null (device t) (dtype t) (rows t) (cols t) hi g in analyze_liveness g')"

lemma clamp_dag_nodes:
  "nodes (clamp_dag t lo hi) = [default_node\<lparr>nid := 0, op := Input, buffer := data t, n_device := device t, n_dtype := dtype t,
      n_rows := rows t, n_cols := cols t, outputs := [1]\<rparr>,
    default_node\<lparr>nid := 1, op := Clamp, inputs := [0], scalar := lo, scalar2 := hi, n_device := device t, n_dtype := dtype t,
      n_rows := rows t, n_cols := cols t, is_live_at_end := True\<rparr>]"
  by (simp add: clamp_dag_def register_input_def new_input_def push_node_def empty_dag_def add_node_def analyze_liveness_def Let_def
      push_uses_def push_output_def valid_slot_def node_live_def default_node_def)

lemma clamp_collision:
  assumes "device t = cpu" "dtype t = FP32" "rows t = 1" "cols t = 8"
  shows "compute_hash (clamp_dag t 0xc2b00000 0xb700027d) = compute_hash (clamp_dag t 0x35b0000f 0x40000000)"
  by (simp add: compute_hash_def clamp_dag_nodes default_node_def node_words_def assms hash_val_def op_enum_def op_kinds_def)

end
