(* ===== verification/TraceCache.thy ===== *)
theory TraceCache
  imports TraceDag
begin

unbundle bit_operations_syntax

text \<open>
  The cache of compiled traces (\<^verbatim>\<open>src/jit/trace_cache.h\<close>, \<^verbatim>\<open>src/jit/trace_cache.cpp\<close>): a table of fixed capacity with linear
  probing and write-once entries, as one thread sees it and as the atomic steps of several threads. Handles are an arbitrary
  type \<open>'h\<close>.
\<close>

section \<open>The table\<close>

record 'h CacheEntry =
  key :: "64 word"
  published :: "'h option"
  owner :: "'h option"

definition empty_cache_entry :: "'h CacheEntry" where
  "empty_cache_entry = \<lparr>key = 0, published = None, owner = None\<rparr>"

record 'h TraceCache =
  table :: "'h CacheEntry list"
  hit_count :: "64 word"
  miss_count :: "64 word"

definition kCapacity :: nat where
  "kCapacity = 1024"

definition normalize :: "64 word \<Rightarrow> 64 word" where
  "normalize h = (if h \<noteq> 0 then h else 0x9E3779B97F4A7C15)"

definition slot_of :: "64 word \<Rightarrow> nat" where
  "slot_of h = unat h AND (kCapacity - 1)"

definition next_slot :: "nat \<Rightarrow> nat" where
  "next_slot i = (i + 1) AND (kCapacity - 1)"

text \<open>The probe loop of \<^verbatim>\<open>lookup\<close>, with the probes left: \<open>Some\<close> of the owner on a hit.\<close>

fun lookup_from :: "64 word \<Rightarrow> nat \<Rightarrow> nat \<Rightarrow> 'h CacheEntry list \<Rightarrow> 'h option option" where
  "lookup_from k 0 i es = None"
| "lookup_from k (Suc p) i es = (let cur = key (es ! i) in
     if cur = 0 then None
     else if cur \<noteq> k then lookup_from k p (next_slot i) es
     else if published (es ! i) = None then None
     else Some (owner (es ! i)))"

definition cache_lookup :: "64 word \<Rightarrow> 'h TraceCache \<Rightarrow> 'h option \<times> 'h TraceCache" where
  "cache_lookup hash c = (let k = normalize hash in
     case lookup_from k kCapacity (slot_of k) (table c) of
       Some h \<Rightarrow> (h, c\<lparr>hit_count := hit_count c + 1\<rparr>)
     | None \<Rightarrow> (None, c\<lparr>miss_count := miss_count c + 1\<rparr>))"

fun insert_from :: "64 word \<Rightarrow> 'h \<Rightarrow> nat \<Rightarrow> nat \<Rightarrow> 'h CacheEntry list \<Rightarrow> 'h CacheEntry list" where
  "insert_from k h 0 i es = es"
| "insert_from k h (Suc p) i es = (
     if key (es ! i) = 0 then es[i := \<lparr>key = k, published = Some h, owner = Some h\<rparr>]
     else if key (es ! i) = k then es
     else insert_from k h p (next_slot i) es)"

definition cache_insert :: "64 word \<Rightarrow> 'h option \<Rightarrow> 'h TraceCache \<Rightarrow> 'h TraceCache" where
  "cache_insert hash handle c = (case handle of
      None \<Rightarrow> c
    | Some h \<Rightarrow> let k = normalize hash in c\<lparr>table := insert_from k h kCapacity (slot_of k) (table c)\<rparr>)"

definition cache_clear :: "'h TraceCache \<Rightarrow> 'h TraceCache" where
  "cache_clear c = c\<lparr>table := map (\<lambda>e. e\<lparr>published := None, owner := None, key := 0\<rparr>) (table c), hit_count := 0, miss_count := 0\<rparr>"

definition new_cache :: "'h TraceCache" where
  "new_cache = \<lparr>table = replicate kCapacity empty_cache_entry, hit_count = 0, miss_count = 0\<rparr>"

section \<open>Probe runs\<close>

definition at_probe :: "64 word \<Rightarrow> nat \<Rightarrow> nat" where
  "at_probe k d = (slot_of k + d) mod kCapacity"

lemma capacity_pos [simp]: "0 < kCapacity"
  by (simp add: kCapacity_def)

lemma and_capacity: "n AND (kCapacity - Suc 0) = n mod kCapacity"
proof -
  have "kCapacity - Suc 0 = mask 10" by (simp add: kCapacity_def mask_eq_exp_minus_1)
  then have "n AND (kCapacity - Suc 0) = take_bit 10 n" by (simp add: take_bit_eq_mask)
  then show ?thesis by (simp add: kCapacity_def take_bit_eq_mod)
qed

lemma slot_of_mod: "slot_of k = unat k mod kCapacity"
  by (simp add: slot_of_def and_capacity)

lemma at_probe_simps [simp]: "at_probe k d < kCapacity" "at_probe k 0 = slot_of k" "next_slot (at_probe k d) = at_probe k (Suc d)"
  by (simp_all add: at_probe_def next_slot_def and_capacity mod_simps) (simp add: slot_of_mod)

lemma at_probe_onto: "i < kCapacity \<Longrightarrow> \<exists>d < kCapacity. at_probe k d = i"
proof -
  assume i: "i < kCapacity"
  let ?s = "slot_of k mod kCapacity"
  have s: "?s < kCapacity" by simp
  let ?d = "(i + (kCapacity - ?s)) mod kCapacity"
  have "at_probe k ?d = (?s + (i + (kCapacity - ?s))) mod kCapacity" unfolding at_probe_def by (metis mod_add_eq mod_mod_trivial)
  also have "?s + (i + (kCapacity - ?s)) = i + kCapacity" using s by linarith
  finally show ?thesis using i by (intro exI [of _ ?d]) simp
qed

text \<open>
  Both loops stop at the first slot of the probe run of \<open>k\<close> that is free or holds \<open>k\<close>; \<open>stops k es d\<close> says it is the one \<open>d\<close>
  steps from the home slot.
\<close>

definition passed :: "64 word \<Rightarrow> 'h CacheEntry list \<Rightarrow> nat \<Rightarrow> bool" where
  "passed k es d \<longleftrightarrow> (\<forall>e < d. key (es ! at_probe k e) \<noteq> 0 \<and> key (es ! at_probe k e) \<noteq> k)"

definition stops :: "64 word \<Rightarrow> 'h CacheEntry list \<Rightarrow> nat \<Rightarrow> bool" where
  "stops k es d \<longleftrightarrow> passed k es d \<and> (key (es ! at_probe k d) = 0 \<or> key (es ! at_probe k d) = k)"

lemma passed_Suc: "passed k es (Suc d) \<longleftrightarrow> passed k es d \<and> key (es ! at_probe k d) \<noteq> 0 \<and> key (es ! at_probe k d) \<noteq> k"
  by (auto simp: passed_def less_Suc_eq)

lemma passed_stops: "passed k es n \<or> (\<exists>d < n. stops k es d)"
proof (induction n)
  case (Suc n)
  then show ?case by (auto simp: passed_Suc stops_def less_Suc_eq)
qed (simp add: passed_def)

lemma stops_unique: "stops k es d \<Longrightarrow> stops k es e \<Longrightarrow> d = e"
  unfolding stops_def passed_def by (metis linorder_neqE_nat)

lemma lookup_from_passed:
  "passed k es n \<Longrightarrow> d \<le> n \<Longrightarrow> lookup_from k (n - d) (at_probe k d) es = None"
proof (induction "n - d" arbitrary: d)
  case (Suc m)
  then have "n - d = Suc (n - Suc d)" "m = n - Suc d" "Suc d \<le> n" "key (es ! at_probe k d) \<noteq> 0 \<and> key (es ! at_probe k d) \<noteq> k"
    by (auto simp: passed_def)
  then show ?case using Suc.hyps(1) [of "Suc d"] Suc.prems by (simp add: Let_def)
qed simp

lemma lookup_from_stops:
  "stops k es e \<Longrightarrow> e < n \<Longrightarrow> d \<le> e \<Longrightarrow> lookup_from k (n - d) (at_probe k d) es =
     (let x = es ! at_probe k e in if key x = 0 \<or> published x = None then None else Some (owner x))"
proof (induction "e - d" arbitrary: d)
  case 0
  then have "d = e" "n - d = Suc (n - Suc d)" by auto
  then show ?case using 0 by (auto simp: Let_def stops_def)
next
  case (Suc m)
  then have "n - d = Suc (n - Suc d)" "m = e - Suc d" "Suc d \<le> e" "key (es ! at_probe k d) \<noteq> 0 \<and> key (es ! at_probe k d) \<noteq> k"
    by (auto simp: passed_def stops_def)
  then show ?case using Suc.hyps(1) [of "Suc d"] Suc.prems by (simp add: Let_def)
qed

lemma insert_from_passed:
  "passed k es n \<Longrightarrow> d \<le> n \<Longrightarrow> insert_from k h (n - d) (at_probe k d) es = es"
proof (induction "n - d" arbitrary: d)
  case (Suc m)
  then have "n - d = Suc (n - Suc d)" "m = n - Suc d" "Suc d \<le> n" "key (es ! at_probe k d) \<noteq> 0 \<and> key (es ! at_probe k d) \<noteq> k"
    by (auto simp: passed_def)
  then show ?case using Suc.hyps(1) [of "Suc d"] Suc.prems by simp
qed simp

lemma insert_from_stops:
  "stops k es e \<Longrightarrow> e < n \<Longrightarrow> d \<le> e \<Longrightarrow> insert_from k h (n - d) (at_probe k d) es =
     (if key (es ! at_probe k e) = 0 then es[at_probe k e := \<lparr>key = k, published = Some h, owner = Some h\<rparr>] else es)"
proof (induction "e - d" arbitrary: d)
  case 0
  then have "d = e" "n - d = Suc (n - Suc d)" by auto
  then show ?case using 0 by (auto simp: stops_def)
next
  case (Suc m)
  then have "n - d = Suc (n - Suc d)" "m = e - Suc d" "Suc d \<le> e" "key (es ! at_probe k d) \<noteq> 0 \<and> key (es ! at_probe k d) \<noteq> k"
    by (auto simp: passed_def stops_def)
  then show ?case using Suc.hyps(1) [of "Suc d"] Suc.prems by simp
qed

section \<open>The table as a bounded map\<close>

text \<open>
  The invariant of the keys: every key is reached by its own probe run without crossing a free slot or the key itself. It makes
  the keys distinct.
\<close>

definition keys_ok :: "'h CacheEntry list \<Rightarrow> bool" where
  "keys_ok es \<longleftrightarrow> length es = kCapacity \<and>
     (\<forall>i < kCapacity. key (es ! i) \<noteq> 0 \<longrightarrow> (\<exists>d < kCapacity. at_probe (key (es ! i)) d = i \<and> stops (key (es ! i)) es d))"

lemma keys_stop:
  "keys_ok es \<Longrightarrow> i < kCapacity \<Longrightarrow> key (es ! i) = k \<Longrightarrow> k \<noteq> 0 \<Longrightarrow> \<exists>d < kCapacity. at_probe k d = i \<and> stops k es d"
  by (auto simp: keys_ok_def)

lemma keys_distinct: "keys_ok es \<Longrightarrow> i < kCapacity \<Longrightarrow> j < kCapacity \<Longrightarrow> key (es ! i) = key (es ! j) \<Longrightarrow> key (es ! i) \<noteq> 0 \<Longrightarrow> i = j"
  using keys_stop stops_unique by metis

text \<open>Claiming the free slot where the run of \<open>k\<close> stops keeps the invariant, whatever else the entry holds.\<close>

lemma keys_ok_claim:
  assumes ok: "keys_ok es" and st: "stops k es d" "key (es ! at_probe k d) = 0" "d < kCapacity" and k: "k \<noteq> 0" and x: "key x = k"
  shows "keys_ok (es[at_probe k d := x])"
proof -
  let ?i = "at_probe k d" and ?es = "es[at_probe k d := x]"
  have len: "length es = kCapacity" using ok by (simp add: keys_ok_def)
  have other: "key (?es ! j) = (if j = ?i then k else key (es ! j))" for j using len x by (cases "j = ?i") simp_all
  have no: "key (es ! j) \<noteq> k" if j: "j < kCapacity" for j
  proof
    assume "key (es ! j) = k"
    then obtain e where "e < kCapacity" "at_probe k e = j" "stops k es e" using keys_stop [OF ok j _ k] by blast
    then show False using stops_unique [OF st(1)] st(2) \<open>key (es ! j) = k\<close> k by auto
  qed
  have pk: "passed k ?es d" using st by (auto simp: passed_def stops_def other)
  have keep: "passed k' ?es e" if "passed k' es e" "k' \<noteq> k" for k' e using that k by (auto simp: passed_def other)
  have "\<exists>e < kCapacity. at_probe (key (?es ! j)) e = j \<and> stops (key (?es ! j)) ?es e" if j: "j < kCapacity" "key (?es ! j) \<noteq> 0" for j
  proof (cases "j = ?i")
    case True
    then show ?thesis using pk st(3) by (intro exI [of _ d]) (simp add: other stops_def)
  next
    case False
    then have n: "key (es ! j) \<noteq> 0" "key (?es ! j) = key (es ! j)" using j by (simp_all add: other)
    then obtain e where e: "e < kCapacity" "at_probe (key (es ! j)) e = j" "stops (key (es ! j)) es e" using keys_stop ok j by blast
    then have "passed (key (es ! j)) ?es e" using keep no [OF j(1)] by (simp add: stops_def)
    then show ?thesis using e n False by (intro exI [of _ e]) (simp add: stops_def other)
  qed
  then show ?thesis using len by (simp add: keys_ok_def)
qed

text \<open>The map a table stands for.\<close>

definition cache_map :: "'h CacheEntry list \<Rightarrow> 64 word \<rightharpoonup> 'h" where
  "cache_map es = map_of (map (\<lambda>e. (key e, the (owner e))) (filter (\<lambda>e. key e \<noteq> 0) es))"

definition cache_ok :: "'h CacheEntry list \<Rightarrow> bool" where
  "cache_ok es \<longleftrightarrow> keys_ok es \<and> (\<forall>e\<in>set es. if key e = 0 then e = empty_cache_entry else published e = owner e \<and> owner e \<noteq> None)"

text \<open>The specification: the first handle of a key stays, and a map with \<^const>\<open>kCapacity\<close> keys takes no new one.\<close>

definition bounded_insert :: "64 word \<Rightarrow> 'h \<Rightarrow> (64 word \<rightharpoonup> 'h) \<Rightarrow> 64 word \<rightharpoonup> 'h" where
  "bounded_insert k h m = (if k \<in> dom m \<or> card (dom m) = kCapacity then m else m(k \<mapsto> h))"

lemma cache_map_none: "cache_map es k = None \<longleftrightarrow> (\<forall>e\<in>set es. key e \<noteq> 0 \<longrightarrow> key e \<noteq> k)"
  by (force simp: cache_map_def map_of_eq_None_iff image_iff)

lemma cache_map_entry: "cache_map es k \<noteq> None \<Longrightarrow> \<exists>e\<in>set es. key e = k \<and> k \<noteq> 0 \<and> cache_map es k = Some (the (owner e))"
proof -
  assume "cache_map es k \<noteq> None"
  then obtain y where y: "cache_map es k = Some y" by blast
  then have "(k, y) \<in> set (map (\<lambda>e. (key e, the (owner e))) (filter (\<lambda>e. key e \<noteq> 0) es))" unfolding cache_map_def by (rule map_of_SomeD)
  then show ?thesis using y by auto
qed

lemma cache_map_some:
  assumes ok: "keys_ok es" and i: "i < kCapacity" "key (es ! i) = k" "k \<noteq> 0"
  shows "cache_map es k = Some (the (owner (es ! i)))"
proof -
  have len: "length es = kCapacity" using ok by (simp add: keys_ok_def)
  have "cache_map es k \<noteq> None" using i len by (auto simp: cache_map_none)
  then obtain e where e: "e \<in> set es" "key e = k" "cache_map es k = Some (the (owner e))"
    using cache_map_entry [of es k] by blast
  then obtain j where "j < kCapacity" "es ! j = e" using len by (auto simp: in_set_conv_nth)
  then have "j = i" using keys_distinct [OF ok, of j i] i e by auto
  then show ?thesis using e \<open>es ! j = e\<close> by simp
qed

lemma card_dom_cache:
  assumes "keys_ok es"
  shows "card (dom (cache_map es)) = card {i. i < kCapacity \<and> key (es ! i) \<noteq> 0}"
proof -
  let ?I = "{i. i < kCapacity \<and> key (es ! i) \<noteq> 0}"
  have len: "length es = kCapacity" using assms by (simp add: keys_ok_def)
  have "dom (cache_map es) = (\<lambda>i. key (es ! i)) ` ?I"
    unfolding set_eq_iff domIff cache_map_none using len by (auto simp: set_conv_nth image_iff)
  moreover have "inj_on (\<lambda>i. key (es ! i)) ?I" using keys_distinct [OF assms] by (auto intro!: inj_onI)
  ultimately show ?thesis by (simp add: card_image)
qed


lemma full_iff:
  assumes ok: "keys_ok es" and k: "cache_map es k = None" "k \<noteq> 0"
  shows "card (dom (cache_map es)) = kCapacity \<longleftrightarrow> passed k es kCapacity"
proof -
  let ?I = "{i. i < kCapacity \<and> key (es ! i) \<noteq> 0}"
  have len: "length es = kCapacity" using ok by (simp add: keys_ok_def)
  have no: "key (es ! i) \<noteq> k" if "i < kCapacity" for i using k that len by (auto simp: cache_map_none)
  have "card ?I = kCapacity \<longleftrightarrow> (\<forall>i < kCapacity. key (es ! i) \<noteq> 0)"
  proof
    assume "card ?I = kCapacity"
    then have "?I = {..<kCapacity}" by (intro card_subset_eq) auto
    then show "\<forall>i < kCapacity. key (es ! i) \<noteq> 0" by blast
  next
    assume "\<forall>i < kCapacity. key (es ! i) \<noteq> 0"
    then have "?I = {..<kCapacity}" by auto
    then show "card ?I = kCapacity" by simp
  qed
  also have "\<dots> \<longleftrightarrow> passed k es kCapacity" using no by (auto simp: passed_def) (metis at_probe_onto)
  finally show ?thesis by (simp add: card_dom_cache [OF ok])
qed

lemma normalize_pos [simp]: "normalize h \<noteq> 0"
  by (simp add: normalize_def)

lemma cache_map_claim:
  assumes ok: "keys_ok es" and st: "stops k es d" "key (es ! at_probe k d) = 0" "d < kCapacity" and k: "k \<noteq> 0"
  shows "cache_map (es[at_probe k d := \<lparr>key = k, published = Some h, owner = Some h\<rparr>]) = (cache_map es)(k \<mapsto> h)"
proof
  let ?x = "\<lparr>key = k, published = Some h, owner = Some h\<rparr>"
  let ?es = "es[at_probe k d := ?x]"
  have ok': "keys_ok ?es" by (rule keys_ok_claim [OF ok st k]) simp
  have len: "length es = kCapacity" using ok by (simp add: keys_ok_def)
  fix q
  show "cache_map ?es q = ((cache_map es)(k \<mapsto> h)) q"
  proof (cases "q = k")
    case True
    then show ?thesis using cache_map_some [OF ok', of "at_probe k d" k] len k by simp
  next
    case False
    show ?thesis
    proof (cases "\<exists>i < kCapacity. key (es ! i) = q \<and> q \<noteq> 0")
      case True
      then obtain i where i: "i < kCapacity" "key (es ! i) = q" "q \<noteq> 0" by blast
      then have "i \<noteq> at_probe k d" using st by auto
      then show ?thesis using cache_map_some [OF ok i] cache_map_some [OF ok', of i q] i False by simp
    next
      case no: False
      have a: "cache_map es q = None" using no len by (auto simp: cache_map_none in_set_conv_nth)
      have "key (?es ! i) = q \<Longrightarrow> i < kCapacity \<Longrightarrow> q = 0" for i using no False len by (cases "i = at_probe k d") auto
      then have "cache_map ?es q = None" unfolding cache_map_none by (metis in_set_conv_nth len length_list_update)
      then show ?thesis using a False by simp
    qed
  qed
qed

lemma insert_from_correct:
  assumes ok: "cache_ok es" and k: "k \<noteq> 0"
  shows "cache_ok (insert_from k h kCapacity (slot_of k) es)
    \<and> cache_map (insert_from k h kCapacity (slot_of k) es) = bounded_insert k h (cache_map es)"
proof -
  have ko: "keys_ok es" using ok by (simp add: cache_ok_def)
  have len: "length es = kCapacity" using ko by (simp add: keys_ok_def)
  consider (full) "passed k es kCapacity" | (stop) d where "d < kCapacity" "stops k es d" using passed_stops [of k es kCapacity] by blast
  then show ?thesis
  proof cases
    case full
    have n: "cache_map es k = None"
    proof (rule ccontr)
      assume "cache_map es k \<noteq> None"
      then obtain e where "e \<in> set es" "key e = k" using cache_map_entry [of es k] by blast
      then obtain i where i: "i < kCapacity" "key (es ! i) = k" using len by (auto simp: in_set_conv_nth)
      then obtain d where "d < kCapacity" "at_probe k d = i" using at_probe_onto by blast
      then show False using full i by (auto simp: passed_def)
    qed
    then show ?thesis using insert_from_passed [OF full, of 0] ok full_iff [OF ko n k] full by (simp add: bounded_insert_def)
  next
    case stop
    note ins = insert_from_stops [OF stop(2,1), of 0 h, simplified]
    show ?thesis
    proof (cases "key (es ! at_probe k d) = 0")
      case True
      have "cache_map es k = None"
      proof (rule ccontr)
        assume "cache_map es k \<noteq> None"
        then obtain e where "e \<in> set es" "key e = k" using cache_map_entry [of es k] by blast
        then obtain i where i: "i < kCapacity" "key (es ! i) = k" using len by (auto simp: in_set_conv_nth)
        then obtain d' where "at_probe k d' = i" "stops k es d'" using keys_stop [OF ko i k] by blast
        then show False using stops_unique [OF stop(2)] True i k by auto
      qed
      moreover have "\<not> passed k es kCapacity" using stop True by (auto simp: passed_def)
      moreover have "cache_ok (es[at_probe k d := \<lparr>key = k, published = Some h, owner = Some h\<rparr>])"
        using keys_ok_claim [OF ko stop(2) True stop(1) k] ok k by (auto simp: cache_ok_def dest!: set_update_subset_insert [THEN subsetD])
      ultimately show ?thesis using ins True cache_map_claim [OF ko stop(2) True stop(1) k] full_iff [OF ko _ k]
        by (auto simp: bounded_insert_def)
    next
      case False
      then have "k \<in> dom (cache_map es)" using cache_map_some [OF ko, of "at_probe k d" k] stop k by (auto simp: stops_def)
      then show ?thesis using ins False ok by (simp add: bounded_insert_def)
    qed
  qed
qed

lemma lookup_from_correct:
  assumes ok: "cache_ok es" and k: "k \<noteq> 0"
  shows "lookup_from k kCapacity (slot_of k) es = map_option Some (cache_map es k)"
proof -
  have ko: "keys_ok es" using ok by (simp add: cache_ok_def)
  have len: "length es = kCapacity" using ko by (simp add: keys_ok_def)
  show ?thesis
  proof (cases "\<exists>i < kCapacity. key (es ! i) = k")
    case True
    then obtain i where i: "i < kCapacity" "key (es ! i) = k" by blast
    then obtain d where d: "d < kCapacity" "at_probe k d = i" "stops k es d" using keys_stop [OF ko i k] by blast
    have "published (es ! i) = owner (es ! i) \<and> owner (es ! i) \<noteq> None" using ok i k len by (auto simp: cache_ok_def dest!: bspec [of _ _ "es ! i"])
    then show ?thesis using lookup_from_stops [OF d(3,1), of 0] cache_map_some [OF ko i k] d i k by (auto simp: Let_def)
  next
    case False
    then have n: "cache_map es k = None" using len by (auto simp: cache_map_none in_set_conv_nth)
    consider (full) "passed k es kCapacity" | (stop) d where "d < kCapacity" "stops k es d" using passed_stops [of k es kCapacity] by blast
    then show ?thesis
    proof cases
      case full
      then show ?thesis using lookup_from_passed [OF full, of 0] n by simp
    next
      case stop
      then have "key (es ! at_probe k d) = 0" using False by (auto simp: stops_def)
      then show ?thesis using lookup_from_stops [OF stop(2,1), of 0] n by simp
    qed
  qed
qed

lemma new_cache_ok: "cache_ok (table new_cache)" "cache_map (table new_cache) = Map.empty"
  by (auto simp: new_cache_def cache_ok_def keys_ok_def empty_cache_entry_def cache_map_none fun_eq_iff)


lemma cleared_ok: "length es = kCapacity \<Longrightarrow> cache_ok (map (\<lambda>e. e\<lparr>published := None, owner := None, key := 0\<rparr>) es)"
  by (auto simp: cache_ok_def keys_ok_def empty_cache_entry_def)

lemma cleared_map: "cache_map (map (\<lambda>e. e\<lparr>published := None, owner := None, key := 0\<rparr>) es) = Map.empty"
  by (auto simp: cache_map_none fun_eq_iff)

text \<open>
  C19: one thread sees the cache as a bounded map from signatures to handles. Every operation keeps the table well formed; a
  lookup returns what the map holds for the signature (folded away from 0) and counts a hit or a miss; an insert puts the handle
  in unless the signature is there already, whose first handle stays, or 1024 signatures are, when nothing changes; inserting no
  handle changes nothing; clearing empties the map.
\<close>

theorem cache_refines_map:
  assumes "cache_ok (table c)"
  shows "fst (cache_lookup hash c) = cache_map (table c) (normalize hash)
    \<and> table (snd (cache_lookup hash c)) = table c
    \<and> (if fst (cache_lookup hash c) = None
       then miss_count (snd (cache_lookup hash c)) = miss_count c + 1 \<and> hit_count (snd (cache_lookup hash c)) = hit_count c
       else hit_count (snd (cache_lookup hash c)) = hit_count c + 1 \<and> miss_count (snd (cache_lookup hash c)) = miss_count c)
    \<and> cache_ok (table (cache_insert hash (Some h) c))
    \<and> cache_map (table (cache_insert hash (Some h) c)) = bounded_insert (normalize hash) h (cache_map (table c))
    \<and> cache_insert hash None c = c
    \<and> cache_ok (table (cache_clear c)) \<and> cache_map (table (cache_clear c)) = Map.empty"
proof -
  have len: "length (table c) = kCapacity" using assms by (simp add: cache_ok_def keys_ok_def)
  show ?thesis
    using lookup_from_correct [OF assms normalize_pos [of hash]] insert_from_correct [OF assms normalize_pos [of hash], of h]
      cleared_ok [OF len] cleared_map [of "table c"]
    by (auto simp: cache_lookup_def cache_insert_def cache_clear_def Let_def split: option.split)
qed

theorem cache_refines_map_witness:
  "cache_ok (table (new_cache :: char TraceCache)) \<and> cache_map (table (cache_insert 0 (Some CHR ''x'') new_cache)) = [0x9E3779B97F4A7C15 \<mapsto> CHR ''x'']"
proof -
  have ok: "cache_ok (table (new_cache :: char TraceCache))" and e: "cache_map (table (new_cache :: char TraceCache)) = Map.empty"
    by (rule new_cache_ok)+
  show ?thesis using cache_refines_map [OF ok, of 0 "CHR ''x''"] ok e by (simp add: bounded_insert_def normalize_def kCapacity_def)
qed

end
