(* ===== verification/CacheThreads.thy ===== *)
theory CacheThreads
  imports TraceCache
begin

text \<open>
  The cache of compiled traces under several threads: \<^verbatim>\<open>lookup\<close> and \<^verbatim>\<open>insert\<close> as the atomic steps they are made of, interleaved
  in any order. A step is one atomic access, or the one write or copy of the plain field \<^verbatim>\<open>owner\<close>; the order of a thread's own
  steps is the program's, which is what the acquire and release orderings give for the accesses to one entry.
\<close>

section \<open>Steps of a thread\<close>

datatype 'h pc =
    Idle
  | LookKey "64 word" nat nat
  | LookPub "64 word" nat
  | LookHit "64 word" nat
  | LookOwner "64 word" nat
  | LookMiss "64 word"
  | Found "64 word" "'h option"
  | InsCas "64 word" 'h nat nat
  | InsOwner "64 word" 'h nat
  | InsPublish "64 word" nat
  | Inserted

definition start_lookup :: "64 word \<Rightarrow> 'h pc" where
  "start_lookup hash = (let k = normalize hash in LookKey k (slot_of k) 0)"

definition start_insert :: "64 word \<Rightarrow> 'h \<Rightarrow> 'h pc" where
  "start_insert hash h = (let k = normalize hash in InsCas k h (slot_of k) 0)"

fun tick :: "'h pc \<Rightarrow> 'h TraceCache \<Rightarrow> 'h pc \<times> 'h TraceCache" where
  "tick (LookKey k i p) c = (
     if kCapacity \<le> p then (LookMiss k, c)
     else if key (table c ! i) = 0 then (LookMiss k, c)
     else if key (table c ! i) \<noteq> k then (LookKey k (next_slot i) (Suc p), c)
     else (LookPub k i, c))"
| "tick (LookPub k i) c = (if published (table c ! i) = None then (LookMiss k, c) else (LookHit k i, c))"
| "tick (LookHit k i) c = (LookOwner k i, c\<lparr>hit_count := hit_count c + 1\<rparr>)"
| "tick (LookOwner k i) c = (Found k (owner (table c ! i)), c)"
| "tick (LookMiss k) c = (Found k None, c\<lparr>miss_count := miss_count c + 1\<rparr>)"
| "tick (InsCas k h i p) c = (
     if kCapacity \<le> p then (Inserted, c)
     else if key (table c ! i) = 0 then (InsOwner k h i, c\<lparr>table := (table c)[i := (table c ! i)\<lparr>key := k\<rparr>]\<rparr>)
     else if key (table c ! i) = k then (Inserted, c)
     else (InsCas k h (next_slot i) (Suc p), c))"
| "tick (InsOwner k h i) c = (InsPublish k i, c\<lparr>table := (table c)[i := (table c ! i)\<lparr>owner := Some h\<rparr>]\<rparr>)"
| "tick (InsPublish k i) c = (Inserted, c\<lparr>table := (table c)[i := (table c ! i)\<lparr>published := owner (table c ! i)\<rparr>]\<rparr>)"
| "tick pc c = (pc, c)"

section \<open>Threads together\<close>

record 'h sys =
  cache :: "'h TraceCache"
  threads :: "nat \<Rightarrow> 'h pc"

datatype 'h label = Lookup nat "64 word" | Insert nat "64 word" 'h | Tick nat

fun finished :: "'h pc \<Rightarrow> bool" where
  "finished Idle = True" | "finished (Found k r) = True" | "finished Inserted = True" | "finished _ = False"

fun sys_step :: "'h label \<Rightarrow> 'h sys \<Rightarrow> 'h sys" where
  "sys_step (Lookup t hash) s = s\<lparr>threads := (threads s)(t := start_lookup hash)\<rparr>"
| "sys_step (Insert t hash h) s = s\<lparr>threads := (threads s)(t := start_insert hash h)\<rparr>"
| "sys_step (Tick t) s = (case tick (threads s t) (cache s) of (pc, c) \<Rightarrow> s\<lparr>cache := c, threads := (threads s)(t := pc)\<rparr>)"

text \<open>A thread starts a call when its last one has returned; \<open>offers\<close> says which handles are inserted for which signature.\<close>

fun label_ok :: "(64 word \<Rightarrow> 'h \<Rightarrow> bool) \<Rightarrow> 'h sys \<Rightarrow> 'h label \<Rightarrow> bool" where
  "label_ok offers s (Lookup t hash) \<longleftrightarrow> finished (threads s t)"
| "label_ok offers s (Insert t hash h) \<longleftrightarrow> finished (threads s t) \<and> offers (normalize hash) h"
| "label_ok offers s (Tick t) \<longleftrightarrow> True"

inductive sys_reach :: "(64 word \<Rightarrow> 'h \<Rightarrow> bool) \<Rightarrow> 'h sys \<Rightarrow> 'h sys \<Rightarrow> bool" for offers s0 where
  sys_refl: "sys_reach offers s0 s0"
| sys_next: "sys_reach offers s0 s \<Longrightarrow> label_ok offers s l \<Longrightarrow> sys_reach offers s0 (sys_step l s)"

definition sys_start :: "'h sys" where
  "sys_start = \<lparr>cache = new_cache, threads = (\<lambda>_. Idle)\<rparr>"

section \<open>The invariant\<close>

definition entry_ok :: "(64 word \<Rightarrow> 'h \<Rightarrow> bool) \<Rightarrow> 'h CacheEntry \<Rightarrow> bool" where
  "entry_ok offers e \<longleftrightarrow> (key e = 0 \<longrightarrow> owner e = None) \<and> (published e \<noteq> None \<longrightarrow> published e = owner e)
     \<and> (\<forall>h. owner e = Some h \<longrightarrow> offers (key e) h)"

fun pc_ok :: "(64 word \<Rightarrow> 'h \<Rightarrow> bool) \<Rightarrow> 'h CacheEntry list \<Rightarrow> 'h pc \<Rightarrow> bool" where
  "pc_ok offers es (LookKey k i p) \<longleftrightarrow> k \<noteq> 0 \<and> i = at_probe k p"
| "pc_ok offers es (LookPub k i) \<longleftrightarrow> k \<noteq> 0 \<and> i < kCapacity \<and> key (es ! i) = k"
| "pc_ok offers es (LookHit k i) \<longleftrightarrow> k \<noteq> 0 \<and> i < kCapacity \<and> key (es ! i) = k \<and> published (es ! i) \<noteq> None"
| "pc_ok offers es (LookOwner k i) \<longleftrightarrow> k \<noteq> 0 \<and> i < kCapacity \<and> key (es ! i) = k \<and> published (es ! i) \<noteq> None"
| "pc_ok offers es (Found k r) \<longleftrightarrow> (\<forall>h. r = Some h \<longrightarrow> offers k h)"
| "pc_ok offers es (InsCas k h i p) \<longleftrightarrow> k \<noteq> 0 \<and> i = at_probe k p \<and> passed k es p \<and> offers k h"
| "pc_ok offers es (InsOwner k h i) \<longleftrightarrow> k \<noteq> 0 \<and> i < kCapacity \<and> key (es ! i) = k \<and> owner (es ! i) = None \<and> published (es ! i) = None \<and> offers k h"
| "pc_ok offers es (InsPublish k i) \<longleftrightarrow> k \<noteq> 0 \<and> i < kCapacity \<and> key (es ! i) = k \<and> owner (es ! i) \<noteq> None \<and> published (es ! i) = None"
| "pc_ok offers es _ \<longleftrightarrow> True"

text \<open>The entry a thread has claimed and not published yet.\<close>

fun writes_at :: "'h pc \<Rightarrow> nat option" where
  "writes_at (InsOwner k h i) = Some i" | "writes_at (InsPublish k i) = Some i" | "writes_at _ = None"

definition sys_inv :: "(64 word \<Rightarrow> 'h \<Rightarrow> bool) \<Rightarrow> 'h sys \<Rightarrow> bool" where
  "sys_inv offers s \<longleftrightarrow> keys_ok (table (cache s)) \<and> (\<forall>e\<in>set (table (cache s)). entry_ok offers e)
     \<and> (\<forall>t. pc_ok offers (table (cache s)) (threads s t))
     \<and> (\<forall>t u i. writes_at (threads s t) = Some i \<longrightarrow> writes_at (threads s u) = Some i \<longrightarrow> t = u)"

text \<open>Entries only fill up.\<close>

definition fills :: "'h CacheEntry \<Rightarrow> 'h CacheEntry \<Rightarrow> bool" where
  "fills e e' \<longleftrightarrow> (key e \<noteq> 0 \<longrightarrow> key e' = key e) \<and> (owner e \<noteq> None \<longrightarrow> owner e' = owner e) \<and> (published e \<noteq> None \<longrightarrow> published e' = published e)"

lemma fills_refl: "fills e e"
  by (simp add: fills_def)

lemma passed_fills:
  assumes "list_all2 fills es es'" "length es = kCapacity" "passed k es p"
  shows "passed k es' p"
  using assms list_all2_nthD [OF assms(1)] by (auto simp: passed_def fills_def)

lemma pc_ok_fills:
  assumes f: "list_all2 fills es es'" and len: "length es = kCapacity" and ok: "pc_ok offers es pc"
    and w: "\<And>i. writes_at pc = Some i \<Longrightarrow> es' ! i = es ! i"
  shows "pc_ok offers es' pc"
proof -
  have n: "fills (es ! i) (es' ! i)" if "i < kCapacity" for i using list_all2_nthD [OF f] len that by simp
  show ?thesis using ok w passed_fills [OF f len] n by (cases pc) (auto simp: fills_def)
qed

text \<open>A step of thread \<open>t\<close> changes at most the entry the thread works on.\<close>

lemma list_all2_update: "i < length es \<Longrightarrow> fills (es ! i) e \<Longrightarrow> list_all2 fills es (es[i := e])"
  by (auto simp: list_all2_conv_all_nth nth_list_update fills_refl)

lemma update_sys_inv:
  assumes inv: "sys_inv offers s" and i: "i < kCapacity" and f: "fills (table (cache s) ! i) e" and e: "entry_ok offers e"
    and k: "keys_ok ((table (cache s))[i := e])" and own: "\<And>u. u \<noteq> t \<Longrightarrow> writes_at (threads s u) \<noteq> Some i"
    and pc: "pc_ok offers ((table (cache s))[i := e]) pc" "writes_at pc = None \<or> writes_at pc = Some i"
  shows "sys_inv offers (s\<lparr>cache := (cache s)\<lparr>table := (table (cache s))[i := e]\<rparr>, threads := (threads s)(t := pc)\<rparr>)"
proof -
  let ?es = "table (cache s)"
  have len: "length ?es = kCapacity" using inv by (simp add: sys_inv_def keys_ok_def)
  have "pc_ok offers (?es[i := e]) (threads s u)" if u: "u \<noteq> t" for u
  proof (rule pc_ok_fills [OF list_all2_update [OF _ f] len])
    show "?es[i := e] ! j = ?es ! j" if "writes_at (threads s u) = Some j" for j using own [OF u] that by (cases "j = i") auto
  qed (use inv i len in \<open>auto simp: sys_inv_def\<close>)
  moreover have "\<forall>x\<in>set (?es[i := e]). entry_ok offers x"
    using inv e by (auto simp: sys_inv_def dest!: set_update_subset_insert [THEN subsetD])
  ultimately show ?thesis using inv k pc own unfolding sys_inv_def by (auto simp: sys_inv_def)
qed

lemma thread_sys_inv:
  assumes "sys_inv offers s" "pc_ok offers (table (cache s)) pc" "writes_at pc = None" "table c = table (cache s)"
  shows "sys_inv offers (s\<lparr>cache := c, threads := (threads s)(t := pc)\<rparr>)"
  using assms by (auto simp: sys_inv_def)

lemma keys_ok_same: "key e = key (es ! i) \<Longrightarrow> keys_ok es \<Longrightarrow> keys_ok (es[i := e])"
proof -
  assume "key e = key (es ! i)"
  then have "key (es[i := e] ! j) = key (es ! j)" for j by (cases "i < length es"; cases "i = j") (simp_all add: list_update_beyond)
  then show "keys_ok es \<Longrightarrow> keys_ok (es[i := e])" by (simp add: keys_ok_def stops_def passed_def)
qed

lemma stay_sys_inv:
  "sys_inv offers s \<Longrightarrow> pc_ok offers (table (cache s)) pc \<Longrightarrow> writes_at pc = None \<Longrightarrow> sys_inv offers (s\<lparr>threads := (threads s)(t := pc)\<rparr>)"
  by (auto simp: sys_inv_def)

lemma tick_inv:
  assumes inv: "sys_inv offers s"
  shows "sys_inv offers (sys_step (Tick t) s)"
proof -
  let ?es = "table (cache s)"
  have len: "length ?es = kCapacity" and ko: "keys_ok ?es" using inv by (simp_all add: sys_inv_def keys_ok_def)
  have pc: "pc_ok offers ?es (threads s t)" using inv by (simp add: sys_inv_def)
  have en: "entry_ok offers (?es ! i)" if "i < kCapacity" for i using inv that len by (simp add: sys_inv_def)
  have excl: "writes_at (threads s u) \<noteq> Some i" if "writes_at (threads s t) = Some i" "u \<noteq> t" for u i
    using inv that unfolding sys_inv_def by blast
  show ?thesis
  proof (cases "threads s t")
    case (InsCas k h i p)
    show ?thesis
    proof (cases "p < kCapacity \<and> key (?es ! i) = 0")
      case True
      let ?e = "(?es ! i)\<lparr>key := k\<rparr>"
      have p: "k \<noteq> 0" "i = at_probe k p" "passed k ?es p" "offers k h" using pc InsCas by simp_all
      have ei: "owner (?es ! i) = None" "published (?es ! i) = None" using en [of i] p True by (auto simp: entry_ok_def)
      have "sys_inv offers (s\<lparr>cache := (cache s)\<lparr>table := ?es[i := ?e]\<rparr>, threads := (threads s)(t := InsOwner k h i)\<rparr>)"
      proof (rule update_sys_inv [OF inv])
        show "keys_ok (?es[i := ?e])" unfolding p(2)
          by (rule keys_ok_claim [OF ko]) (use p True in \<open>auto simp: stops_def\<close>)
        show "writes_at (threads s u) \<noteq> Some i" if "u \<noteq> t" for u
        proof
          assume "writes_at (threads s u) = Some i"
          moreover have "pc_ok offers ?es (threads s u)" using inv by (simp add: sys_inv_def)
          ultimately show False using True by (cases "threads s u") auto
        qed
      qed (use p ei True len in \<open>auto simp: fills_def entry_ok_def\<close>)
      then show ?thesis using InsCas True by simp
    next
      case False
      then show ?thesis using InsCas pc thread_sys_inv [OF inv] stay_sys_inv [OF inv] by (auto simp: passed_Suc)
    qed
  next
    case (InsOwner k h i)
    then have p: "k \<noteq> 0" "i < kCapacity" "key (?es ! i) = k" "owner (?es ! i) = None" "published (?es ! i) = None" "offers k h" using pc by simp_all
    have "sys_inv offers (s\<lparr>cache := (cache s)\<lparr>table := ?es[i := (?es ! i)\<lparr>owner := Some h\<rparr>]\<rparr>, threads := (threads s)(t := InsPublish k i)\<rparr>)"
      by (rule update_sys_inv [OF inv]) (use p len ko excl InsOwner in \<open>auto simp: fills_def entry_ok_def intro!: keys_ok_same\<close>)
    then show ?thesis using InsOwner by simp
  next
    case (InsPublish k i)
    then have p: "k \<noteq> 0" "i < kCapacity" "key (?es ! i) = k" "owner (?es ! i) \<noteq> None" "published (?es ! i) = None" using pc by simp_all
    have "sys_inv offers (s\<lparr>cache := (cache s)\<lparr>table := ?es[i := (?es ! i)\<lparr>published := owner (?es ! i)\<rparr>]\<rparr>, threads := (threads s)(t := Inserted)\<rparr>)"
      by (rule update_sys_inv [OF inv]) (use p len ko excl InsPublish en [of i] in \<open>auto simp: fills_def entry_ok_def intro!: keys_ok_same\<close>)
    then show ?thesis using InsPublish by simp
  next
    case (LookOwner k i)
    then have "offers k h" if "owner (?es ! i) = Some h" for h using pc en [of i] that by (auto simp: entry_ok_def)
    then show ?thesis using LookOwner thread_sys_inv [OF inv] stay_sys_inv [OF inv] by simp
  qed (use pc thread_sys_inv [OF inv] stay_sys_inv [OF inv] in auto)
qed


lemma step_inv: "sys_inv offers s \<Longrightarrow> label_ok offers s l \<Longrightarrow> sys_inv offers (sys_step l s)"
  by (cases l) (auto simp: start_lookup_def start_insert_def Let_def passed_def simp del: sys_step.simps(3) intro!: stay_sys_inv tick_inv)

lemma sys_start_inv: "sys_inv offers sys_start"
  using new_cache_ok(1) by (auto simp: sys_inv_def sys_start_def cache_ok_def entry_ok_def empty_cache_entry_def new_cache_def)

lemma reach_inv: "sys_reach offers s0 s \<Longrightarrow> sys_inv offers s0 \<Longrightarrow> sys_inv offers s"
  by (induction rule: sys_reach.induct) (auto intro: step_inv)

text \<open>Every step only fills entries: claims, owners and published pointers are written once.\<close>

lemma fills_same: "list_all2 fills es es"
  by (simp add: list_all2_refl fills_refl)

lemma step_fills:
  assumes "sys_inv offers s"
  shows "list_all2 fills (table (cache s)) (table (cache (sys_step l s)))"
proof (cases l)
  case (Tick t)
  have len: "length (table (cache s)) = kCapacity" and pc: "pc_ok offers (table (cache s)) (threads s t)"
    using assms by (simp_all add: sys_inv_def keys_ok_def)
  show ?thesis using Tick pc len
    by (cases "threads s t") (auto simp: fills_same fills_def intro!: list_all2_update split: if_splits)
qed (simp_all add: fills_same)

lemma list_fills_trans: "list_all2 fills a b \<Longrightarrow> list_all2 fills b c \<Longrightarrow> list_all2 fills a c"
  by (rule list_all2_trans [of fills fills fills]) (auto simp: fills_def)

lemma reach_fills: "sys_reach offers s0 s \<Longrightarrow> sys_inv offers s0 \<Longrightarrow> list_all2 fills (table (cache s0)) (table (cache s))"
proof (induction rule: sys_reach.induct)
  case (sys_next s l)
  then show ?case using step_fills [OF reach_inv [OF sys_next(1,4)]] list_fills_trans by blast
qed (simp add: fills_same)

section \<open>Progress\<close>

text \<open>The steps a thread has left, at most: they do not depend on the other threads.\<close>

fun steps_left :: "'h pc \<Rightarrow> nat" where
  "steps_left (LookKey k i p) = (kCapacity - p) + 4"
| "steps_left (LookPub k i) = 3"
| "steps_left (LookHit k i) = 2"
| "steps_left (LookOwner k i) = 1"
| "steps_left (LookMiss k) = 1"
| "steps_left (InsCas k h i p) = (kCapacity - p) + 3"
| "steps_left (InsOwner k h i) = 2"
| "steps_left (InsPublish k i) = 1"
| "steps_left _ = 0"

fun runs_of :: "nat \<Rightarrow> 'h label list \<Rightarrow> nat" where
  "runs_of t [] = 0"
| "runs_of t (Tick u # ls) = (if t = u then 1 else 0) + runs_of t ls"
| "runs_of t (l # ls) = runs_of t ls"

fun calls_of :: "nat \<Rightarrow> 'h label \<Rightarrow> bool" where
  "calls_of t (Lookup u hash) = (t = u)" | "calls_of t (Insert u hash h) = (t = u)" | "calls_of t (Tick u) = False"

lemma finished_iff: "finished pc \<longleftrightarrow> steps_left pc = 0"
  by (cases pc) auto

lemma tick_progress: "steps_left (fst (tick pc c)) \<le> steps_left pc - 1"
  by (cases pc) auto

lemma progress: "\<not> list_ex (calls_of t) ls \<Longrightarrow> steps_left (threads (fold sys_step ls s) t) \<le> steps_left (threads s t) - runs_of t ls"
proof (induction ls arbitrary: s)
  case (Cons l ls)
  then show ?case
  proof (cases l)
    case (Tick u)
    have "steps_left (threads (sys_step l s) t) \<le> steps_left (threads s t) - (if t = u then 1 else 0)"
      using tick_progress [of "threads s u" "cache s"] Tick by (auto split: prod.split)
    then show ?thesis using Cons Tick by (fastforce intro: order_trans)
  qed (use Cons.prems Cons.IH [of "sys_step l s"] in \<open>auto split: if_splits\<close>)
qed simp


section \<open>Properties\<close>

text \<open>
  C20: the cache is correct under every interleaving of threads. Whatever lookups and inserts run, a lookup that has returned a
  handle returned one that was inserted for its signature; when a thread is about to copy the owner of an entry, the owner is
  there, is the published one, and no other thread is about to write that entry; two threads never own the same entry between
  claim and publication; no signature is in two entries; and in every later state each claimed key, owner and published
  pointer is unchanged.
\<close>

theorem cache_interleavings:
  assumes "sys_reach offers sys_start s" and "sys_reach offers s s'"
  shows "(\<forall>t k h. threads s t = Found k (Some h) \<longrightarrow> offers k h)
    \<and> (\<forall>t k i. threads s t = LookOwner k i \<longrightarrow> i < kCapacity \<and> owner (table (cache s) ! i) \<noteq> None
         \<and> published (table (cache s) ! i) = owner (table (cache s) ! i) \<and> (\<forall>u. writes_at (threads s u) \<noteq> Some i))
    \<and> (\<forall>t u i. writes_at (threads s t) = Some i \<and> writes_at (threads s u) = Some i \<longrightarrow> t = u)
    \<and> (\<forall>i j. i < kCapacity \<and> j < kCapacity \<and> key (table (cache s) ! i) = key (table (cache s) ! j) \<and> key (table (cache s) ! i) \<noteq> 0 \<longrightarrow> i = j)
    \<and> (\<forall>i < kCapacity. fills (table (cache s) ! i) (table (cache s') ! i))"
proof -
  have inv: "sys_inv offers s" using reach_inv [OF assms(1) sys_start_inv] .
  let ?es = "table (cache s)"
  have len: "length ?es = kCapacity" using inv by (simp add: sys_inv_def keys_ok_def)
  have pc: "pc_ok offers ?es (threads s t)" for t using inv by (simp add: sys_inv_def)
  show ?thesis
  proof (intro conjI allI impI)
    show "offers k h" if "threads s t = Found k (Some h)" for t k h using pc [of t] that by simp
    fix t k i assume lo: "threads s t = LookOwner k i"
    then show i: "i < kCapacity" using pc [of t] by simp
    have e: "entry_ok offers (?es ! i)" using inv i len by (simp add: sys_inv_def)
    show "owner (?es ! i) \<noteq> None" "published (?es ! i) = owner (?es ! i)" using e pc [of t] lo by (auto simp: entry_ok_def)
    show "writes_at (threads s u) \<noteq> Some i" for u using pc [of u] pc [of t] lo by (cases "threads s u") auto
  next
    show "t = u" if "writes_at (threads s t) = Some i \<and> writes_at (threads s u) = Some i" for t u i
      using inv that unfolding sys_inv_def by blast
    show "i = j" if "i < kCapacity \<and> j < kCapacity \<and> key (?es ! i) = key (?es ! j) \<and> key (?es ! i) \<noteq> 0" for i j
      using inv that keys_distinct unfolding sys_inv_def by blast
    show "fills (?es ! i) (table (cache s') ! i)" if "i < kCapacity" for i
      using list_all2_nthD [OF reach_fills [OF assms(2) inv]] that len by simp
  qed
qed

lemmas reach_one = sys_next [OF sys_refl]

theorem cache_interleavings_witness:
  "let s = sys_step (Insert 0 7 CHR ''x'') (sys_start :: char sys); s' = sys_step (Tick 0) s in
   sys_reach (\<lambda>k h. True) sys_start s \<and> sys_reach (\<lambda>k h. True) s s' \<and> fills (table (cache s) ! 7) (table (cache s') ! 7)"
proof -
  let ?s = "sys_step (Insert 0 7 CHR ''x'') (sys_start :: char sys)"
  have r: "sys_reach (\<lambda>k h. True) sys_start ?s" by (rule reach_one) (simp add: sys_start_def)
  have r': "sys_reach (\<lambda>k h. True) ?s (sys_step (Tick 0) ?s)" by (rule reach_one) simp
  have "7 < kCapacity" by (simp add: kCapacity_def)
  then have "fills (table (cache ?s) ! 7) (table (cache (sys_step (Tick 0) ?s)) ! 7)"
    using cache_interleavings [OF r r'] by blast
  then show ?thesis using r r' by (simp only: Let_def simp_thms)
qed

text \<open>
  C21: the cache is wait free. However the other threads run, and whatever they have claimed without publishing, a thread's call
  has returned once the thread itself has taken 1028 steps: 1024 probes and the four steps of a hit.
\<close>

theorem cache_wait_free:
  assumes "\<not> list_ex (calls_of t) ls" and "kCapacity + 4 \<le> runs_of t ls"
  shows "finished (threads (fold sys_step ls s) t)"
proof -
  have "steps_left (threads s t) \<le> kCapacity + 4" by (cases "threads s t") auto
  then show ?thesis using progress [OF assms(1), of s] assms(2) by (simp add: finished_iff)
qed

lemma runs_of_replicate: "runs_of t (replicate n (Tick t)) = n"
  by (induction n) simp_all

theorem cache_wait_free_witness:
  "kCapacity + 4 \<le> runs_of 0 (replicate 1028 (Tick 0 :: char label)) \<and>
   finished (threads (fold sys_step (replicate 1028 (Tick 0)) (sys_step (Lookup 0 7) (sys_start :: char sys))) 0)"
proof -
  have r: "kCapacity + 4 \<le> runs_of 0 (replicate 1028 (Tick 0 :: char label))" by (simp only: runs_of_replicate) (simp add: kCapacity_def)
  have "\<not> list_ex (calls_of 0) (replicate 1028 (Tick 0 :: char label))" by (simp add: list_ex_iff)
  then show ?thesis using cache_wait_free [OF _ r] r by blast
qed

end
