(* ===== verification/MagicDiv.thy ===== *)
theory MagicDiv
  imports Bits
begin

unbundle bit_operations_syntax

text \<open>
  Division by a constant in the emitted kernels: the multiplier of \<^verbatim>\<open>magic_u32\<close>, the PTX instructions of \<^verbatim>\<open>emit_udiv_const\<close> and
  \<^verbatim>\<open>emit_udiv_urem_const\<close> (\<^verbatim>\<open>src/jit/ptx_emit_detail.h\<close>), run by an interpreter, and the values the SPIR-V builder computes for
  the same division (\<^verbatim>\<open>src/jit/spirv_emit_common.cpp\<close>).
\<close>

section \<open>The multiplier\<close>

definition is_pow2 :: "int \<Rightarrow> bool" where
  "is_pow2 v \<longleftrightarrow> 0 < v \<and> (v AND (v - 1)) = 0"

text \<open>The loops \<^verbatim>\<open>while ((1 << l) < v) ++l\<close>.\<close>

function log2_up :: "nat \<Rightarrow> nat \<Rightarrow> nat" where
  "log2_up v l = (if 2 ^ l < v then log2_up v (Suc l) else l)"
  by pat_completeness auto
termination
proof (relation "measure (\<lambda>(v, l). v - l)")
  fix v l :: nat
  assume "2 ^ l < v"
  moreover have "l < 2 ^ l" by (rule less_exp)
  ultimately have "l < v" by linarith
  then show "((v, Suc l), v, l) \<in> measure (\<lambda>(v, l). v - l)" by simp
qed simp

declare log2_up.simps [simp del]

definition log2_exact :: "int \<Rightarrow> nat" where
  "log2_exact v = log2_up (nat v) 0"

record MagicU32 =
  mul :: "32 word"
  pre_shift :: nat
  post_shift :: nat
  add :: bool

definition default_magic :: MagicU32 where
  "default_magic = \<lparr>mul = 1, pre_shift = 0, post_shift = 0, add = False\<rparr>"

text \<open>The loop that strips factors of two, entered only with \<open>d > 1\<close>; on 0 it would not end.\<close>

function strip_twos :: "32 word \<Rightarrow> nat \<Rightarrow> 32 word \<times> nat" where
  "strip_twos d s = (if d AND 1 = 0 \<and> d \<noteq> 0 then strip_twos (drop_bit 1 d) (Suc s) else (d, s))"
  by pat_completeness auto
termination
proof (relation "measure (\<lambda>(d, s). unat d)")
  fix d :: "32 word" and s
  assume "d AND 1 = 0 \<and> d \<noteq> 0"
  then show "((drop_bit 1 d, Suc s), d, s) \<in> measure (\<lambda>(d, s). unat d)" by (simp add: drop_bit_eq_div unat_div unat_gt_0)
qed simp

declare strip_twos.simps [simp del]

definition magic_u32 :: "32 word \<Rightarrow> MagicU32" where
  "magic_u32 d0 = (
     if d0 \<le> 1 then default_magic
     else let (d, pre) = strip_twos d0 0 in
       if d = 1 then default_magic\<lparr>pre_shift := pre\<rparr>
       else let l = log2_up (unat d) 0;
         dd = ucast d :: 64 word;
         p_lo = push_bit (32 + l - 1) 1;
         m_lo = (p_lo + dd - 1) div dd;
         e_lo = m_lo * dd - p_lo;
         max_v = drop_bit pre 0xFFFFFFFF;
         nc = (max_v div dd) * dd - 1 in
         if nc * e_lo < p_lo then \<lparr>mul = ucast m_lo, pre_shift = pre, post_shift = l - 1, add = False\<rparr>
         else let p_hi = push_bit (32 + l) 1;
           m_hi = (p_hi + dd - 1) div dd in
           \<lparr>mul = ucast (m_hi - push_bit 32 1), pre_shift = pre, post_shift = l, add = True\<rparr>)"

section \<open>The emitted code\<close>

text \<open>The instructions the emitter writes, with 32-bit registers named by number.\<close>

datatype ptx =
    Shr nat nat nat
  | MulHi nat nat "32 word"
  | SubR nat nat nat
  | AddR nat nat nat
  | AndI nat nat "32 word"
  | MulLo nat nat "32 word"
  | MovI nat "32 word"

definition mulhi :: "32 word \<Rightarrow> 32 word \<Rightarrow> 32 word" where
  "mulhi a b = ucast (drop_bit 32 (ucast a * ucast b :: 64 word))"

fun exec :: "ptx \<Rightarrow> (nat \<Rightarrow> 32 word) \<Rightarrow> nat \<Rightarrow> 32 word" where
  "exec (Shr d a k) r = r(d := drop_bit k (r a))"
| "exec (MulHi d a v) r = r(d := mulhi (r a) v)"
| "exec (SubR d a b) r = r(d := r a - r b)"
| "exec (AddR d a b) r = r(d := r a + r b)"
| "exec (AndI d a v) r = r(d := r a AND v)"
| "exec (MulLo d a v) r = r(d := r a * v)"
| "exec (MovI d v) r = r(d := v)"

definition run_ptx :: "ptx list \<Rightarrow> (nat \<Rightarrow> 32 word) \<Rightarrow> nat \<Rightarrow> 32 word" where
  "run_ptx is r = fold exec is r"

text \<open>The result: the code, the register of the quotient and the next free register \<open>a\<close>.\<close>

definition emit_magic :: "MagicU32 \<Rightarrow> nat \<Rightarrow> nat \<Rightarrow> ptx list \<times> nat \<times> nat" where
  "emit_magic m x a = (
     let (pre, xp, a) = (if 0 < pre_shift m then ([Shr a x (pre_shift m)], a, a + 1) else ([], x, a));
         hi = a; a = a + 1;
         code = pre @ [MulHi hi xp (mul m)] in
     if \<not> add m then
       if post_shift m = 0 then (code, hi, a) else (code @ [Shr a hi (post_shift m)], a, a + 1)
     else let diff = a; half = a + 1; sum = a + 2; a = a + 3;
         code = code @ [SubR diff xp hi, Shr half diff 1, AddR sum half hi] in
       if post_shift m \<le> 1 then (code, sum, a) else (code @ [Shr a sum (post_shift m - 1)], a, a + 1))"

definition emit_udiv_const :: "nat \<Rightarrow> int \<Rightarrow> nat \<Rightarrow> ptx list \<times> nat \<times> nat" where
  "emit_udiv_const x d a = (
     if d \<le> 1 then ([], x, a)
     else if is_pow2 d then ([Shr a x (log2_exact d)], a, a + 1)
     else emit_magic (magic_u32 (of_int d)) x a)"

definition emit_udiv_urem_const :: "nat \<Rightarrow> int \<Rightarrow> nat \<Rightarrow> ptx list \<times> nat \<times> nat \<times> nat" where
  "emit_udiv_urem_const x d a = (
     let (code, q, a) = emit_udiv_const x d a; r = a; a = a + 1 in
     if d \<le> 1 then (code @ [MovI r 0], q, r, a)
     else if is_pow2 d then (code @ [AndI r x (of_int (d - 1))], q, r, a)
     else let prod = a; a = a + 1 in (code @ [MulLo prod q (of_int d), SubR r x prod], q, r, a))"

text \<open>The SPIR-V builder's values for the same division.\<close>

definition udiv_const :: "32 word \<Rightarrow> int \<Rightarrow> 32 word" where
  "udiv_const x d = (
     if d \<le> 1 then x
     else if is_pow2 d then drop_bit (log2_exact d) x
     else let m = magic_u32 (of_int d);
         xp = (if pre_shift m \<noteq> 0 then drop_bit (pre_shift m) x else x);
         prod64 = ucast xp * ucast (mul m) :: 64 word in
       if \<not> add m then ucast (drop_bit (32 + post_shift m) prod64)
       else let q = ucast (drop_bit 32 prod64); diff = xp - q; half = drop_bit 1 diff; sum = half + q in
         if 1 < post_shift m then drop_bit (post_shift m - 1) sum else sum)"

definition udiv_urem_const :: "32 word \<Rightarrow> int \<Rightarrow> 32 word \<times> 32 word" where
  "udiv_urem_const x d = (let q = udiv_const x d in
     (q, if d \<le> 1 then 0 else if is_pow2 d then x AND of_int (d - 1) else x - q * of_int d))"

section \<open>Arithmetic\<close>

text \<open>The multiplier \<open>m = (p + e) / d\<close> is exact for the dividends \<open>x\<close> with \<open>e * x < p * (d - x mod d)\<close>.\<close>

lemma magic_exact:
  fixes x d m p e :: nat
  assumes m: "m * d = p + e" and d: "0 < d" and c: "e * x < p * (d - x mod d)"
  shows "x * m div p = x div d"
proof -
  define q r where "q = x div d" and "r = x mod d"
  have x: "x = q * d + r" and r: "r < d" using d by (simp_all add: q_def r_def)
  have xm: "x * m = q * p + (q * e + r * m)"
  proof -
    have "x * m = q * (m * d) + r * m" unfolding x by (simp add: algebra_simps)
    then show ?thesis unfolding m by (simp add: algebra_simps)
  qed
  have "(q * e + r * m) * d = e * x + r * p" unfolding x using m by (simp add: algebra_simps) (metis add_mult_distrib2 mult.commute mult.left_commute)
  also have "\<dots> < p * (d - r) + r * p" using c r by (simp add: r_def)
  also have "\<dots> = p * d" using r by (simp add: algebra_simps flip: add_mult_distrib2)
  finally have "q * e + r * m < p" by (simp add: mult.commute)
  then have "(q * e + r * m) div p = 0" "0 < p" by auto
  then show ?thesis unfolding xm q_def [symmetric] by simp
qed


lemma ceil_div:
  fixes p d :: nat
  assumes "0 < d"
  shows "\<exists>e < d. (p + d - 1) div d * d = p + e"
proof -
  let ?m = "(p + d - 1) div d"
  have "(p + d - 1) mod d < d" using assms by simp
  moreover have "?m * d + (p + d - 1) mod d = p + d - 1" by simp
  ultimately have "p \<le> ?m * d" "?m * d < p + d" using assms by linarith+
  then show ?thesis by (intro exI [of _ "?m * d - p"]) simp
qed

lemma magic_lo:
  fixes x d p e m n :: nat
  assumes m: "m * d = p + e" and e: "e < d" and dd: "d * d \<le> p" and x: "x \<le> n" and n: "\<not> d dvd Suc n" and d: "1 < d"
    and c: "(n div d * d - 1) * e < p"
  shows "x * m div p = x div d"
proof (rule magic_exact [OF m])
  define q r where "q = x div d" and "r = x mod d"
  have xq: "x = q * d + r" and r: "r < d" using d by (simp_all add: q_def r_def)
  have ed: "e * d < p" using e dd d by (meson mult_less_mono1 order_less_le_trans order_less_trans zero_less_one)
  show "e * x < p * (d - x mod d)"
  proof (cases "r = d - 1")
    case True
    have "x + 1 = (q + 1) * d" using xq True d by (simp add: algebra_simps)
    moreover have "x \<noteq> n" using n calculation by (metis Suc_eq_plus1 dvd_triv_right)
    ultimately have "(q + 1) * d \<le> n" using x by linarith
    then have "q + 1 \<le> n div d" using d by (metis div_le_mono nonzero_mult_div_cancel_right not_one_less_zero)
    then have "(q + 1) * d \<le> n div d * d" by (rule mult_le_mono1)
    then have "x \<le> n div d * d - 1" using \<open>x + 1 = (q + 1) * d\<close> by linarith
    then have "x * e \<le> (n div d * d - 1) * e" by (rule mult_le_mono1)
    then have "e * x < p" using c by (metis mult.commute order_le_less_trans)
    then show ?thesis using True d by (simp add: r_def [symmetric])
  next
    case False
    then have s: "2 \<le> d - r" using r by simp
    have "e * x < 2 * p"
    proof (cases "q = 0")
      case True
      then have "e * x \<le> e * d" using xq r by simp
      then show ?thesis using ed by linarith
    next
      case False
      have "q \<le> n div d" using x by (simp add: q_def div_le_mono)
      then have "q * d - 1 \<le> n div d * d - 1" by (simp add: diff_le_mono mult_le_mono1)
      then have "e * (q * d - 1) < p" using c by (metis mult.commute mult_le_mono2 order_le_less_trans)
      moreover have "x \<le> (q * d - 1) + d" using xq r d False by (simp add: Suc_leI)
      then have "e * x \<le> e * (q * d - 1) + e * d" by (metis add_mult_distrib2 mult_le_mono2)
      ultimately show ?thesis using ed by linarith
    qed
    also have "2 * p \<le> p * (d - r)" using s by (metis mult.commute mult_le_mono2)
    finally show ?thesis by (simp add: r_def)
  qed
qed (use d in simp)

lemma magic_hi:
  fixes x d p e m :: nat
  assumes m: "m * d = p + e" and e: "e < d" and x: "x < 2 ^ 32" and p: "p = 2 ^ (32 + l)" and d: "d \<le> 2 ^ l"
  shows "x * m div p = x div d"
proof (rule magic_exact [OF m])
  have "e * x \<le> d * x" using e by simp
  also have "\<dots> < 2 ^ l * 2 ^ 32"
  proof -
    have "d * x \<le> 2 ^ l * x" using d by simp
    also have "\<dots> < 2 ^ l * 2 ^ 32" using x by simp
    finally show ?thesis .
  qed
  also have "\<dots> = p" by (simp add: p power_add)
  also have "p \<le> p * (d - x mod d)"
  proof -
    have "1 \<le> d - x mod d" using e by (simp add: Suc_leI)
    then show ?thesis using mult_le_mono2 [of 1 "d - x mod d" p] by simp
  qed
  finally show "e * x < p * (d - x mod d)" .
qed (use e in simp)

text \<open>The two halves of the product with a 33-bit multiplier.\<close>

lemma split_product:
  fixes x m' :: nat
  assumes "hi = x * m' div 2 ^ 32" and "m' < 2 ^ 32" and "0 < l"
  shows "hi \<le> x" and "((x - hi) div 2 + hi) div 2 ^ (l - 1) = x * (2 ^ 32 + m') div 2 ^ (32 + l)"
proof -
  have "x * m' \<le> x * 2 ^ 32" using assms(2) by simp
  then show hi: "hi \<le> x" unfolding assms(1) by (metis div_le_mono nonzero_mult_div_cancel_right power_not_zero zero_neq_numeral)
  have "(x - hi) div 2 + hi = (x + hi) div 2" using hi by presburger
  also have "x + hi = x * (2 ^ 32 + m') div 2 ^ 32" unfolding assms(1) by (simp add: add_mult_distrib2)
  finally have "(x - hi) div 2 + hi = x * (2 ^ 32 + m') div 2 ^ 33" by (simp add: div_mult2_eq [symmetric])
  then show "((x - hi) div 2 + hi) div 2 ^ (l - 1) = x * (2 ^ 32 + m') div 2 ^ (32 + l)"
    using assms(3) by (cases l) (simp_all add: div_mult2_eq [symmetric] power_add)
qed


lemma log2_up_bounds: "v \<le> 2 ^ log2_up v l \<and> l \<le> log2_up v l \<and> (log2_up v l = l \<or> 2 ^ (log2_up v l - 1) < v)"
proof (induction v l rule: log2_up.induct)
  case (1 v l)
  show ?case
  proof (cases "2 ^ l < v")
    case True
    then have "log2_up v l = log2_up v (Suc l)" by (simp add: log2_up.simps)
    then show ?thesis using 1 [OF True] True by auto
  qed (simp add: log2_up.simps)
qed

lemma even_word: "(d :: 32 word) AND 1 = 0 \<longleftrightarrow> even (unat d)"
proof -
  have "d AND 1 = take_bit 1 d" by (simp add: take_bit_eq_mask)
  moreover have "unat (take_bit 1 d) = unat d mod 2" by (simp only: unat_take_bit power_one_right)
  ultimately show ?thesis by (metis even_iff_mod_2_eq_zero unat_0 unat_eq_zero)
qed

lemma strip_twos_spec:
  "d \<noteq> 0 \<Longrightarrow> strip_twos d s = (d', s') \<Longrightarrow> s \<le> s' \<and> odd (unat d') \<and> unat d = unat d' * 2 ^ (s' - s)"
proof (induction d s arbitrary: d' s' rule: strip_twos.induct)
  case (1 d s)
  show ?case
  proof (cases "d AND 1 = 0")
    case True
    then have st: "strip_twos (drop_bit 1 d) (Suc s) = (d', s')" using 1(2,3) by (simp add: strip_twos.simps [of d s])
    have ev: "even (unat d)" using True even_word by blast
    then have u: "unat d = unat (drop_bit 1 d) * 2" by (simp add: drop_bit_eq_div unat_div)
    then have "drop_bit 1 d \<noteq> 0" using 1(2) by (metis mult_is_0 unat_0 unat_eq_zero)
    then have ih: "Suc s \<le> s' \<and> odd (unat d') \<and> unat (drop_bit 1 d) = unat d' * 2 ^ (s' - Suc s)" using 1(1) [OF _ _ st] True 1(2) by blast
    then have "s' - s = Suc (s' - Suc s)" by linarith
    then show ?thesis using ih u by simp
  next
    case False
    then have "d' = d" "s' = s" using 1(3) by (simp_all add: strip_twos.simps [of d s])
    then show ?thesis using False even_word by auto
  qed
qed


text \<open>The parameters \<^const>\<open>magic_u32\<close> finds, as numbers.\<close>

definition magic_ok :: "nat \<Rightarrow> nat \<Rightarrow> MagicU32 \<Rightarrow> bool" where
  "magic_ok d pre m \<longleftrightarrow> pre_shift m = pre \<and> (\<exists>l e. 0 < l \<and> l \<le> 31 \<and> e < d \<and> d \<le> 2 ^ l \<and>
     (if add m then post_shift m = l \<and> (2 ^ 32 + unat (mul m)) * d = 2 ^ (32 + l) + e
      else post_shift m = l - 1 \<and> unat (mul m) * d = 2 ^ (31 + l) + e \<and> d * d \<le> 2 ^ (31 + l)
        \<and> ((2 ^ (32 - pre) - 1) div d * d - 1) * e < 2 ^ (31 + l)))"

lemma unat_pow64: "n < 64 \<Longrightarrow> unat (2 ^ n :: 64 word) = 2 ^ n"
proof -
  assume "n < 64"
  then have "(2::nat) ^ n < 2 ^ 64" by (intro power_strict_increasing) simp_all
  then show ?thesis using unat_push_bit [of n "1 :: 64 word"] by simp
qed

lemma word_ceil_div:
  fixes p :: "64 word" and d :: "32 word"
  assumes "unat p + unat d < 2 ^ 64" "0 < unat d"
  shows "unat ((p + ucast d - 1) div ucast d) = (unat p + unat d - 1) div unat d"
proof -
  have u: "unat (ucast d :: 64 word) = unat d" using unsigned_less [where 'a = nat, of d] by (simp add: unsigned_ucast_eq take_bit_nat_eq_self_iff)
  have "unat (p + ucast d) = unat p + unat d" using assms by (simp add: unat_word_ariths u)
  moreover have "1 \<le> p + ucast d" using calculation assms by (simp add: word_le_nat_alt)
  ultimately have "unat (p + ucast d - 1) = unat p + unat d - 1" by (simp add: unat_sub)
  then show ?thesis by (simp add: unat_div u)
qed


lemma pre_bounds: "n * 2 ^ pre < (2::nat) ^ 31 \<Longrightarrow> 1 < n \<Longrightarrow> pre \<le> 31 \<and> n \<le> 2 ^ (32 - pre) - 1"
proof -
  assume b: "n * 2 ^ pre < 2 ^ 31" and n: "1 < n"
  have "1 * (2::nat) ^ pre \<le> n * 2 ^ pre" using n by (intro mult_le_mono1) simp
  then have "(2::nat) ^ pre < 2 ^ 31" using b by linarith
  then have pre: "pre < 31" by (rule power_less_imp_less_exp [rotated]) simp
  have "n * 2 ^ pre < 2 ^ (31 - pre) * 2 ^ pre" using b pre by (simp flip: power_add)
  then have "n < 2 ^ (31 - pre)" by simp
  moreover have "(2::nat) ^ (32 - pre) = 2 * 2 ^ (31 - pre)" using pre by (simp flip: power_Suc add: Suc_diff_le)
  ultimately show ?thesis using pre by linarith
qed

lemma div_mask: "pre \<le> 32 \<Longrightarrow> (4294967295::nat) div 2 ^ pre = 2 ^ (32 - pre) - 1"
proof -
  assume "pre \<le> 32"
  then have "(2::nat) ^ 32 = 2 ^ (32 - pre) * 2 ^ pre" by (simp flip: power_add)
  moreover have one: "(1::nat) \<le> 2 ^ pre" and "(2::nat) ^ pre \<le> 2 ^ 32" using \<open>pre \<le> 32\<close> power_increasing [of pre 32 "2::nat"] by simp_all
  moreover have "(2 ^ (32 - pre) - 1) * (2::nat) ^ pre = 2 ^ (32 - pre) * 2 ^ pre - 2 ^ pre" by (simp add: diff_mult_distrib)
  moreover have "(4294967295::nat) = 2 ^ 32 - 1" by simp
  ultimately have e: "(4294967295::nat) = (2 ^ (32 - pre) - 1) * 2 ^ pre + (2 ^ pre - 1)" by linarith
  have q: "(a * b + c) div b = a" if "c < b" for a b c :: nat using that by simp
  have "(2::nat) ^ pre - 1 < 2 ^ pre" by simp
  then show ?thesis unfolding e by (rule q)
qed

lemma nc_word:
  fixes m d :: "64 word"
  assumes "unat d \<le> unat m" "0 < unat d"
  shows "unat (m div d * d - 1) = unat m div unat d * unat d - 1"
proof -
  have "unat m div unat d * unat d \<le> unat m" by simp
  then have "unat m div unat d * unat d < 2 ^ 64" using unsigned_less [where 'a = nat, of m] by (simp del: div_times_less_eq_dividend)
  then have u: "unat (m div d * d) = unat m div unat d * unat d" by (subst unat_word_ariths(2)) (simp add: unat_div)
  have "1 \<le> unat m div unat d" using assms by (simp add: Suc_leI div_greater_zero_iff)
  then have "1 \<le> unat m div unat d * unat d" using assms(2) by (simp add: Suc_leI)
  then show ?thesis by (simp add: unat_sub word_le_nat_alt u)
qed

lemma nc_small: "e < n \<Longrightarrow> n < (2::nat) ^ 31 \<Longrightarrow> ((2 ^ (32 - pre) - 1) div n * n - 1) * e < 2 ^ 64"
proof -
  assume e: "e < n" "n < 2 ^ 31"
  have "(2 ^ (32 - pre) - 1) div n * n \<le> (2 ^ (32 - pre) - 1 :: nat)" by simp
  moreover have "(2::nat) ^ (32 - pre) \<le> 2 ^ 32" by (intro power_increasing) simp_all
  ultimately have "(2 ^ (32 - pre) - 1) div n * n - 1 \<le> (2::nat) ^ 32" by linarith
  then have "((2 ^ (32 - pre) - 1) div n * n - 1) * e \<le> 2 ^ 32 * 2 ^ 31" using e by (intro mult_le_mono) simp_all
  then show ?thesis by simp
qed

lemma mult_bound: "m * n = 2 ^ (31 + l) + e \<Longrightarrow> 2 ^ (l - 1) < n \<Longrightarrow> 0 < l \<Longrightarrow> e < n \<Longrightarrow> n < 2 ^ 31 \<Longrightarrow> m < (2::nat) ^ 32"
proof (rule ccontr)
  assume h: "m * n = 2 ^ (31 + l) + e" "2 ^ (l - 1) < n" "0 < l" "e < n" "n < 2 ^ 31" "\<not> m < (2::nat) ^ 32"
  then have "2 ^ 32 * (2 ^ (l - 1) + 1) \<le> m * n" by (intro mult_le_mono) simp_all
  moreover have "(2::nat) ^ 32 * 2 ^ (l - 1) = 2 ^ (31 + l)" using h(3) by (cases l) (simp_all add: power_add)
  ultimately show False using h by (simp add: add_mult_distrib2)
qed

lemma hi_bounds:
  assumes "m * n = 2 ^ (32 + l) + f" "2 ^ (l - 1) < n" "n \<le> 2 ^ l" "0 < l" "f < n" "n < (2::nat) ^ 31"
  shows "2 ^ 32 \<le> m" "m < 2 ^ 33"
proof -
  show "2 ^ 32 \<le> m"
  proof (rule ccontr)
    assume "\<not> 2 ^ 32 \<le> m"
    then have "m * n < 2 ^ 32 * n" using assms(5) by simp
    also have "\<dots> \<le> 2 ^ 32 * 2 ^ l" using assms(3) by simp
    finally show False using assms(1) by (simp add: power_add)
  qed
  show "m < 2 ^ 33"
  proof (rule ccontr)
    assume "\<not> m < 2 ^ 33"
    then have "2 ^ 33 * (2 ^ (l - 1) + 1) \<le> m * n" using assms(2) by (intro mult_le_mono) simp_all
    moreover have "(2::nat) ^ 33 * 2 ^ (l - 1) = 2 ^ (32 + l)" using assms(4) by (cases l) (simp_all add: power_add)
    ultimately show False using assms by (simp add: add_mult_distrib2)
  qed
qed

lemma magic_u32_ok:
  assumes d0: "1 < unat d0" "unat d0 < 2 ^ 31" and st: "strip_twos d0 0 = (d, pre)" "d \<noteq> 1"
  shows "magic_ok (unat d) pre (magic_u32 d0) \<and> odd (unat d) \<and> 1 < unat d \<and> unat d0 = unat d * 2 ^ pre"
proof -
  define n where "n = unat d"
  have "d0 \<noteq> 0" using d0 by auto
  then have sp: "odd n" "unat d0 = n * 2 ^ pre" using strip_twos_spec [OF _ st(1)] by (simp_all add: n_def)
  have "n \<noteq> 1" using st(2) by (metis n_def unat_1 word_unat_eq_iff)
  then have n1: "1 < n" using odd_pos [OF sp(1)] by linarith
  have "n * 1 \<le> n * 2 ^ pre" by (intro mult_le_mono2) simp
  then have n31: "n < 2 ^ 31" using sp(2) d0(2) by linarith
  define l where "l = log2_up n 0"
  note lb = log2_up_bounds [of n 0, folded l_def]
  have l0: "0 < l" using lb n1 by (cases l) auto
  then have l: "n \<le> 2 ^ l" "2 ^ (l - 1) < n" using lb by auto
  have "(2::nat) ^ (l - 1) < 2 ^ 31" using l(2) n31 by linarith
  then have "l - 1 < 31" by (rule power_less_imp_less_exp [rotated]) simp
  then have l31: "l \<le> 31" by simp
  let ?dd = "ucast d :: 64 word"
  let ?plo = "push_bit (32 + l - 1) 1 :: 64 word" and ?phi = "push_bit (32 + l) 1 :: 64 word"
  let ?mlo = "(?plo + ?dd - 1) div ?dd" and ?mhi = "(?phi + ?dd - 1) div ?dd"
  have pe: "32 + l - 1 = 31 + l" using l0 by simp
  have up: "unat ?plo = 2 ^ (31 + l)" "unat ?phi = 2 ^ (32 + l)" using l31 pe by (simp_all add: unat_pow64)
  have "(2::nat) ^ (32 + l) \<le> 2 ^ 63" using l31 by (intro power_increasing) simp_all
  then have le: "2 ^ (32 + l) + n < (2::nat) ^ 64" "2 ^ (31 + l) + n < (2::nat) ^ 64" using n31 by (simp_all add: power_add)
  have un: "unat ?dd = n" using unsigned_less [where 'a = nat, of d] by (simp add: unsigned_ucast_eq take_bit_nat_eq_self_iff n_def)
  have pre: "pre \<le> 31" "n \<le> 2 ^ (32 - pre) - 1"
    using pre_bounds [of n pre] sp(2) d0(2) n1 by simp_all
  let ?emlo = "?mlo * ?dd - ?plo" and ?max = "drop_bit pre 0xFFFFFFFF :: 64 word"
  let ?nc = "(?max div ?dd) * ?dd - 1"
  obtain e where e: "e < n" "unat ?mlo * n = 2 ^ (31 + l) + e"
    using ceil_div [of n "2 ^ (31 + l)"] n1 word_ceil_div [of ?plo d] up le by (auto simp: n_def)
  obtain f where f: "f < n" "unat ?mhi * n = 2 ^ (32 + l) + f"
    using ceil_div [of n "2 ^ (32 + l)"] n1 word_ceil_div [of ?phi d] up le by (auto simp: n_def)
  have "unat (?mlo * ?dd) = unat ?mlo * n" using e le by (simp add: unat_word_ariths un)
  then have ue: "unat ?emlo = e" using e up by (simp add: unat_sub word_le_nat_alt)
  have um: "unat ?max = 2 ^ (32 - pre) - 1"
    using pre(1) div_mask [of pre] by (simp add: unat_drop_bit)
  have unc: "unat ?nc = (2 ^ (32 - pre) - 1) div n * n - 1"
    using nc_word [where m = ?max and d = ?dd] pre(2) n1 by (simp add: um un)
  have "unat (?nc * ?emlo) = ((2 ^ (32 - pre) - 1) div n * n - 1) * e"
    using nc_small [OF e(1) n31, of pre] by (subst unat_word_ariths(2)) (simp add: unc [simplified] ue [simplified])
  then have cond: "?nc * ?emlo < ?plo \<longleftrightarrow> ((2 ^ (32 - pre) - 1) div n * n - 1) * e < 2 ^ (31 + l)"
    by (simp only: word_less_nat_alt up)
  have "unat ?mlo < 2 ^ 32" using mult_bound [OF e(2)] l n31 e(1) l0 by simp
  then have mlo: "unat (ucast ?mlo :: 32 word) = unat ?mlo" by (simp add: unat_ucast_mod)
  have "2 ^ 32 \<le> unat ?mhi" "unat ?mhi < 2 ^ 33" using hi_bounds [OF f(2)] l n31 f(1) l0 by simp_all
  then have mhi: "unat (ucast (?mhi - push_bit 32 1) :: 32 word) = unat ?mhi - 2 ^ 32"
    by (simp add: unat_ucast_mod unat_sub word_le_nat_alt)
  have "d0 \<le> 1 \<longleftrightarrow> False" using d0 by (simp add: word_le_nat_alt)
  then have mg: "magic_u32 d0 = (if ?nc * ?emlo < ?plo then \<lparr>mul = ucast ?mlo, pre_shift = pre, post_shift = l - 1, add = False\<rparr>
      else \<lparr>mul = ucast (?mhi - push_bit 32 1), pre_shift = pre, post_shift = l, add = True\<rparr>)"
    using st(2) by (simp add: magic_u32_def st(1) Let_def l_def n_def del: push_bit_of_1)
  have dd: "n * n \<le> 2 ^ (31 + l)"
  proof -
    have "n * n \<le> 2 ^ 31 * 2 ^ l" using n31 l(1) by (intro mult_le_mono) simp_all
    then show ?thesis by (simp add: power_add)
  qed
  have "magic_ok n pre (magic_u32 d0)"
  proof (cases "?nc * ?emlo < ?plo")
    case True
    then have "magic_u32 d0 = \<lparr>mul = ucast ?mlo, pre_shift = pre, post_shift = l - 1, add = False\<rparr>" using mg by simp
    then show ?thesis unfolding magic_ok_def using l0 l31 l(1) e mlo dd True cond by (intro conjI exI [of _ l] exI [of _ e]) simp_all
  next
    case False
    then have "magic_u32 d0 = \<lparr>mul = ucast (?mhi - push_bit 32 1), pre_shift = pre, post_shift = l, add = True\<rparr>" using mg by simp
    then show ?thesis unfolding magic_ok_def using l0 l31 l(1) f mhi \<open>2 ^ 32 \<le> unat ?mhi\<close> by (intro conjI exI [of _ l] exI [of _ f]) simp_all
  qed
  then show ?thesis using sp n1 by (simp add: n_def)
qed


section \<open>The emitted code divides\<close>

text \<open>What both emitters compute from the multiplier.\<close>

definition magic_value :: "MagicU32 \<Rightarrow> 32 word \<Rightarrow> 32 word" where
  "magic_value m x = (let xp = drop_bit (pre_shift m) x; hi = mulhi xp (mul m) in
     if add m then drop_bit (post_shift m - 1) (drop_bit 1 (xp - hi) + hi) else drop_bit (post_shift m) hi)"

lemma unat_mulhi: "unat (mulhi a b) = unat a * unat b div 2 ^ 32"
proof -
  have up: "unat (ucast w :: 64 word) = unat w" for w :: "32 word"
    using unsigned_less [where 'a = nat, of w] by (simp add: unsigned_ucast_eq take_bit_nat_eq_self_iff)
  have lt: "unat a * unat b < 2 ^ 64"
    using mult_strict_mono [of "unat a" "2 ^ 32" "unat b" "2 ^ 32"] unsigned_less [where 'a = nat, of a] unsigned_less [where 'a = nat, of b] by simp
  then have "unat (ucast a * ucast b :: 64 word) = unat a * unat b" by (subst unat_word_ariths(2)) (simp add: up)
  moreover have "unat a * unat b div 2 ^ 32 < 2 ^ 32" using lt by (simp add: less_mult_imp_div_less)
  ultimately show ?thesis unfolding mulhi_def by (simp only: unat_ucast_mod unat_drop_bit) simp
qed

lemma magic_value_correct:
  assumes ok: "magic_ok n pre m" and n: "odd n" "1 < n" and d: "n * 2 ^ pre < 2 ^ 31"
  shows "unat (magic_value m x) = unat x div (n * 2 ^ pre)"
proof -
  let ?x = "unat x div 2 ^ pre"
  from ok obtain l e where le: "0 < l" "l \<le> 31" "e < n" "n \<le> 2 ^ l" and pre: "pre_shift m = pre"
    and c: "if add m then post_shift m = l \<and> (2 ^ 32 + unat (mul m)) * n = 2 ^ (32 + l) + e
      else post_shift m = l - 1 \<and> unat (mul m) * n = 2 ^ (31 + l) + e \<and> n * n \<le> 2 ^ (31 + l)
        \<and> ((2 ^ (32 - pre) - 1) div n * n - 1) * e < 2 ^ (31 + l)" unfolding magic_ok_def by blast
  have xp: "unat (drop_bit pre x) = ?x" by (rule unat_drop_bit)
  have p31: "pre \<le> 31" using pre_bounds [OF d n(2)] by simp
  have x32: "?x < 2 ^ 32" using unsigned_less [where 'a = nat, of "drop_bit pre x"] xp by simp
  have q: "unat x div (n * 2 ^ pre) = ?x div n" by (metis div_mult2_eq mult.commute)
  show ?thesis
  proof (cases "add m")
    case True
    let ?hi = "mulhi (drop_bit pre x) (mul m)"
    have hi: "unat ?hi = ?x * unat (mul m) div 2 ^ 32" by (simp only: unat_mulhi xp)
    have m32: "unat (mul m) < 2 ^ 32" using unsigned_less [where 'a = nat, of "mul m"] by simp
    note sp = split_product [OF hi m32 le(1)]
    have "unat (drop_bit pre x - ?hi) = ?x - unat ?hi" using sp(1) by (simp only: unat_sub word_le_nat_alt xp)
    then have "unat (drop_bit 1 (drop_bit pre x - ?hi)) = (?x - unat ?hi) div 2" by (simp only: unat_drop_bit power_one_right)
    moreover have "(?x - unat ?hi) div 2 + unat ?hi < 2 ^ 32" using sp(1) x32 by linarith
    ultimately have "unat (drop_bit 1 (drop_bit pre x - ?hi) + ?hi) = (?x - unat ?hi) div 2 + unat ?hi"
      by (subst unat_word_ariths(1)) simp
    then have "unat (magic_value m x) = ?x * (2 ^ 32 + unat (mul m)) div 2 ^ (32 + l)"
      using True c sp(2) by (simp add: magic_value_def Let_def pre unat_drop_bit)
    then show ?thesis using magic_hi [OF _ le(3) x32 refl le(4), of "2 ^ 32 + unat (mul m)"] True c q by simp
  next
    case False
    have "unat (magic_value m x) = ?x * unat (mul m) div 2 ^ (31 + l)"
      using False c le(1) by (cases l) (simp_all add: magic_value_def Let_def pre unat_drop_bit unat_mulhi xp div_mult2_eq [symmetric] power_add)
    moreover have "?x * unat (mul m) div 2 ^ (31 + l) = ?x div n"
    proof (rule magic_lo [where e = e])
      show "?x \<le> 2 ^ (32 - pre) - 1" using div_le_mono [of "unat x" 4294967295 "2 ^ pre"] unsigned_less [where 'a = nat, of x] div_mask [of pre] p31 by simp
      have "coprime n (2 ^ (32 - pre))" using n(1) by simp
      then have "\<not> n dvd 2 ^ (32 - pre)" using n(2) coprime_common_divisor [of n "2 ^ (32 - pre)" n] by auto
      then show "\<not> n dvd Suc (2 ^ (32 - pre) - 1)" by simp
    qed (use False c n le in auto)
    ultimately show ?thesis by (simp add: q)
  qed
qed


lemma pow2_exact: "is_pow2 v \<Longrightarrow> v = 2 ^ log2_exact v"
proof (rule ccontr)
  assume p: "is_pow2 v" and ne: "v \<noteq> 2 ^ log2_exact v"
  define k where "k = log2_exact v"
  have v: "0 < v" "(v AND (v - 1)) = 0" using p by (simp_all add: is_pow2_def)
  note lb = log2_up_bounds [of "nat v" 0, folded log2_exact_def k_def]
  have "v \<noteq> 2 ^ k" using ne by (simp add: k_def)
  have up: "v < 2 ^ k"
  proof -
    have "int (nat v) \<le> int (2 ^ k)" using lb by (simp only: of_nat_le_iff)
    then show ?thesis using v(1) \<open>v \<noteq> 2 ^ k\<close> by simp
  qed
  have k0: "0 < k" using up v(1) by (cases k) auto
  then have "int (2 ^ (k - 1)) < int (nat v)" using lb by (simp only: of_nat_less_iff) auto
  then have lo: "2 ^ (k - 1) < v" using v(1) by simp
  have b: "bit u (k - 1)" if "2 ^ (k - 1) \<le> u" "u < 2 ^ k" for u :: int
  proof -
    have "u div 2 ^ (k - 1) = 1" using that k0 by (intro int_div_pos_eq [where r = "u - 2 ^ (k - 1)"]) (simp_all flip: power_Suc)
    then show ?thesis by (simp add: bit_iff_odd)
  qed
  have "bit (v AND (v - 1)) (k - 1)" using b [of v] b [of "v - 1"] lo up by (simp add: bit_and_iff)
  then show False using v(2) by simp
qed

lemma is_pow2_power: "is_pow2 (2 ^ k)"
proof -
  have "(2 ^ k AND (2 ^ k - 1)) = (take_bit k (2 ^ k) :: int)" by (simp add: take_bit_eq_mask mask_eq_exp_minus_1)
  then show ?thesis by (simp add: is_pow2_def)
qed

lemma unat_divisor: "0 \<le> d \<Longrightarrow> d < 2 ^ 31 \<Longrightarrow> unat (of_int d :: 32 word) = nat d"
  by (simp add: unat_eq_nat_uint uint_word_of_int)

lemma magic_divides:
  assumes d: "1 < d" "d < 2 ^ 31" "\<not> is_pow2 d"
  shows "unat (magic_value (magic_u32 (of_int d)) x) = unat x div nat d"
proof -
  let ?d = "of_int d :: 32 word"
  have u: "unat ?d = nat d" using d by (intro unat_divisor) simp_all
  obtain n pre where st: "strip_twos ?d 0 = (n, pre)" by force
  have nz: "?d \<noteq> 0" using u d(1) by auto
  have "n \<noteq> 1"
  proof
    assume "n = 1"
    then have "nat d = 2 ^ pre" using strip_twos_spec [OF nz st] u by simp
    then have "d = 2 ^ pre" using d(1) by (metis int_nat_eq less_le_trans not_less of_nat_numeral of_nat_power zero_le_one order_less_imp_le order_trans)
    then show False using d(3) is_pow2_power by simp
  qed
  then have m: "magic_ok (unat n) pre (magic_u32 ?d)" "odd (unat n)" "1 < unat n" "nat d = unat n * 2 ^ pre"
    using magic_u32_ok [of ?d n pre] st u d by simp_all
  then show ?thesis using magic_value_correct [OF m(1,2,3)] d(2) by simp
qed


lemma emit_magic_run:
  "x < a \<Longrightarrow> emit_magic m x a = (code, q, a') \<Longrightarrow>
     run_ptx code r q = magic_value m (r x) \<and> (\<forall>i < a. run_ptx code r i = r i) \<and> a \<le> a' \<and> q < a'"
  by (auto simp: emit_magic_def run_ptx_def magic_value_def Let_def split: if_splits)

lemma nat_pow2: "is_pow2 d \<Longrightarrow> nat d = 2 ^ log2_exact d"
proof -
  assume "is_pow2 d"
  then have "nat d = nat (2 ^ log2_exact d)" by (simp only: pow2_exact [symmetric])
  then show ?thesis by (simp add: nat_power_eq)
qed

lemma emit_udiv_run:
  assumes "x < a" "1 \<le> d" "d < 2 ^ 31" "emit_udiv_const x d a = (code, q, a')"
  shows "unat (run_ptx code r q) = unat (r x) div nat d \<and> (\<forall>i < a. run_ptx code r i = r i) \<and> a \<le> a' \<and> q < a'"
proof (cases "d = 1")
  case True
  then show ?thesis using assms by (auto simp: emit_udiv_const_def run_ptx_def)
next
  case False
  then have d1: "1 < d" using assms(2) by simp
  show ?thesis
  proof (cases "is_pow2 d")
    case True
    have "unat (drop_bit (log2_exact d) (r x)) = unat (r x) div nat d" by (simp only: unat_drop_bit nat_pow2 [OF True])
    then show ?thesis using assms d1 True by (auto simp: emit_udiv_const_def run_ptx_def)
  next
    case False
    then have "emit_magic (magic_u32 (of_int d)) x a = (code, q, a')" using assms(4) d1 by (simp add: emit_udiv_const_def)
    then show ?thesis using emit_magic_run [OF assms(1)] magic_divides [OF d1 assms(3) False] by simp
  qed
qed

lemma spirv_magic: "(let xp = (if pre_shift m \<noteq> 0 then drop_bit (pre_shift m) x else x);
         prod64 = ucast xp * ucast (mul m) :: 64 word in
       if \<not> add m then ucast (drop_bit (32 + post_shift m) prod64)
       else let q = ucast (drop_bit 32 prod64); diff = xp - q; half = drop_bit 1 diff; sum = half + q in
         if 1 < post_shift m then drop_bit (post_shift m - 1) sum else sum) = magic_value m x"
proof -
  have "ucast (drop_bit (32 + k) (ucast a * ucast b :: 64 word)) = drop_bit k (mulhi a b)" for a b :: "32 word" and k
  proof -
    let ?p = "ucast a * ucast b :: 64 word"
    have "unat ?p div 2 ^ 32 < 2 ^ 32" using unsigned_less [where 'a = nat, of ?p] by (simp add: less_mult_imp_div_less)
    moreover from this have "unat ?p div 2 ^ 32 div 2 ^ k < 2 ^ 32" by (meson div_le_dividend order_le_less_trans)
    ultimately have "unat (ucast (drop_bit (32 + k) ?p) :: 32 word) = unat (drop_bit k (mulhi a b))"
      unfolding mulhi_def by (simp only: unat_ucast_mod unat_drop_bit power_add div_mult2_eq) simp
    then show ?thesis by (simp only: word_unat_eq_iff)
  qed
  from this this [of 0] show ?thesis by (auto simp: magic_value_def Let_def mulhi_def)
qed

lemma udiv_const_value:
  assumes "1 \<le> d" "d < 2 ^ 31"
  shows "unat (udiv_const x d) = unat x div nat d"
proof (cases "d = 1")
  case False
  then have d1: "1 < d" using assms(1) by simp
  show ?thesis
  proof (cases "is_pow2 d")
    case True
    have "unat (drop_bit (log2_exact d) x) = unat x div nat d" by (simp only: unat_drop_bit nat_pow2 [OF True])
    then show ?thesis using d1 True by (simp add: udiv_const_def)
  next
    case False
    then have "udiv_const x d = magic_value (magic_u32 (of_int d)) x" using d1 spirv_magic [of "magic_u32 (of_int d)" x]
      by (simp add: udiv_const_def Let_def)
    then show ?thesis using magic_divides [OF d1 assms(2) False] by simp
  qed
qed (simp add: udiv_const_def)

text \<open>The remainder instructions, from the quotient.\<close>

lemma pow2_remainder: "is_pow2 d \<Longrightarrow> d < 2 ^ 31 \<Longrightarrow> unat (x AND of_int (d - 1) :: 32 word) = unat x mod nat d"
proof -
  assume p: "is_pow2 d" "d < 2 ^ 31"
  have "(of_int (d - 1) :: 32 word) = of_int (2 ^ log2_exact d - 1)" by (simp only: pow2_exact [OF p(1), symmetric])
  also have "\<dots> = mask (log2_exact d)" by (simp add: mask_eq_exp_minus_1)
  finally have "x AND of_int (d - 1) = take_bit (log2_exact d) x" by (simp add: take_bit_eq_mask)
  then show ?thesis by (simp only: unat_take_bit nat_pow2 [OF p(1)])
qed

lemma mul_remainder:
  assumes "unat q = unat x div nat d" "1 \<le> d" "d < 2 ^ 31"
  shows "unat (x - q * of_int d :: 32 word) = unat x mod nat d"
proof -
  have u: "unat (of_int d :: 32 word) = nat d" using assms by (intro unat_divisor) simp_all
  have le: "unat x div nat d * nat d \<le> unat x" by simp
  then have "unat (q * of_int d) = unat x div nat d * nat d"
    using unsigned_less [where 'a = nat, of x] by (subst unat_word_ariths(2)) (simp add: u assms(1) del: div_times_less_eq_dividend)
  then have "unat (x - q * of_int d) = unat x - unat x div nat d * nat d" using le by (simp add: unat_sub word_le_nat_alt)
  then show ?thesis by (simp add: minus_div_mult_eq_mod)
qed

text \<open>
  C22: the kernels divide by a constant without a division instruction, and exactly. For every divisor \<open>d\<close> an \<^verbatim>\<open>int\<close> can hold
  (\<open>d \<ge> 1\<close>) and every 32-bit dividend in register \<open>x\<close>, running the PTX instructions of \<^verbatim>\<open>emit_udiv_urem_const\<close> leaves the
  quotient and the remainder in the two result registers and changes no register allocated before; the SPIR-V builder computes
  the same two values.
\<close>

theorem const_division_exact:
  assumes "x < a" "1 \<le> d" "d < 2 ^ 31"
  shows "case emit_udiv_urem_const x d a of (code, q, rm, a') \<Rightarrow>
      unat (run_ptx code r q) = unat (r x) div nat d
    \<and> unat (run_ptx code r rm) = unat (r x) mod nat d
    \<and> (\<forall>i < a. run_ptx code r i = r i)
    \<and> udiv_urem_const (r x) d = (run_ptx code r q, run_ptx code r rm)"
proof -
  obtain code q a' where e: "emit_udiv_const x d a = (code, q, a')" by (metis surj_pair)
  note run = emit_udiv_run [OF assms e, of r]
  let ?q = "run_ptx code r q"
  have spq: "udiv_const (r x) d = ?q" using udiv_const_value [OF assms(2,3), of "r x"] run by (simp add: word_unat_eq_iff)
  have rx: "run_ptx code r x = r x" using run assms(1) by blast
  have app: "run_ptx (code @ is) r = run_ptx is (run_ptx code r)" for "is" by (simp add: run_ptx_def)
  consider (one) "d = 1" | (pow) "1 < d" "is_pow2 d" | (mul) "1 < d" "\<not> is_pow2 d" using assms(2) by linarith
  then show ?thesis
  proof cases
    case one
    then show ?thesis using run e spq by (auto simp: emit_udiv_urem_const_def udiv_urem_const_def app) (auto simp: run_ptx_def)
  next
    case pow
    then show ?thesis using run e spq rx pow2_remainder [OF pow(2) assms(3), of "r x"] assms(1)
      by (auto simp: emit_udiv_urem_const_def udiv_urem_const_def app) (auto simp: run_ptx_def)
  next
    case mul
    then show ?thesis using run e spq rx mul_remainder [OF _ assms(2,3), of ?q "r x"] assms(1)
      by (auto simp: emit_udiv_urem_const_def udiv_urem_const_def app Let_def) (auto simp: run_ptx_def)
  qed
qed


theorem const_division_exact_witness:
  "case emit_udiv_urem_const 0 7 1 of (code, q, rm, a') \<Rightarrow>
     unat (run_ptx code (\<lambda>_. 100) q) = 14 \<and> unat (run_ptx code (\<lambda>_. 100) rm) = 2"
  using const_division_exact [of 0 1 7 "\<lambda>_. 100"] by (auto split: prod.splits)

end
