(* ===== verification/TracePlan.thy ===== *)
theory TracePlan
  imports TraceDag MagicDiv "HOL-Library.Signed_Division"
begin

unbundle bit_operations_syntax

text \<open>
  The fusion plans of the GPU compilers (\<^verbatim>\<open>src/jit/trace_plan.h\<close>, \<^verbatim>\<open>src/jit/trace_plan.cpp\<close>) and the addressing of the
  elementwise kernel built from them (\<^verbatim>\<open>build_entry\<close> of \<^verbatim>\<open>src/jit/spirv_emit_elementwise.cpp\<close>, whose PTX twin computes the same
  offsets).
\<close>

section \<open>Element sizes and geometry\<close>

definition elem_bytes :: "Dtype \<Rightarrow> int" where
  "elem_bytes d = (case d of FP32 \<Rightarrow> 4 | FP16 \<Rightarrow> 2 | BF16 \<Rightarrow> 2 | _ \<Rightarrow> 0)"

definition dtype_supported :: "Dtype \<Rightarrow> bool" where
  "dtype_supported d \<longleftrightarrow> elem_bytes d \<noteq> 0"

definition vec_width_for :: "Dtype \<Rightarrow> int" where
  "vec_width_for d = (let e = elem_bytes d in if e \<noteq> 0 then 16 sdiv e else 1)"





section \<open>The elementwise plan\<close>

record BufferSpec =
  node_id :: int
  b_dtype :: Dtype
  bcast :: BroadcastKind

record ElementwisePlan =
  p_inputs :: "BufferSpec list"
  p_outputs :: "BufferSpec list"
  p_rows :: int
  p_cols :: int
  numel :: int
  vec :: int
  any_row_bcast :: bool
  any_col_bcast :: bool

definition empty_plan :: ElementwisePlan where
  "empty_plan = \<lparr>p_inputs = [], p_outputs = [], p_rows = 0, p_cols = 0, numel = 0, vec = 1, any_row_bcast = False, any_col_bcast = False\<rparr>"

text \<open>One round of the loop over the nodes: \<open>None\<close> where the code returns \<^verbatim>\<open>false\<close>.\<close>

definition plan_node :: "TraceNode \<Rightarrow> int \<times> ElementwisePlan \<Rightarrow> (int \<times> ElementwisePlan) option res" where
  "plan_node n = (\<lambda>(lanes, p). let is_in = (op n = Input); is_out = is_live_at_end n in
     if \<not> is_in \<and> \<not> is_out then Inr (Some (lanes, p))
     else if \<not> dtype_supported (n_dtype n) then Inr None
     else bnd (broadcast_of (n_rows n) (n_cols n) (p_rows p) (p_cols p)) (\<lambda>bk.
       if bk = Full \<and> n_rows n * n_cols n \<noteq> numel p then Inr None
       else if is_out \<and> bk \<noteq> Full then Inr None
       else let s = \<lparr>node_id = nid n, b_dtype = n_dtype n, bcast = bk\<rparr> in
         Inr (Some (min lanes (vec_width_for (n_dtype n)),
           p\<lparr>any_row_bcast := any_row_bcast p \<or> bk = Row, any_col_bcast := any_col_bcast p \<or> bk = Col,
             p_inputs := (if is_in then p_inputs p @ [s] else p_inputs p),
             p_outputs := (if is_out then p_outputs p @ [s] else p_outputs p)\<rparr>))))"

fun plan_nodes :: "TraceNode list \<Rightarrow> int \<times> ElementwisePlan \<Rightarrow> (int \<times> ElementwisePlan) option res" where
  "plan_nodes [] lp = Inr (Some lp)"
| "plan_nodes (n # ns) lp = bnd (plan_node n lp) (\<lambda>r. case r of None \<Rightarrow> Inr None | Some lp' \<Rightarrow> plan_nodes ns lp')"

definition plan_lanes :: "int \<Rightarrow> ElementwisePlan \<Rightarrow> int" where
  "plan_lanes lanes p = (let l = (if numel p smod lanes \<noteq> 0 then 1 else lanes) in
     if (any_row_bcast p \<or> any_col_bcast p) \<and> p_cols p smod l \<noteq> 0 then 1 else l)"

definition build_plan :: "TraceDAG \<Rightarrow> ElementwisePlan option res" where
  "build_plan g = (let (rs, cs) = dominant_shape g in
     if rs \<le> 0 \<or> cs \<le> 0 then Inr None
     else bnd (plan_nodes (nodes g) (8, empty_plan\<lparr>p_rows := rs, p_cols := cs, numel := rs * cs\<rparr>)) (\<lambda>r. case r of
       None \<Rightarrow> Inr None
     | Some (lanes, p) \<Rightarrow> if p_outputs p = [] then Inr None else Inr (Some (p\<lparr>vec := plan_lanes lanes p\<rparr>))))"

section \<open>Addresses\<close>

text \<open>The element index of the first lane of work item \<open>i\<close>, and its row and column where some operand needs them.\<close>

definition elem_base :: "int \<Rightarrow> 32 word \<Rightarrow> 32 word" where
  "elem_base lanes i = (if 1 < lanes then push_bit (log2_exact lanes) i else i)"

definition row_col :: "ElementwisePlan \<Rightarrow> 32 word \<Rightarrow> 32 word option \<times> 32 word option" where
  "row_col p base = (
     if any_row_bcast p \<and> any_col_bcast p then (case udiv_urem_const base (p_cols p) of (q, r) \<Rightarrow> (Some q, Some r))
     else if any_row_bcast p then
       if is_pow2 (p_cols p) then (None, Some (base AND of_int (p_cols p - 1)))
       else (None, Some (snd (udiv_urem_const base (p_cols p))))
     else if any_col_bcast p then (Some (udiv_const base (p_cols p)), None)
     else (None, None))"

text \<open>The elements of an operand the lanes of item \<open>i\<close> read; \<^const>\<open>None\<close> is the use of an index that was not computed.\<close>

definition lane_reads :: "ElementwisePlan \<Rightarrow> int \<Rightarrow> 32 word \<Rightarrow> BufferSpec \<Rightarrow> 32 word list option" where
  "lane_reads p lanes i s = (let base = elem_base lanes i; (row, col) = row_col p base; k = nat lanes in
     case bcast s of
       Scalar \<Rightarrow> Some (replicate k 0)
     | Col \<Rightarrow> map_option (replicate k) row
     | Row \<Rightarrow> map_option (\<lambda>c. map (\<lambda>j. c + of_nat j) [0..<k]) col
     | Full \<Rightarrow> Some (map (\<lambda>j. base + of_nat j) [0..<k]))"

section \<open>Correctness\<close>

text \<open>The element of the operand that element \<open>e\<close> of the full shape stands over.\<close>

definition operand_elem :: "BroadcastKind \<Rightarrow> nat \<Rightarrow> nat \<Rightarrow> nat" where
  "operand_elem bk cs e = (case bk of Full \<Rightarrow> e | Row \<Rightarrow> e mod cs | Col \<Rightarrow> e div cs | Scalar \<Rightarrow> 0)"

lemma sdiv_pos: "0 \<le> a \<Longrightarrow> 0 < b \<Longrightarrow> a sdiv b = a div (b :: int)"
  by (simp add: signed_divide_int_def sgn_if)

lemma smod_pos: "0 \<le> a \<Longrightarrow> 0 < b \<Longrightarrow> a smod b = a mod (b :: int)"
  by (cases "a = 0") (simp_all add: signed_modulo_int_def sgn_if)





section \<open>What a plan holds\<close>

definition describes :: "int \<Rightarrow> int \<Rightarrow> TraceNode \<Rightarrow> BufferSpec \<Rightarrow> bool" where
  "describes rs cs n s \<longleftrightarrow> node_id s = nid n \<and> b_dtype s = n_dtype n \<and> dtype_supported (n_dtype n)
     \<and> broadcast_of (n_rows n) (n_cols n) rs cs = Inr (bcast s) \<and> (bcast s = Full \<longrightarrow> n_rows n * n_cols n = rs * cs)
     \<and> (is_live_at_end n \<longrightarrow> bcast s = Full)"

definition plan_for :: "TraceNode list \<Rightarrow> int \<Rightarrow> int \<Rightarrow> int \<times> ElementwisePlan \<Rightarrow> bool" where
  "plan_for ns rs cs = (\<lambda>(l, p). p_rows p = rs \<and> p_cols p = cs \<and> numel p = rs * cs
     \<and> list_all2 (describes rs cs) (filter (\<lambda>n. op n = Input) ns) (p_inputs p)
     \<and> list_all2 (describes rs cs) (filter is_live_at_end ns) (p_outputs p)
     \<and> l \<in> {4, 8} \<and> (\<forall>s\<in>set (p_inputs p @ p_outputs p). l \<le> vec_width_for (b_dtype s))
     \<and> (any_row_bcast p \<longleftrightarrow> (\<exists>s\<in>set (p_inputs p @ p_outputs p). bcast s = Row))
     \<and> (any_col_bcast p \<longleftrightarrow> (\<exists>s\<in>set (p_inputs p @ p_outputs p). bcast s = Col)))"

lemma vec_width_supported: "dtype_supported d \<Longrightarrow> vec_width_for d \<in> {4, 8} \<and> vec_width_for d * elem_bytes d = 16"
  by (cases d) (simp_all add: dtype_supported_def elem_bytes_def vec_width_for_def Let_def sdiv_pos)

lemma plan_node_for:
  assumes "plan_for ns rs cs lp" "plan_node n lp = Inr (Some lp')"
  shows "plan_for (ns @ [n]) rs cs lp'"
proof -
  obtain l p where lp: "lp = (l, p)" by force
  show ?thesis
  proof (cases "op n \<noteq> Input \<and> \<not> is_live_at_end n")
    case True
    then have "lp' = lp" using assms(2) by (simp add: plan_node_def lp Let_def)
    then show ?thesis using assms(1) True by (simp add: plan_for_def split: prod.splits)
  next
    case False
    then obtain bk where bk: "dtype_supported (n_dtype n)" "broadcast_of (n_rows n) (n_cols n) rs cs = Inr bk"
        "bk = Full \<longrightarrow> n_rows n * n_cols n = rs * cs" "is_live_at_end n \<longrightarrow> bk = Full"
      and lp': "lp' = (min l (vec_width_for (n_dtype n)), p\<lparr>any_row_bcast := any_row_bcast p \<or> bk = Row, any_col_bcast := any_col_bcast p \<or> bk = Col,
             p_inputs := (if op n = Input then p_inputs p @ [\<lparr>node_id = nid n, b_dtype = n_dtype n, bcast = bk\<rparr>] else p_inputs p),
             p_outputs := (if is_live_at_end n then p_outputs p @ [\<lparr>node_id = nid n, b_dtype = n_dtype n, bcast = bk\<rparr>] else p_outputs p)\<rparr>)"
      using assms by (auto simp: plan_node_def lp Let_def plan_for_def bnd_eq_Inr split: if_splits)
    define s where "s = \<lparr>node_id = nid n, b_dtype = n_dtype n, bcast = bk\<rparr>"
    have d: "describes rs cs n s" "bcast s = bk" "b_dtype s = n_dtype n" using bk by (simp_all add: describes_def s_def)
    have w: "vec_width_for (n_dtype n) \<in> {4, 8}" using vec_width_supported [OF bk(1)] by blast
    note pf = assms(1) [unfolded lp plan_for_def prod.case]
    have ins: "list_all2 (describes rs cs) (filter (\<lambda>n. op n = Input) (ns @ [n])) (if op n = Input then p_inputs p @ [s] else p_inputs p)"
      and outs: "list_all2 (describes rs cs) (filter is_live_at_end (ns @ [n])) (if is_live_at_end n then p_outputs p @ [s] else p_outputs p)"
      using pf d(1) by (simp_all add: list_all2_appendI)
    have sub: "set ((if op n = Input then p_inputs p @ [s] else p_inputs p) @ (if is_live_at_end n then p_outputs p @ [s] else p_outputs p))
        = insert s (set (p_inputs p @ p_outputs p))" using False by auto
    have l': "min l (vec_width_for (n_dtype n)) \<in> {4, 8}" using w pf by (auto simp: min_def)
    have bound: "\<forall>x\<in>insert s (set (p_inputs p @ p_outputs p)). min l (vec_width_for (n_dtype n)) \<le> vec_width_for (b_dtype x)"
    proof -
      have "\<forall>x\<in>set (p_inputs p @ p_outputs p). l \<le> vec_width_for (b_dtype x)" using pf by blast
      then show ?thesis by (auto simp: d(3) intro: min.coboundedI1)
    qed
    define p' where "p' = p\<lparr>any_row_bcast := any_row_bcast p \<or> bk = Row, any_col_bcast := any_col_bcast p \<or> bk = Col,
             p_inputs := (if op n = Input then p_inputs p @ [s] else p_inputs p),
             p_outputs := (if is_live_at_end n then p_outputs p @ [s] else p_outputs p)\<rparr>"
    have f: "p_rows p' = rs" "p_cols p' = cs" "numel p' = rs * cs" "p_inputs p' = (if op n = Input then p_inputs p @ [s] else p_inputs p)"
      "p_outputs p' = (if is_live_at_end n then p_outputs p @ [s] else p_outputs p)"
      "any_row_bcast p' \<longleftrightarrow> (\<exists>x\<in>insert s (set (p_inputs p @ p_outputs p)). bcast x = Row)"
      "any_col_bcast p' \<longleftrightarrow> (\<exists>x\<in>insert s (set (p_inputs p @ p_outputs p)). bcast x = Col)"
      using pf d(2) unfolding p'_def by (simp_all) blast+
    have "lp' = (min l (vec_width_for (n_dtype n)), p')" using lp' by (simp add: p'_def s_def)
    then show ?thesis using ins outs l' bound by (simp only: plan_for_def prod.case f sub simp_thms)
  qed
qed

lemma plan_nodes_for:
  "plan_for ns0 rs cs lp \<Longrightarrow> plan_nodes ns lp = Inr (Some lp') \<Longrightarrow> plan_for (ns0 @ ns) rs cs lp'"
proof (induction ns arbitrary: ns0 lp)
  case (Cons n ns)
  then obtain lp1 where "plan_node n lp = Inr (Some lp1)" "plan_nodes ns lp1 = Inr (Some lp')"
    by (auto simp: bnd_eq_Inr split: option.splits)
  then show ?case using Cons plan_node_for [of ns0 rs cs lp n lp1] by (metis append.assoc append_Cons append_Nil)
qed simp

lemma build_plan_for:
  assumes "build_plan g = Inr (Some p)"
  obtains l p0 where "plan_for (nodes g) (p_rows p) (p_cols p) (l, p0)" "p = p0\<lparr>vec := plan_lanes l p0\<rparr>" "0 < p_rows p" "0 < p_cols p" "p_outputs p \<noteq> []"
proof -
  obtain rs cs where sh: "dominant_shape g = (rs, cs)" by force
  let ?p = "empty_plan\<lparr>p_rows := rs, p_cols := cs, numel := rs * cs\<rparr>"
  obtain l p0 where r: "plan_nodes (nodes g) (8, ?p) = Inr (Some (l, p0))" "0 < rs" "0 < cs" "p_outputs p0 \<noteq> []" "p = p0\<lparr>vec := plan_lanes l p0\<rparr>"
    using assms by (auto simp: build_plan_def sh bnd_eq_Inr split: if_splits option.splits)
  have "plan_for [] rs cs (8, ?p)" by (simp add: plan_for_def empty_plan_def)
  then have "plan_for (nodes g) rs cs (l, p0)" using plan_nodes_for [OF _ r(1)] by fastforce
  then show ?thesis using that [of l p0] r by (simp add: plan_for_def)
qed

lemma plan_lanes_ok:
  assumes "l \<in> {4, 8}" "0 < p_cols p" "0 < numel p"
  shows "plan_lanes l p \<in> {1, 4, 8}" "plan_lanes l p \<le> l" "plan_lanes l p dvd numel p"
    "any_row_bcast p \<or> any_col_bcast p \<Longrightarrow> plan_lanes l p dvd p_cols p"
proof -
  have l: "0 < l" using assms(1) by auto
  have s: "x smod l \<noteq> 0 \<longleftrightarrow> \<not> l dvd x" "x smod 1 = 0" if "0 < x" for x using that l by (simp_all add: smod_pos dvd_eq_mod_eq_0)
  have e: "plan_lanes l p = (if l dvd numel p \<and> ((any_row_bcast p \<or> any_col_bcast p) \<longrightarrow> l dvd p_cols p) then l else 1)"
    using s [OF assms(2)] s [OF assms(3)] by (auto simp: plan_lanes_def Let_def)
  show "plan_lanes l p \<in> {1, 4, 8}" "plan_lanes l p \<le> l" "plan_lanes l p dvd numel p" using assms(1) by (auto simp: e)
  show "any_row_bcast p \<or> any_col_bcast p \<Longrightarrow> plan_lanes l p dvd p_cols p" by (simp add: e)
qed


section \<open>Addresses stay in their buffers\<close>

lemma udiv_urem_value:
  assumes "1 \<le> d" "d < 2 ^ 31"
  shows "unat (fst (udiv_urem_const x d)) = unat x div nat d \<and> unat (snd (udiv_urem_const x d)) = unat x mod nat d"
proof (cases "d = 1")
  case False
  then have d: "\<not> d \<le> 1" using assms(1) by simp
  note q = udiv_const_value [OF assms, of x]
  show ?thesis using d q pow2_remainder [OF _ assms(2), of x] mul_remainder [OF q assms]
    by (simp add: udiv_urem_const_def Let_def)
qed (simp add: udiv_urem_const_def Let_def udiv_const_def)

lemma row_col_value:
  assumes "1 \<le> p_cols p" "p_cols p < 2 ^ 31"
  shows "any_col_bcast p \<Longrightarrow> \<exists>r. fst (row_col p x) = Some r \<and> unat r = unat x div nat (p_cols p)"
    and "any_row_bcast p \<Longrightarrow> \<exists>c. snd (row_col p x) = Some c \<and> unat c = unat x mod nat (p_cols p)"
  using udiv_urem_value [OF assms, of x] udiv_const_value [OF assms, of x] pow2_remainder [OF _ assms(2), of x]
  by (auto simp: row_col_def split: prod.split)

lemma log2_small: "log2_exact 4 = 2" "log2_exact 8 = 3"
  by (simp_all add: log2_exact_def log2_up.simps)

lemma elem_base_value:
  assumes "lanes \<in> {1, 4, 8}" "i * nat lanes < 2 ^ 32"
  shows "unat (elem_base lanes (of_nat i)) = i * nat lanes"
proof -
  have "i < 2 ^ 32" using assms by auto
  then have u: "unat (of_nat i :: 32 word) = i" by (simp add: unat_of_nat take_bit_nat_eq_self_iff)
  have "unat (push_bit k (of_nat i) :: 32 word) = i * 2 ^ k" if "i * 2 ^ k < 2 ^ 32" for k
    using that by (simp only: unat_push_bit u) simp
  from this [of 2] this [of 3] show ?thesis using assms u by (auto simp: elem_base_def log2_small)
qed

lemma unat_add_of_nat: "unat (w :: 32 word) + j < 2 ^ 32 \<Longrightarrow> unat (w + of_nat j) = unat w + j"
  by (subst unat_word_ariths(1)) (simp add: unat_of_nat take_bit_nat_eq_self_iff)

text \<open>A vector of \<open>m\<close> lanes at a multiple of \<open>m\<close> lies in one row when \<open>m\<close> divides the number of columns.\<close>

lemma lanes_one_row:
  assumes "m dvd c" "j < m" "(0::nat) < c"
  shows "(i * m + j) mod c = i * m mod c + j" "(i * m + j) div c = i * m div c"
proof -
  obtain k where c: "c = m * k" using assms(1) by (rule dvdE)
  have lt: "i * m mod c + j < c"
  proof -
    have "i * m mod c = m * (i mod k)" by (simp add: c mult.commute)
    moreover have "i mod k + 1 \<le> k" using assms(3) c by (simp add: Suc_leI)
    then have "m * (i mod k + 1) \<le> m * k" by (rule mult_le_mono2)
    ultimately show ?thesis using assms(2) c by (simp add: algebra_simps)
  qed
  then show "(i * m + j) mod c = i * m mod c + j" by (metis mod_add_left_eq mod_less)
  have "i * m + j = i * m div c * c + (i * m mod c + j)" by simp
  then show "(i * m + j) div c = i * m div c" using lt by (metis add.right_neutral div_less div_mult_self3 less_nat_zero_code mult.commute)
qed

lemma broadcast_dims:
  "broadcast_of nr nc rs cs = Inr Row \<Longrightarrow> nr * nc = cs" "broadcast_of nr nc rs cs = Inr Col \<Longrightarrow> nr * nc = rs" "broadcast_of nr nc rs cs = Inr Scalar \<Longrightarrow> nr * nc = 1"
  by (auto simp: broadcast_of_def split: if_splits)

lemma operand_in_bounds:
  assumes "describes rs cs n s" "int e < rs * cs" "0 < rs" "0 < cs"
  shows "int (operand_elem (bcast s) (nat cs) e) < n_rows n * n_cols n"
proof -
  have "e div nat cs < nat rs" using assms(2-4) by (simp add: div_less_iff_less_mult nat_less_iff flip: nat_mult_distrib)
  moreover have "int (e mod nat cs) < cs" using assms(4) by (simp add: zmod_int)
  ultimately show ?thesis using assms broadcast_dims [of "n_rows n" "n_cols n" rs cs]
    by (cases "bcast s") (auto simp: describes_def operand_elem_def)
qed


lemma list_all2_set2D: "list_all2 P xs ys \<Longrightarrow> y \<in> set ys \<Longrightarrow> \<exists>x\<in>set xs. P x y"
  by (metis in_set_conv_nth list_all2_conv_all_nth)

lemma plan_specs:
  assumes "plan_for ns rs cs (l, p)" "s \<in> set (p_inputs p @ p_outputs p)"
  shows "\<exists>n\<in>set ns. describes rs cs n s"
proof -
  have "list_all2 (describes rs cs) (filter (\<lambda>n. op n = Input) ns) (p_inputs p)" "list_all2 (describes rs cs) (filter is_live_at_end ns) (p_outputs p)"
    using assms(1) by (simp_all add: plan_for_def)
  then show ?thesis using assms(2) list_all2_set2D by fastforce
qed

lemma describes_ids: "list_all2 (describes rs cs) xs ys \<Longrightarrow> map node_id ys = map nid xs"
  by (induction rule: list_all2_induct) (simp_all add: describes_def)

lemma lane_reads_value:
  assumes base: "unat (elem_base lanes (of_nat i)) = i * m" and m: "m = nat lanes" "0 < m" and lim: "\<And>j. j < m \<Longrightarrow> i * m + j < 2 ^ 32"
    and c: "1 \<le> p_cols p" "p_cols p < 2 ^ 31" and dv: "any_row_bcast p \<or> any_col_bcast p \<Longrightarrow> m dvd nat (p_cols p)"
    and k: "bcast s = Row \<Longrightarrow> any_row_bcast p" "bcast s = Col \<Longrightarrow> any_col_bcast p"
  shows "\<exists>es. lane_reads p lanes (of_nat i) s = Some es \<and> length es = m \<and> (\<forall>j < m. unat (es ! j) = operand_elem (bcast s) (nat (p_cols p)) (i * m + j))"
proof -
  let ?b = "elem_base lanes (of_nat i)" and ?c = "nat (p_cols p)"
  obtain row col where rc: "row_col p ?b = (row, col)" by force
  have c0: "0 < ?c" using c by simp
  show ?thesis
  proof (cases "bcast s")
    case Full
    then show ?thesis using base lim m(1) by (auto simp: lane_reads_def Let_def rc operand_elem_def unat_add_of_nat)
  next
    case Row
    obtain w where w: "col = Some w" "unat w = i * m mod ?c" using row_col_value(2) [OF c k(1) [OF Row], of ?b] base by (auto simp: rc)
    have "unat (w + of_nat j) = (i * m + j) mod ?c" if "j < m" for j
    proof -
      have "(i * m + j) mod ?c = i * m mod ?c + j" using lanes_one_row(1) [OF dv that c0] k(1) [OF Row] by blast
      moreover have "(i * m + j) mod ?c < 2 ^ 32" using lim [OF that] by (meson mod_less_eq_dividend order_le_less_trans)
      ultimately show ?thesis using w(2) unat_add_of_nat [of w j] by simp
    qed
    then show ?thesis using Row w m(1) by (auto simp: lane_reads_def Let_def rc operand_elem_def)
  next
    case Scalar
    then show ?thesis using m(1) by (auto simp: lane_reads_def Let_def rc operand_elem_def)
  next
    case Col
    obtain w where w: "row = Some w" "unat w = i * m div ?c" using row_col_value(1) [OF c k(2) [OF Col], of ?b] base by (auto simp: rc)
    have "(i * m + j) div ?c = i * m div ?c" if "j < m" for j using lanes_one_row(2) [OF dv that c0] k(2) [OF Col] by blast
    then show ?thesis using Col w m(1) by (auto simp: lane_reads_def Let_def rc operand_elem_def)
  qed
qed

text \<open>
  C23: the elementwise kernel reads and writes inside its buffers and at the right place. In a plan that was built, with fewer
  than \<open>2 ^ 32\<close> elements, run with the plan's vector width or with one lane per item: every operand belongs to a node of the
  trace, and lane \<open>j\<close> of item \<open>i\<close> accesses the element that the broadcast rule assigns to element \<open>i * lanes + j\<close> of the result
  (itself, its column, its row, or the single one), which lies inside the node's buffer; a vector access is at most 16 bytes
  wide; the inputs and outputs of the plan are the trace's inputs and live nodes, in order.
\<close>

theorem plan_addresses:
  assumes b: "build_plan g = Inr (Some p)" and small: "numel p < 2 ^ 32" "p_cols p < 2 ^ 31"
    and lanes: "lanes \<in> {1, vec p}" and i: "int i * lanes < numel p"
  shows "(\<forall>s\<in>set (p_inputs p @ p_outputs p). \<exists>n\<in>set (nodes g). \<exists>es. nid n = node_id s \<and> b_dtype s = n_dtype n
      \<and> lane_reads p lanes (of_nat i) s = Some es \<and> length es = nat lanes \<and> lanes * elem_bytes (b_dtype s) \<le> 16
      \<and> (\<forall>j < nat lanes. unat (es ! j) = operand_elem (bcast s) (nat (p_cols p)) (i * nat lanes + j) \<and> int (unat (es ! j)) < n_rows n * n_cols n))
    \<and> map node_id (p_inputs p) = map nid (filter (\<lambda>n. op n = Input) (nodes g))
    \<and> map node_id (p_outputs p) = map nid (filter is_live_at_end (nodes g))"
proof -
  obtain l p0 where pf: "plan_for (nodes g) (p_rows p) (p_cols p) (l, p0)" and p: "p = p0\<lparr>vec := plan_lanes l p0\<rparr>" and pos: "0 < p_rows p" "0 < p_cols p"
    using b by (rule build_plan_for)
  note pf' = pf [unfolded plan_for_def prod.case]
  have eq: "p_inputs p0 = p_inputs p" "p_outputs p0 = p_outputs p" "p_rows p0 = p_rows p" "p_cols p0 = p_cols p" "numel p0 = numel p"
    "any_row_bcast p0 = any_row_bcast p" "any_col_bcast p0 = any_col_bcast p" "vec p = plan_lanes l p0" by (simp_all add: p)
  have nm: "numel p = p_rows p * p_cols p" using pf' by (simp add: eq)
  have l: "l \<in> {4, 8}" using pf' by blast
  have np: "0 < numel p0" using nm pos by (simp add: eq)
  note pl = plan_lanes_ok [OF l _ np]
  have lv: "lanes \<in> {1, 4, 8}" "lanes \<le> l" "lanes dvd numel p" using lanes pl(1-3) pos l by (auto simp: eq)
  have lc: "any_row_bcast p \<or> any_col_bcast p \<Longrightarrow> lanes dvd p_cols p" using lanes pl(4) pos by (auto simp: eq)
  let ?m = "nat lanes" and ?c = "nat (p_cols p)"
  have m: "int ?m = lanes" "0 < ?m" "int ?c = p_cols p" "0 < ?c" using lv(1) pos by auto
  have e: "int (i * ?m + j) < numel p" if "j < ?m" for j
  proof -
    obtain k where k: "numel p = lanes * k" using lv(3) by (rule dvdE)
    then have "int i < k" using i m by (simp add: mult.commute)
    then have "(int i + 1) * lanes \<le> k * lanes" using m by (intro mult_right_mono) simp_all
    then have "int i * lanes + lanes \<le> numel p" by (simp add: k algebra_simps)
    then show ?thesis using that m(1) by (simp only: of_nat_add of_nat_mult)
  qed
  have lim: "i * ?m + j < 2 ^ 32" if "j < ?m" for j
  proof -
    have "int (i * ?m + j) < int (2 ^ 32)" using e [OF that] small(1) by simp
    then show ?thesis by (simp only: of_nat_less_iff)
  qed
  have "i * ?m < 2 ^ 32" using lim [OF m(2)] by simp
  then have base: "unat (elem_base lanes (of_nat i)) = i * ?m" by (rule elem_base_value [OF lv(1)])
  have "\<exists>n\<in>set (nodes g). \<exists>es. nid n = node_id s \<and> b_dtype s = n_dtype n
      \<and> lane_reads p lanes (of_nat i) s = Some es \<and> length es = nat lanes \<and> lanes * elem_bytes (b_dtype s) \<le> 16
      \<and> (\<forall>j < nat lanes. unat (es ! j) = operand_elem (bcast s) (nat (p_cols p)) (i * nat lanes + j) \<and> int (unat (es ! j)) < n_rows n * n_cols n)"
    if s: "s \<in> set (p_inputs p @ p_outputs p)" for s
  proof -
    obtain n where n: "n \<in> set (nodes g)" "describes (p_rows p) (p_cols p) n s" using plan_specs [OF pf, of s] s by (auto simp: eq)
    then have d: "nid n = node_id s" "b_dtype s = n_dtype n" by (simp_all add: describes_def)
    have "\<exists>es. lane_reads p lanes (of_nat i) s = Some es \<and> length es = ?m \<and> (\<forall>j < ?m. unat (es ! j) = operand_elem (bcast s) ?c (i * ?m + j))"
    proof (rule lane_reads_value [OF base refl m(2)])
      show "i * ?m + j < 2 ^ 32" if "j < ?m" for j by (rule lim [OF that])
      show "?m dvd ?c" if "any_row_bcast p \<or> any_col_bcast p" using lc [OF that] m by (metis int_dvd_int_iff)
      show "bcast s = Row \<Longrightarrow> any_row_bcast p" "bcast s = Col \<Longrightarrow> any_col_bcast p" using pf' s by (simp_all add: eq) blast+
    qed (use pos small in simp_all)
    then obtain es where es: "lane_reads p lanes (of_nat i) s = Some es" "length es = ?m" "\<forall>j < ?m. unat (es ! j) = operand_elem (bcast s) ?c (i * ?m + j)" by blast
    have inb: "int (operand_elem (bcast s) ?c (i * ?m + j)) < n_rows n * n_cols n" if "j < ?m" for j
      using operand_in_bounds [OF n(2) _ pos, of "i * ?m + j"] e [OF that] by (simp add: nm)
    then have both: "\<forall>j < ?m. unat (es ! j) = operand_elem (bcast s) ?c (i * ?m + j) \<and> int (unat (es ! j)) < n_rows n * n_cols n"
      using es(3) by metis
    moreover have "lanes * elem_bytes (b_dtype s) \<le> 16"
    proof -
      have "dtype_supported (b_dtype s)" using n(2) by (simp add: describes_def)
      then have v: "vec_width_for (b_dtype s) * elem_bytes (b_dtype s) = 16" "vec_width_for (b_dtype s) \<in> {4, 8}" using vec_width_supported by blast+
      have "l \<le> vec_width_for (b_dtype s)" using pf' s by (simp add: eq)
      then have "lanes \<le> vec_width_for (b_dtype s)" using lv(2) by simp
      moreover have "0 \<le> elem_bytes (b_dtype s)" using v by auto
      ultimately show ?thesis using v(1) mult_right_mono by metis
    qed
    ultimately show ?thesis using es(1,2) both d by (intro bexI [OF _ n(1)] exI [of _ es]) (simp only: simp_thms)
  qed
  moreover have "map node_id (p_inputs p) = map nid (filter (\<lambda>n. op n = Input) (nodes g))"
    "map node_id (p_outputs p) = map nid (filter is_live_at_end (nodes g))"
    using pf' [unfolded eq] by (blast intro: describes_ids)+
  ultimately show ?thesis by blast
qed



text \<open>The demo: a (2, 4) matrix plus a (1, 4) row.\<close>

definition demo_sum_dag :: TraceDAG where
  "demo_sum_dag = \<lparr>nodes = [default_node\<lparr>nid := 0, buffer := Ptr 1 0, n_rows := 2, n_cols := 4\<rparr>,
     default_node\<lparr>nid := 1, buffer := Ptr 2 0, n_rows := 1, n_cols := 4\<rparr>,
     default_node\<lparr>nid := 2, op := Add, inputs := [0, 1], buffer := Ptr 3 0, n_rows := 2, n_cols := 4, is_live_at_end := True\<rparr>],
     input_ptr_to_slot = Map.empty\<rparr>"

definition demo_plan :: ElementwisePlan where
  "demo_plan = \<lparr>p_inputs = [\<lparr>node_id = 0, b_dtype = FP32, bcast = Full\<rparr>, \<lparr>node_id = 1, b_dtype = FP32, bcast = Row\<rparr>],
     p_outputs = [\<lparr>node_id = 2, b_dtype = FP32, bcast = Full\<rparr>], p_rows = 2, p_cols = 4, numel = 8, vec = 4,
     any_row_bcast = True, any_col_bcast = False\<rparr>"

lemma demo_build: "build_plan demo_sum_dag = Inr (Some demo_plan)"
  by (simp add: build_plan_def dominant_shape_def demo_sum_dag_def demo_plan_def default_node_def plan_node_def Let_def dtype_supported_def
      elem_bytes_def broadcast_of_def vec_width_for_def sdiv_pos empty_plan_def plan_lanes_def smod_pos is_int32_def int32_max_def)

theorem plan_addresses_witness:
  "build_plan demo_sum_dag = Inr (Some demo_plan) \<and>
   (\<exists>es. lane_reads demo_plan 4 1 \<lparr>node_id = 1, b_dtype = FP32, bcast = Row\<rparr> = Some es \<and> length es = 4 \<and> unat (es ! 3) = 3)"
  using plan_addresses [OF demo_build, of 4 1] demo_build by (auto simp: demo_plan_def operand_elem_def)

end
