(* ===== verification/TraceEmit.thy ===== *)
theory TraceEmit
  imports TraceDag Floats Complex_Main
begin

unbundle bit_operations_syntax

text \<open>
  The node emitters of \<^verbatim>\<open>src/jit/trace_autodiff.cpp\<close>: the small expressions that the lowering pass and the reverse-mode pass
  append to a trace graph. The second half gives a graph its meaning over the reals, one lane at a time, and a calculus for what
  an emitter computes: \<open>emits \<rho> K m Q\<close> says that in every graph where the facts \<open>K\<close> about slot values hold, \<open>m\<close> returns,
  only appends nodes, and establishes \<open>Q\<close>.
\<close>

section \<open>Float literals\<close>

text \<open>
  The pattern nearest to a positive ratio, ties to even: a decimal literal, or a quotient or product of two floats, once the
  exact value is known. Magnitudes are counted in units of \<open>2 ^ -149\<close>.
\<close>

fun bit_len :: "nat \<Rightarrow> nat" where
  "bit_len n = (if n = 0 then 0 else Suc (bit_len (n div 2)))"

declare bit_len.simps [simp del]

definition div_even :: "nat \<Rightarrow> nat \<Rightarrow> nat" where
  "div_even a b = (let q = a div b; r = a mod b in if 2 * r < b \<or> 2 * r = b \<and> even q then q else q + 1)"

definition f32_ratio :: "nat \<Rightarrow> nat \<Rightarrow> 32 word" where
  "f32_ratio n d = (let e = bit_len (n * 2 ^ 149 div d) - 24; bits = div_even (n * 2 ^ 149) (d * 2 ^ e) + e * 2 ^ 23 in
     if 0x7F800000 \<le> bits then 0x7F800000 else of_nat bits)"

definition f32_neg :: "32 word \<Rightarrow> 32 word" where
  "f32_neg x = x XOR 0x80000000"

text \<open>\<^verbatim>\<open>1.0f / s\<close>.\<close>

definition f32_recip :: "32 word \<Rightarrow> 32 word" where
  "f32_recip s = (let sign = s AND 0x80000000; mag = s AND 0x7FFFFFFF in
     if is_nan32 s then s OR 0x400000
     else if mag = 0x7F800000 then sign
     else if mag = 0 then sign OR 0x7F800000
     else sign OR f32_ratio (2 ^ 149) (fp32_abs mag))"

text \<open>\<^verbatim>\<open>x == 0.0f\<close>, \<^verbatim>\<open>x > 0.0f\<close> and \<^verbatim>\<open>x < 0.0f\<close>.\<close>

definition f32_is_zero :: "32 word \<Rightarrow> bool" where
  "f32_is_zero x \<longleftrightarrow> x AND 0x7FFFFFFF = 0"

definition f32_pos :: "32 word \<Rightarrow> bool" where
  "f32_pos x \<longleftrightarrow> \<not> is_nan32 x \<and> x AND 0x80000000 = 0 \<and> \<not> f32_is_zero x"

definition f32_negative :: "32 word \<Rightarrow> bool" where
  "f32_negative x \<longleftrightarrow> \<not> is_nan32 x \<and> x AND 0x80000000 \<noteq> 0 \<and> \<not> f32_is_zero x"

definition kSafeEps :: "32 word" where "kSafeEps = f32_ratio 1 (10 ^ 12)"

definition kGeluK0 :: "32 word" where "kGeluK0 = f32_ratio 7978845608 (10 ^ 10)"

definition kGeluK1 :: "32 word" where "kGeluK1 = f32_ratio 44715 (10 ^ 6)"

text \<open>\<^verbatim>\<open>3.0f * kGeluK1\<close>, and the other literals of the file.\<close>

definition kGelu3K1 :: "32 word" where "kGelu3K1 = f32_ratio (3 * fp32_abs kGeluK1) (2 ^ 149)"

definition f32_one :: "32 word" where "f32_one = f32_ratio 1 1"

definition f32_half :: "32 word" where "f32_half = f32_ratio 1 2"

text \<open>\<^verbatim>\<open>if (std::fabs(s) < kSafeEps) s = (s < 0.0f) ? -kSafeEps : kSafeEps;\<close> A NaN compares false.\<close>

definition safe_scalar :: "32 word \<Rightarrow> 32 word" where
  "safe_scalar s = (if s AND 0x7FFFFFFF < kSafeEps then if f32_negative s then f32_neg kSafeEps else kSafeEps else s)"

lemma f32_literals:
  "kSafeEps = 0x2B8CBCCC" "kGeluK0 = 0x3F4C422A" "kGeluK1 = 0x3D372713" "kGelu3K1 = 0x3E095D4E" "f32_one = 0x3F800000" "f32_half = 0x3F000000"
  by (simp_all add: kSafeEps_def kGeluK0_def kGeluK1_def kGelu3K1_def f32_one_def f32_half_def f32_ratio_def bit_len.simps div_even_def fp32_abs_def)

section \<open>Emitters\<close>

text \<open>An emitter appends nodes to a graph and returns a slot; \<^verbatim>\<open>.at()\<close> on a missing key or slot throws.\<close>

type_synonym 'a emit = "TraceDAG \<Rightarrow> ('a \<times> TraceDAG) res"

definition eret :: "'a \<Rightarrow> 'a emit" where
  "eret x g = Inr (x, g)"

definition ebnd :: "'a emit \<Rightarrow> ('a \<Rightarrow> 'b emit) \<Rightarrow> 'b emit" where
  "ebnd m f g = bnd (m g) (\<lambda>(x, g'). f x g')"

definition elift :: "'a res \<Rightarrow> 'a emit" where
  "elift r g = bnd r (\<lambda>x. Inr (x, g))"

record ShapeMeta =
  sm_dev :: Device
  sm_dt :: Dtype
  sm_rows :: int
  sm_cols :: int

definition default_meta :: ShapeMeta where
  "default_meta = \<lparr>sm_dev = cpu, sm_dt = FP32, sm_rows = 1, sm_cols = 1\<rparr>"

text \<open>The device and dtype of the first FP32 node, or of the last node when there is none.\<close>

fun meta_from :: "ShapeMeta \<Rightarrow> TraceNode list \<Rightarrow> ShapeMeta" where
  "meta_from m [] = m"
| "meta_from m (n # ns) = (let m' = m\<lparr>sm_dev := n_device n, sm_dt := n_dtype n\<rparr> in if n_dtype n = FP32 then m' else meta_from m' ns)"

definition dominant_meta :: "TraceDAG \<Rightarrow> ShapeMeta" where
  "dominant_meta g = (case dominant_shape g of (r, c) \<Rightarrow>
     meta_from (default_meta\<lparr>sm_rows := (if 0 < r then r else 1), sm_cols := (if 0 < c then c else 1)\<rparr>) (nodes g))"

text \<open>\<^verbatim>\<open>add_node\<close> with no buffer and the shape \<open>m\<close>, as every emitter calls it.\<close>

definition put :: "ShapeMeta \<Rightarrow> TraceOpKind \<Rightarrow> int list \<Rightarrow> 32 word \<Rightarrow> 32 word \<Rightarrow> int emit" where
  "put m k ins s s2 g = Inr (add_node k ins s Null (sm_dev m) (sm_dt m) (sm_rows m) (sm_cols m) s2 g)"

definition emit_const :: "int \<Rightarrow> 32 word \<Rightarrow> ShapeMeta \<Rightarrow> int emit" where
  "emit_const anchor val m = ebnd (put m MulScalar [anchor] 0 0) (\<lambda>zero.
     if f32_is_zero val then eret zero else put m AddScalar [zero] val 0)"

definition emit_neg :: "int \<Rightarrow> ShapeMeta \<Rightarrow> int emit" where
  "emit_neg x m = put m ScalarSub [x] 0 0"

definition emit_abs :: "int \<Rightarrow> ShapeMeta \<Rightarrow> int emit" where
  "emit_abs x m = ebnd (put m ReLU [x] 0 0) (\<lambda>pos.
     ebnd (emit_neg x m) (\<lambda>nx. ebnd (put m ReLU [nx] 0 0) (\<lambda>neg_part. put m Add [pos, neg_part] 0 0)))"

definition emit_pos_denom :: "int \<Rightarrow> 32 word \<Rightarrow> ShapeMeta \<Rightarrow> int emit" where
  "emit_pos_denom nonneg_x eps m = ebnd (put m ReLU [nonneg_x] 0 0) (\<lambda>rx. put m AddScalar [rx] eps 0)"

text \<open>\<^verbatim>\<open>dag.node(id)\<close> is \<^verbatim>\<open>nodes_.at(id)\<close>.\<close>

definition node_at :: "int \<Rightarrow> TraceDAG \<Rightarrow> TraceNode res" where
  "node_at i g = (if valid_slot (nodes g) i then Inr (nodes g ! nat i) else Inl (Throw ''vector::at''))"

text \<open>The denominator is \<^verbatim>\<open>ReLU(y) + eps\<close> with a positive literal already.\<close>

definition guarded_denom :: "int \<Rightarrow> TraceDAG \<Rightarrow> bool res" where
  "guarded_denom den g = bnd (node_at den g) (\<lambda>dn.
     if op dn = AddScalar \<and> f32_pos (scalar dn) \<and> inputs dn \<noteq> []
     then bnd (node_at (hd (inputs dn)) g) (\<lambda>n. Inr (op n = ReLU)) else Inr False)"

definition emit_signed_div :: "int \<Rightarrow> int \<Rightarrow> int \<Rightarrow> ShapeMeta \<Rightarrow> int emit" where
  "emit_signed_div anchor num den m =
     ebnd (put m ReLU [den] 0 0) (\<lambda>pos_d.
     ebnd (emit_neg den m) (\<lambda>nd. ebnd (put m ReLU [nd] 0 0) (\<lambda>neg_d.
     ebnd (put m Add [pos_d, neg_d] 0 0) (\<lambda>abs_d.
     ebnd (emit_pos_denom abs_d kSafeEps m) (\<lambda>safe_den.
     ebnd (emit_const anchor 0 m) (\<lambda>c_zero.
     ebnd (emit_const anchor f32_one m) (\<lambda>c_pos1.
     ebnd (emit_const anchor (f32_neg f32_one) m) (\<lambda>c_neg1.
     ebnd (put m Where [neg_d, c_neg1, c_zero] 0 0) (\<lambda>neg_branch.
     ebnd (put m Where [pos_d, c_pos1, neg_branch] 0 0) (\<lambda>sign_d.
     ebnd (put m Mul [num, sign_d] 0 0) (\<lambda>signed_num.
     put m Div [signed_num, safe_den] 0 0)))))))))))"

definition emit_safe_div_signed :: "int \<Rightarrow> int \<Rightarrow> int \<Rightarrow> ShapeMeta \<Rightarrow> int emit" where
  "emit_safe_div_signed anchor num den m g = bnd (guarded_denom den g) (\<lambda>b.
     if b then put m Div [num, den] 0 0 g else emit_signed_div anchor num den m g)"

text \<open>\<^verbatim>\<open>for (int i = 0; i < n; ++i) e = f(e);\<close>\<close>

fun erepeat :: "nat \<Rightarrow> ('a \<Rightarrow> 'a emit) \<Rightarrow> 'a \<Rightarrow> 'a emit" where
  "erepeat 0 f e = eret e"
| "erepeat (Suc n) f e = ebnd (f e) (erepeat n f)"

definition emit_lowered_exp :: "int \<Rightarrow> ShapeMeta \<Rightarrow> int emit" where
  "emit_lowered_exp x m =
     ebnd (put m Clamp [x] (f32_neg (f32_ratio 88 1)) (f32_ratio 88 1)) (\<lambda>xc.
     ebnd (put m MulScalar [xc] (f32_ratio 1 32) 0) (\<lambda>u.
     ebnd (put m Tanh [u] 0 0) (\<lambda>t.
     ebnd (put m AddScalar [t] f32_one 0) (\<lambda>num.
     ebnd (put m ScalarSub [t] f32_one 0) (\<lambda>omt. ebnd (emit_pos_denom omt kSafeEps m) (\<lambda>den.
     ebnd (put m Div [num, den] 0 0) (\<lambda>e.
     erepeat 4 (\<lambda>e. put m Mul [e, e] 0 0) e)))))))"

text \<open>One Newton step of \<^verbatim>\<open>emit_lowered_sqrt\<close>: \<^verbatim>\<open>y = (y + xs / (ReLU(y) + eps)) * 0.5\<close>.\<close>

definition emit_newton :: "int \<Rightarrow> ShapeMeta \<Rightarrow> int \<Rightarrow> int emit" where
  "emit_newton xs m y = ebnd (emit_pos_denom y kSafeEps m) (\<lambda>d. ebnd (put m Div [xs, d] 0 0) (\<lambda>q.
     ebnd (put m Add [y, q] 0 0) (\<lambda>a. put m MulScalar [a] f32_half 0)))"

definition emit_lowered_sqrt :: "int \<Rightarrow> int \<Rightarrow> ShapeMeta \<Rightarrow> int emit" where
  "emit_lowered_sqrt anchor x m =
     ebnd (put m ReLU [x] 0 0) (\<lambda>rx.
     ebnd (emit_pos_denom rx kSafeEps m) (\<lambda>xs.
     ebnd (put m SubScalar [xs] (f32_ratio 16 1) 0) (\<lambda>a. ebnd (put m ReLU [a] 0 0) (\<lambda>gt16.
     ebnd (put m MulScalar [xs] (f32_ratio 1 8) 0) (\<lambda>b. ebnd (put m AddScalar [b] (f32_ratio 2 1) 0) (\<lambda>guess_hi.
     ebnd (put m MulScalar [xs] f32_half 0) (\<lambda>c. ebnd (put m AddScalar [c] f32_half 0) (\<lambda>guess_lo.
     ebnd (put m Where [gt16, guess_hi, guess_lo] 0 0) (\<lambda>y0.
     ebnd (erepeat 7 (emit_newton xs m) y0) (\<lambda>y.
     ebnd (emit_const anchor 0 m) (\<lambda>z. put m Where [rx, y, z] 0 0)))))))))))"

definition emit_lowered_rsqrt :: "int \<Rightarrow> int \<Rightarrow> ShapeMeta \<Rightarrow> int emit" where
  "emit_lowered_rsqrt anchor x m =
     ebnd (put m ReLU [x] 0 0) (\<lambda>rx.
     ebnd (emit_pos_denom rx kSafeEps m) (\<lambda>d. ebnd (emit_lowered_sqrt anchor d m) (\<lambda>s.
     ebnd (emit_const anchor f32_one m) (\<lambda>one. ebnd (emit_pos_denom s kSafeEps m) (\<lambda>sd.
     put m Div [one, sd] 0 0)))))"

text \<open>One Horner step of \<^verbatim>\<open>emit_lowered_log\<close>: \<^verbatim>\<open>p = p * u2 + c\<close>.\<close>

definition emit_horner :: "int \<Rightarrow> 32 word \<Rightarrow> ShapeMeta \<Rightarrow> int \<Rightarrow> int emit" where
  "emit_horner u2 c m p = ebnd (put m Mul [p, u2] 0 0) (\<lambda>a. put m AddScalar [a] c 0)"

definition emit_lowered_log :: "int \<Rightarrow> int \<Rightarrow> ShapeMeta \<Rightarrow> int emit" where
  "emit_lowered_log anchor x m =
     ebnd (put m ReLU [x] 0 0) (\<lambda>rx.
     ebnd (emit_pos_denom rx kSafeEps m) (\<lambda>d. ebnd (emit_lowered_sqrt anchor d m) (\<lambda>r1.
     ebnd (emit_lowered_sqrt anchor r1 m) (\<lambda>r2.
     ebnd (emit_lowered_sqrt anchor r2 m) (\<lambda>r3.
     ebnd (put m SubScalar [r3] f32_one 0) (\<lambda>a. ebnd (emit_pos_denom r3 f32_one m) (\<lambda>b. ebnd (put m Div [a, b] 0 0) (\<lambda>u.
     ebnd (put m Mul [u, u] 0 0) (\<lambda>u2.
     ebnd (put m MulScalar [u2] (f32_ratio 1 9) 0) (\<lambda>c. ebnd (put m AddScalar [c] (f32_ratio 1 7) 0) (\<lambda>p1.
     ebnd (emit_horner u2 (f32_ratio 1 5) m p1) (\<lambda>p2.
     ebnd (emit_horner u2 (f32_ratio 1 3) m p2) (\<lambda>p3.
     ebnd (emit_horner u2 f32_one m p3) (\<lambda>p4.
     ebnd (put m Mul [u, p4] 0 0) (\<lambda>e. put m MulScalar [e] (f32_ratio 16 1) 0)))))))))))))))"

section \<open>The meaning of a graph, one lane at a time\<close>

text \<open>The real number a finite pattern stands for.\<close>

definition f32 :: "32 word \<Rightarrow> real" where
  "f32 x = (if x AND 0x80000000 = 0 then 1 else - 1) * (real (fp32_abs (x AND 0x7FFFFFFF)) / 2 ^ 149)"

definition sigmoid :: "real \<Rightarrow> real" where
  "sigmoid x = 1 / (1 + exp (- x))"

text \<open>
  What an elementwise operator computes in exact arithmetic, from its two literals and its operands. The row reductions have no
  elementwise meaning and no \<open>Input\<close> is evaluated here.
\<close>

definition op_val :: "TraceOpKind \<Rightarrow> real \<Rightarrow> real \<Rightarrow> real list \<Rightarrow> real" where
  "op_val k s t vs = (let a = vs ! 0; b = vs ! 1; c = vs ! 2 in case k of
      Add \<Rightarrow> a + b
    | Sub \<Rightarrow> a - b
    | Mul \<Rightarrow> a * b
    | Div \<Rightarrow> a / b
    | AddScalar \<Rightarrow> a + s
    | SubScalar \<Rightarrow> a - s
    | MulScalar \<Rightarrow> a * s
    | DivScalar \<Rightarrow> a / s
    | ScalarSub \<Rightarrow> s - a
    | ScalarDiv \<Rightarrow> s / a
    | FMA \<Rightarrow> a * b + c
    | SiLU \<Rightarrow> a * sigmoid a
    | GELU \<Rightarrow> a / 2 * (1 + tanh (f32 kGeluK0 * (a + f32 kGeluK1 * a ^ 3)))
    | ReLU \<Rightarrow> max a 0
    | Modulate \<Rightarrow> a * (1 + b) + c
    | Tanh \<Rightarrow> tanh a
    | Sigmoid \<Rightarrow> sigmoid a
    | Copy \<Rightarrow> a
    | Where \<Rightarrow> (if a \<noteq> 0 then b else c)
    | Clamp \<Rightarrow> min (max a s) t
    | Cast \<Rightarrow> a
    | Const \<Rightarrow> s
    | Neg \<Rightarrow> - a
    | Exp \<Rightarrow> exp a
    | Log \<Rightarrow> ln a
    | Sqrt \<Rightarrow> sqrt a
    | Rsqrt \<Rightarrow> 1 / sqrt a
    | Abs \<Rightarrow> \<bar>a\<bar>
    | _ \<Rightarrow> 0)"

text \<open>The number of operands of an elementwise operator.\<close>

definition arity :: "TraceOpKind \<Rightarrow> nat option" where
  "arity k = (case k of Input \<Rightarrow> Some 0 | Const \<Rightarrow> Some 0 | RMSNorm \<Rightarrow> None | LayerNorm \<Rightarrow> None
    | Add \<Rightarrow> Some 2 | Sub \<Rightarrow> Some 2 | Mul \<Rightarrow> Some 2 | Div \<Rightarrow> Some 2
    | FMA \<Rightarrow> Some 3 | Modulate \<Rightarrow> Some 3 | Where \<Rightarrow> Some 3
    | _ \<Rightarrow> Some 1)"

text \<open>The values of all nodes, for the values \<open>\<rho> 0, \<rho> 1, ...\<close> of the inputs in the order of their nodes.\<close>

definition lane_step :: "(nat \<Rightarrow> real) \<Rightarrow> nat \<times> real list \<Rightarrow> TraceNode \<Rightarrow> nat \<times> real list" where
  "lane_step \<rho> = (\<lambda>(k, vs) n. if op n = Input then (Suc k, vs @ [\<rho> k])
     else (k, vs @ [op_val (op n) (f32 (scalar n)) (f32 (scalar2 n)) (map (\<lambda>i. vs ! nat i) (inputs n))]))"

definition lane_vals :: "(nat \<Rightarrow> real) \<Rightarrow> TraceNode list \<Rightarrow> real list" where
  "lane_vals \<rho> ns = snd (foldl (lane_step \<rho>) (0, []) ns)"

definition input_count :: "TraceNode list \<Rightarrow> nat" where
  "input_count ns = length (filter (\<lambda>n. op n = Input) ns)"

definition node_val :: "(nat \<Rightarrow> real) \<Rightarrow> TraceNode list \<Rightarrow> TraceNode \<Rightarrow> real" where
  "node_val \<rho> ns n = (if op n = Input then \<rho> (input_count ns)
     else op_val (op n) (f32 (scalar n)) (f32 (scalar2 n)) (map (\<lambda>i. lane_vals \<rho> ns ! nat i) (inputs n)))"

lemma lane_count: "fst (foldl (lane_step \<rho>) (0, []) ns) = input_count ns"
  by (induction ns rule: rev_induct) (auto simp: input_count_def lane_step_def split: prod.split)

lemma lane_fold: "foldl (lane_step \<rho>) (0, []) ns = (input_count ns, lane_vals \<rho> ns)"
  by (rule prod_eqI) (simp_all add: lane_count lane_vals_def)

lemma lane_vals_Nil [simp]: "lane_vals \<rho> [] = []"
  by (simp add: lane_vals_def)

lemma lane_vals_snoc [simp]: "lane_vals \<rho> (ns @ [n]) = lane_vals \<rho> ns @ [node_val \<rho> ns n]"
proof -
  have "lane_vals \<rho> (ns @ [n]) = snd (lane_step \<rho> (foldl (lane_step \<rho>) (0, []) ns) n)" by (simp add: lane_vals_def)
  also have "\<dots> = lane_vals \<rho> ns @ [node_val \<rho> ns n]" unfolding lane_fold by (simp add: lane_step_def node_val_def)
  finally show ?thesis .
qed

lemma lane_vals_length [simp]: "length (lane_vals \<rho> ns) = length ns"
  by (induction ns rule: rev_induct) simp_all

lemma lane_vals_append: "\<exists>vs. lane_vals \<rho> (ns @ ms) = lane_vals \<rho> ns @ vs"
proof (induction ms rule: rev_induct)
  case (snoc m ms)
  have "lane_vals \<rho> (ns @ ms @ [m]) = lane_vals \<rho> (ns @ ms) @ [node_val \<rho> (ns @ ms) m]" using lane_vals_snoc [of \<rho> "ns @ ms" m] by simp
  then show ?case using snoc by auto
qed simp

lemma lane_vals_keep: "i < length ns \<Longrightarrow> lane_vals \<rho> (ns @ ms) ! i = lane_vals \<rho> ns ! i"
  using lane_vals_append [of \<rho> ns ms] by (auto simp: nth_append)

lemma input_count_simps [simp]: "input_count [] = 0" "input_count (ns @ [n]) = input_count ns + of_bool (op n = Input)"
  "input_count (n # ns) = of_bool (op n = Input) + input_count ns" "input_count (ns @ ms) = input_count ns + input_count ms"
  by (simp_all add: input_count_def)

lemma lane_vals_nth: "i < length ns \<Longrightarrow> lane_vals \<rho> ns ! i = node_val \<rho> (take i ns) (ns ! i)"
  using lane_vals_keep [of i "take (Suc i) ns" \<rho> "drop (Suc i) ns", unfolded append_take_drop_id]
  by (simp add: take_Suc_conv_app_nth nth_append)

section \<open>A calculus of emitters\<close>

text \<open>What is known of a graph: slots with their values. Emitting more nodes only adds to it.\<close>

definition facts :: "(nat \<Rightarrow> real) \<Rightarrow> TraceDAG \<Rightarrow> (int \<times> real) set" where
  "facts \<rho> g = {(i, v). valid_slot (nodes g) i \<and> lane_vals \<rho> (nodes g) ! nat i = v}"

definition plain :: "TraceNode \<Rightarrow> bool" where
  "plain n \<longleftrightarrow> op n \<noteq> Input \<and> buffer n = Null \<and> \<not> is_inplace n \<and> \<not> is_live_at_end n"

definition grown :: "TraceDAG \<Rightarrow> TraceDAG \<Rightarrow> bool" where
  "grown g g' \<longleftrightarrow> (\<exists>ms. nodes g' = nodes g @ ms \<and> (\<forall>n\<in>set ms. plain n)) \<and> (nodes_wf (nodes g) \<longrightarrow> nodes_wf (nodes g'))"

definition emits :: "(nat \<Rightarrow> real) \<Rightarrow> (int \<times> real) set \<Rightarrow> 'a emit \<Rightarrow> ('a \<Rightarrow> TraceDAG \<Rightarrow> bool) \<Rightarrow> bool" where
  "emits \<rho> K m Q \<longleftrightarrow> (\<forall>g. nodes_wf (nodes g) \<longrightarrow> K \<subseteq> facts \<rho> g \<longrightarrow> (\<exists>x g'. m g = Inr (x, g') \<and> grown g g' \<and> Q x g'))"

definition is_val :: "(nat \<Rightarrow> real) \<Rightarrow> real \<Rightarrow> int \<Rightarrow> TraceDAG \<Rightarrow> bool" where
  "is_val \<rho> v i g \<longleftrightarrow> (i, v) \<in> facts \<rho> g"

lemma grown_refl [simp]: "grown g g"
  by (simp add: grown_def)

lemma grown_trans: "grown g g' \<Longrightarrow> grown g' g'' \<Longrightarrow> grown g g''"
  by (auto simp: grown_def)

lemma facts_grown: "grown g g' \<Longrightarrow> facts \<rho> g \<subseteq> facts \<rho> g'"
  by (auto simp: grown_def facts_def lane_vals_keep valid_slot_def)

lemma facts_val: "(i, v) \<in> facts \<rho> g \<Longrightarrow> valid_slot (nodes g) i \<and> lane_vals \<rho> (nodes g) ! nat i = v"
  by (simp add: facts_def)

lemma emits_mono: "emits \<rho> K m Q \<Longrightarrow> K \<subseteq> K' \<Longrightarrow> emits \<rho> K' m Q"
  by (auto simp: emits_def)

lemma emits_ret: "(\<And>g. K \<subseteq> facts \<rho> g \<Longrightarrow> Q x g) \<Longrightarrow> emits \<rho> K (eret x) Q"
  by (auto simp: emits_def eret_def)

lemma emits_bind_gen:
  assumes m: "emits \<rho> K m R" and f: "\<And>x g. R x g \<Longrightarrow> K \<subseteq> facts \<rho> g \<Longrightarrow> \<exists>K'. K' \<subseteq> facts \<rho> g \<and> emits \<rho> K' (f x) Q"
  shows "emits \<rho> K (ebnd m f) Q"
  unfolding emits_def
proof (intro allI impI)
  fix g assume K: "nodes_wf (nodes g)" "K \<subseteq> facts \<rho> g"
  then obtain x g' where x: "m g = Inr (x, g')" "grown g g'" "R x g'" using m by (auto simp: emits_def)
  then have g': "K \<subseteq> facts \<rho> g'" "nodes_wf (nodes g')" using K facts_grown by (blast, simp add: grown_def)
  then obtain K' where "K' \<subseteq> facts \<rho> g'" "emits \<rho> K' (f x) Q" using f x(3) by blast
  then obtain y g'' where "f x g' = Inr (y, g'')" "grown g' g''" "Q y g''" using g'(2) by (auto simp: emits_def)
  then show "\<exists>y g''. ebnd m f g = Inr (y, g'') \<and> grown g g'' \<and> Q y g''" using x grown_trans by (auto simp: ebnd_def)
qed

lemma emits_bind:
  assumes "emits \<rho> K m (is_val \<rho> v)" and "\<And>x. emits \<rho> (insert (x, v) K) (f x) Q"
  shows "emits \<rho> K (ebnd m f) Q"
proof (rule emits_bind_gen [OF assms(1)])
  fix x g assume "is_val \<rho> v x g" "K \<subseteq> facts \<rho> g"
  then have "insert (x, v) K \<subseteq> facts \<rho> g" by (simp add: is_val_def)
  then show "\<exists>K' \<subseteq> facts \<rho> g. emits \<rho> K' (f x) Q" using assms(2) by blast
qed

lemma emits_tail: "emits \<rho> K m (is_val \<rho> v') \<Longrightarrow> v' = v \<Longrightarrow> emits \<rho> K m (is_val \<rho> v)"
  by simp

lemma emits_ret_val: "(x, v) \<in> K \<Longrightarrow> emits \<rho> K (eret x) (is_val \<rho> v)"
  by (rule emits_ret) (auto simp: is_val_def)

lemma emits_lift: "r = Inr x \<Longrightarrow> emits \<rho> K (f x) Q \<Longrightarrow> emits \<rho> K (ebnd (elift r) f) Q"
  by (simp add: emits_def ebnd_def elift_def)

lemma put_eq: "put m k ins s s2 g = Inr (int (length (nodes g)), g\<lparr>nodes := nodes g @ [default_node\<lparr>nid := int (length (nodes g)),
    op := k, inputs := ins, scalar := s, scalar2 := s2, buffer := Null, n_device := sm_dev m, n_dtype := sm_dt m, n_rows := sm_rows m,
    n_cols := sm_cols m\<rparr>]\<rparr>)"
  by (simp add: put_def add_node_def push_node_def Let_def)

lemma emits_put:
  assumes "k \<noteq> Input" and "list_all2 (\<lambda>i v. (i, v) \<in> K) ins vs"
  shows "emits \<rho> K (put m k ins s s2) (is_val \<rho> (op_val k (f32 s) (f32 s2) vs))"
  unfolding emits_def
proof (intro allI impI)
  fix g assume "K \<subseteq> facts \<rho> g"
  then have l: "list_all2 (\<lambda>i v. (i, v) \<in> facts \<rho> g) ins vs" using assms(2) by (auto elim!: list_all2_mono)
  then have v: "map (\<lambda>i. lane_vals \<rho> (nodes g) ! nat i) ins = vs" and w: "list_all (valid_slot (nodes g)) ins"
    by (auto simp: facts_def list_all2_conv_all_nth list_all_length intro!: nth_equalityI)
  from v w show "\<exists>x g'. put m k ins s s2 g = Inr (x, g') \<and> grown g g' \<and> is_val \<rho> (op_val k (f32 s) (f32 s2) vs) x g'"
    using assms(1) by (auto simp: put_eq grown_def plain_def default_node_def is_val_def facts_def valid_slot_def node_val_def node_wf_def nth_append list_all_iff)
qed

lemma emits_put1: "k \<noteq> Input \<Longrightarrow> (a, u) \<in> K \<Longrightarrow> emits \<rho> K (put m k [a] s s2) (is_val \<rho> (op_val k (f32 s) (f32 s2) [u]))"
  by (rule emits_put) simp_all

lemma emits_put2: "k \<noteq> Input \<Longrightarrow> (a, u) \<in> K \<Longrightarrow> (b, v) \<in> K \<Longrightarrow>
    emits \<rho> K (put m k [a, b] s s2) (is_val \<rho> (op_val k (f32 s) (f32 s2) [u, v]))"
  by (rule emits_put) simp_all

lemma emits_put3: "k \<noteq> Input \<Longrightarrow> (a, u) \<in> K \<Longrightarrow> (b, v) \<in> K \<Longrightarrow> (c, w) \<in> K \<Longrightarrow>
    emits \<rho> K (put m k [a, b, c] s s2) (is_val \<rho> (op_val k (f32 s) (f32 s2) [u, v, w]))"
  by (rule emits_put) simp_all

text \<open>Symbolic execution: one rule for each emitter in front of a continuation, and one for each at the end.\<close>

lemma not_input: "Add \<noteq> Input" "Sub \<noteq> Input" "Mul \<noteq> Input" "Div \<noteq> Input" "AddScalar \<noteq> Input" "SubScalar \<noteq> Input" "MulScalar \<noteq> Input"
  "ScalarSub \<noteq> Input" "ReLU \<noteq> Input" "Tanh \<noteq> Input" "Sigmoid \<noteq> Input" "Copy \<noteq> Input" "Where \<noteq> Input" "Clamp \<noteq> Input"
  "Exp \<noteq> Input" "Sqrt \<noteq> Input" "Rsqrt \<noteq> Input"
  by simp_all

lemmas emit_steps = emits_bind [OF emits_put1] emits_bind [OF emits_put2] emits_bind [OF emits_put3]
lemmas emit_tails = emits_tail [OF emits_put1] emits_tail [OF emits_put2] emits_tail [OF emits_put3]

lemma f32_zero [simp]: "f32 0 = 0"
  by (simp add: f32_def fp32_abs_def)

lemma f32_is_zero_val: "f32_is_zero x \<Longrightarrow> f32 x = 0"
  by (simp add: f32_is_zero_def f32_def fp32_abs_def)

lemma f32_literal_vals [simp]: "f32 f32_one = 1" "f32 (f32_neg f32_one) = - 1" "f32 f32_half = 1 / 2"
  "f32 (f32_ratio 16 1) = 16" "f32 (f32_ratio 1 8) = 1 / 8" "f32 (f32_ratio 2 1) = 2"
  "f32 (f32_ratio 88 1) = 88" "f32 (f32_neg (f32_ratio 88 1)) = - 88" "f32 (f32_ratio 1 32) = 1 / 32"
  by (simp_all add: f32_def f32_neg_def f32_one_def f32_half_def f32_ratio_def bit_len.simps div_even_def fp32_abs_def)

lemmas f32_literal_vals_Suc [simp] = f32_literal_vals [unfolded One_nat_def]

lemma f32_eps: "f32 kSafeEps = 9223372 / 9223372036854775808"
  by (simp add: f32_literals(1) f32_def fp32_abs_def)

lemma f32_eps_pos [simp]: "0 < f32 kSafeEps" "0 \<le> f32 kSafeEps" "f32 kSafeEps \<noteq> 0"
  by (simp_all add: f32_eps)

lemma emits_const:
  assumes "(anchor, u) \<in> K"
  shows "emits \<rho> K (emit_const anchor val m) (is_val \<rho> (f32 val))"
proof (cases "f32_is_zero val")
  case True
  then show ?thesis unfolding emit_const_def
    by (simp only: if_True) ((rule emit_steps not_input assms)+, rule emits_ret_val, simp add: op_val_def f32_is_zero_val [OF True])
next
  case False
  then show ?thesis unfolding emit_const_def
    by (simp only: if_False) ((rule emit_steps emit_tails not_input assms insertI1)+, simp add: op_val_def)
qed

lemma emits_neg: "(x, u) \<in> K \<Longrightarrow> emits \<rho> K (emit_neg x m) (is_val \<rho> (- u))"
  unfolding emit_neg_def by (rule emit_tails not_input | assumption)+ (simp add: op_val_def)

lemma emits_pos_denom: "(x, u) \<in> K \<Longrightarrow> emits \<rho> K (emit_pos_denom x e m) (is_val \<rho> (max u 0 + f32 e))"
  unfolding emit_pos_denom_def by (rule emit_steps emit_tails not_input insertI1 | assumption | rule insertI2)+ (simp add: op_val_def)

lemmas emitter_steps = emit_steps emits_bind [OF emits_const] emits_bind [OF emits_neg] emits_bind [OF emits_pos_denom]

lemma emits_abs: "(x, u) \<in> K \<Longrightarrow> emits \<rho> K (emit_abs x m) (is_val \<rho> \<bar>u\<bar>)"
  unfolding emit_abs_def
  by (rule emitter_steps emit_tails not_input insertI1 | assumption | rule insertI2)+ (simp add: op_val_def abs_real_def max_def)

text \<open>The signed division: exact but for the small constant in the denominator, and 0 for a zero denominator.\<close>

definition guarded_div :: "real \<Rightarrow> real \<Rightarrow> real" where
  "guarded_div a b = a * sgn b / (\<bar>b\<bar> + f32 kSafeEps)"

lemma emits_signed_div:
  "(anchor, w) \<in> K \<Longrightarrow> (num, u) \<in> K \<Longrightarrow> (den, v) \<in> K \<Longrightarrow> emits \<rho> K (emit_signed_div anchor num den m) (is_val \<rho> (guarded_div u v))"
  unfolding emit_signed_div_def
  by (rule emitter_steps emit_tails not_input insertI1 | assumption | rule insertI2)+ (simp add: op_val_def guarded_div_def sgn_real_def max_def)

lemma emits_repeat:
  assumes "\<And>K e v. (x, w) \<in> K \<Longrightarrow> (e, v) \<in> K \<Longrightarrow> emits \<rho> K (f e) (is_val \<rho> (h v))"
  shows "(x, w) \<in> K \<Longrightarrow> (e, v) \<in> K \<Longrightarrow> emits \<rho> K (erepeat n f e) (is_val \<rho> ((h ^^ n) v))"
proof (induction n arbitrary: K e v)
  case 0
  then show ?case by (simp add: emits_ret_val)
next
  case (Suc n)
  show ?case using Suc.IH [of "insert _ K"] Suc.prems
    by (simp only: erepeat.simps funpow_Suc_right comp_apply) (rule emits_bind [OF assms], auto)
qed

definition newton :: "real \<Rightarrow> real \<Rightarrow> real" where
  "newton x y = (y + x / (max y 0 + f32 kSafeEps)) / 2"

lemma emits_newton: "(xs, x) \<in> K \<Longrightarrow> (y, v) \<in> K \<Longrightarrow> emits \<rho> K (emit_newton xs m y) (is_val \<rho> (newton x v))"
  unfolding emit_newton_def
  by (rule emitter_steps emit_tails not_input insertI1 | assumption | rule insertI2)+ (simp add: op_val_def newton_def)

definition newton_sqrt :: "real \<Rightarrow> real" where
  "newton_sqrt x = (let rx = max x 0; xs = rx + f32 kSafeEps; y0 = (if 16 < xs then xs / 8 + 2 else xs / 2 + 1 / 2) in
     if rx \<noteq> 0 then (newton xs ^^ 7) y0 else 0)"

lemma emits_lowered_sqrt:
  "(anchor, w) \<in> K \<Longrightarrow> (x, v) \<in> K \<Longrightarrow> emits \<rho> K (emit_lowered_sqrt anchor x m) (is_val \<rho> (newton_sqrt v))"
  unfolding emit_lowered_sqrt_def
  by (rule emitter_steps emits_bind [OF emits_repeat [OF emits_newton]] emit_tails not_input insertI1 | assumption | rule insertI2)+
    (simp add: op_val_def newton_sqrt_def Let_def max_def)

definition lowered_exp :: "real \<Rightarrow> real" where
  "lowered_exp x = (let t = tanh (min (max x (- 88)) 88 / 32) in ((1 + t) / (max (1 - t) 0 + f32 kSafeEps)) ^ 16)"

lemma square_4: "((\<lambda>v. v * v) ^^ 4) v = v ^ 16" for v :: real
  by (simp add: numeral_eq_Suc)

lemma emits_lowered_exp: "(x, v) \<in> K \<Longrightarrow> emits \<rho> K (emit_lowered_exp x m) (is_val \<rho> (lowered_exp v))"
proof -
  assume x: "(x, v) \<in> K"
  have sq: "emits \<rho> K (erepeat 4 (\<lambda>e. put m Mul [e, e] 0 0) e) (is_val \<rho> w)" if "(e, u) \<in> K" "u ^ 16 = w" for K e u w
  proof -
    have "emits \<rho> K (put m Mul [e, e] 0 0) (is_val \<rho> ((\<lambda>v. v * v) v))" if "(e, v) \<in> K" for K e v
      using emits_put2 [OF not_input(3) that that] by (simp add: op_val_def)
    then have "emits \<rho> K (erepeat 4 (\<lambda>e. put m Mul [e, e] 0 0) e) (is_val \<rho> (((\<lambda>v. v * v) ^^ 4) u))"
      by (intro emits_repeat [where x = e and w = u] that(1))
    then show ?thesis using that(2) by (simp only: square_4)
  qed
  show ?thesis unfolding emit_lowered_exp_def
    by (rule emitter_steps not_input insertI1 sq | rule x | rule insertI2)+ (simp add: op_val_def lowered_exp_def Let_def add.commute)
qed

definition lowered_rsqrt :: "real \<Rightarrow> real" where
  "lowered_rsqrt x = 1 / (max (newton_sqrt (max x 0 + f32 kSafeEps)) 0 + f32 kSafeEps)"

lemmas emitter_steps2 = emitter_steps emits_bind [OF emits_lowered_sqrt]

lemma emits_lowered_rsqrt:
  "(anchor, w) \<in> K \<Longrightarrow> (x, v) \<in> K \<Longrightarrow> emits \<rho> K (emit_lowered_rsqrt anchor x m) (is_val \<rho> (lowered_rsqrt v))"
  unfolding emit_lowered_rsqrt_def
  by (rule emitter_steps2 emit_tails not_input insertI1 | assumption | rule insertI2)+ (simp add: op_val_def lowered_rsqrt_def max_def)

lemma emits_horner: "(u2, u) \<in> K \<Longrightarrow> (p, v) \<in> K \<Longrightarrow> emits \<rho> K (emit_horner u2 c m p) (is_val \<rho> (v * u + f32 c))"
  unfolding emit_horner_def
  by (rule emitter_steps emit_tails not_input insertI1 | assumption | rule insertI2)+ (simp add: op_val_def)

definition lowered_log :: "real \<Rightarrow> real" where
  "lowered_log x = (let r = newton_sqrt (newton_sqrt (newton_sqrt (max x 0 + f32 kSafeEps))); u = (r - 1) / (max r 0 + 1); u2 = u * u in
     u * ((((u2 * f32 (f32_ratio 1 9) + f32 (f32_ratio 1 7)) * u2 + f32 (f32_ratio 1 5)) * u2 + f32 (f32_ratio 1 3)) * u2 + 1) * 16)"

lemma emits_lowered_log:
  "(anchor, w) \<in> K \<Longrightarrow> (x, v) \<in> K \<Longrightarrow> emits \<rho> K (emit_lowered_log anchor x m) (is_val \<rho> (lowered_log v))"
  unfolding emit_lowered_log_def
  by (rule emitter_steps2 emits_bind [OF emits_horner] emit_tails not_input insertI1 | assumption | rule insertI2)+
    (simp add: op_val_def lowered_log_def Let_def max_def)

text \<open>\<^verbatim>\<open>emit_safe_div_signed\<close> divides exactly by a denominator that is guarded already, and with its own guard otherwise.\<close>

lemma guarded_denom_total: "nodes_wf (nodes g) \<Longrightarrow> valid_slot (nodes g) den \<Longrightarrow> \<exists>b. guarded_denom den g = Inr b"
proof -
  assume wf: "nodes_wf (nodes g)" and v: "valid_slot (nodes g) den"
  then have "node_wf (nat den) (nodes g ! nat den)" by (auto simp: nodes_wf_def valid_slot_def)
  then have "valid_slot (nodes g) (hd (inputs (nodes g ! nat den)))" if "inputs (nodes g ! nat den) \<noteq> []"
    using v hd_in_set [OF that] by (force simp: node_wf_def valid_slot_def)
  then show ?thesis using v by (auto simp: guarded_denom_def node_at_def)
qed

lemma emits_safe_div:
  assumes "(anchor, w) \<in> K" "(num, u) \<in> K" "(den, v) \<in> K"
  shows "emits \<rho> K (emit_safe_div_signed anchor num den m) (\<lambda>i g. is_val \<rho> (guarded_div u v) i g \<or> is_val \<rho> (u / v) i g)"
  unfolding emits_def
proof (intro allI impI)
  fix g assume g: "nodes_wf (nodes g)" "K \<subseteq> facts \<rho> g"
  then have "valid_slot (nodes g) den" using assms(3) facts_val by blast
  then obtain b where b: "guarded_denom den g = Inr b" using guarded_denom_total g(1) by blast
  show "\<exists>x g'. emit_safe_div_signed anchor num den m g = Inr (x, g') \<and> grown g g' \<and> (is_val \<rho> (guarded_div u v) x g' \<or> is_val \<rho> (u / v) x g')"
  proof (cases b)
    case True
    have "emits \<rho> K (put m Div [num, den] 0 0) (is_val \<rho> (u / v))" using emits_put2 [OF not_input(4) assms(2,3)] by (simp add: op_val_def)
    then show ?thesis using True b g by (fastforce simp: emit_safe_div_signed_def emits_def)
  next
    case False
    then show ?thesis using emits_signed_div [OF assms] b g by (fastforce simp: emit_safe_div_signed_def emits_def)
  qed
qed

end
