(* ===== verification/Autodiff.thy ===== *)
theory Autodiff
  imports TraceEmit
begin

unbundle bit_operations_syntax

text \<open>
  Reverse-mode differentiation of a trace graph, \<^verbatim>\<open>TraceDAG::backward\<close> of \<^verbatim>\<open>src/jit/trace_autodiff.cpp\<close>: the primal nodes are
  replayed, adjoints are seeded at the live nodes and pushed to the operands from the last node to the first, and the nodes that
  no gradient needs are dropped.
\<close>

section \<open>Adjoints of one node\<close>

text \<open>\<^verbatim>\<open>n.inputs[k]\<close> is unchecked; \<^verbatim>\<open>.at()\<close> of an \<^verbatim>\<open>unordered_map\<close> throws.\<close>

definition operand :: "TraceNode \<Rightarrow> nat \<Rightarrow> int res" where
  "operand n k = (if k < length (inputs n) then Inr (inputs n ! k) else Inl (UB ''vector index''))"

definition at_map :: "(int \<rightharpoonup> int) \<Rightarrow> int \<Rightarrow> int res" where
  "at_map f i = (case f i of Some j \<Rightarrow> Inr j | None \<Rightarrow> Inl (Throw ''unordered_map::at''))"

definition fp32_meta :: "ShapeMeta \<Rightarrow> ShapeMeta" where
  "fp32_meta m = m\<lparr>sm_dt := FP32\<rparr>"

definition accum_grad :: "ShapeMeta \<Rightarrow> int \<Rightarrow> int \<Rightarrow> (int \<rightharpoonup> int) \<Rightarrow> (int \<rightharpoonup> int) emit" where
  "accum_grad m fwd_id contrib adj = (case adj fwd_id of
      None \<Rightarrow> eret (adj(fwd_id \<mapsto> contrib))
    | Some a \<Rightarrow> ebnd (put (fp32_meta m) Add [a, contrib] 0 0) (\<lambda>s. eret (adj(fwd_id \<mapsto> s))))"

text \<open>The primal value of operand \<open>k\<close>, and the accumulation into it.\<close>

definition primal :: "(int \<rightharpoonup> int) \<Rightarrow> TraceNode \<Rightarrow> nat \<Rightarrow> int emit" where
  "primal fb n k = elift (bnd (operand n k) (at_map fb))"

definition accum_into :: "ShapeMeta \<Rightarrow> TraceNode \<Rightarrow> nat \<Rightarrow> int \<Rightarrow> (int \<rightharpoonup> int) \<Rightarrow> (int \<rightharpoonup> int) emit" where
  "accum_into m n k contrib adj = ebnd (elift (operand n k)) (\<lambda>i. accum_grad m i contrib adj)"

text \<open>The contributions that take more than two nodes, each named after its \<^verbatim>\<open>case\<close>.\<close>

definition back_div :: "ShapeMeta \<Rightarrow> int \<Rightarrow> int \<Rightarrow> int \<Rightarrow> int emit" where
  "back_div m a b dy = (let p = fp32_meta m in
     ebnd (put p Mul [b, b] 0 0) (\<lambda>b2. ebnd (emit_pos_denom b2 kSafeEps m) (\<lambda>b2_safe.
     ebnd (put p Mul [dy, a] 0 0) (\<lambda>dy_a. ebnd (put p ScalarSub [dy_a] 0 0) (\<lambda>ndy_a.
     put p Div [ndy_a, b2_safe] 0 0)))))"

definition back_scalar_div :: "ShapeMeta \<Rightarrow> 32 word \<Rightarrow> int \<Rightarrow> int \<Rightarrow> int emit" where
  "back_scalar_div m s a dy = (let p = fp32_meta m in
     ebnd (put p Mul [a, a] 0 0) (\<lambda>a2. ebnd (emit_pos_denom a2 kSafeEps m) (\<lambda>a2_safe.
     ebnd (put p MulScalar [dy] (f32_neg s) 0) (\<lambda>num. put p Div [num, a2_safe] 0 0))))"

definition back_relu :: "ShapeMeta \<Rightarrow> int \<Rightarrow> int \<Rightarrow> int \<Rightarrow> int emit" where
  "back_relu m anchor a dy = (let p = fp32_meta m in
     ebnd (put p ReLU [a] 0 0) (\<lambda>ra. ebnd (emit_const anchor 0 m) (\<lambda>zero. put p Where [ra, dy, zero] 0 0)))"

definition back_abs :: "ShapeMeta \<Rightarrow> int \<Rightarrow> int \<Rightarrow> int \<Rightarrow> int emit" where
  "back_abs m anchor a dy = (let p = fp32_meta m in
     ebnd (put p ReLU [a] 0 0) (\<lambda>pos. ebnd (put p ScalarSub [a] 0 0) (\<lambda>na. ebnd (put p ReLU [na] 0 0) (\<lambda>neg_part.
     ebnd (put p ScalarSub [dy] 0 0) (\<lambda>ndy. ebnd (emit_const anchor 0 m) (\<lambda>zero.
     ebnd (put p Where [neg_part, ndy, zero] 0 0) (\<lambda>neg_sel. put p Where [pos, dy, neg_sel] 0 0)))))))"

definition back_clamp :: "ShapeMeta \<Rightarrow> 32 word \<Rightarrow> 32 word \<Rightarrow> int \<Rightarrow> int \<Rightarrow> int \<Rightarrow> int emit" where
  "back_clamp m lo hi anchor a dy = (let p = fp32_meta m in
     ebnd (put p SubScalar [a] lo 0) (\<lambda>x. ebnd (put p ReLU [x] 0 0) (\<lambda>gt_lo.
     ebnd (put p ScalarSub [a] hi 0) (\<lambda>y. ebnd (put p ReLU [y] 0 0) (\<lambda>lt_hi.
     ebnd (put p Mul [gt_lo, lt_hi] 0 0) (\<lambda>inside. ebnd (emit_const anchor 0 m) (\<lambda>zero.
     put p Where [inside, dy, zero] 0 0)))))))"

definition back_sigmoid :: "ShapeMeta \<Rightarrow> int \<Rightarrow> int \<Rightarrow> int emit" where
  "back_sigmoid m sig dy = (let p = fp32_meta m in
     ebnd (put p ScalarSub [sig] f32_one 0) (\<lambda>one_m_sig. ebnd (put p Mul [sig, one_m_sig] 0 0) (\<lambda>dsig. put p Mul [dy, dsig] 0 0)))"

definition back_tanh :: "ShapeMeta \<Rightarrow> int \<Rightarrow> int \<Rightarrow> int emit" where
  "back_tanh m th dy = (let p = fp32_meta m in
     ebnd (put p Mul [th, th] 0 0) (\<lambda>th2. ebnd (put p ScalarSub [th2] f32_one 0) (\<lambda>dtanh. put p Mul [dy, dtanh] 0 0)))"

definition back_silu :: "ShapeMeta \<Rightarrow> int \<Rightarrow> int \<Rightarrow> int emit" where
  "back_silu m a dy = (let p = fp32_meta m in
     ebnd (put p Sigmoid [a] 0 0) (\<lambda>sig. ebnd (put p ScalarSub [sig] f32_one 0) (\<lambda>one_m_sig.
     ebnd (put p Mul [a, one_m_sig] 0 0) (\<lambda>a_oms. ebnd (put p AddScalar [a_oms] f32_one 0) (\<lambda>factor.
     ebnd (put p Mul [sig, factor] 0 0) (\<lambda>dsilu. put p Mul [dy, dsilu] 0 0))))))"

definition back_gelu :: "ShapeMeta \<Rightarrow> int \<Rightarrow> int \<Rightarrow> int emit" where
  "back_gelu m a dy = (let p = fp32_meta m in
     ebnd (put p Mul [a, a] 0 0) (\<lambda>a2. ebnd (put p Mul [a2, a] 0 0) (\<lambda>a3.
     ebnd (put p MulScalar [a3] kGeluK1 0) (\<lambda>ka3. ebnd (put p Add [a, ka3] 0 0) (\<lambda>inner.
     ebnd (put p MulScalar [inner] kGeluK0 0) (\<lambda>u. ebnd (put p Tanh [u] 0 0) (\<lambda>t.
     ebnd (put p AddScalar [t] f32_one 0) (\<lambda>one_p_t. ebnd (put p MulScalar [one_p_t] f32_half 0) (\<lambda>left.
     ebnd (put p Mul [t, t] 0 0) (\<lambda>t2. ebnd (put p ScalarSub [t2] f32_one 0) (\<lambda>sech2.
     ebnd (put p MulScalar [a2] kGelu3K1 0) (\<lambda>x. ebnd (put p AddScalar [x] f32_one 0) (\<lambda>y. ebnd (put p MulScalar [y] kGeluK0 0) (\<lambda>du.
     ebnd (put p MulScalar [a] f32_half 0) (\<lambda>half_a. ebnd (put p Mul [sech2, du] 0 0) (\<lambda>z.
     ebnd (put p Mul [half_a, z] 0 0) (\<lambda>right. ebnd (put p Add [left, right] 0 0) (\<lambda>dgelu.
     put p Mul [dy, dgelu] 0 0))))))))))))))))))"

definition back_exp :: "ShapeMeta \<Rightarrow> int \<Rightarrow> int \<Rightarrow> int emit" where
  "back_exp m a dy = (let p = fp32_meta m in
     ebnd (put p Clamp [a] (f32_neg (f32_ratio 88 1)) (f32_ratio 88 1)) (\<lambda>ac. ebnd (put p Exp [ac] 0 0) (\<lambda>ea. put p Mul [dy, ea] 0 0)))"

definition back_log :: "ShapeMeta \<Rightarrow> int \<Rightarrow> int \<Rightarrow> int \<Rightarrow> int emit" where
  "back_log m anchor a dy = (let p = fp32_meta m in
     ebnd (put p ReLU [a] 0 0) (\<lambda>ra. ebnd (emit_pos_denom ra kSafeEps m) (\<lambda>as. ebnd (put p Div [dy, as] 0 0) (\<lambda>q.
     ebnd (emit_const anchor 0 m) (\<lambda>zero. put p Where [ra, q, zero] 0 0)))))"

definition back_sqrt :: "ShapeMeta \<Rightarrow> int \<Rightarrow> int \<Rightarrow> int \<Rightarrow> int emit" where
  "back_sqrt m anchor a dy = (let p = fp32_meta m in
     ebnd (put p ReLU [a] 0 0) (\<lambda>ra. ebnd (emit_pos_denom ra kSafeEps m) (\<lambda>as. ebnd (put p Sqrt [as] 0 0) (\<lambda>sa.
     ebnd (emit_pos_denom sa kSafeEps m) (\<lambda>sa_safe.
     ebnd (put p Div [dy, sa_safe] 0 0) (\<lambda>d. ebnd (put p MulScalar [d] f32_half 0) (\<lambda>q.
     ebnd (emit_const anchor 0 m) (\<lambda>zero. put p Where [ra, q, zero] 0 0))))))))"

definition back_rsqrt :: "ShapeMeta \<Rightarrow> int \<Rightarrow> int \<Rightarrow> int \<Rightarrow> int emit" where
  "back_rsqrt m anchor a dy = (let p = fp32_meta m in
     ebnd (put p ReLU [a] 0 0) (\<lambda>ra. ebnd (emit_pos_denom ra kSafeEps m) (\<lambda>as. ebnd (put p Rsqrt [as] 0 0) (\<lambda>r.
     ebnd (put p Mul [r, r] 0 0) (\<lambda>r2. ebnd (put p Mul [r2, r] 0 0) (\<lambda>r3.
     ebnd (put p Mul [dy, r3] 0 0) (\<lambda>d. ebnd (put p MulScalar [d] (f32_neg f32_half) 0) (\<lambda>dr.
     ebnd (emit_const anchor 0 m) (\<lambda>zero. put p Where [ra, dr, zero] 0 0)))))))))"

text \<open>The \<^verbatim>\<open>switch\<close> over the operator: from the adjoint \<open>dy\<close> of \<open>n\<close> to the adjoints of its operands.\<close>

definition back_node :: "ShapeMeta \<Rightarrow> int \<Rightarrow> (int \<rightharpoonup> int) \<Rightarrow> TraceNode \<Rightarrow> int \<Rightarrow> (int \<rightharpoonup> int) \<Rightarrow> (int \<rightharpoonup> int) emit" where
  "back_node m anchor fb n dy adj = (let p = fp32_meta m; acc = accum_into m n;
       unary = (\<lambda>f. ebnd (primal fb n 0) (\<lambda>a. ebnd (f a) (\<lambda>c. acc 0 c adj))) in case op n of
      Input \<Rightarrow> eret adj
    | Const \<Rightarrow> eret adj
    | Copy \<Rightarrow> acc 0 dy adj
    | Cast \<Rightarrow> acc 0 dy adj
    | AddScalar \<Rightarrow> acc 0 dy adj
    | SubScalar \<Rightarrow> acc 0 dy adj
    | Add \<Rightarrow> ebnd (acc 0 dy adj) (acc 1 dy)
    | Sub \<Rightarrow> ebnd (acc 0 dy adj) (\<lambda>adj. ebnd (put p ScalarSub [dy] 0 0) (\<lambda>ndy. acc 1 ndy adj))
    | ScalarSub \<Rightarrow> ebnd (put p ScalarSub [dy] 0 0) (\<lambda>ndy. acc 0 ndy adj)
    | Neg \<Rightarrow> ebnd (put p ScalarSub [dy] 0 0) (\<lambda>ndy. acc 0 ndy adj)
    | Mul \<Rightarrow> ebnd (primal fb n 0) (\<lambda>a. ebnd (primal fb n 1) (\<lambda>b.
        ebnd (put p Mul [dy, b] 0 0) (\<lambda>da. ebnd (acc 0 da adj) (\<lambda>adj. ebnd (put p Mul [dy, a] 0 0) (\<lambda>db. acc 1 db adj)))))
    | MulScalar \<Rightarrow> ebnd (put p MulScalar [dy] (scalar n) 0) (\<lambda>d. acc 0 d adj)
    | DivScalar \<Rightarrow> ebnd (put p MulScalar [dy] (f32_recip (safe_scalar (scalar n))) 0) (\<lambda>d. acc 0 d adj)
    | Div \<Rightarrow> ebnd (primal fb n 0) (\<lambda>a. ebnd (primal fb n 1) (\<lambda>b.
        ebnd (put p Div [dy, b] 0 0) (\<lambda>da. ebnd (back_div m a b dy) (\<lambda>db. ebnd (acc 0 da adj) (acc 1 db)))))
    | ScalarDiv \<Rightarrow> unary (\<lambda>a. back_scalar_div m (scalar n) a dy)
    | FMA \<Rightarrow> ebnd (primal fb n 0) (\<lambda>a. ebnd (primal fb n 1) (\<lambda>b.
        ebnd (put p Mul [dy, b] 0 0) (\<lambda>da. ebnd (acc 0 da adj) (\<lambda>adj.
        ebnd (put p Mul [dy, a] 0 0) (\<lambda>db. ebnd (acc 1 db adj) (acc 2 dy))))))
    | Modulate \<Rightarrow> ebnd (primal fb n 0) (\<lambda>x. ebnd (primal fb n 1) (\<lambda>scale. ebnd (put p AddScalar [scale] f32_one 0) (\<lambda>sp1.
        ebnd (put p Mul [dy, sp1] 0 0) (\<lambda>dx. ebnd (acc 0 dx adj) (\<lambda>adj.
        ebnd (put p Mul [dy, x] 0 0) (\<lambda>ds. ebnd (acc 1 ds adj) (acc 2 dy)))))))
    | ReLU \<Rightarrow> unary (\<lambda>a. back_relu m anchor a dy)
    | Abs \<Rightarrow> unary (\<lambda>a. back_abs m anchor a dy)
    | Clamp \<Rightarrow> unary (\<lambda>a. back_clamp m (scalar n) (scalar2 n) anchor a dy)
    | Where \<Rightarrow> ebnd (primal fb n 0) (\<lambda>c. ebnd (emit_const anchor 0 m) (\<lambda>zero.
        ebnd (put p Where [c, dy, zero] 0 0) (\<lambda>da. ebnd (acc 1 da adj) (\<lambda>adj.
        ebnd (put p Where [c, zero, dy] 0 0) (\<lambda>db. acc 2 db adj)))))
    | Sigmoid \<Rightarrow> ebnd (elift (at_map fb (nid n))) (\<lambda>sig. ebnd (back_sigmoid m sig dy) (\<lambda>d. acc 0 d adj))
    | Tanh \<Rightarrow> ebnd (elift (at_map fb (nid n))) (\<lambda>th. ebnd (back_tanh m th dy) (\<lambda>d. acc 0 d adj))
    | SiLU \<Rightarrow> unary (\<lambda>a. back_silu m a dy)
    | GELU \<Rightarrow> unary (\<lambda>a. back_gelu m a dy)
    | Exp \<Rightarrow> unary (\<lambda>a. back_exp m a dy)
    | Log \<Rightarrow> unary (\<lambda>a. back_log m anchor a dy)
    | Sqrt \<Rightarrow> unary (\<lambda>a. back_sqrt m anchor a dy)
    | Rsqrt \<Rightarrow> unary (\<lambda>a. back_rsqrt m anchor a dy)
    | _ \<Rightarrow> elift (Inl (Throw (''TraceDAG::backward: unsupported op '' @ op_kind_name (op n)))))"

section \<open>The pass\<close>

text \<open>Step 1: the input nodes first, so that the inputs of both graphs correspond; their ids in the order of the nodes.\<close>

fun copy_inputs :: "TraceNode list \<Rightarrow> (int \<rightharpoonup> int) \<times> int list \<Rightarrow> TraceDAG \<Rightarrow> ((int \<rightharpoonup> int) \<times> int list) \<times> TraceDAG" where
  "copy_inputs [] fi g = (fi, g)"
| "copy_inputs (n # ns) (fb, ids) g = (
     if op n = Input
     then case add_node Input [] 0 (buffer n) (n_device n) FP32 (n_rows n) (n_cols n) 0 g of
       (bid, g') \<Rightarrow> copy_inputs ns (fb(nid n \<mapsto> bid), ids @ [nid n]) g'
     else copy_inputs ns (fb, ids) g)"

text \<open>Step 3: the other nodes again, in FP32 and without buffers.\<close>

fun at_all :: "(int \<rightharpoonup> int) \<Rightarrow> int list \<Rightarrow> int list res" where
  "at_all f [] = Inr []"
| "at_all f (i # is) = bnd (at_map f i) (\<lambda>j. bnd (at_all f is) (\<lambda>js. Inr (j # js)))"

definition node_meta :: "TraceNode \<Rightarrow> ShapeMeta" where
  "node_meta n = \<lparr>sm_dev = n_device n, sm_dt = n_dtype n, sm_rows = n_rows n, sm_cols = n_cols n\<rparr>"

fun replay :: "TraceNode list \<Rightarrow> (int \<rightharpoonup> int) \<Rightarrow> (int \<rightharpoonup> int) emit" where
  "replay [] fb = eret fb"
| "replay (n # ns) fb = (if op n = Input then replay ns fb
     else ebnd (elift (at_all fb (inputs n))) (\<lambda>ins.
       ebnd (put (fp32_meta (node_meta n)) (op n) ins (scalar n) (scalar2 n)) (\<lambda>bid. replay ns (fb(nid n \<mapsto> bid)))))"

text \<open>Step 4: the live nodes, or the last node when none is live, receive the upstream gradient.\<close>

definition seed_adj :: "TraceNode list \<Rightarrow> int \<Rightarrow> (int \<rightharpoonup> int)" where
  "seed_adj ns slot = (let adj = foldl (\<lambda>adj n. if is_live_at_end n then adj(nid n \<mapsto> slot) else adj) Map.empty ns in
     if list_ex is_live_at_end ns then adj else adj(nid (last ns) \<mapsto> slot))"

text \<open>Step 5: from the last node to the first; a node without an adjoint is skipped. The list is given last node first.\<close>

fun back_loop :: "ShapeMeta \<Rightarrow> int \<Rightarrow> (int \<rightharpoonup> int) \<Rightarrow> TraceNode list \<Rightarrow> (int \<rightharpoonup> int) \<Rightarrow> (int \<rightharpoonup> int) emit" where
  "back_loop m anchor fb [] adj = eret adj"
| "back_loop m anchor fb (n # ns) adj = (case adj (nid n) of
      None \<Rightarrow> back_loop m anchor fb ns adj
    | Some dy \<Rightarrow> ebnd (back_node m anchor fb n dy adj) (back_loop m anchor fb ns))"

text \<open>Step 6: a copy of each requested gradient, 0 where none arrived.\<close>

definition out_slot :: "ShapeMeta \<Rightarrow> int \<Rightarrow> (int \<rightharpoonup> int) \<Rightarrow> int \<Rightarrow> int emit" where
  "out_slot m anchor adj fwd_in = ebnd (case adj fwd_in of Some a \<Rightarrow> eret a | None \<Rightarrow> emit_const anchor 0 m)
     (\<lambda>a. put (fp32_meta m) Copy [a] 0 0)"

fun emap :: "('a \<Rightarrow> 'b emit) \<Rightarrow> 'a list \<Rightarrow> 'b list emit" where
  "emap f [] = eret []"
| "emap f (x # xs) = ebnd (f x) (\<lambda>y. ebnd (emap f xs) (\<lambda>ys. eret (y # ys)))"

definition targets :: "int \<Rightarrow> int list \<Rightarrow> int list" where
  "targets target_input_idx ids = (if 0 \<le> target_input_idx then [ids ! nat target_input_idx] else ids)"

text \<open>Step 7: mark what the outputs reach, with the top of the stack first; every \<^verbatim>\<open>keep[i]\<close> is an unchecked index.\<close>

function mark :: "TraceNode list \<Rightarrow> bool list \<Rightarrow> int list \<Rightarrow> bool list res" where
  "mark ns keep [] = Inr keep"
| "mark ns keep (cur # stack) = (
     if cur < 0 then mark ns keep stack
     else if length keep \<le> nat cur then Inl (UB ''vector<bool> index'')
     else if keep ! nat cur then mark ns keep stack
     else if length ns \<le> nat cur then Inl (Throw ''vector::at'')
     else let keep' = keep[nat cur := True]; ins = inputs (ns ! nat cur) in
       if \<exists>i\<in>set ins. i < 0 \<or> length keep' \<le> nat i then Inl (UB ''vector<bool> index'')
       else mark ns keep' (rev (filter (\<lambda>i. \<not> keep' ! nat i) ins) @ stack))"
  by pat_completeness auto

lemma length_filter_update: "i < length xs \<Longrightarrow> \<not> xs ! i \<Longrightarrow> length (filter Not (xs[i := True])) < length (filter Not xs)"
proof (induction xs arbitrary: i)
  case (Cons x xs)
  then show ?case by (cases i) auto
qed simp

termination mark
  by (relation "measures [\<lambda>(ns, keep, stack). length (filter Not keep), \<lambda>(ns, keep, stack). length stack]")
    (auto simp: length_filter_update Let_def)

fun prune :: "bool list \<Rightarrow> TraceNode list \<Rightarrow> (int \<rightharpoonup> int) \<times> TraceDAG \<Rightarrow> ((int \<rightharpoonup> int) \<times> TraceDAG) res" where
  "prune keep [] mg = Inr mg"
| "prune keep (n # ns) (pm, g) = (if \<not> keep ! nat (nid n) then prune keep ns (pm, g)
     else bnd (at_all pm (inputs n)) (\<lambda>ins.
       case add_node (op n) ins (scalar n) (buffer n) (n_device n) (n_dtype n) (n_rows n) (n_cols n) (scalar2 n) g of
         (i, g') \<Rightarrow> prune keep ns (pm(nid n \<mapsto> i), g')))"

definition set_live :: "TraceNode list \<Rightarrow> int \<Rightarrow> TraceNode list" where
  "set_live ns i = ns[nat i := (ns ! nat i)\<lparr>is_live_at_end := True\<rparr>]"

definition finish_pruned :: "int list \<Rightarrow> (int \<rightharpoonup> int) \<times> TraceDAG \<Rightarrow> TraceDAG res" where
  "finish_pruned out_slots = (\<lambda>(pm, g). let ns = map (\<lambda>n. n\<lparr>outputs := [], is_live_at_end := False\<rparr>) (nodes g);
       used = foldl push_uses ns ns in
     bnd (at_all pm out_slots) (\<lambda>os. Inr (g\<lparr>nodes := foldl set_live used os\<rparr>)))"

definition backward_slots :: "TraceDAG \<Rightarrow> int \<Rightarrow> (int list \<times> TraceDAG) res" where
  "backward_slots g target_input_idx = (
     guard (nodes g = []) ''TraceDAG::backward: cannot differentiate an empty TraceDAG'' (
     let m = dominant_meta g; ((fb, ids), bwd) = copy_inputs (nodes g) (Map.empty, []) empty_dag in
     guard (ids = []) ''TraceDAG::backward: forward TraceDAG has no Input nodes'' (
     guard (int (length ids) \<le> target_input_idx) ''TraceDAG::backward: target_input_idx out of range'' (
     case add_node Input [] 0 Null (sm_dev m) FP32 (sm_rows m) (sm_cols m) 0 bwd of (grad_out_slot, bwd) \<Rightarrow>
     bnd (at_map fb (hd ids)) (\<lambda>anchor.
       ebnd (replay (nodes g) fb) (\<lambda>fb.
       ebnd (back_loop m anchor fb (rev (nodes g)) (seed_adj (nodes g) grad_out_slot)) (\<lambda>adj.
       emap (out_slot m anchor adj) (targets target_input_idx ids))) bwd)))))"

definition backward :: "TraceDAG \<Rightarrow> int \<Rightarrow> TraceDAG res" where
  "backward g target_input_idx = bnd (backward_slots g target_input_idx) (\<lambda>(out_slots, bwd).
     bnd (mark (nodes bwd) (map (\<lambda>n. op n = Input) (nodes bwd)) (rev out_slots)) (\<lambda>keep.
     bnd (prune keep (nodes bwd) (Map.empty, empty_dag)) (finish_pruned out_slots)))"

section \<open>What one step of the reverse sweep adds\<close>

text \<open>The factor by which the adjoint of a node is passed on to each operand, guards and float literals included.\<close>

definition op_partials :: "TraceOpKind \<Rightarrow> 32 word \<Rightarrow> 32 word \<Rightarrow> real list \<Rightarrow> real list" where
  "op_partials k s t vs = (let a = vs ! 0; b = vs ! 1; c = vs ! 2; e = f32 kSafeEps in case k of
      Add \<Rightarrow> [1, 1]
    | Sub \<Rightarrow> [1, - 1]
    | Mul \<Rightarrow> [b, a]
    | Div \<Rightarrow> [1 / b, - a / (b * b + e)]
    | AddScalar \<Rightarrow> [1]
    | SubScalar \<Rightarrow> [1]
    | MulScalar \<Rightarrow> [f32 s]
    | DivScalar \<Rightarrow> [f32 (f32_recip (safe_scalar s))]
    | ScalarSub \<Rightarrow> [- 1]
    | ScalarDiv \<Rightarrow> [f32 (f32_neg s) / (a * a + e)]
    | FMA \<Rightarrow> [b, a, 1]
    | SiLU \<Rightarrow> [sigmoid a * (a * (1 - sigmoid a) + 1)]
    | GELU \<Rightarrow> (let th = tanh ((a + a * a * a * f32 kGeluK1) * f32 kGeluK0) in
        [(th + 1) / 2 + a / 2 * ((1 - th * th) * ((a * a * f32 kGelu3K1 + 1) * f32 kGeluK0))])
    | ReLU \<Rightarrow> [of_bool (0 < a)]
    | Modulate \<Rightarrow> [b + 1, a, 1]
    | Tanh \<Rightarrow> [1 - tanh a * tanh a]
    | Sigmoid \<Rightarrow> [sigmoid a * (1 - sigmoid a)]
    | Copy \<Rightarrow> [1]
    | Where \<Rightarrow> [0, of_bool (a \<noteq> 0), of_bool (a = 0)]
    | Clamp \<Rightarrow> [of_bool (f32 s < a \<and> a < f32 t)]
    | Cast \<Rightarrow> [1]
    | Neg \<Rightarrow> [- 1]
    | Exp \<Rightarrow> [exp (min (max a (- 88)) 88)]
    | Log \<Rightarrow> [of_bool (0 < a) / (a + e)]
    | Sqrt \<Rightarrow> [of_bool (0 < a) / (sqrt (a + e) + e) / 2]
    | Rsqrt \<Rightarrow> [- of_bool (0 < a) / sqrt (a + e) ^ 3 / 2]
    | Abs \<Rightarrow> [sgn a]
    | _ \<Rightarrow> [])"

definition scatter :: "(int \<Rightarrow> real) \<Rightarrow> (int \<times> real) list \<Rightarrow> int \<Rightarrow> real" where
  "scatter w ics = foldl (\<lambda>w (i, c). w(i := w i + c)) w ics"

text \<open>The adjoint table \<open>adj\<close> stands for the adjoints \<open>w\<close>: a missing entry is 0.\<close>

definition adj_in :: "(int \<Rightarrow> real) \<Rightarrow> (int \<rightharpoonup> int) \<Rightarrow> (int \<times> real) set \<Rightarrow> bool" where
  "adj_in w adj K \<longleftrightarrow> (\<forall>i a. adj i = Some a \<longrightarrow> (a, w i) \<in> K) \<and> (\<forall>i. adj i = None \<longrightarrow> w i = 0)"

definition adj_post :: "(nat \<Rightarrow> real) \<Rightarrow> (int \<Rightarrow> real) \<Rightarrow> (int \<rightharpoonup> int) \<Rightarrow> TraceDAG \<Rightarrow> bool" where
  "adj_post \<rho> w adj g \<longleftrightarrow> adj_in w adj (facts \<rho> g)"

lemma adj_in_mono: "adj_in w adj K \<Longrightarrow> K \<subseteq> K' \<Longrightarrow> adj_in w adj K'"
  by (auto simp: adj_in_def)

lemma adj_in_insert: "adj_in w adj K \<Longrightarrow> adj_in w adj (insert p K)"
  by (erule adj_in_mono) blast

lemma adj_in_upd: "adj_in w adj K \<Longrightarrow> adj_in (w(i := v)) (adj(i \<mapsto> x)) (insert (x, v) K)"
  by (auto simp: adj_in_def)

lemma emits_accum:
  assumes a: "adj_in w adj K" and c: "(c, v) \<in> K"
    and f: "\<And>x. adj_in (w(i := w i + v)) (adj(i \<mapsto> x)) (insert (x, w i + v) K) \<Longrightarrow> emits \<rho> (insert (x, w i + v) K) (f (adj(i \<mapsto> x))) Q"
  shows "emits \<rho> K (ebnd (accum_grad m i c adj) f) Q"
proof (cases "adj i")
  case None
  then have "w i = 0" using a by (simp add: adj_in_def)
  then have "emits \<rho> K (f (adj(i \<mapsto> c))) Q" using f [OF adj_in_upd [OF a], of c] c by (simp add: insert_absorb)
  then show ?thesis using None by (simp add: accum_grad_def ebnd_def eret_def emits_def)
next
  case (Some s)
  then have s: "(s, w i) \<in> K" using a by (simp add: adj_in_def)
  have "emits \<rho> K (put (fp32_meta m) Add [s, c] 0 0) (is_val \<rho> (w i + v))"
    using emits_put2 [OF not_input(1) s c] by (simp add: op_val_def)
  then have "emits \<rho> K (ebnd (put (fp32_meta m) Add [s, c] 0 0) (\<lambda>s. f (adj(i \<mapsto> s)))) Q"
    by (rule emits_bind) (rule f [OF adj_in_upd [OF a]])
  moreover have "ebnd (accum_grad m i c adj) f = ebnd (put (fp32_meta m) Add [s, c] 0 0) (\<lambda>s. f (adj(i \<mapsto> s)))"
    using Some by (simp add: accum_grad_def ebnd_def fun_eq_iff put_eq eret_def)
  ultimately show ?thesis by simp
qed

lemma ebnd_eret: "ebnd m eret = m"
  by (auto simp: ebnd_def eret_def fun_eq_iff bnd_def split: sum.split prod.split)

lemma emits_accum_tail:
  assumes "adj_in w adj K" "(c, v) \<in> K" "w(i := w i + v) = w'"
  shows "emits \<rho> K (accum_grad m i c adj) (adj_post \<rho> w')"
  by (rule emits_accum [OF assms(1,2), where f = eret, unfolded ebnd_eret], rule emits_ret)
    (use assms(3) adj_in_mono in \<open>auto simp: adj_post_def\<close>)

lemma emits_back_ret: "adj_in w adj K \<Longrightarrow> w = w' \<Longrightarrow> emits \<rho> K (eret adj) (adj_post \<rho> w')"
  by (rule emits_ret) (auto simp: adj_post_def intro: adj_in_mono)

lemma ebnd_lift [simp]: "ebnd (elift (Inr x)) f = f x"
  by (simp add: ebnd_def elift_def fun_eq_iff)

lemma max_square [simp]: "max (x * x) 0 = (x * x :: real)"
  by (rule max_absorb1) simp

lemma emits_back_div: "(a, u) \<in> K \<Longrightarrow> (b, v) \<in> K \<Longrightarrow> (dy, y) \<in> K \<Longrightarrow>
    emits \<rho> K (back_div m a b dy) (is_val \<rho> (y * (- u / (v * v + f32 kSafeEps))))"
  unfolding back_div_def Let_def
  by (rule emitter_steps emit_tails not_input insertI1 | assumption | rule insertI2)+ (simp add: op_val_def)

lemma emits_back_scalar_div: "(a, u) \<in> K \<Longrightarrow> (dy, y) \<in> K \<Longrightarrow>
    emits \<rho> K (back_scalar_div m s a dy) (is_val \<rho> (y * (f32 (f32_neg s) / (u * u + f32 kSafeEps))))"
  unfolding back_scalar_div_def Let_def
  by (rule emitter_steps emit_tails not_input insertI1 | assumption | rule insertI2)+ (simp add: op_val_def)

lemma emits_back_relu: "(anchor, w) \<in> K \<Longrightarrow> (a, u) \<in> K \<Longrightarrow> (dy, y) \<in> K \<Longrightarrow>
    emits \<rho> K (back_relu m anchor a dy) (is_val \<rho> (y * of_bool (0 < u)))"
  unfolding back_relu_def Let_def
  by (rule emitter_steps emit_tails not_input insertI1 | assumption | rule insertI2)+ (simp add: op_val_def max_def)

lemma emits_back_abs: "(anchor, w) \<in> K \<Longrightarrow> (a, u) \<in> K \<Longrightarrow> (dy, y) \<in> K \<Longrightarrow>
    emits \<rho> K (back_abs m anchor a dy) (is_val \<rho> (y * sgn u))"
  unfolding back_abs_def Let_def
  by (rule emitter_steps emit_tails not_input insertI1 | assumption | rule insertI2)+ (simp add: op_val_def max_def sgn_real_def)

lemma emits_back_clamp: "(anchor, w) \<in> K \<Longrightarrow> (a, u) \<in> K \<Longrightarrow> (dy, y) \<in> K \<Longrightarrow>
    emits \<rho> K (back_clamp m s t anchor a dy) (is_val \<rho> (y * of_bool (f32 s < u \<and> u < f32 t)))"
  unfolding back_clamp_def Let_def
  by (rule emitter_steps emit_tails not_input insertI1 | assumption | rule insertI2)+ (simp add: op_val_def max_def)

lemma emits_back_sigmoid: "(sg, u) \<in> K \<Longrightarrow> (dy, y) \<in> K \<Longrightarrow> emits \<rho> K (back_sigmoid m sg dy) (is_val \<rho> (y * (u * (1 - u))))"
  unfolding back_sigmoid_def Let_def
  by (rule emitter_steps emit_tails not_input insertI1 | assumption | rule insertI2)+ (simp add: op_val_def)

lemma emits_back_tanh: "(th, u) \<in> K \<Longrightarrow> (dy, y) \<in> K \<Longrightarrow> emits \<rho> K (back_tanh m th dy) (is_val \<rho> (y * (1 - u * u)))"
  unfolding back_tanh_def Let_def
  by (rule emitter_steps emit_tails not_input insertI1 | assumption | rule insertI2)+ (simp add: op_val_def)

lemma emits_back_silu: "(a, u) \<in> K \<Longrightarrow> (dy, y) \<in> K \<Longrightarrow>
    emits \<rho> K (back_silu m a dy) (is_val \<rho> (y * (sigmoid u * (u * (1 - sigmoid u) + 1))))"
  unfolding back_silu_def Let_def
  by (rule emitter_steps emit_tails not_input insertI1 | assumption | rule insertI2)+ (simp add: op_val_def)

lemma emits_back_gelu: "(a, u) \<in> K \<Longrightarrow> (dy, y) \<in> K \<Longrightarrow>
    emits \<rho> K (back_gelu m a dy) (is_val \<rho> (y * hd (op_partials GELU 0 0 [u])))"
  unfolding back_gelu_def Let_def
  by (rule emitter_steps emit_tails not_input insertI1 | assumption | rule insertI2)+ (simp add: op_val_def op_partials_def Let_def)

lemma emits_back_exp: "(a, u) \<in> K \<Longrightarrow> (dy, y) \<in> K \<Longrightarrow> emits \<rho> K (back_exp m a dy) (is_val \<rho> (y * exp (min (max u (- 88)) 88)))"
  unfolding back_exp_def Let_def
  by (rule emitter_steps emit_tails not_input insertI1 | assumption | rule insertI2)+ (simp add: op_val_def)

lemma emits_back_log: "(anchor, w) \<in> K \<Longrightarrow> (a, u) \<in> K \<Longrightarrow> (dy, y) \<in> K \<Longrightarrow>
    emits \<rho> K (back_log m anchor a dy) (is_val \<rho> (y * (of_bool (0 < u) / (u + f32 kSafeEps))))"
  unfolding back_log_def Let_def
  by (rule emitter_steps emit_tails not_input insertI1 | assumption | rule insertI2)+ (simp add: op_val_def max_def)

lemma eps_sum: "0 < u \<Longrightarrow> \<not> u + f32 kSafeEps \<le> 0"
  using f32_eps_pos(1) by linarith

lemma emits_back_sqrt: "(anchor, w) \<in> K \<Longrightarrow> (a, u) \<in> K \<Longrightarrow> (dy, y) \<in> K \<Longrightarrow>
    emits \<rho> K (back_sqrt m anchor a dy) (is_val \<rho> (y * (of_bool (0 < u) / (sqrt (u + f32 kSafeEps) + f32 kSafeEps) / 2)))"
  unfolding back_sqrt_def Let_def
  by (rule emitter_steps emit_tails not_input insertI1 | assumption | rule insertI2)+ (simp add: op_val_def max_def eps_sum)

lemma f32_neg_half [simp]: "f32 (f32_neg f32_half) = - 1 / 2"
  by (simp add: f32_def f32_neg_def f32_literals fp32_abs_def)

lemma emits_back_rsqrt: "(anchor, w) \<in> K \<Longrightarrow> (a, u) \<in> K \<Longrightarrow> (dy, y) \<in> K \<Longrightarrow>
    emits \<rho> K (back_rsqrt m anchor a dy) (is_val \<rho> (y * (- of_bool (0 < u) / sqrt (u + f32 kSafeEps) ^ 3 / 2)))"
  unfolding back_rsqrt_def Let_def
  by (rule emitter_steps emit_tails not_input insertI1 | assumption | rule insertI2)+ (simp add: op_val_def max_def power3_eq_cube)

lemmas back_steps = emitter_steps emits_accum emits_bind [OF emits_back_div] emits_bind [OF emits_back_scalar_div] emits_bind [OF emits_back_relu]
  emits_bind [OF emits_back_abs] emits_bind [OF emits_back_clamp] emits_bind [OF emits_back_sigmoid] emits_bind [OF emits_back_tanh]
  emits_bind [OF emits_back_silu] emits_bind [OF emits_back_gelu] emits_bind [OF emits_back_exp] emits_bind [OF emits_back_log]
  emits_bind [OF emits_back_sqrt] emits_bind [OF emits_back_rsqrt]

text \<open>The three arities; \<open>(s, u)\<close> is the replayed operand, \<open>(r, v)\<close> the replayed node itself.\<close>

lemma accum_into_fun: "accum_into m n k c = (\<lambda>adj. ebnd (elift (operand n k)) (\<lambda>i. accum_grad m i c adj))"
  by (simp add: accum_into_def fun_eq_iff)

lemmas back_node_defs = back_node_def Let_def primal_def accum_into_fun operand_def at_map_def
lemmas partial_defs = op_partials_def op_val_def Let_def

lemmas back_node_eval = back_node_defs TraceOpKind.case bnd_Inr ebnd_lift list.size if_True nth_Cons_0 option.case zero_less_Suc
  nth_Cons_Suc Suc_less_eq One_nat_def numeral_2_eq_2 add_0_right add_Suc_right list.sel

lemma emits_back_node1:
  assumes n: "inputs n = [i]" "arity (op n) = Some 1" and fb: "fb i = Some s" "fb (nid n) = Some r"
    and K: "(s, u) \<in> K" "(r, op_val (op n) (f32 (scalar n)) (f32 (scalar2 n)) [u]) \<in> K" "(anchor, va) \<in> K" "(dy, y) \<in> K" "adj_in w adj K"
  shows "emits \<rho> K (back_node m anchor fb n dy adj) (adj_post \<rho> (w(i := w i + y * hd (op_partials (op n) (scalar n) (scalar2 n) [u]))))"
proof -
  have "op n \<in> {AddScalar, SubScalar, MulScalar, DivScalar, ScalarSub, ScalarDiv, SiLU, GELU, ReLU, Tanh, Sigmoid, Copy, Clamp, Cast, Neg, Exp, Log, Sqrt, Rsqrt, Abs}"
    using n(2) by (cases "op n") (simp_all add: arity_def)
  then show ?thesis
    by (elim insertE emptyE; simp only: back_node_eval n(1) fb)
      ((rule back_steps emits_accum_tail not_input insertI1 K | rule insertI2 adj_in_insert)+, (simp add: partial_defs; fail))+
qed

lemma emits_back_node2:
  assumes n: "inputs n = [i, j]" "arity (op n) = Some 2" and fb: "fb i = Some s" "fb j = Some t"
    and K: "(s, u) \<in> K" "(t, v) \<in> K" "(anchor, va) \<in> K" "(dy, y) \<in> K" "adj_in w adj K"
    and w1: "w1 = w(i := w i + y * op_partials (op n) (scalar n) (scalar2 n) [u, v] ! 0)"
  shows "emits \<rho> K (back_node m anchor fb n dy adj) (adj_post \<rho> (w1(j := w1 j + y * op_partials (op n) (scalar n) (scalar2 n) [u, v] ! 1)))"
proof -
  have "op n \<in> {Add, Sub, Mul, Div}" using n(2) by (cases "op n") (simp_all add: arity_def)
  then show ?thesis
    by (elim insertE emptyE; simp only: back_node_eval n(1) fb w1)
      ((rule back_steps emits_accum_tail not_input insertI1 K | assumption | rule insertI2 adj_in_insert)+, (simp add: partial_defs; fail))+
qed

lemma emits_back_node3:
  assumes n: "inputs n = [i, j, k]" "arity (op n) = Some 3" and fb: "fb i = Some s" "fb j = Some t" "fb k = Some r"
    and K: "(s, u) \<in> K" "(t, v) \<in> K" "(r, x) \<in> K" "(anchor, va) \<in> K" "(dy, y) \<in> K" "adj_in w adj K"
    and w1: "w1 = w(i := w i + y * op_partials (op n) (scalar n) (scalar2 n) [u, v, x] ! 0)"
    and w2: "w2 = w1(j := w1 j + y * op_partials (op n) (scalar n) (scalar2 n) [u, v, x] ! 1)"
  shows "emits \<rho> K (back_node m anchor fb n dy adj) (adj_post \<rho> (w2(k := w2 k + y * op_partials (op n) (scalar n) (scalar2 n) [u, v, x] ! 2)))"
proof -
  have "op n \<in> {FMA, Modulate, Where}" using n(2) by (cases "op n") (simp_all add: arity_def)
  then show ?thesis
    by (elim insertE emptyE; simp only: back_node_eval n(1) fb w1 w2)
      ((rule back_steps emits_accum_tail not_input insertI1 K | assumption | rule insertI2 adj_in_insert)+, (simp add: partial_defs; fail))+
qed

lemma length_partials: "arity k = Some l \<Longrightarrow> length (op_partials k s t vs) = l"
  by (cases k) (simp_all add: arity_def op_partials_def Let_def)

lemma emits_back_node:
  assumes ar: "arity (op n) = Some (length (inputs n))" and len: "length vs = length (inputs n)"
    and fb: "\<And>k. k < length vs \<Longrightarrow> \<exists>s. fb (inputs n ! k) = Some s \<and> (s, vs ! k) \<in> K"
    and own: "fb (nid n) = Some r" "(r, op_val (op n) (f32 (scalar n)) (f32 (scalar2 n)) vs) \<in> K \<or> inputs n = []"
    and K: "(anchor, va) \<in> K" "(dy, y) \<in> K" "adj_in w adj K"
  shows "emits \<rho> K (back_node m anchor fb n dy adj)
    (adj_post \<rho> (scatter w (zip (inputs n) (map ((*) y) (op_partials (op n) (scalar n) (scalar2 n) vs)))))"
proof -
  let ?p = "op_partials (op n) (scalar n) (scalar2 n) vs"
  have lp: "length ?p = length (inputs n)" by (rule length_partials [OF ar])
  have "length (inputs n) = 0 \<or> length (inputs n) = 1 \<or> length (inputs n) = 2 \<or> length (inputs n) = 3"
    using ar by (auto simp: arity_def split: TraceOpKind.splits)
  then consider (zero) "inputs n = []" | (one) i where "inputs n = [i]" | (two) i j where "inputs n = [i, j]" | (three) i j k where "inputs n = [i, j, k]"
    by (auto simp: length_Suc_conv numeral_eq_Suc)
  then show ?thesis
  proof cases
    case zero
    then have "op n = Input \<or> op n = Const" using ar by (auto simp: arity_def split: TraceOpKind.splits)
    then show ?thesis using emits_back_ret [OF K(3) refl] zero by (auto simp: back_node_def scatter_def)
  next
    case (one i)
    then obtain u s where vs: "vs = [u]" and s: "fb i = Some s" "(s, u) \<in> K" using len fb [of 0] by (auto simp: length_Suc_conv)
    have ow: "(r, op_val (op n) (f32 (scalar n)) (f32 (scalar2 n)) [u]) \<in> K" using own(2) one vs by simp
    obtain p where p: "?p = [p]" using lp one by (auto simp: length_Suc_conv)
    show ?thesis using emits_back_node1 [OF one _ s(1) own(1) s(2) ow K] ar p one vs by (simp add: scatter_def)
  next
    case (two i j)
    then obtain u v where vs: "vs = [u, v]" using len by (auto simp: length_Suc_conv)
    then obtain s t where s: "fb i = Some s" "fb j = Some t" "(s, u) \<in> K" "(t, v) \<in> K" using two fb [of 0] fb [of 1] by auto
    obtain p q where p: "?p = [p, q]" using lp two by (auto simp: length_Suc_conv)
    show ?thesis using emits_back_node2 [OF two _ s K refl] ar p two vs by (simp add: scatter_def numeral_2_eq_2 del: fun_upd_apply)
  next
    case (three i j k)
    then obtain u v x where vs: "vs = [u, v, x]" using len by (auto simp: length_Suc_conv)
    then obtain s t z where s: "fb i = Some s" "fb j = Some t" "fb k = Some z" "(s, u) \<in> K" "(t, v) \<in> K" "(z, x) \<in> K"
      using three fb [of 0] fb [of 1] fb [of 2] by auto
    obtain p q o' where p: "?p = [p, q, o']" using lp three by (auto simp: length_Suc_conv)
    show ?thesis using emits_back_node3 [OF three _ s K refl refl] ar p three vs by (simp add: scatter_def numeral_3_eq_3 numeral_2_eq_2 del: fun_upd_apply)
  qed
qed

text \<open>In sums against any weights, scattering adds the scattered terms.\<close>

lemma sum_scatter:
  fixes d :: "int \<Rightarrow> real"
  assumes "finite S" "length is = length cs" "set is \<subseteq> S"
  shows "(\<Sum>j\<in>S. scatter w (zip is cs) j * d j) = (\<Sum>j\<in>S. w j * d j) + (\<Sum>k < length is. cs ! k * d (is ! k))"
  using assms(2,3)
proof (induction "is" cs arbitrary: w rule: list_induct2)
  case Nil
  then show ?case by (simp add: scatter_def)
next
  case (Cons i "is" c cs)
  have "(\<Sum>j\<in>S. (w(i := w i + c)) j * d j) = (\<Sum>j\<in>S. w j * d j + (if j = i then c * d i else 0))"
    by (rule sum.cong) (simp_all add: distrib_right)
  also have "\<dots> = (\<Sum>j\<in>S. w j * d j) + c * d i" using Cons.prems assms(1) by (simp add: sum.distrib)
  finally have u: "(\<Sum>j\<in>S. (w(i := w i + c)) j * d j) = (\<Sum>j\<in>S. w j * d j) + c * d i" .
  have "(\<Sum>j\<in>S. scatter w (zip (i # is) (c # cs)) j * d j) = (\<Sum>j\<in>S. scatter (w(i := w i + c)) (zip is cs) j * d j)"
    by (simp add: scatter_def)
  then show ?case using Cons.IH [of "w(i := w i + c)"] Cons.prems u by (simp add: sum.lessThan_Suc_shift del: sum.lessThan_Suc fun_upd_apply)
qed

lemma scatter_other: "j \<notin> set is \<Longrightarrow> scatter w (zip is cs) j = w j"
  unfolding scatter_def
proof (induction "is" arbitrary: cs w)
  case (Cons i "is")
  then show ?case by (cases cs) auto
qed simp

end
