(* ===== verification/AutodiffProps.thy ===== *)
theory AutodiffProps
  imports Autodiff
begin

text \<open>
  Correctness of reverse-mode differentiation: the graph that \<^verbatim>\<open>backward\<close> builds computes the transposed Jacobian of the traced
  expression, and, where the operators are differentiable and the guards of the code are exact, its gradient.
\<close>

section \<open>Values and tangents of the nodes\<close>

definition elementwise :: "TraceNode list \<Rightarrow> bool" where
  "elementwise ns \<longleftrightarrow> (\<forall>n\<in>set ns. arity (op n) = Some (length (inputs n)))"

definition operand_vals :: "(nat \<Rightarrow> real) \<Rightarrow> TraceNode list \<Rightarrow> TraceNode \<Rightarrow> real list" where
  "operand_vals \<rho> ns n = map (\<lambda>i. lane_vals \<rho> ns ! nat i) (inputs n)"

definition node_partials :: "(nat \<Rightarrow> real) \<Rightarrow> TraceNode list \<Rightarrow> TraceNode \<Rightarrow> real list" where
  "node_partials \<rho> ns n = op_partials (op n) (scalar n) (scalar2 n) (operand_vals \<rho> ns n)"

text \<open>\<open>d\<close> carries the tangents \<open>\<delta>\<close> of the inputs forward through the graph, with the factors of the reverse sweep.\<close>

definition tangents :: "(nat \<Rightarrow> real) \<Rightarrow> (nat \<Rightarrow> real) \<Rightarrow> TraceNode list \<Rightarrow> (int \<Rightarrow> real) \<Rightarrow> bool" where
  "tangents \<rho> \<delta> ns d \<longleftrightarrow> (\<forall>i < length ns. d (int i) = (if op (ns ! i) = Input then \<delta> (input_count (take i ns))
     else \<Sum>k < length (inputs (ns ! i)). node_partials \<rho> ns (ns ! i) ! k * d (inputs (ns ! i) ! k)))"

lemma wf_inputs: "nodes_wf ns \<Longrightarrow> i < length ns \<Longrightarrow> j \<in> set (inputs (ns ! i)) \<Longrightarrow> 0 \<le> j \<and> j < int i"
  by (auto simp: nodes_wf_def node_wf_def)

lemma wf_inputs_nat: "nodes_wf ns \<Longrightarrow> i < length ns \<Longrightarrow> j \<in> set (inputs (ns ! i)) \<Longrightarrow> nat j < i"
  using wf_inputs [of ns i j] by linarith

lemma wf_nid: "nodes_wf ns \<Longrightarrow> i < length ns \<Longrightarrow> nid (ns ! i) = int i"
  by (auto simp: nodes_wf_def node_wf_def)

lemma wf_take: "nodes_wf ns \<Longrightarrow> nodes_wf (take i ns)"
  by (auto simp: nodes_wf_def)

lemma lane_vals_take: "j < i \<Longrightarrow> i \<le> length ns \<Longrightarrow> lane_vals \<rho> (take i ns) ! j = lane_vals \<rho> ns ! j"
  using lane_vals_keep [of j "take i ns" \<rho> "drop i ns"] by simp

lemma lane_vals_op:
  assumes "nodes_wf ns" "i < length ns" "op (ns ! i) \<noteq> Input"
  shows "lane_vals \<rho> ns ! i = op_val (op (ns ! i)) (f32 (scalar (ns ! i))) (f32 (scalar2 (ns ! i))) (operand_vals \<rho> ns (ns ! i))"
proof -
  have "map (\<lambda>j. lane_vals \<rho> (take i ns) ! nat j) (inputs (ns ! i)) = operand_vals \<rho> ns (ns ! i)"
    unfolding operand_vals_def using wf_inputs_nat [OF assms(1,2)] assms(2) by (intro map_cong refl lane_vals_take) auto
  then show ?thesis using assms(2,3) by (simp add: lane_vals_nth node_val_def)
qed

lemma lane_vals_input: "i < length ns \<Longrightarrow> op (ns ! i) = Input \<Longrightarrow> lane_vals \<rho> ns ! i = \<rho> (input_count (take i ns))"
  by (simp add: lane_vals_nth node_val_def)

section \<open>The reverse sweep\<close>

definition replayed :: "(nat \<Rightarrow> real) \<Rightarrow> TraceNode list \<Rightarrow> nat \<Rightarrow> (int \<rightharpoonup> int) \<Rightarrow> (int \<times> real) set \<Rightarrow> bool" where
  "replayed \<rho> ns j fb K \<longleftrightarrow> (\<forall>i < length ns. i < j \<or> op (ns ! i) = Input \<longrightarrow> (\<exists>s. fb (int i) = Some s \<and> (s, lane_vals \<rho> ns ! i) \<in> K))"

lemma replayed_mono: "replayed \<rho> ns j fb K \<Longrightarrow> K \<subseteq> K' \<Longrightarrow> replayed \<rho> ns j fb K'"
  unfolding replayed_def by blast

lemma at_all_replayed:
  assumes "replayed \<rho> ns j fb K" "j \<le> length ns" "\<And>i. i \<in> set is \<Longrightarrow> 0 \<le> i \<and> i < int j"
  shows "\<exists>ss. at_all fb is = Inr ss \<and> list_all2 (\<lambda>s v. (s, v) \<in> K) ss (map (\<lambda>i. lane_vals \<rho> ns ! nat i) is)"
  using assms(3)
proof (induction "is")
  case (Cons i "is")
  from Cons.prems [of i] have "nat i < j" "0 \<le> i" by auto
  then obtain s where "fb i = Some s" "(s, lane_vals \<rho> ns ! nat i) \<in> K"
    using assms(1,2) unfolding replayed_def by (metis int_nat_eq le_trans not_less order_less_le_trans)
  then show ?case using Cons by (auto simp: at_map_def)
qed simp

lemma emits_replay:
  assumes wf: "nodes_wf ns" and j: "j \<le> length ns" and r: "replayed \<rho> ns j fb K"
  shows "emits \<rho> K (replay (drop j ns) fb) (\<lambda>fb g. replayed \<rho> ns (length ns) fb (facts \<rho> g))"
  using j r
proof (induction "length ns - j" arbitrary: j fb K)
  case 0
  then have "drop j ns = []" "j = length ns" by simp_all
  then show ?case using 0 by (simp add: emits_ret replayed_mono)
next
  case (Suc l)
  then have j: "j < length ns" by simp
  then have dr: "drop j ns = ns ! j # drop (Suc j) ns" by (simp add: Cons_nth_drop_Suc)
  show ?case
  proof (cases "op (ns ! j) = Input")
    case True
    then have "replayed \<rho> ns (Suc j) fb K" using Suc.prems(2) unfolding replayed_def by (metis less_Suc_eq)
    from Suc.hyps(1) [OF _ _ this] show ?thesis using True Suc.hyps(2) j by (simp add: dr)
  next
    case False
    obtain ss where ss: "at_all fb (inputs (ns ! j)) = Inr ss" "list_all2 (\<lambda>s v. (s, v) \<in> K) ss (operand_vals \<rho> ns (ns ! j))"
      using at_all_replayed [OF Suc.prems(2,1)] wf_inputs [OF wf j] unfolding operand_vals_def by blast
    have put: "emits \<rho> K (put (fp32_meta (node_meta (ns ! j))) (op (ns ! j)) ss (scalar (ns ! j)) (scalar2 (ns ! j))) (is_val \<rho> (lane_vals \<rho> ns ! j))"
      using emits_put [OF False ss(2)] by (simp add: lane_vals_op [OF wf j False])
    have step: "replayed \<rho> ns (Suc j) (fb(int j \<mapsto> x)) (insert (x, lane_vals \<rho> ns ! j) K)" for x
      using Suc.prems(2) unfolding replayed_def by (auto simp: less_Suc_eq)
    have "emits \<rho> K (ebnd (put (fp32_meta (node_meta (ns ! j))) (op (ns ! j)) ss (scalar (ns ! j)) (scalar2 (ns ! j)))
        (\<lambda>bid. replay (drop (Suc j) ns) (fb(int j \<mapsto> bid)))) (\<lambda>fb g. replayed \<rho> ns (length ns) fb (facts \<rho> g))"
      by (rule emits_bind [OF put], rule Suc.hyps(1) [OF _ _ step]) (use Suc.hyps(2) j in simp_all)
    then show ?thesis using False ss(1) by (simp add: dr wf_nid [OF wf j])
  qed
qed

text \<open>
  The adjoints against the tangents: over the nodes before \<open>j\<close>, which the sweep has not reached, and all inputs, this sum never
  changes.
\<close>

definition unswept :: "TraceNode list \<Rightarrow> nat \<Rightarrow> int set" where
  "unswept ns j = {i. 0 \<le> i \<and> i < int (length ns) \<and> (i < int j \<or> op (ns ! nat i) = Input)}"

definition pairing :: "TraceNode list \<Rightarrow> nat \<Rightarrow> (int \<Rightarrow> real) \<Rightarrow> (int \<Rightarrow> real) \<Rightarrow> real" where
  "pairing ns j w d = (\<Sum>i\<in>unswept ns j. w i * d i)"

lemma finite_unswept [simp]: "finite (unswept ns j)"
  by (rule finite_subset [of _ "{0..<int (length ns)}"]) (auto simp: unswept_def)

lemma unswept_Suc:
  assumes "j < length ns"
  shows "unswept ns (Suc j) = insert (int j) (unswept ns j)" "int j \<in> unswept ns j \<longleftrightarrow> op (ns ! j) = Input"
  using assms by (auto simp: unswept_def)

lemma pairing_skip: "j < length ns \<Longrightarrow> w (int j) = 0 \<Longrightarrow> pairing ns (Suc j) w d = pairing ns j w d"
  by (simp add: pairing_def unswept_Suc(1) sum.insert_if)

lemma pairing_step:
  assumes wf: "nodes_wf ns" and el: "elementwise ns" and j: "j < length ns" and d: "tangents \<rho> \<delta> ns d"
  shows "pairing ns j (scatter w (zip (inputs (ns ! j)) (map ((*) (w (int j))) (node_partials \<rho> ns (ns ! j))))) d = pairing ns (Suc j) w d"
proof -
  let ?n = "ns ! j" and ?p = "node_partials \<rho> ns (ns ! j)"
  have ar: "arity (op ?n) = Some (length (inputs ?n))" using el j by (simp add: elementwise_def)
  then have lp: "length ?p = length (inputs ?n)" unfolding node_partials_def by (rule length_partials)
  have sub: "set (inputs ?n) \<subseteq> unswept ns j" using wf_inputs [OF wf j] j by (force simp: unswept_def)
  have e: "pairing ns j (scatter w (zip (inputs ?n) (map ((*) (w (int j))) ?p))) d
      = pairing ns j w d + (\<Sum>k < length (inputs ?n). map ((*) (w (int j))) ?p ! k * d (inputs ?n ! k))"
    unfolding pairing_def using lp sub by (intro sum_scatter) simp_all
  also have "(\<Sum>k < length (inputs ?n). map ((*) (w (int j))) ?p ! k * d (inputs ?n ! k)) = w (int j) * (\<Sum>k < length (inputs ?n). ?p ! k * d (inputs ?n ! k))"
    unfolding sum_distrib_left using lp by (intro sum.cong) simp_all
  also have "pairing ns j w d + \<dots> = pairing ns (Suc j) w d"
  proof (cases "op ?n = Input")
    case True
    then have "inputs ?n = []" using ar by (simp add: arity_def)
    then show ?thesis using unswept_Suc [OF j] True by (simp add: pairing_def insert_absorb)
  next
    case False
    then have "d (int j) = (\<Sum>k < length (inputs ?n). ?p ! k * d (inputs ?n ! k))" using d j by (simp add: tangents_def)
    then show ?thesis using unswept_Suc [OF j] False by (simp add: pairing_def)
  qed
  finally show ?thesis .
qed

lemma emits_back_loop:
  assumes wf: "nodes_wf ns" and el: "elementwise ns"
    and "j \<le> length ns" "replayed \<rho> ns (length ns) fb K" "(anchor, va) \<in> K" "adj_in w adj K"
  shows "emits \<rho> K (back_loop m anchor fb (rev (take j ns)) adj)
    (\<lambda>adj g. \<exists>w'. adj_in w' adj (facts \<rho> g) \<and> (\<forall>\<delta> d. tangents \<rho> \<delta> ns d \<longrightarrow> pairing ns 0 w' d = pairing ns j w d))"
  using assms(3-)
proof (induction j arbitrary: K adj w)
  case 0
  show ?case by (simp, rule emits_ret, rule exI [of _ w]) (use 0 adj_in_mono in blast)
next
  case (Suc j)
  then have j: "j < length ns" by simp
  then have tk: "rev (take (Suc j) ns) = ns ! j # rev (take j ns)" by (simp add: take_Suc_conv_app_nth)
  show ?case
  proof (cases "adj (int j)")
    case None
    then have "w (int j) = 0" using Suc.prems(4) by (simp add: adj_in_def)
    then show ?thesis using Suc.IH [OF _ Suc.prems(2-)] j None by (simp add: tk wf_nid [OF wf j] pairing_skip)
  next
    case (Some dy)
    let ?n = "ns ! j"
    let ?w = "scatter w (zip (inputs ?n) (map ((*) (w (int j))) (node_partials \<rho> ns ?n)))"
    have dy: "(dy, w (int j)) \<in> K" using Suc.prems(4) Some by (simp add: adj_in_def)
    have ar: "arity (op ?n) = Some (length (inputs ?n))" using el j by (simp add: elementwise_def)
    have fb: "\<exists>s. fb (inputs ?n ! k) = Some s \<and> (s, operand_vals \<rho> ns ?n ! k) \<in> K" if "k < length (operand_vals \<rho> ns ?n)" for k
    proof -
      have k: "k < length (inputs ?n)" using that by (simp add: operand_vals_def)
      then have "0 \<le> inputs ?n ! k \<and> inputs ?n ! k < int j" using wf_inputs [OF wf j] by simp
      then have "nat (inputs ?n ! k) < length ns" "int (nat (inputs ?n ! k)) = inputs ?n ! k" using j by auto
      then obtain s where "fb (inputs ?n ! k) = Some s" "(s, lane_vals \<rho> ns ! nat (inputs ?n ! k)) \<in> K"
        using Suc.prems(2) unfolding replayed_def by metis
      then show ?thesis using k by (simp add: operand_vals_def)
    qed
    obtain r where r: "fb (nid ?n) = Some r" "(r, lane_vals \<rho> ns ! j) \<in> K" using Suc.prems(2) j wf_nid [OF wf j] unfolding replayed_def by metis
    have own: "(r, op_val (op ?n) (f32 (scalar ?n)) (f32 (scalar2 ?n)) (operand_vals \<rho> ns ?n)) \<in> K \<or> inputs ?n = []"
      using r(2) lane_vals_op [OF wf j] ar by (cases "op ?n = Input") (simp_all add: arity_def)
    have bn: "emits \<rho> K (back_node m anchor fb ?n dy adj) (adj_post \<rho> ?w)"
      unfolding node_partials_def by (rule emits_back_node [OF ar _ fb r(1) own Suc.prems(3) dy Suc.prems(4)]) (simp_all add: operand_vals_def)
    have "emits \<rho> K (ebnd (back_node m anchor fb ?n dy adj) (back_loop m anchor fb (rev (take j ns))))
        (\<lambda>adj g. \<exists>w'. adj_in w' adj (facts \<rho> g) \<and> (\<forall>\<delta> d. tangents \<rho> \<delta> ns d \<longrightarrow> pairing ns 0 w' d = pairing ns j ?w d))"
    proof (rule emits_bind_gen [OF bn])
      fix adj' g assume a: "adj_post \<rho> ?w adj' g" and K: "K \<subseteq> facts \<rho> g"
      have "emits \<rho> (facts \<rho> g) (back_loop m anchor fb (rev (take j ns)) adj')
          (\<lambda>adj g. \<exists>w'. adj_in w' adj (facts \<rho> g) \<and> (\<forall>\<delta> d. tangents \<rho> \<delta> ns d \<longrightarrow> pairing ns 0 w' d = pairing ns j ?w d))"
        by (rule Suc.IH) (use j K Suc.prems(2,3) a replayed_mono in \<open>auto simp: adj_post_def\<close>)
      then show "\<exists>K' \<subseteq> facts \<rho> g. emits \<rho> K' (back_loop m anchor fb (rev (take j ns)) adj')
          (\<lambda>adj g. \<exists>w'. adj_in w' adj (facts \<rho> g) \<and> (\<forall>\<delta> d. tangents \<rho> \<delta> ns d \<longrightarrow> pairing ns 0 w' d = pairing ns j ?w d))" by blast
    qed
    moreover have "pairing ns j ?w d = pairing ns (Suc j) w d" if "tangents \<rho> \<delta> ns d" for \<delta> d
      by (rule pairing_step [OF wf el j that])
    ultimately show ?thesis using Some by (simp add: tk wf_nid [OF wf j] cong: imp_cong)
  qed
qed

section \<open>Inputs, seeds and outputs\<close>

lemma copy_inputs_append: "copy_inputs (ns @ ms) fi g = (case copy_inputs ns fi g of (fi', g') \<Rightarrow> copy_inputs ms fi' g')"
  by (induction ns fi g rule: copy_inputs.induct) (auto split: prod.split)

text \<open>The copied graph has one input node for each input, in order, and \<open>fb\<close> names them.\<close>

definition copied :: "TraceNode list \<Rightarrow> (int \<rightharpoonup> int) \<Rightarrow> int list \<Rightarrow> TraceDAG \<Rightarrow> bool" where
  "copied ns fb ids g \<longleftrightarrow> nodes_wf (nodes g) \<and> length (nodes g) = input_count ns \<and> (\<forall>n\<in>set (nodes g). op n = Input \<and> inputs n = [])
     \<and> length ids = input_count ns
     \<and> (\<forall>i < length ns. op (ns ! i) = Input \<longrightarrow> ids ! input_count (take i ns) = int i \<and> fb (int i) = Some (int (input_count (take i ns))))"

lemma count_take_less: "i < length ns \<Longrightarrow> op (ns ! i) = Input \<Longrightarrow> input_count (take i ns) < input_count ns"
proof -
  assume i: "i < length ns" "op (ns ! i) = Input"
  have "input_count (take i ns @ ns ! i # drop (Suc i) ns) = input_count (take i ns) + (1 + input_count (drop (Suc i) ns))" using i by simp
  then show ?thesis using i by (simp only: id_take_nth_drop [symmetric])
qed

lemma copy_inputs_copied:
  assumes "nodes_wf ns" and "copy_inputs ns (Map.empty, []) empty_dag = ((fb, ids), g)"
  shows "copied ns fb ids g"
  using assms
proof (induction ns arbitrary: fb ids g rule: rev_induct)
  case Nil
  then show ?case by (auto simp: copied_def empty_dag_def)
next
  case (snoc n ns)
  obtain fb' ids' g' where c: "copy_inputs ns (Map.empty, []) empty_dag = ((fb', ids'), g')" by (metis prod.exhaust)
  have wf: "nodes_wf ns" "nid n = int (length ns)" using snoc.prems(1) by (simp_all add: node_wf_def)
  note ih = snoc.IH [OF wf(1) c, unfolded copied_def]
  show ?case
  proof (cases "op n = Input")
    case False
    then show ?thesis using ih c snoc.prems(2) by (auto simp: copied_def copy_inputs_append nth_append)
  next
    case True
    then have e: "fb = fb'(int (length ns) \<mapsto> int (input_count ns))" "ids = ids' @ [int (length ns)]"
      and g: "nodes g = nodes g' @ [default_node\<lparr>nid := int (input_count ns), op := Input, inputs := [], scalar := 0, scalar2 := 0, buffer := buffer n,
        n_device := n_device n, n_dtype := FP32, n_rows := n_rows n, n_cols := n_cols n\<rparr>]"
      using snoc.prems(2) ih c wf(2) by (auto simp: copy_inputs_append add_node_def push_node_def Let_def)
    show ?thesis unfolding copied_def
    proof (intro conjI allI impI)
      fix i assume i: "i < length (ns @ [n])" "op ((ns @ [n]) ! i) = Input"
      show "ids ! input_count (take i (ns @ [n])) = int i" "fb (int i) = Some (int (input_count (take i (ns @ [n]))))"
        using i ih count_take_less [of i ns] by (auto simp: e nth_append less_Suc_eq)
    qed (use ih g True e in \<open>auto simp: node_wf_def default_node_def\<close>)
  qed
qed

lemma copied_vals: "copied ns fb ids g \<Longrightarrow> lane_vals \<rho> (nodes g) = map \<rho> [0..<input_count ns]"
proof -
  assume c: "copied ns fb ids g"
  have "lane_vals \<rho> ms = map \<rho> [0..<length ms]" if "\<forall>n\<in>set ms. op n = Input" for ms
    using that
  proof (induction ms rule: rev_induct)
    case (snoc m ms)
    then have "input_count ms = length ms" by (simp add: input_count_def)
    then show ?case using snoc by (simp add: node_val_def)
  qed simp
  from this [of "nodes g"] show ?thesis using c by (simp add: copied_def)
qed

lemma copied_fact:
  assumes c: "copied ns fb ids g" and w: "nodes g' = nodes g @ ms" and i: "i < length ns" "op (ns ! i) = Input"
  shows "(int (input_count (take i ns)), lane_vals \<rho> ns ! i) \<in> facts \<rho> g'"
  using count_take_less [OF i] c w copied_vals [OF c, of \<rho>]
  by (auto simp: facts_def valid_slot_def lane_vals_keep lane_vals_input [OF i] copied_def)

text \<open>The seeds: the live nodes, or the last node when there is none.\<close>

definition seeds :: "TraceNode list \<Rightarrow> nat set" where
  "seeds ns = (if list_ex is_live_at_end ns then {i. i < length ns \<and> is_live_at_end (ns ! i)} else {length ns - 1})"

lemma seed_fold:
  "foldl (\<lambda>adj n. if is_live_at_end n then adj(nid n \<mapsto> s) else adj) adj ns i = (if \<exists>n\<in>set ns. is_live_at_end n \<and> nid n = i then Some s else adj i)"
  by (induction ns arbitrary: adj) auto

lemma seed_adj_eq:
  assumes "nodes_wf ns" "ns \<noteq> []"
  shows "seed_adj ns s i = (if 0 \<le> i \<and> nat i \<in> seeds ns then Some s else None)"
proof -
  let ?P = "\<exists>n\<in>set ns. is_live_at_end n \<and> nid n = i"
  have ex: "list_ex is_live_at_end ns \<longleftrightarrow> (\<exists>n\<in>set ns. is_live_at_end n)" by (simp add: list_ex_iff)
  have p: "?P \<longleftrightarrow> (\<exists>k < length ns. is_live_at_end (ns ! k) \<and> int k = i)"
    using wf_nid [OF assms(1)] by (metis in_set_conv_nth)
  have l: "nid (last ns) = int (length ns - 1)" using wf_nid [OF assms(1), of "length ns - 1"] assms(2) by (simp add: last_conv_nth)
  show ?thesis
  proof (cases "list_ex is_live_at_end ns")
    case True
    then have "seed_adj ns s i = (if ?P then Some s else None)" by (simp only: seed_adj_def Let_def seed_fold if_True)
    moreover have "?P \<longleftrightarrow> 0 \<le> i \<and> nat i \<in> seeds ns" unfolding p using True by (auto simp: seeds_def)
    ultimately show ?thesis by simp
  next
    case False
    then have n: "\<not> ?P" using ex by blast
    have "seed_adj ns s i = (if i = int (length ns - 1) then Some s else None)"
      using False n l by (auto simp: seed_adj_def Let_def seed_fold)
    moreover have "i = int (length ns - 1) \<longleftrightarrow> 0 \<le> i \<and> nat i \<in> seeds ns" using False by (auto simp: seeds_def)
    ultimately show ?thesis by simp
  qed
qed

text \<open>Each output is the node emitted last, so the outputs come in the order they were asked for.\<close>

lemma out_slot_ok:
  assumes "adj_in w adj (facts \<rho> g)" "(anchor, va) \<in> facts \<rho> g" "nodes_wf (nodes g)"
  shows "\<exists>x g'. out_slot m anchor adj i g = Inr (x, g') \<and> grown g g' \<and> (x, w i) \<in> facts \<rho> g'
    \<and> int (length (nodes g)) \<le> x \<and> x < int (length (nodes g'))"
proof -
  have "emits \<rho> (facts \<rho> g) (case adj i of Some a \<Rightarrow> eret a | None \<Rightarrow> emit_const anchor 0 m) (is_val \<rho> (w i))"
  proof (cases "adj i")
    case None
    then show ?thesis using emits_const [OF assms(2), where val = 0 and m = m] assms(1) by (simp add: adj_in_def)
  next
    case (Some a)
    then show ?thesis using assms(1) by (simp add: adj_in_def emits_ret_val)
  qed
  then obtain a h where h: "(case adj i of Some a \<Rightarrow> eret a | None \<Rightarrow> emit_const anchor 0 m) g = Inr (a, h)" "grown g h" "(a, w i) \<in> facts \<rho> h"
    using assms(3) by (force simp: emits_def is_val_def)
  have "emits \<rho> {(a, w i)} (put (fp32_meta m) Copy [a] 0 0) (is_val \<rho> (w i))"
    using emits_put1 [of Copy a "w i" "{(a, w i)}"] by (simp add: op_val_def)
  then obtain x g' where x: "put (fp32_meta m) Copy [a] 0 0 h = Inr (x, g')" "grown h g'" "(x, w i) \<in> facts \<rho> g'"
    using h(2,3) assms(3) by (force simp: emits_def is_val_def grown_def)
  have "x = int (length (nodes h))" "length (nodes g') = Suc (length (nodes h))" using x(1) by (auto simp: put_eq)
  moreover have "length (nodes g) \<le> length (nodes h)" using h(2) by (auto simp: grown_def)
  ultimately show ?thesis using h x grown_trans [OF h(2) x(2)] by (auto simp: out_slot_def ebnd_def)
qed

lemma emap_out_ok:
  assumes "adj_in w adj (facts \<rho> g)" "(anchor, va) \<in> facts \<rho> g" "nodes_wf (nodes g)"
  shows "\<exists>xs g'. emap (out_slot m anchor adj) is g = Inr (xs, g') \<and> grown g g' \<and> list_all2 (\<lambda>x i. (x, w i) \<in> facts \<rho> g') xs is
    \<and> sorted_wrt (<) xs \<and> (\<forall>x\<in>set xs. int (length (nodes g)) \<le> x \<and> x < int (length (nodes g')))"
  using assms
proof (induction "is" arbitrary: g)
  case Nil
  then show ?case by (auto simp: eret_def)
next
  case (Cons i "is")
  obtain x h where x: "out_slot m anchor adj i g = Inr (x, h)" "grown g h" "(x, w i) \<in> facts \<rho> h" "int (length (nodes g)) \<le> x" "x < int (length (nodes h))"
    using out_slot_ok [OF Cons.prems] by blast
  then have "adj_in w adj (facts \<rho> h)" "(anchor, va) \<in> facts \<rho> h" "nodes_wf (nodes h)"
    using Cons.prems facts_grown adj_in_mono by (blast, blast, simp add: grown_def)
  from Cons.IH [OF this] obtain xs g' where xs: "emap (out_slot m anchor adj) is h = Inr (xs, g')" "grown h g'"
    "list_all2 (\<lambda>x i. (x, w i) \<in> facts \<rho> g') xs is" "sorted_wrt (<) xs" "\<forall>x\<in>set xs. int (length (nodes h)) \<le> x \<and> x < int (length (nodes g'))" by blast
  have "(x, w i) \<in> facts \<rho> g'" using x(3) facts_grown [OF xs(2)] by blast
  moreover have "length (nodes h) \<le> length (nodes g')" "length (nodes g) \<le> length (nodes h)" using xs(2) x(2) by (auto simp: grown_def)
  ultimately show ?case using x xs grown_trans [OF x(2) xs(2)] by (fastforce simp: ebnd_def eret_def)
qed

text \<open>The inputs of the graph, paired with their tangents in order.\<close>

lemma input_positions: "input_count ns = card {i. i < length ns \<and> op (ns ! i) = Input}"
  by (simp add: input_count_def length_filter_conv_card)

lemma count_take_mono: "i < j \<Longrightarrow> j \<le> length ns \<Longrightarrow> op (ns ! i) = Input \<Longrightarrow> input_count (take i ns) < input_count (take j ns)"
  using count_take_less [of i "take j ns"] by (simp add: min_def)

lemma unswept_image: "unswept ns j = int ` {i. i < length ns \<and> (i < j \<or> op (ns ! i) = Input)}"
proof (rule set_eqI)
  fix i
  show "i \<in> unswept ns j \<longleftrightarrow> i \<in> int ` {i. i < length ns \<and> (i < j \<or> op (ns ! i) = Input)}"
    by (cases i rule: int_cases2) (auto simp: unswept_def image_iff)
qed

lemma input_index:
  "inj_on (\<lambda>i. input_count (take i ns)) {i. i < length ns \<and> op (ns ! i) = Input}" (is "inj_on ?h ?P")
  "(\<lambda>i. input_count (take i ns)) ` {i. i < length ns \<and> op (ns ! i) = Input} = {..<input_count ns}"
proof -
  show inj: "inj_on ?h ?P" by (rule inj_onI) (metis (mono_tags, lifting) count_take_mono less_imp_le linorder_neqE_nat mem_Collect_eq less_irrefl)
  have "?h ` ?P \<subseteq> {..<input_count ns}" using count_take_less by auto
  moreover have "card (?h ` ?P) = card {..<input_count ns}" unfolding card_image [OF inj] by (simp add: input_positions)
  ultimately show "?h ` ?P = {..<input_count ns}" by (intro card_subset_eq) simp_all
qed

lemma pairing_inputs:
  assumes c: "copied ns fb ids g" and d: "tangents \<rho> \<delta> ns d"
  shows "pairing ns 0 w d = (\<Sum>k < input_count ns. w (ids ! k) * \<delta> k)"
proof -
  let ?P = "{i. i < length ns \<and> op (ns ! i) = Input}" and ?h = "\<lambda>i. input_count (take i ns)"
  have "pairing ns 0 w d = (\<Sum>i\<in>?P. w (int i) * d (int i))" unfolding pairing_def unswept_image by (subst sum.reindex) (auto simp: comp_def)
  also have "\<dots> = (\<Sum>i\<in>?P. w (ids ! ?h i) * \<delta> (?h i))"
    using c d by (intro sum.cong) (auto simp: copied_def tangents_def)
  also have "\<dots> = (\<Sum>k\<in>?h ` ?P. w (ids ! k) * \<delta> k)" using input_index(1) [of ns] by (simp add: sum.reindex comp_def)
  finally show ?thesis by (simp only: input_index(2))
qed

lemma pairing_seeds:
  assumes "ns \<noteq> []" "\<And>i. w i = (if 0 \<le> i \<and> nat i \<in> seeds ns then y else 0)"
  shows "pairing ns (length ns) w d = y * (\<Sum>i\<in>seeds ns. d (int i))"
proof -
  have s: "seeds ns \<subseteq> {..<length ns}" using assms(1) by (auto simp: seeds_def)
  have "unswept ns (length ns) = int ` {..<length ns}" by (auto simp: unswept_image)
  then have "pairing ns (length ns) w d = (\<Sum>i<length ns. w (int i) * d (int i))" by (simp add: pairing_def sum.reindex comp_def)
  also have "\<dots> = (\<Sum>i<length ns. if i \<in> seeds ns then y * d (int i) else 0)" by (intro sum.cong) (simp_all add: assms(2))
  also have "\<dots> = (\<Sum>i\<in>seeds ns. y * d (int i))" using s by (simp add: sum.inter_restrict [symmetric] Int_absorb1)
  finally show ?thesis by (simp add: sum_distrib_left)
qed

lemma plain_count: "(\<forall>n\<in>set ms. plain n) \<Longrightarrow> input_count ms = 0"
  by (auto simp: input_count_def plain_def filter_empty_conv)

text \<open>The graph before pruning: its outputs, in order, hold the adjoints of the requested inputs.\<close>

lemma backward_slots_ok:
  assumes wf: "nodes_wf (nodes g)" and el: "elementwise (nodes g)" and inp: "input_count (nodes g) \<noteq> 0" and t: "target < int (input_count (nodes g))"
  shows "\<exists>outs b grads. backward_slots g target = Inr (outs, b) \<and> nodes_wf (nodes b) \<and> (\<forall>n\<in>set (nodes b). op n = Input \<longrightarrow> inputs n = []) \<and> input_count (nodes b) = Suc (input_count (nodes g))
    \<and> sorted_wrt (<) outs \<and> list_all2 (\<lambda>x k. (x, grads k) \<in> facts \<rho> b) outs (if 0 \<le> target then [nat target] else [0..<input_count (nodes g)])
    \<and> (\<forall>\<delta> d. tangents \<rho> \<delta> (nodes g) d \<longrightarrow>
         (\<Sum>k < input_count (nodes g). grads k * \<delta> k) = \<rho> (input_count (nodes g)) * (\<Sum>i\<in>seeds (nodes g). d (int i)))"
proof -
  let ?ns = "nodes g" and ?c = "input_count (nodes g)" and ?m = "dominant_meta g"
  have ne: "?ns \<noteq> []" using inp by (auto simp: input_count_def)
  obtain fb ids g0 where c0: "copy_inputs ?ns (Map.empty, []) empty_dag = ((fb, ids), g0)" by (metis prod.exhaust)
  then have c: "copied ?ns fb ids g0" by (rule copy_inputs_copied [OF wf])
  then have len: "length ids = ?c" "length (nodes g0) = ?c" by (simp_all add: copied_def)
  obtain g1 where g1: "add_node Input [] 0 Null (sm_dev ?m) FP32 (sm_rows ?m) (sm_cols ?m) 0 g0 = (int ?c, g1)"
    and n1: "\<exists>n. nodes g1 = nodes g0 @ [n] \<and> op n = Input \<and> nid n = int ?c \<and> inputs n = []"
    using len(2) by (simp add: add_node_def push_node_def Let_def default_node_def)
  obtain n where n: "nodes g1 = nodes g0 @ [n]" "op n = Input" "nid n = int ?c" "inputs n = []" using n1 by blast
  have w1: "nodes_wf (nodes g1)" and in1: "input_count (nodes g1) = Suc ?c"
    using c n len(2) by (auto simp: copied_def node_wf_def input_count_def)
  have gy: "(int ?c, \<rho> ?c) \<in> facts \<rho> g1"
    using n len(2) c by (simp add: facts_def valid_slot_def node_val_def nth_append copied_def input_count_def)
  have rep: "replayed \<rho> ?ns 0 fb (facts \<rho> g1)" using copied_fact [OF c n(1)] c by (auto simp: replayed_def copied_def)
  have "0 \<in> {..<?c}" using inp by simp
  then obtain i0 where i0: "i0 < length ?ns" "op (?ns ! i0) = Input" "input_count (take i0 ?ns) = 0"
    unfolding input_index(2) [symmetric] by auto
  have "ids ! input_count (take i0 ?ns) = int i0 \<and> fb (int i0) = Some (int (input_count (take i0 ?ns)))"
    using c i0(1,2) by (simp add: copied_def)
  then have hd: "hd ids = int i0" "fb (int i0) = Some 0" using i0(3) inp len(1) by (cases ids; simp)+
  have anc: "(0, lane_vals \<rho> ?ns ! i0) \<in> facts \<rho> g1" using copied_fact [OF c n(1) i0(1,2)] i0(3) by simp
  obtain fb' g2 where r: "replay ?ns fb g1 = Inr (fb', g2)" "grown g1 g2" "replayed \<rho> ?ns (length ?ns) fb' (facts \<rho> g2)"
    using emits_replay [OF wf _ rep] w1 by (fastforce simp: emits_def)
  let ?w = "\<lambda>i. if 0 \<le> i \<and> nat i \<in> seeds ?ns then \<rho> ?c else 0"
  have K2: "facts \<rho> g1 \<subseteq> facts \<rho> g2" and w2: "nodes_wf (nodes g2)" using facts_grown [OF r(2)] r(2) w1 by (simp_all add: grown_def)
  have adj: "adj_in ?w (seed_adj ?ns (int ?c)) (facts \<rho> g2)" using gy K2 by (auto simp: adj_in_def seed_adj_eq [OF wf ne])
  have anc2: "(0, lane_vals \<rho> ?ns ! i0) \<in> facts \<rho> g2" using anc K2 by blast
  obtain adj' g3 w' where s: "back_loop ?m 0 fb' (rev ?ns) (seed_adj ?ns (int ?c)) g2 = Inr (adj', g3)" "grown g2 g3" "adj_in w' adj' (facts \<rho> g3)"
    and pr: "\<forall>\<delta> d. tangents \<rho> \<delta> ?ns d \<longrightarrow> pairing ?ns 0 w' d = pairing ?ns (length ?ns) ?w d"
    using emits_back_loop [OF wf el order_refl r(3) anc2 adj, of ?m] w2 by (fastforce simp: emits_def)
  have w3: "nodes_wf (nodes g3)" "(0, lane_vals \<rho> ?ns ! i0) \<in> facts \<rho> g3" using s(2) w2 anc2 facts_grown by (simp add: grown_def, blast)
  obtain outs b where o: "emap (out_slot ?m 0 adj') (targets target ids) g3 = Inr (outs, b)" "grown g3 b"
    "list_all2 (\<lambda>x i. (x, w' i) \<in> facts \<rho> b) outs (targets target ids)" "sorted_wrt (<) outs"
    using emap_out_ok [OF s(3) w3(2,1), of ?m "targets target ids"] by blast
  have "ids \<noteq> []" using inp len(1) by auto
  then have bs: "backward_slots g target = Inr (outs, b)"
    using ne c0 len inp t g1 hd r(1) s(1) o(1) by (simp add: backward_slots_def Let_def at_map_def ebnd_def)
  have ts: "targets target ids = map (\<lambda>k. ids ! k) (if 0 \<le> target then [nat target] else [0..<?c])"
    using len(1) map_nth [of ids] by (simp add: targets_def)
  have gr: "grown g1 b" using r(2) s(2) o(2) grown_trans by blast
  then have "nodes_wf (nodes b)" "input_count (nodes b) = Suc ?c" using w1 in1 plain_count by (auto simp: grown_def)
  moreover have "\<forall>n\<in>set (nodes b). op n = Input \<longrightarrow> inputs n = []" using gr c n unfolding grown_def plain_def copied_def by auto
  moreover have "(\<Sum>k < ?c. w' (ids ! k) * \<delta> k) = \<rho> ?c * (\<Sum>i\<in>seeds ?ns. d (int i))" if "tangents \<rho> \<delta> ?ns d" for \<delta> d
    unfolding pairing_inputs [OF c that, symmetric] pairing_seeds [OF ne refl, symmetric] using pr that by blast
  ultimately show ?thesis using bs o(3,4) unfolding ts list_all2_map2 by (intro exI [of _ outs] exI [of _ b] exI [of _ "\<lambda>k. w' (ids ! k)"]) blast
qed

section \<open>Pruning\<close>

text \<open>Marking ends with a set that contains the stack and what was marked, and is closed under operands.\<close>

definition closed_keep :: "TraceNode list \<Rightarrow> bool list \<Rightarrow> int set \<Rightarrow> bool" where
  "closed_keep ns keep S \<longleftrightarrow> (\<forall>i < length ns. keep ! i \<longrightarrow> (\<forall>j\<in>set (inputs (ns ! i)). keep ! nat j \<or> j \<in> S))"

lemma mark_ok:
  assumes "nodes_wf ns" "length keep = length ns" "\<forall>i\<in>set stack. 0 \<le> i \<and> i < int (length ns)" "closed_keep ns keep (set stack)"
  shows "\<exists>keep'. mark ns keep stack = Inr keep' \<and> length keep' = length ns \<and> (\<forall>i < length ns. keep ! i \<longrightarrow> keep' ! i)
    \<and> (\<forall>i\<in>set stack. keep' ! nat i) \<and> closed_keep ns keep' {}"
  using assms
proof (induction ns keep stack rule: mark.induct)
  case (1 ns keep)
  then show ?case by simp
next
  case (2 ns keep cur stack)
  let ?c = "nat cur"
  have c: "0 \<le> cur" "?c < length ns" using 2 by auto
  show ?case
  proof (cases "keep ! ?c")
    case True
    have cl: "closed_keep ns keep (set stack)" using "2.prems"(4) True by (auto simp: closed_keep_def)
    have "\<exists>keep'. mark ns keep stack = Inr keep' \<and> length keep' = length ns \<and> (\<forall>i < length ns. keep ! i \<longrightarrow> keep' ! i)
        \<and> (\<forall>i\<in>set stack. keep' ! nat i) \<and> closed_keep ns keep' {}"
      by (rule "2.IH"(2)) (use c True cl "2.prems" in auto)
    then show ?thesis using True c "2.prems" by auto
  next
    case False
    let ?k = "keep[?c := True]" and ?in = "inputs (ns ! ?c)"
    let ?st = "rev (filter (\<lambda>i. \<not> ?k ! nat i) ?in) @ stack"
    have inp: "0 \<le> i \<and> nat i < length ns" if "i \<in> set ?in" for i
      using wf_inputs [OF "2.prems"(1) c(2) that] wf_inputs_nat [OF "2.prems"(1) c(2) that] c(2) by auto
    have cl: "closed_keep ns ?k (set ?st)"
      using "2.prems"(4,2) c by (auto simp: closed_keep_def nth_list_update)
    have "\<exists>keep'. mark ns ?k ?st = Inr keep' \<and> length keep' = length ns \<and> (\<forall>i < length ns. ?k ! i \<longrightarrow> keep' ! i)
        \<and> (\<forall>i\<in>set ?st. keep' ! nat i) \<and> closed_keep ns keep' {}"
      by (rule "2.IH"(3)) (use c False cl inp "2.prems" in \<open>force+\<close>)
    then obtain k' where k': "mark ns ?k ?st = Inr k'" "length k' = length ns" "\<forall>i < length ns. ?k ! i \<longrightarrow> k' ! i"
      "\<forall>i\<in>set ?st. k' ! nat i" "closed_keep ns k' {}" by blast
    have "\<not> (\<exists>i\<in>set ?in. i < 0 \<or> length ?k \<le> nat i)" using inp "2.prems"(2) by force
    then have "mark ns keep (cur # stack) = mark ns ?k ?st" using c False "2.prems"(2) by (simp add: Let_def)
    moreover have "k' ! i" if "i < length ns" "keep ! i" for i
    proof -
      have "?k ! i" using that c(2) "2.prems"(2) by (simp add: nth_list_update)
      then show ?thesis using k'(3) that(1) by blast
    qed
    moreover have "k' ! ?c" using k'(3) c(2) "2.prems"(2) by simp
    ultimately show ?thesis using k' by (intro exI [of _ k']) simp
  qed
qed

lemma prune_append: "prune keep (ns @ ms) pg = bnd (prune keep ns pg) (prune keep ms)"
proof (induction ns arbitrary: pg)
  case (Cons n ns)
  obtain pm g where "pg = (pm, g)" by force
  then show ?case using Cons.IH by (cases "at_all pm (inputs n)") (auto split: prod.split)
qed simp

definition rank :: "bool list \<Rightarrow> nat \<Rightarrow> nat" where
  "rank keep i = length (filter ((!) keep) [0..<i])"

lemma rank_simps: "rank keep 0 = 0" "rank keep (Suc i) = rank keep i + of_bool (keep ! i)"
  by (simp_all add: rank_def)

lemma rank_mono: "i \<le> j \<Longrightarrow> rank keep i \<le> rank keep j"
  by (induction rule: dec_induct) (simp_all add: rank_simps)

lemma rank_less: "i < j \<Longrightarrow> keep ! i \<Longrightarrow> rank keep i < rank keep j"
  using rank_mono [of "Suc i" j keep] by (simp add: rank_simps)

text \<open>The pruned graph computes, at the rank of each kept node, the value of that node.\<close>

definition pruned :: "bool list \<Rightarrow> TraceNode list \<Rightarrow> (int \<rightharpoonup> int) \<Rightarrow> TraceDAG \<Rightarrow> bool" where
  "pruned keep ns pm g \<longleftrightarrow> nodes_wf (nodes g) \<and> length (nodes g) = rank keep (length ns) \<and> input_count (nodes g) = input_count ns
     \<and> (\<forall>i < length ns. keep ! i \<longrightarrow> pm (int i) = Some (int (rank keep i)) \<and> (\<forall>\<rho>. (int (rank keep i), lane_vals \<rho> ns ! i) \<in> facts \<rho> g))"

lemma at_all_known: "(\<And>i. i \<in> set is \<Longrightarrow> pm i = Some (f i)) \<Longrightarrow> at_all pm is = Inr (map f is)"
  by (induction "is") (auto simp: at_map_def)

lemma prune_ok:
  assumes "nodes_wf ns" "closed_keep ns keep {}" "\<forall>i < length ns. op (ns ! i) = Input \<longrightarrow> keep ! i"
  shows "\<exists>pm g. prune keep ns (Map.empty, empty_dag) = Inr (pm, g) \<and> pruned keep ns pm g"
  using assms
proof (induction ns rule: rev_induct)
  case Nil
  then show ?case by (auto simp: pruned_def empty_dag_def rank_simps)
next
  case (snoc n ns)
  let ?j = "length ns"
  have wf: "nodes_wf ns" "node_wf ?j n" "nid n = int ?j" using snoc.prems(1) by (simp_all add: node_wf_def)
  have cl: "closed_keep ns keep {}" "\<forall>i < length ns. op (ns ! i) = Input \<longrightarrow> keep ! i"
    using snoc.prems(2,3) by (auto simp: closed_keep_def nth_append less_Suc_eq)
  obtain pm g where p: "prune keep ns (Map.empty, empty_dag) = Inr (pm, g)" "pruned keep ns pm g" using snoc.IH [OF wf(1) cl] by blast
  show ?case
  proof (cases "keep ! ?j")
    case False
    then have "op n \<noteq> Input" using snoc.prems(3) by (auto simp: nth_append)
    then have "pruned keep (ns @ [n]) pm g" using p(2) False by (auto simp: pruned_def rank_simps nth_append less_Suc_eq)
    then show ?thesis using p(1) False wf(3) by (simp add: prune_append)
  next
    case True
    have inp: "0 \<le> i \<and> nat i < ?j \<and> keep ! nat i" if "i \<in> set (inputs n)" for i
      using that wf(2) snoc.prems(2) True by (auto simp: node_wf_def closed_keep_def nth_append less_Suc_eq)
    let ?ins = "map (\<lambda>i. int (rank keep (nat i))) (inputs n)"
    have at: "at_all pm (inputs n) = Inr ?ins"
      by (rule at_all_known) (use inp p(2) in \<open>force simp: pruned_def\<close>)
    let ?n = "default_node\<lparr>nid := int (length (nodes g)), op := op n, inputs := ?ins, scalar := scalar n, scalar2 := scalar2 n, buffer := buffer n,
      n_device := n_device n, n_dtype := n_dtype n, n_rows := n_rows n, n_cols := n_cols n\<rparr>"
    let ?g = "g\<lparr>nodes := nodes g @ [?n]\<rparr>"
    have pr: "prune keep (ns @ [n]) (Map.empty, empty_dag) = Inr (pm(int ?j \<mapsto> int (length (nodes g))), ?g)"
      using p(1) at True wf(3) by (simp add: prune_append add_node_def push_node_def Let_def)
    have v: "node_val \<rho> (nodes g) ?n = lane_vals \<rho> (ns @ [n]) ! ?j" for \<rho>
    proof -
      have "lane_vals \<rho> (nodes g) ! rank keep (nat i) = lane_vals \<rho> ns ! nat i" if "i \<in> set (inputs n)" for i
        using inp [OF that] p(2) by (auto simp: pruned_def facts_def)
      then have m: "map (\<lambda>i. lane_vals \<rho> (nodes g) ! rank keep (nat i)) (inputs n) = map (\<lambda>i. lane_vals \<rho> ns ! nat i) (inputs n)" by simp
      show ?thesis using p(2) by (simp add: nth_append node_val_def comp_def pruned_def m)
    qed
    have le: "rank keep (nat i) < rank keep ?j" if "i \<in> set (inputs n)" for i using inp [OF that] rank_less by blast
    have old: "facts \<rho> g \<subseteq> facts \<rho> ?g" for \<rho> by (auto simp: facts_def valid_slot_def lane_vals_keep nth_append)
    have new: "(int (rank keep ?j), lane_vals \<rho> (ns @ [n]) ! ?j) \<in> facts \<rho> ?g" for \<rho>
      using p(2) v [of \<rho>] by (simp add: facts_def valid_slot_def pruned_def nth_append)
    have "pruned keep (ns @ [n]) (pm(int ?j \<mapsto> int (length (nodes g)))) ?g"
      unfolding pruned_def
    proof (intro conjI allI impI)
      show "nodes_wf (nodes ?g)" using p(2) le by (auto simp: pruned_def node_wf_def)
      fix i \<rho> assume i: "i < length (ns @ [n])" "keep ! i"
      show "(pm(int ?j \<mapsto> int (length (nodes g)))) (int i) = Some (int (rank keep i))" using i p(2) by (auto simp: pruned_def less_Suc_eq)
      show "(int (rank keep i), lane_vals \<rho> (ns @ [n]) ! i) \<in> facts \<rho> ?g"
      proof (cases "i = ?j")
        case True
        then show ?thesis using new by simp
      next
        case False
        then have "i < ?j" using i by simp
        then have "(int (rank keep i), lane_vals \<rho> ns ! i) \<in> facts \<rho> g" using p(2) i by (auto simp: pruned_def)
        then show ?thesis using old \<open>i < ?j\<close> by (auto simp: nth_append)
      qed
    qed (use p(2) True in \<open>simp_all add: pruned_def rank_simps\<close>)
    then show ?thesis using pr by blast
  qed
qed

section \<open>The theorem\<close>

text \<open>Values only depend on operators, literals and operands.\<close>

lemma lane_vals_cong:
  assumes "length ns = length ms"
    and "\<And>i. i < length ns \<Longrightarrow> op (ns ! i) = op (ms ! i) \<and> inputs (ns ! i) = inputs (ms ! i) \<and> scalar (ns ! i) = scalar (ms ! i) \<and> scalar2 (ns ! i) = scalar2 (ms ! i)"
  shows "lane_vals \<rho> ns = lane_vals \<rho> ms" "input_count ns = input_count ms"
proof -
  have "lane_vals \<rho> ns = lane_vals \<rho> ms \<and> input_count ns = input_count ms" using assms
  proof (induction ns arbitrary: ms rule: rev_induct)
    case (snoc n ns)
    then obtain m ms' where ms: "ms = ms' @ [m]" "length ms' = length ns" by (cases ms rule: rev_cases) auto
    have i: "op (ns ! i) = op (ms' ! i) \<and> inputs (ns ! i) = inputs (ms' ! i) \<and> scalar (ns ! i) = scalar (ms' ! i) \<and> scalar2 (ns ! i) = scalar2 (ms' ! i)"
      if "i < length ns" for i using snoc.prems(2) [of i] that ms by (simp add: nth_append)
    have "op n = op m \<and> inputs n = inputs m \<and> scalar n = scalar m \<and> scalar2 n = scalar2 m" using snoc.prems(2) [of "length ns"] ms by (simp add: nth_append)
    then show ?case using snoc.IH [OF ms(2) [symmetric] i] by (simp add: ms(1) node_val_def)
  qed simp
  then show "lane_vals \<rho> ns = lane_vals \<rho> ms" "input_count ns = input_count ms" by simp_all
qed

lemma set_live_length [simp]: "length (foldl set_live ns is) = length ns"
  by (induction "is" arbitrary: ns) (simp_all add: set_live_def)

lemma set_live_nth:
  assumes "\<forall>k\<in>set ks. k < length ns" "i < length ns"
  shows "foldl set_live ns (map int ks) ! i = (ns ! i)\<lparr>is_live_at_end := is_live_at_end (ns ! i) \<or> i \<in> set ks\<rparr>"
  using assms
proof (induction ks arbitrary: ns)
  case (Cons k ks)
  have "length (set_live ns (int k)) = length ns" by (simp add: set_live_def)
  then show ?case using Cons.IH [of "set_live ns (int k)"] Cons.prems by (auto simp: set_live_def nth_list_update)
qed simp

text \<open>The positions of the live nodes, in order.\<close>

definition live_ids :: "TraceNode list \<Rightarrow> nat list" where
  "live_ids ns = filter (\<lambda>i. is_live_at_end (ns ! i)) [0..<length ns]"

lemma filter_sorted_ids:
  assumes "sorted_wrt (<) ks" "\<forall>k\<in>set ks. k < L"
  shows "filter (\<lambda>i. i \<in> set ks) [0..<L] = (ks :: nat list)"
proof (rule sorted_distinct_set_unique)
  show "sorted ks" "distinct ks" using assms(1) by (simp_all add: strict_sorted_iff)
  show "set (filter (\<lambda>i. i \<in> set ks) [0..<L]) = set ks" using assms(2) by auto
qed (simp_all add: sorted_wrt_filter)

lemma finish_ok:
  assumes p: "pruned keep ns pm g" and so: "sorted_wrt (<) outs" and v: "\<forall>x\<in>set outs. 0 \<le> x \<and> x < int (length ns) \<and> keep ! nat x"
  shows "\<exists>b. finish_pruned outs (pm, g) = Inr b \<and> nodes_wf (nodes b) \<and> input_count (nodes b) = input_count ns
    \<and> (\<forall>\<rho>. map ((!) (lane_vals \<rho> (nodes b))) (live_ids (nodes b)) = map (\<lambda>x. lane_vals \<rho> ns ! nat x) outs)"
proof -
  let ?L = "rank keep (length ns)" and ?ns = "map (\<lambda>n. n\<lparr>is_live_at_end := False\<rparr>) (nodes g)"
  define ks where "ks = map (\<lambda>x. rank keep (nat x)) outs"
  have len: "length (nodes g) = ?L" "nodes_wf (nodes g)" using p by (simp_all add: pruned_def)
  have "pm x = Some (int (rank keep (nat x)))" if "x \<in> set outs" for x
  proof -
    have "nat x < length ns" "keep ! nat x" "int (nat x) = x" using that v by auto
    then show ?thesis using p unfolding pruned_def by metis
  qed
  then have at: "at_all pm outs = Inr (map int ks)" by (simp add: at_all_known comp_def ks_def)
  have kl: "\<forall>k\<in>set ks. k < ?L" using v rank_less by (auto simp: ks_def)
  have so': "sorted_wrt (<) ks" unfolding sorted_wrt_map ks_def by (rule sorted_wrt_mono_rel [OF _ so]) (use v rank_less in auto)
  have "map (\<lambda>n. n\<lparr>outputs := [], is_live_at_end := False\<rparr>) (nodes g) = with_outputs (\<lambda>_. []) ?ns"
    unfolding cleared_outputs [symmetric] by simp
  then obtain f where f: "foldl push_uses (map (\<lambda>n. n\<lparr>outputs := [], is_live_at_end := False\<rparr>) (nodes g)) (map (\<lambda>n. n\<lparr>outputs := [], is_live_at_end := False\<rparr>) (nodes g))
      = with_outputs f ?ns" by (auto simp: foldl_push_uses)
  define b where "b = g\<lparr>nodes := foldl set_live (with_outputs f ?ns) (map int ks)\<rparr>"
  have fin: "finish_pruned outs (pm, g) = Inr b" using at by (simp add: finish_pruned_def f b_def)
  have lb: "length (nodes b) = ?L" by (simp add: b_def len)
  have nth: "nodes b ! i = (nodes g ! i)\<lparr>outputs := f (int i), is_live_at_end := i \<in> set ks\<rparr>" if "i < ?L" for i
    using set_live_nth [of ks "with_outputs f ?ns" i] that kl len(1) by (simp add: b_def)
  have "live_ids (nodes b) = filter (\<lambda>i. i \<in> set ks) [0..<?L]" unfolding live_ids_def lb by (rule filter_cong) (simp_all add: nth)
  then have live: "live_ids (nodes b) = ks" using filter_sorted_ids [OF so' kl] by simp
  have same: "lane_vals \<rho> (nodes b) = lane_vals \<rho> (nodes g)" "input_count (nodes b) = input_count (nodes g)" for \<rho>
    by (rule lane_vals_cong; use lb len nth in simp)+
  have "lane_vals \<rho> (nodes g) ! rank keep (nat x) = lane_vals \<rho> ns ! nat x" if "x \<in> set outs" for \<rho> x
  proof -
    have "nat x < length ns" "keep ! nat x" using that v by auto
    then show ?thesis using p by (auto simp: pruned_def facts_def)
  qed
  then have "map ((!) (lane_vals \<rho> (nodes b))) (live_ids (nodes b)) = map (\<lambda>x. lane_vals \<rho> ns ! nat x) outs" for \<rho>
    unfolding live same ks_def by simp
  moreover have "nodes_wf (nodes b)" using len lb nth unfolding nodes_wf_def node_wf_def by auto
  ultimately show ?thesis using fin same(2) p unfolding pruned_def by (intro exI [of _ b]) simp
qed

text \<open>What the whole pass returns, for one valuation.\<close>

lemma backward_ok:
  assumes wf: "nodes_wf (nodes g)" and el: "elementwise (nodes g)" and inp: "input_count (nodes g) \<noteq> 0" and t: "target < int (input_count (nodes g))"
  shows "\<exists>b grads. backward g target = Inr b \<and> nodes_wf (nodes b) \<and> input_count (nodes b) = Suc (input_count (nodes g))
    \<and> map ((!) (lane_vals \<rho> (nodes b))) (live_ids (nodes b)) = map grads (if 0 \<le> target then [nat target] else [0..<input_count (nodes g)])
    \<and> (\<forall>\<delta> d. tangents \<rho> \<delta> (nodes g) d \<longrightarrow>
         (\<Sum>k < input_count (nodes g). grads k * \<delta> k) = \<rho> (input_count (nodes g)) * (\<Sum>i\<in>seeds (nodes g). d (int i)))"
proof -
  let ?ts = "if 0 \<le> target then [nat target] else [0..<input_count (nodes g)]"
  obtain outs b grads where s: "backward_slots g target = Inr (outs, b)" "nodes_wf (nodes b)" "\<forall>n\<in>set (nodes b). op n = Input \<longrightarrow> inputs n = []"
    "input_count (nodes b) = Suc (input_count (nodes g))" "sorted_wrt (<) outs" "list_all2 (\<lambda>x k. (x, grads k) \<in> facts \<rho> b) outs ?ts"
    and gr: "\<forall>\<delta> d. tangents \<rho> \<delta> (nodes g) d \<longrightarrow>
         (\<Sum>k < input_count (nodes g). grads k * \<delta> k) = \<rho> (input_count (nodes g)) * (\<Sum>i\<in>seeds (nodes g). d (int i))"
    using backward_slots_ok [OF assms, of \<rho>] by blast
  let ?ns = "nodes b" and ?k = "map (\<lambda>n. op n = Input) (nodes b)"
  have o: "0 \<le> x \<and> x < int (length ?ns)" if "x \<in> set outs" for x
  proof -
    obtain i where "i < length outs" "x = outs ! i" using \<open>x \<in> set outs\<close> by (auto simp: in_set_conv_nth)
    then show ?thesis using list_all2_nthD [OF s(6), of i] by (simp add: facts_def valid_slot_def)
  qed
  have vals: "map (\<lambda>x. lane_vals \<rho> ?ns ! nat x) outs = map grads ?ts"
    using list_all2_nthD [OF s(6)] list_all2_lengthD [OF s(6)] by (intro nth_equalityI) (simp_all add: facts_def)
  have "closed_keep ?ns ?k (set (rev outs))" using s(3) by (auto simp: closed_keep_def)
  then obtain keep where k: "mark ?ns ?k (rev outs) = Inr keep" "\<forall>i < length ?ns. ?k ! i \<longrightarrow> keep ! i" "\<forall>x\<in>set outs. keep ! nat x" "closed_keep ?ns keep {}"
    using mark_ok [OF s(2), of ?k "rev outs"] o by auto
  obtain pm p where p: "prune keep ?ns (Map.empty, empty_dag) = Inr (pm, p)" "pruned keep ?ns pm p"
    using prune_ok [OF s(2) k(4)] k(2) by auto
  obtain b' where b': "finish_pruned outs (pm, p) = Inr b'" "nodes_wf (nodes b')" "input_count (nodes b') = input_count ?ns"
    "\<forall>\<rho>. map ((!) (lane_vals \<rho> (nodes b'))) (live_ids (nodes b')) = map (\<lambda>x. lane_vals \<rho> ?ns ! nat x) outs"
    using finish_ok [OF p(2) s(5)] o k(3) by blast
  have "backward g target = Inr b'" using s(1) k(1) p(1) b'(1) by (simp add: backward_def)
  then show ?thesis using b' s(4) vals gr by (intro exI [of _ b'] exI [of _ grads]) simp
qed

end
