(* ===== verification/Lowering.thy ===== *)
theory Lowering
  imports Gradient
begin

unbundle bit_operations_syntax

text \<open>
  The lowering pass \<^verbatim>\<open>canonicalize_trace_dag_for_codegen\<close> of \<^verbatim>\<open>src/jit/trace_autodiff.cpp\<close>, which rewrites the operators that the
  kernel emitters have no form for.
\<close>

section \<open>The pass\<close>

definition needs_lowering :: "TraceNode \<Rightarrow> bool" where
  "needs_lowering n \<longleftrightarrow> op n \<in> {Const, Neg, Abs, Exp, Log, Sqrt, Rsqrt, Div, DivScalar, ScalarDiv, FMA, Modulate, GELU}"

text \<open>\<^verbatim>\<open>ins[k]\<close>.\<close>

definition arg :: "int list \<Rightarrow> nat \<Rightarrow> int emit" where
  "arg ins k = elift (if k < length ins then Inr (ins ! k) else Inl (UB ''vector index''))"

definition anchor_or :: "int \<Rightarrow> int \<Rightarrow> int" where
  "anchor_or anchor x = (if 0 \<le> anchor then anchor else x)"

definition lower_gelu :: "ShapeMeta \<Rightarrow> int \<Rightarrow> int emit" where
  "lower_gelu m x =
     ebnd (put m Mul [x, x] 0 0) (\<lambda>x2. ebnd (put m Mul [x2, x] 0 0) (\<lambda>x3. ebnd (put m MulScalar [x3] kGeluK1 0) (\<lambda>kx3.
     ebnd (put m Add [x, kx3] 0 0) (\<lambda>inner. ebnd (put m MulScalar [inner] kGeluK0 0) (\<lambda>u. ebnd (put m Tanh [u] 0 0) (\<lambda>t.
     ebnd (put m AddScalar [t] f32_one 0) (\<lambda>one_p_t. ebnd (put m MulScalar [x] f32_half 0) (\<lambda>half_x.
     put m Mul [half_x, one_p_t] 0 0))))))))"

definition lower_op :: "(int \<rightharpoonup> int) \<Rightarrow> int \<Rightarrow> TraceNode \<Rightarrow> int list \<Rightarrow> int emit" where
  "lower_op remap anchor n ins = (let m = node_meta n; a = anchor_or anchor in case op n of
      Input \<Rightarrow> (\<lambda>g. Inr (add_node Input [] 0 (buffer n) (n_device n) (n_dtype n) (n_rows n) (n_cols n) 0 g))
    | Const \<Rightarrow> emit_const (a 0) (scalar n) m
    | Neg \<Rightarrow> ebnd (arg ins 0) (\<lambda>x. emit_neg x m)
    | Abs \<Rightarrow> ebnd (arg ins 0) (\<lambda>x. emit_abs x m)
    | Exp \<Rightarrow> ebnd (arg ins 0) (\<lambda>x. emit_lowered_exp x m)
    | Sqrt \<Rightarrow> ebnd (arg ins 0) (\<lambda>x. emit_lowered_sqrt (a x) x m)
    | Rsqrt \<Rightarrow> ebnd (arg ins 0) (\<lambda>x. emit_lowered_rsqrt (a x) x m)
    | Log \<Rightarrow> ebnd (arg ins 0) (\<lambda>x. emit_lowered_log (a x) x m)
    | Div \<Rightarrow> ebnd (arg ins 0) (\<lambda>x. ebnd (arg ins 1) (\<lambda>y. emit_safe_div_signed (a x) x y m))
    | DivScalar \<Rightarrow> ebnd (arg ins 0) (\<lambda>x. put m MulScalar [x] (f32_recip (safe_scalar (scalar n))) 0)
    | ScalarDiv \<Rightarrow> ebnd (arg ins 0) (\<lambda>x. ebnd (emit_const (a x) (scalar n) m) (\<lambda>s. emit_safe_div_signed (a x) s x m))
    | FMA \<Rightarrow> ebnd (arg ins 0) (\<lambda>x. ebnd (arg ins 1) (\<lambda>y. ebnd (arg ins 2) (\<lambda>z.
        ebnd (put m Mul [x, y] 0 0) (\<lambda>xy. put m Add [xy, z] 0 0))))
    | Modulate \<Rightarrow> ebnd (arg ins 1) (\<lambda>y. ebnd (put m AddScalar [y] f32_one 0) (\<lambda>sp1.
        ebnd (arg ins 0) (\<lambda>x. ebnd (put m Mul [x, sp1] 0 0) (\<lambda>x_sp1. ebnd (arg ins 2) (\<lambda>z. put m Add [x_sp1, z] 0 0)))))
    | GELU \<Rightarrow> ebnd (arg ins 0) (lower_gelu m)
    | _ \<Rightarrow> if is_inplace n
        then ebnd (elift (at_map remap (inplace_target_slot n))) (\<lambda>target.
          ebnd (if 1 < length (inputs n) then arg ins 1 else eret (- 1)) (\<lambda>x.
          add_inplace_node (op n) target x (buffer n) (scalar n) (scalar2 n)))
        else put m (op n) ins (scalar n) (scalar2 n))"

text \<open>\<^verbatim>\<open>created.buffer\<close> and \<^verbatim>\<open>created.is_live_at_end\<close> are copied onto the node just returned.\<close>

definition mark_created :: "TraceNode \<Rightarrow> int \<Rightarrow> TraceDAG \<Rightarrow> TraceDAG" where
  "mark_created n i g = g\<lparr>nodes := (nodes g)[nat i := (nodes g ! nat i)\<lparr>buffer := buffer n, is_live_at_end := is_live_at_end n\<rparr>]\<rparr>"

definition lower_step :: "TraceNode \<Rightarrow> (int \<rightharpoonup> int) \<times> int \<Rightarrow> ((int \<rightharpoonup> int) \<times> int) emit" where
  "lower_step n = (\<lambda>(remap, anchor). ebnd (elift (at_all remap (inputs n))) (\<lambda>ins. ebnd (lower_op remap anchor n ins) (\<lambda>new_id.
     \<lambda>g. Inr ((remap(nid n \<mapsto> new_id), if op n = Input \<and> anchor < 0 then new_id else anchor), mark_created n new_id g))))"

fun lower_nodes :: "TraceNode list \<Rightarrow> (int \<rightharpoonup> int) \<times> int \<Rightarrow> ((int \<rightharpoonup> int) \<times> int) emit" where
  "lower_nodes [] ra = eret ra"
| "lower_nodes (n # ns) ra = ebnd (lower_step n ra) (lower_nodes ns)"

definition canonicalize_trace_dag_for_codegen :: "TraceDAG \<Rightarrow> TraceDAG res" where
  "canonicalize_trace_dag_for_codegen g = (
     if \<not> list_ex needs_lowering (nodes g) then Inr g
     else bnd (lower_nodes (nodes g) (Map.empty, - 1) empty_dag) (\<lambda>(_, h).
       let ns = map (\<lambda>n. n\<lparr>outputs := []\<rparr>) (nodes h) in Inr (h\<lparr>nodes := foldl push_uses ns ns\<rparr>)))"

section \<open>The lowered square root\<close>

lemma newton_half: "0 \<le> x \<Longrightarrow> 0 \<le> y \<Longrightarrow> y / 2 \<le> newton x y"
  by (simp add: newton_def add_pos_nonneg)

lemma newton_pow: "0 \<le> x \<Longrightarrow> 0 \<le> y \<Longrightarrow> y / 2 ^ n \<le> (newton x ^^ n) y"
proof (induction n)
  case (Suc n)
  have "0 \<le> y / 2 ^ n" using Suc by simp
  then have "0 \<le> (newton x ^^ n) y" using Suc by linarith
  then have "(newton x ^^ n) y / 2 \<le> newton x ((newton x ^^ n) y)" using Suc.prems newton_half by blast
  moreover have "y / 2 ^ Suc n \<le> (newton x ^^ n) y / 2" using Suc by simp
  ultimately show ?case by simp
qed simp

lemma newton_sqrt_lower: "16 \<le> x \<Longrightarrow> x / 1024 \<le> newton_sqrt x"
proof -
  assume x: "16 \<le> x"
  let ?xs = "x + f32 kSafeEps"
  have xs: "16 < ?xs" "0 \<le> ?xs" using x f32_eps_pos(1) by linarith+
  have "(?xs / 8 + 2) / 2 ^ 7 \<le> (newton ?xs ^^ 7) (?xs / 8 + 2)" by (rule newton_pow) (use xs in \<open>simp_all add: add_nonneg_nonneg\<close>)
  moreover have "x / 1024 \<le> (?xs / 8 + 2) / 2 ^ 7" using f32_eps_pos(2) by (simp add: field_simps)
  moreover have "newton_sqrt x = (newton ?xs ^^ 7) (?xs / 8 + 2)" using x xs(1) by (simp add: newton_sqrt_def Let_def)
  ultimately show ?thesis by linarith
qed

text \<open>
  C25: the lowered square root is wrong for large arguments. In exact arithmetic, what \<^verbatim>\<open>emit_lowered_sqrt\<close> appends for an argument
  above \<open>2 ^ 20\<close> evaluates to at least a 1024th of the argument, which exceeds the square root: seven Newton steps from
  \<open>x / 8 + 2\<close> can at most halve the guess seven times.
\<close>

theorem lowered_sqrt_too_big:
  assumes "nodes_wf (nodes g)" "(anchor, u) \<in> facts \<rho> g" "(x, v) \<in> facts \<rho> g" "2 ^ 20 < v"
  shows "\<exists>i g'. emit_lowered_sqrt anchor x m g = Inr (i, g') \<and> v / 1024 \<le> lane_vals \<rho> (nodes g') ! nat i \<and> sqrt v < v / 1024"
proof -
  have "emits \<rho> (facts \<rho> g) (emit_lowered_sqrt anchor x m) (is_val \<rho> (newton_sqrt v))" by (rule emits_lowered_sqrt [OF assms(2,3)])
  then obtain i g' where "emit_lowered_sqrt anchor x m g = Inr (i, g')" "lane_vals \<rho> (nodes g') ! nat i = newton_sqrt v"
    using assms(1) by (force simp: emits_def is_val_def facts_def)
  moreover have "v / 1024 \<le> newton_sqrt v" using assms(4) by (intro newton_sqrt_lower) simp
  moreover have "sqrt v < v / 1024"
  proof (rule real_less_lsqrt)
    have "v * 2 ^ 20 < v * v" using assms(4) by (intro mult_strict_left_mono) simp_all
    then show "v < (v / 1024)\<^sup>2" by (simp add: power2_eq_square)
  qed (use assms(4) in simp_all)
  ultimately show ?thesis by auto
qed

section \<open>What the pass emits\<close>

text \<open>The operators the kernel emitters have a form for, with the row reductions.\<close>

definition core :: "TraceOpKind \<Rightarrow> bool" where
  "core k \<longleftrightarrow> k \<notin> {Const, Neg, Abs, Exp, Log, Sqrt, Rsqrt, DivScalar, ScalarDiv, FMA, Modulate, GELU}"

definition fresh :: "TraceNode \<Rightarrow> bool" where
  "fresh n \<longleftrightarrow> core (op n) \<and> op n \<noteq> Input \<and> \<not> is_live_at_end n"

text \<open>Only fresh nodes are appended; with \<open>l\<close>, at least one, and the last one is returned.\<close>

definition appends :: "bool \<Rightarrow> int emit \<Rightarrow> bool" where
  "appends l m \<longleftrightarrow> (\<forall>g x g'. m g = Inr (x, g') \<longrightarrow> (\<exists>ms. nodes g' = nodes g @ ms \<and> (\<forall>n\<in>set ms. fresh n)
     \<and> (l \<longrightarrow> ms \<noteq> [] \<and> x = int (length (nodes g')) - 1)))"

lemma appends_put: "core k \<Longrightarrow> k \<noteq> Input \<Longrightarrow> appends l (put m k ins s s2)"
  by (auto simp: appends_def put_eq fresh_def default_node_def)

lemma appends_bind:
  assumes "appends b m" "\<And>x. appends l (f x)"
  shows "appends l (ebnd m f)"
  unfolding appends_def
proof (intro allI impI)
  fix g x g' assume "ebnd m f g = Inr (x, g')"
  then obtain y h where y: "m g = Inr (y, h)" "f y h = Inr (x, g')" by (auto simp: ebnd_def)
  obtain ms where ms: "nodes h = nodes g @ ms" "\<forall>n\<in>set ms. fresh n" using assms(1) y(1) unfolding appends_def by blast
  obtain ms' where "nodes g' = nodes h @ ms'" "\<forall>n\<in>set ms'. fresh n" "l \<longrightarrow> ms' \<noteq> [] \<and> x = int (length (nodes g')) - 1"
    using assms(2) [of y] y(2) unfolding appends_def by blast
  then show "\<exists>ms. nodes g' = nodes g @ ms \<and> (\<forall>n\<in>set ms. fresh n) \<and> (l \<longrightarrow> ms \<noteq> [] \<and> x = int (length (nodes g')) - 1)"
    using ms by (intro exI [of _ "ms @ ms'"]) auto
qed

lemma appends_ret: "appends False (eret x)"
  by (simp add: appends_def eret_def)

lemma appends_lift: "appends False (elift r)"
  by (auto simp: appends_def elift_def)

lemma appends_arg: "appends False (arg ins k)"
  by (simp add: arg_def appends_lift)

lemma appends_repeat: "(\<And>e. appends False (f e)) \<Longrightarrow> appends False (erepeat n f e)"
  by (induction n arbitrary: e) (auto intro: appends_ret appends_bind)

lemma appends_const: "appends l (emit_const a v m)"
proof (cases "f32_is_zero v")
  case True
  then show ?thesis by (auto simp: emit_const_def ebnd_def eret_def appends_def put_eq fresh_def core_def default_node_def)
next
  case False
  then show ?thesis by (simp add: emit_const_def) (intro appends_bind [of False] appends_put; simp add: core_def)
qed

lemmas appends_rules = appends_bind [of False] appends_put appends_ret appends_lift appends_arg appends_const

lemma appends_emitters:
  "appends l (emit_neg x m)" "appends l (emit_pos_denom x e m)" "appends l (emit_abs x m)" "appends l (emit_newton y m x)"
  "appends l (emit_horner y c m x)" "appends l (lower_gelu m x)"
  unfolding emit_neg_def emit_pos_denom_def emit_abs_def emit_newton_def emit_horner_def lower_gelu_def
  by (intro appends_rules; simp add: core_def)+

lemma appends_signed_div: "appends l (emit_signed_div a x y m)"
  unfolding emit_signed_div_def by (intro appends_rules appends_emitters; simp add: core_def)

lemma appends_safe_div: "appends l (emit_safe_div_signed a x y m)"
  using appends_signed_div [of l a x y m] appends_put [of Div l m "[x, y]" 0 0]
  by (auto simp: appends_def emit_safe_div_signed_def core_def split: if_splits)

lemma appends_sqrt: "appends l (emit_lowered_sqrt a x m)"
  unfolding emit_lowered_sqrt_def by (intro appends_rules appends_emitters appends_repeat; simp add: core_def)

lemma appends_repeat_Suc: "(\<And>e. appends True (f e)) \<Longrightarrow> appends True (erepeat (Suc n) f e)"
proof (induction n arbitrary: e)
  case 0
  have "erepeat 0 f = eret" by (simp add: fun_eq_iff)
  then show ?case using 0 by (simp add: ebnd_eret)
next
  case (Suc n)
  show ?case unfolding erepeat.simps(2) [of "Suc n"] by (rule appends_bind [OF Suc.prems], rule Suc.IH [OF Suc.prems])
qed

lemma appends_exp: "appends True (emit_lowered_exp x m)"
proof -
  have "appends True (erepeat 4 (\<lambda>e. put m Mul [e, e] 0 0) e)" for e
    using appends_repeat_Suc [of "\<lambda>e. put m Mul [e, e] 0 0" 3] by (simp add: appends_put core_def)
  then show ?thesis unfolding emit_lowered_exp_def by (intro appends_rules appends_emitters; simp add: core_def)
qed

lemma appends_rsqrt_log: "appends l (emit_lowered_rsqrt a x m)" "appends l (emit_lowered_log a x m)"
  unfolding emit_lowered_rsqrt_def emit_lowered_log_def
  by (intro appends_rules appends_emitters appends_sqrt; simp add: core_def)+

section \<open>One node\<close>

text \<open>What one node becomes: fresh nodes, and one that stands for it, whose slot is returned.\<close>

definition lowers :: "TraceNode \<Rightarrow> TraceDAG \<Rightarrow> int \<Rightarrow> TraceDAG \<Rightarrow> bool" where
  "lowers n g x g' \<longleftrightarrow> (\<exists>ms c. nodes g' = nodes g @ ms @ [c] \<and> x = int (length (nodes g) + length ms) \<and> (\<forall>n\<in>set ms. fresh n)
     \<and> nodes_wf (nodes g') \<and> core (op c) \<and> (op c = Input \<longleftrightarrow> op n = Input)
     \<and> (op n = Input \<longrightarrow> n_device c = n_device n \<and> n_dtype c = n_dtype n \<and> n_rows c = n_rows n \<and> n_cols c = n_cols n))"

lemma lowers_emitted:
  assumes "emits \<rho> K m Q" "appends True m" "nodes_wf (nodes g)" "K \<subseteq> facts \<rho> g" "op n \<noteq> Input"
  shows "\<exists>x g'. m g = Inr (x, g') \<and> lowers n g x g' \<and> Q x g'"
proof -
  obtain x g' where x: "m g = Inr (x, g')" "grown g g'" "Q x g'" using assms(1,3,4) by (auto simp: emits_def)
  obtain ms where ms: "nodes g' = nodes g @ ms" "\<forall>n\<in>set ms. fresh n" "ms \<noteq> []" "x = int (length (nodes g')) - 1"
    using assms(2) x(1) unfolding appends_def by blast
  then have "ms = butlast ms @ [last ms]" "fresh (last ms)" by simp_all
  then have "lowers n g x g'" using ms x(2) assms(3,5) unfolding lowers_def
    by (intro exI [of _ "butlast ms"] exI [of _ "last ms"]) (auto simp: fresh_def grown_def of_nat_diff Suc_le_eq dest: in_set_butlastD)
  then show ?thesis using x by blast
qed

text \<open>The operators whose lowering is exact in exact arithmetic.\<close>

definition exact_op :: "TraceOpKind \<Rightarrow> bool" where
  "exact_op k \<longleftrightarrow> k \<notin> {Exp, Log, Sqrt, Rsqrt, Div, DivScalar, ScalarDiv}"

text \<open>The shape of a recorded node: the operands of its operator, and an in-place target among them.\<close>

definition recorded :: "TraceNode \<Rightarrow> bool" where
  "recorded n \<longleftrightarrow> (arity (op n) = Some (length (inputs n)) \<or> op n \<in> {RMSNorm, LayerNorm} \<and> \<not> is_inplace n)
     \<and> (is_inplace n \<longrightarrow> (\<exists>t. inputs n = [t] \<and> inplace_target_slot n = t) \<or> (\<exists>t a. inputs n = [t, a] \<and> inplace_target_slot n = t))"

definition slot_vals :: "(nat \<Rightarrow> real) \<Rightarrow> TraceDAG \<Rightarrow> int list \<Rightarrow> real list" where
  "slot_vals \<rho> g ins = map (\<lambda>i. lane_vals \<rho> (nodes g) ! nat i) ins"

text \<open>The value of the node that stands for \<open>n\<close>, where the lowering is exact.\<close>

definition keeps_val :: "(nat \<Rightarrow> real) \<Rightarrow> TraceNode \<Rightarrow> TraceDAG \<Rightarrow> int list \<Rightarrow> int \<Rightarrow> TraceDAG \<Rightarrow> bool" where
  "keeps_val \<rho> n g ins x g' \<longleftrightarrow> (op n \<noteq> Input \<and> exact_op (op n) \<longrightarrow>
     lane_vals \<rho> (nodes g') ! nat x = op_val (op n) (f32 (scalar n)) (f32 (scalar2 n)) (slot_vals \<rho> g ins))"

lemma emits_weaken: "emits \<rho> K m Q \<Longrightarrow> (\<And>x g. Q x g \<Longrightarrow> R x g) \<Longrightarrow> emits \<rho> K m R"
  unfolding emits_def by blast

lemma emits_gelu: "(x, u) \<in> K \<Longrightarrow> emits \<rho> K (lower_gelu m x) (is_val \<rho> (op_val GELU s t [u]))"
  unfolding lower_gelu_def
  by (rule emitter_steps emit_tails not_input insertI1 | assumption | rule insertI2)+
    (simp add: op_val_def algebra_simps power3_eq_cube)

lemma arg_eq: "arg [x] 0 = elift (Inr x)" "arg [x, y] 0 = elift (Inr x)" "arg [x, y] 1 = elift (Inr y)"
  "arg [x, y, z] 0 = elift (Inr x)" "arg [x, y, z] 1 = elift (Inr y)" "arg [x, y, z] 2 = elift (Inr z)"
  by (simp_all add: arg_def)

text \<open>The lowered operators by arity: each emits, and the exact ones emit the value of the operator.\<close>

lemma lower_unary:
  assumes "op n \<in> {Neg, Abs, Exp, Log, Sqrt, Rsqrt, DivScalar, ScalarDiv, GELU}" "(a, u) \<in> K" "(anchor_or anchor a, w) \<in> K"
  shows "emits \<rho> K (lower_op remap anchor n [a]) (\<lambda>x g. exact_op (op n) \<longrightarrow> is_val \<rho> (op_val (op n) (f32 (scalar n)) (f32 (scalar2 n)) [u]) x g)"
    "appends True (lower_op remap anchor n [a])"
proof -
  note e = emits_neg [OF assms(2)] emits_abs [OF assms(2)] emits_lowered_exp [OF assms(2)] emits_lowered_sqrt [OF assms(3,2)]
    emits_lowered_rsqrt [OF assms(3,2)] emits_lowered_log [OF assms(3,2)] emits_gelu [OF assms(2)] emits_put1 [OF not_input(7) assms(2)]
    emits_bind [OF emits_const [OF assms(3)] emits_safe_div [OF insertI2 [OF assms(3)] insertI1 insertI2 [OF assms(2)]]]
  show "emits \<rho> K (lower_op remap anchor n [a]) (\<lambda>x g. exact_op (op n) \<longrightarrow> is_val \<rho> (op_val (op n) (f32 (scalar n)) (f32 (scalar2 n)) [u]) x g)"
    using assms(1) by (elim insertE emptyE)
      (simp_all add: lower_op_def Let_def arg_eq exact_op_def op_val_def; rule e [THEN emits_weaken]; simp add: op_val_def)+
  show "appends True (lower_op remap anchor n [a])"
    using assms(1) by (elim insertE emptyE)
      (simp_all add: lower_op_def Let_def arg_eq appends_emitters appends_exp appends_sqrt appends_rsqrt_log appends_put core_def
        appends_bind [OF appends_const appends_safe_div])
qed

lemma lower_wider:
  assumes "(a, u) \<in> K" "(b, v) \<in> K"
  shows "(anchor_or anchor a, w) \<in> K \<Longrightarrow> op n = Div \<Longrightarrow> emits \<rho> K (lower_op remap anchor n [a, b]) (\<lambda>x g. True) \<and> appends True (lower_op remap anchor n [a, b])"
    and "(c, z) \<in> K \<Longrightarrow> op n \<in> {FMA, Modulate} \<Longrightarrow>
      emits \<rho> K (lower_op remap anchor n [a, b, c]) (is_val \<rho> (op_val (op n) (f32 (scalar n)) (f32 (scalar2 n)) [u, v, z])) \<and> appends True (lower_op remap anchor n [a, b, c])"
proof -
  show "emits \<rho> K (lower_op remap anchor n [a, b]) (\<lambda>x g. True) \<and> appends True (lower_op remap anchor n [a, b])"
    if "(anchor_or anchor a, w) \<in> K" "op n = Div"
  proof -
    have "lower_op remap anchor n [a, b] = emit_safe_div_signed (anchor_or anchor a) a b (node_meta n)"
      using that(2) arg_eq(2,3) by (simp add: lower_op_def Let_def)
    then show ?thesis using emits_weaken [OF emits_safe_div [OF that(1) assms], where R = "\<lambda>x g. True"] appends_safe_div by simp
  qed
  assume c: "(c, z) \<in> K" and n: "op n \<in> {FMA, Modulate}"
  have "emits \<rho> K (lower_op remap anchor n [a, b, c]) (is_val \<rho> (op_val (op n) (f32 (scalar n)) (f32 (scalar2 n)) [u, v, z]))"
    using n unfolding lower_op_def Let_def
    by (elim insertE emptyE; simp only: TraceOpKind.case arg_eq ebnd_lift)
      ((rule emitter_steps emit_tails not_input insertI1 assms c | rule insertI2)+, simp add: op_val_def add.commute)+
  moreover have "appends True (lower_op remap anchor n [a, b, c])"
    using n unfolding lower_op_def Let_def
    by (elim insertE emptyE; simp only: TraceOpKind.case) (intro appends_rules; simp add: core_def)+
  ultimately show "emits \<rho> K (lower_op remap anchor n [a, b, c]) (is_val \<rho> (op_val (op n) (f32 (scalar n)) (f32 (scalar2 n)) [u, v, z]))
    \<and> appends True (lower_op remap anchor n [a, b, c])" by simp
qed

lemma slot_facts: "list_all (valid_slot (nodes g)) ins \<Longrightarrow> list_all2 (\<lambda>i v. (i, v) \<in> facts \<rho> g) ins (slot_vals \<rho> g ins)"
  by (auto simp: slot_vals_def facts_def list_all2_conv_all_nth list_all_length)

lemma lower_op_emitted:
  assumes wf: "nodes_wf (nodes g)" and v: "list_all (valid_slot (nodes g)) ins" and len: "arity (op n) = Some (length ins)"
    and anchor: "0 \<le> anchor" "valid_slot (nodes g) anchor" and low: "\<not> core (op n) \<or> op n = Div"
  shows "\<exists>x g'. lower_op remap anchor n ins g = Inr (x, g') \<and> lowers n g x g' \<and> keeps_val \<rho> n g ins x g'"
proof -
  let ?K = "facts \<rho> g"
  have a: "(anchor_or anchor i, lane_vals \<rho> (nodes g) ! nat anchor) \<in> ?K" for i using anchor by (simp add: anchor_or_def facts_def)
  have ni: "op n \<noteq> Input" using low by (auto simp: core_def)
  note em = lowers_emitted [OF _ _ wf order_refl ni]
  note sf = slot_facts [OF v, of \<rho>]
  from low consider (con) "op n = Const" | (un) "op n \<in> {Neg, Abs, Exp, Log, Sqrt, Rsqrt, DivScalar, ScalarDiv, GELU}" | (div) "op n = Div" | (tern) "op n \<in> {FMA, Modulate}"
    by (auto simp: core_def)
  then show ?thesis
  proof cases
    case con
    have eq: "lower_op remap anchor n ins = emit_const (anchor_or anchor 0) (scalar n) (node_meta n)" using con by (simp add: lower_op_def Let_def)
    show ?thesis using em [OF emits_const [OF a] appends_const] con unfolding eq
      by (force simp: keeps_val_def is_val_def facts_def op_val_def)
  next
    case un
    then have "length ins = 1" using len by (auto simp: arity_def)
    then obtain b where b: "ins = [b]" by (auto simp: length_Suc_conv numeral_eq_Suc)
    then have f: "(b, lane_vals \<rho> (nodes g) ! nat b) \<in> ?K" using sf by (simp add: slot_vals_def)
    show ?thesis using em [OF lower_unary(1) [OF un f a] lower_unary(2) [OF un f a]] unfolding b
      by (force simp: keeps_val_def is_val_def facts_def slot_vals_def)
  next
    case div
    then have "length ins = 2" using len by (auto simp: arity_def)
    then obtain b c where b: "ins = [b, c]" by (auto simp: length_Suc_conv numeral_eq_Suc)
    then have f: "(b, lane_vals \<rho> (nodes g) ! nat b) \<in> ?K" "(c, lane_vals \<rho> (nodes g) ! nat c) \<in> ?K" using sf by (simp_all add: slot_vals_def)
    show ?thesis using em [OF lower_wider(1) [OF f a div, THEN conjunct1] lower_wider(1) [OF f a div, THEN conjunct2]] div unfolding b
      by (force simp: keeps_val_def exact_op_def)
  next
    case tern
    then have "length ins = 3" using len by (auto simp: arity_def)
    then obtain b c d where b: "ins = [b, c, d]" by (auto simp: length_Suc_conv numeral_eq_Suc)
    then have f: "(b, lane_vals \<rho> (nodes g) ! nat b) \<in> ?K" "(c, lane_vals \<rho> (nodes g) ! nat c) \<in> ?K" "(d, lane_vals \<rho> (nodes g) ! nat d) \<in> ?K"
      using sf by (simp_all add: slot_vals_def)
    show ?thesis using em [OF lower_wider(2) [OF f tern, THEN conjunct1] lower_wider(2) [OF f tern, THEN conjunct2]] unfolding b
      by (force simp: keeps_val_def is_val_def facts_def slot_vals_def)
  qed
qed

lemma lowers_push:
  assumes "push_node c g = (x, g')" "op c = op n" "inputs c = ins" "scalar c = scalar n" "scalar2 c = scalar2 n" "core (op n)"
    "n_device c = n_device n" "n_dtype c = n_dtype n" "n_rows c = n_rows n" "n_cols c = n_cols n"
    and "nodes_wf (nodes g)" "list_all (valid_slot (nodes g)) ins"
  shows "lowers n g x g' \<and> keeps_val \<rho> n g ins x g'"
proof -
  have g': "nodes g' = nodes g @ [c\<lparr>nid := int (length (nodes g))\<rparr>]" "x = int (length (nodes g))" using assms(1) by (auto simp: push_node_def Let_def)
  have "nodes_wf (nodes g')" using assms(3,11,12) g' by (auto simp: node_wf_def valid_slot_def list_all_iff)
  then have "lowers n g x g'" unfolding lowers_def using g' assms by (intro exI [of _ "[]"]) auto
  moreover have "keeps_val \<rho> n g ins x g'" using g' assms(2-5) by (simp add: keeps_val_def slot_vals_def node_val_def nth_append)
  ultimately show ?thesis by simp
qed

text \<open>An in-place node takes its shape from the target's node, which differs from \<open>n\<close>'s in no field that the pass relies on.\<close>

lemma lowers_push_inplace:
  assumes "push_node c g = (x, g')" "op c = op n" "inputs c = ins" "scalar c = scalar n" "scalar2 c = scalar2 n" "core (op n)" "op n \<noteq> Input"
    and "nodes_wf (nodes g)" "list_all (valid_slot (nodes g)) ins"
  shows "lowers n g x g' \<and> keeps_val \<rho> n g ins x g'"
proof -
  have g': "nodes g' = nodes g @ [c\<lparr>nid := int (length (nodes g))\<rparr>]" "x = int (length (nodes g))" using assms(1) by (auto simp: push_node_def Let_def)
  have "nodes_wf (nodes g')" using assms(3,8,9) g' by (auto simp: node_wf_def valid_slot_def list_all_iff)
  then have "lowers n g x g'" unfolding lowers_def using g' assms by (intro exI [of _ "[]"]) auto
  moreover have "keeps_val \<rho> n g ins x g'" using g' assms(2-5) by (simp add: keeps_val_def slot_vals_def node_val_def nth_append)
  ultimately show ?thesis by simp
qed

lemma lower_op_ok:
  assumes wf: "nodes_wf (nodes g)" and v: "list_all (valid_slot (nodes g)) ins" and len: "length ins = length (inputs n)" and rec: "recorded n"
    and anchor: "op n = Input \<or> 0 \<le> anchor \<and> valid_slot (nodes g) anchor"
    and tgt: "is_inplace n \<Longrightarrow> remap (inplace_target_slot n) = Some (hd ins)"
  shows "\<exists>x g'. lower_op remap anchor n ins g = Inr (x, g') \<and> lowers n g x g' \<and> keeps_val \<rho> n g ins x g'"
proof -
  consider (low) "\<not> core (op n) \<or> op n = Div" | (inp) "op n = Input" | (def) "core (op n)" "op n \<noteq> Div" "op n \<noteq> Input" by blast
  then show ?thesis
  proof cases
    case low
    then have "arity (op n) = Some (length ins)" using rec len by (auto simp: recorded_def core_def)
    then show ?thesis using lower_op_emitted [OF wf v _ _ _ low] anchor low by (auto simp: core_def)
  next
    case inp
    then have i: "ins = []" using rec len by (auto simp: recorded_def arity_def)
    let ?c = "default_node\<lparr>op := Input, inputs := [], scalar := 0, scalar2 := 0, buffer := buffer n, n_device := n_device n, n_dtype := n_dtype n, n_rows := n_rows n, n_cols := n_cols n\<rparr>"
    obtain x g' where p: "push_node ?c g = (x, g')" by force
    have "nodes g' = nodes g @ [?c\<lparr>nid := int (length (nodes g))\<rparr>]" "x = int (length (nodes g))" using p by (auto simp: push_node_def Let_def)
    then have "lowers n g x g'" unfolding lowers_def using wf inp by (intro exI [of _ "[]"]) (auto simp: node_wf_def core_def)
    then show ?thesis using p inp by (auto simp: lower_op_def Let_def add_node_def keeps_val_def)
  next
    case def
    have eq: "lower_op remap anchor n ins = (if is_inplace n
        then ebnd (elift (at_map remap (inplace_target_slot n))) (\<lambda>target. ebnd (if 1 < length (inputs n) then arg ins 1 else eret (- 1)) (\<lambda>x.
          add_inplace_node (op n) target x (buffer n) (scalar n) (scalar2 n)))
        else put (node_meta n) (op n) ins (scalar n) (scalar2 n))"
      using def by (cases "op n") (simp_all add: lower_op_def Let_def core_def)
    show ?thesis
    proof (cases "is_inplace n")
      case False
      let ?c = "default_node\<lparr>op := op n, inputs := ins, scalar := scalar n, scalar2 := scalar2 n, buffer := Null, n_device := n_device n, n_dtype := n_dtype n, n_rows := n_rows n, n_cols := n_cols n\<rparr>"
      obtain x g' where p: "push_node ?c g = (x, g')" by force
      then have "put (node_meta n) (op n) ins (scalar n) (scalar2 n) g = Inr (x, g')" by (simp add: put_def add_node_def node_meta_def)
      moreover have "lowers n g x g' \<and> keeps_val \<rho> n g ins x g'" by (rule lowers_push [OF p]) (use wf v def in simp_all)
      ultimately show ?thesis using False eq by auto
    next
      case True
      then consider (one) t where "inputs n = [t]" "inplace_target_slot n = t" | (two) t a where "inputs n = [t, a]" "inplace_target_slot n = t"
        using rec by (auto simp: recorded_def)
      then obtain t r where t: "remap (inplace_target_slot n) = Some t" "valid_slot (nodes g) t" "0 \<le> r \<longrightarrow> ins = [t, r]" "r < 0 \<longrightarrow> ins = [t]"
        and r: "(if 1 < length (inputs n) then arg ins 1 else eret (- 1)) g = Inr (r, g)"
      proof cases
        case one
        then obtain t' where "ins = [t']" using len by (auto simp: length_Suc_conv)
        then show thesis using that [of t' "- 1"] tgt True one v by (simp add: eret_def)
      next
        case two
        then obtain t' a' where i: "ins = [t', a']" using len by (auto simp: length_Suc_conv)
        then have "0 \<le> a'" using v by (simp add: valid_slot_def)
        then show thesis using that [of t' a'] tgt True two v i arg_eq(3) [of t' a'] by (simp add: elift_def)
      qed
      let ?tn = "nodes g ! nat t"
      let ?c = "default_node\<lparr>op := op n, inputs := (if 0 \<le> r then [t, r] else [t]), scalar := scalar n, scalar2 := scalar2 n, buffer := buffer n, n_device := n_device ?tn,
        n_dtype := n_dtype ?tn, n_rows := n_rows ?tn, n_cols := n_cols ?tn, is_inplace := True, inplace_target_slot := t, is_live_at_end := True\<rparr>"
      obtain x g' where p: "push_node ?c g = (x, g')" by force
      then have "add_inplace_node (op n) t r (buffer n) (scalar n) (scalar2 n) g = Inr (x, g')" using t(2) by (simp add: add_inplace_node_def Let_def)
      moreover have "lowers n g x g' \<and> keeps_val \<rho> n g ins x g'" by (rule lowers_push_inplace [OF p]) (use wf v def t in simp_all)
      ultimately show ?thesis using True eq t(1) r by (auto simp: at_map_def ebnd_def elift_def)
    qed
  qed
qed

section \<open>The loop\<close>

lemma lower_op_det:
  assumes "nodes_wf (nodes g)" "list_all (valid_slot (nodes g)) ins" "length ins = length (inputs n)" "recorded n"
    "op n = Input \<or> 0 \<le> anchor \<and> valid_slot (nodes g) anchor" "is_inplace n \<Longrightarrow> remap (inplace_target_slot n) = Some (hd ins)"
  shows "\<exists>x g'. lower_op remap anchor n ins g = Inr (x, g') \<and> lowers n g x g' \<and> (\<forall>\<rho>. keeps_val \<rho> n g ins x g')"
proof -
  note ok = lower_op_ok [where remap = remap, OF assms]
  obtain x g' where x: "lower_op remap anchor n ins g = Inr (x, g')" "lowers n g x g'" using ok by blast
  then have "keeps_val \<rho> n g ins x g'" for \<rho> using ok [of \<rho>] by auto
  then show ?thesis using x by blast
qed

lemma live_ids_snoc: "live_ids (ns @ [n]) = live_ids ns @ (if is_live_at_end n then [length ns] else [])"
proof -
  have "filter (\<lambda>i. is_live_at_end ((ns @ [n]) ! i)) [0..<length ns] = live_ids ns"
    unfolding live_ids_def by (rule filter_cong) (simp_all add: nth_append)
  then show ?thesis by (simp add: live_ids_def)
qed

lemma live_ids_fresh: "\<forall>n\<in>set ms. fresh n \<Longrightarrow> live_ids (ns @ ms) = live_ids ns"
  by (induction ms rule: rev_induct) (simp_all add: fresh_def live_ids_snoc flip: append_assoc)

text \<open>What a kernel call binds: the buffers of the inputs with their types and shapes.\<close>

definition interface :: "TraceNode list \<Rightarrow> (ptr \<times> Device \<times> Dtype \<times> int \<times> int) list" where
  "interface ns = map (\<lambda>n. (buffer n, n_device n, n_dtype n, n_rows n, n_cols n)) (filter (\<lambda>n. op n = Input) ns)"

lemma interface_append [simp]: "interface (ns @ ms) = interface ns @ interface ms"
  by (simp add: interface_def)

lemma interface_fresh: "\<forall>n\<in>set ms. fresh n \<Longrightarrow> interface ms = []"
  by (auto simp: interface_def filter_empty_conv fresh_def)

lemma interface_with_outputs: "interface (with_outputs f ns) = interface ns"
proof -
  have "interface (map (\<lambda>i. (m i)\<lparr>outputs := f (int i)\<rparr>) is) = interface (map m is)" for m :: "nat \<Rightarrow> TraceNode" and "is"
    by (simp add: interface_def filter_map comp_def)
  then show ?thesis by (simp add: with_outputs_def map_nth)
qed

lemma interface_count: "length (interface ns) = input_count ns"
  by (simp add: interface_def input_count_def)

text \<open>The position that stands for each lowered node.\<close>

definition new_pos :: "(int \<rightharpoonup> int) \<Rightarrow> nat \<Rightarrow> nat" where
  "new_pos remap i = nat (the (remap (int i)))"

definition lowered :: "TraceNode list \<Rightarrow> (int \<rightharpoonup> int) \<Rightarrow> int \<Rightarrow> TraceDAG \<Rightarrow> bool" where
  "lowered ns remap anchor g \<longleftrightarrow> nodes_wf (nodes g) \<and> (\<forall>n\<in>set (nodes g). core (op n))
     \<and> (if ns = [] then anchor < 0 else 0 \<le> anchor \<and> valid_slot (nodes g) anchor)
     \<and> interface (nodes g) = interface ns \<and> live_ids (nodes g) = map (new_pos remap) (live_ids ns)
     \<and> (\<forall>i < length ns. remap (int i) = Some (int (new_pos remap i)) \<and> new_pos remap i < length (nodes g)
          \<and> buffer (nodes g ! new_pos remap i) = buffer (ns ! i)
          \<and> ((\<forall>n\<in>set ns. exact_op (op n)) \<longrightarrow> (\<forall>\<rho>. lane_vals \<rho> (nodes g) ! new_pos remap i = lane_vals \<rho> ns ! i)))"

lemma lower_step_ok:
  assumes l: "lowered ns remap anchor g" and wf: "nodes_wf (ns @ [n])" and rec: "recorded n" and first: "ns = [] \<Longrightarrow> op n = Input"
  shows "\<exists>remap' anchor' g'. lower_step n (remap, anchor) g = Inr ((remap', anchor'), g') \<and> lowered (ns @ [n]) remap' anchor' g'"
proof -
  let ?ins = "map (\<lambda>i. int (new_pos remap (nat i))) (inputs n)"
  have n: "nid n = int (length ns)" using wf by (simp add: node_wf_def)
  have i: "0 \<le> i \<and> nat i < length ns" if "i \<in> set (inputs n)" for i using that wf by (auto simp: node_wf_def)
  have pos: "remap i = Some (int (new_pos remap (nat i)))" "new_pos remap (nat i) < length (nodes g)" if "i \<in> set (inputs n)" for i
    using i [OF that] l unfolding lowered_def by (metis nat_0_le, blast)
  have at: "at_all remap (inputs n) = Inr ?ins" by (rule at_all_known) (rule pos)
  have "list_all (valid_slot (nodes g)) ?ins" using pos(2) by (simp add: list_all_iff valid_slot_def)
  moreover have "remap (inplace_target_slot n) = Some (hd ?ins)" if "is_inplace n"
    using that rec pos(1) by (auto simp: recorded_def)
  moreover have "op n = Input \<or> 0 \<le> anchor \<and> valid_slot (nodes g) anchor" using l first by (cases "ns = []") (auto simp: lowered_def)
  ultimately obtain x h where x: "lower_op remap anchor n ?ins g = Inr (x, h)" "lowers n g x h" "\<And>\<rho>. keeps_val \<rho> n g ?ins x h"
    using lower_op_det [of g ?ins n anchor remap] l rec unfolding lowered_def by auto
  then obtain p ms c where h: "nodes h = p @ [c]" "x = int (length p)" and p: "p = nodes g @ ms" and ms: "\<forall>n\<in>set ms. fresh n"
    and c: "nodes_wf (nodes h)" "core (op c)" "op c = Input \<longleftrightarrow> op n = Input"
      "op n = Input \<longrightarrow> n_device c = n_device n \<and> n_dtype c = n_dtype n \<and> n_rows c = n_rows n \<and> n_cols c = n_cols n"
    unfolding lowers_def by (auto simp flip: append_assoc)
  define c' where "c' = c\<lparr>buffer := buffer n, is_live_at_end := is_live_at_end n\<rparr>"
  define r' a' where "r' = remap(nid n \<mapsto> x)" and "a' = (if op n = Input \<and> anchor < 0 then x else anchor)"
  define k where "k = mark_created n x h"
  have g: "nodes k = p @ [c']" using h by (simp add: k_def mark_created_def c'_def)
  have new: "new_pos r' i = (if i = length ns then length p else new_pos remap i)" for i
    using n h(2) by (simp add: new_pos_def r'_def)
  have wf': "nodes_wf (nodes k)" using c(1) unfolding g h(1) by (simp add: node_wf_def c'_def)
  have vals: "lane_vals \<rho> (nodes k) = lane_vals \<rho> (nodes h)" for \<rho> unfolding g h(1) by (simp add: node_val_def c'_def)
  have old: "lane_vals \<rho> (nodes k) ! i = lane_vals \<rho> (nodes g) ! i" if "i < length (nodes g)" for \<rho> i
    using that lane_vals_keep [OF that, of \<rho> "ms @ [c']"] by (simp add: g p)
  have count: "input_count p = input_count ns"
    using l ms interface_fresh [OF ms] by (simp add: lowered_def p flip: interface_count)
  have val: "lane_vals \<rho> (nodes k) ! length p = lane_vals \<rho> (ns @ [n]) ! length ns"
    if "\<forall>m\<in>set (ns @ [n]). exact_op (op m)" for \<rho>
  proof (cases "op n = Input")
    case True
    then have "op c' = Input" using c(3) by (simp add: c'_def)
    then show ?thesis using True count by (simp add: g nth_append node_val_def)
  next
    case False
    have "slot_vals \<rho> g ?ins = map (\<lambda>i. lane_vals \<rho> ns ! nat i) (inputs n)"
      unfolding slot_vals_def using i l that by (simp add: lowered_def)
    then have "lane_vals \<rho> (nodes h) ! length p = lane_vals \<rho> (ns @ [n]) ! length ns"
      using x(3) [of \<rho>] False that by (simp add: keeps_val_def node_val_def h(2) nth_append)
    then show ?thesis by (simp only: vals)
  qed
  have "lowered (ns @ [n]) r' a' k"
    unfolding lowered_def
  proof (intro conjI allI impI)
    show "\<forall>m\<in>set (nodes k). core (op m)" using l ms c(2) by (auto simp: g p lowered_def fresh_def c'_def)
    show "if ns @ [n] = [] then a' < 0 else 0 \<le> a' \<and> valid_slot (nodes k) a'"
      using l first h(2) by (auto simp: a'_def lowered_def valid_slot_def g p split: if_splits)
    show "interface (nodes k) = interface (ns @ [n])"
      using l c(3,4) interface_fresh [OF ms] by (auto simp: g p lowered_def interface_def c'_def)
    have "map (new_pos r') (live_ids ns) = map (new_pos remap) (live_ids ns)" by (simp add: new live_ids_def)
    then show "live_ids (nodes k) = map (new_pos r') (live_ids (ns @ [n]))"
      using l live_ids_fresh [OF ms, of "nodes g"] by (simp add: g live_ids_snoc lowered_def new c'_def flip: p)
    fix i assume i: "i < length (ns @ [n])"
    show "r' (int i) = Some (int (new_pos r' i))" unfolding new using i l by (auto simp: r'_def n h(2) lowered_def less_Suc_eq)
    have lt: "new_pos remap i < length (nodes g)" if "i < length ns" using that l by (simp add: lowered_def)
    show "new_pos r' i < length (nodes k)" using i lt by (force simp: new g p less_Suc_eq)
    show "buffer (nodes k ! new_pos r' i) = buffer ((ns @ [n]) ! i)"
      using i l lt by (auto simp: new g p nth_append c'_def lowered_def less_Suc_eq)
    fix \<rho> assume e: "\<forall>m\<in>set (ns @ [n]). exact_op (op m)"
    show "lane_vals \<rho> (nodes k) ! new_pos r' i = lane_vals \<rho> (ns @ [n]) ! i"
    proof (cases "i = length ns")
      case True
      then show ?thesis using val [OF e] by (simp add: new)
    next
      case False
      then have "i < length ns" using i by simp
      then show ?thesis using e l lt old by (simp add: new nth_append lowered_def)
    qed
  qed (use wf' in simp)
  moreover have "lower_step n (remap, anchor) g = Inr ((r', a'), k)"
    using at x(1) by (simp add: lower_step_def ebnd_def elift_def r'_def a'_def k_def)
  ultimately show ?thesis by blast
qed

lemma lower_nodes_append: "lower_nodes (ns @ ms) ra = ebnd (lower_nodes ns ra) (lower_nodes ms)"
proof (induction ns arbitrary: ra)
  case (Cons n ns)
  then show ?case by (auto simp: fun_eq_iff ebnd_def bnd_def split: sum.splits)
qed (simp add: fun_eq_iff ebnd_def eret_def)

lemma lower_nodes_ok:
  assumes "nodes_wf ns" "\<forall>n\<in>set ns. recorded n" "ns \<noteq> [] \<Longrightarrow> op (ns ! 0) = Input"
  shows "\<exists>remap anchor g. lower_nodes ns (Map.empty, - 1) empty_dag = Inr ((remap, anchor), g) \<and> lowered ns remap anchor g"
  using assms
proof (induction ns rule: rev_induct)
  case Nil
  then show ?case by (auto simp: lowered_def eret_def empty_dag_def interface_def live_ids_def)
next
  case (snoc n ns)
  have "ns \<noteq> [] \<Longrightarrow> op (ns ! 0) = Input" using snoc.prems(3) by (simp add: nth_append)
  then obtain remap anchor g where g: "lower_nodes ns (Map.empty, - 1) empty_dag = Inr ((remap, anchor), g)" "lowered ns remap anchor g"
    using snoc.IH snoc.prems(1,2) by auto
  moreover have "ns = [] \<Longrightarrow> op n = Input" using snoc.prems(3) by simp
  ultimately show ?case using lower_step_ok [OF g(2) snoc.prems(1)] snoc.prems(2)
    by (simp add: lower_nodes_append ebnd_def) (force simp: eret_def)
qed

section \<open>The pass as a whole\<close>

definition live_buffers :: "TraceNode list \<Rightarrow> ptr list" where
  "live_buffers ns = map (\<lambda>i. buffer (ns ! i)) (live_ids ns)"

lemma canonicalize_lowered:
  assumes "nodes_wf (nodes g)" "\<forall>n\<in>set (nodes g). recorded n" "nodes g \<noteq> [] \<longrightarrow> op (nodes g ! 0) = Input" "list_ex needs_lowering (nodes g)"
  shows "\<exists>remap anchor h. canonicalize_trace_dag_for_codegen g = Inr h \<and> lowered (nodes g) remap anchor h"
proof -
  obtain remap anchor k where k: "lower_nodes (nodes g) (Map.empty, - 1) empty_dag = Inr ((remap, anchor), k)" "lowered (nodes g) remap anchor k"
    using lower_nodes_ok [OF assms(1,2)] assms(3) by blast
  obtain f where f: "foldl push_uses (with_outputs (\<lambda>_. []) (nodes k)) (with_outputs (\<lambda>_. []) (nodes k)) = with_outputs f (nodes k)"
    by (simp add: foldl_push_uses)
  define h where "h = k\<lparr>nodes := with_outputs f (nodes k)\<rparr>"
  have "canonicalize_trace_dag_for_codegen g = Inr h"
    using k(1) assms(4) by (simp add: canonicalize_trace_dag_for_codegen_def cleared_outputs f h_def)
  moreover have nth: "length (nodes h) = length (nodes k)" "\<And>i. i < length (nodes k) \<Longrightarrow> nodes h ! i = (nodes k ! i)\<lparr>outputs := f (int i)\<rparr>"
    by (simp_all add: h_def)
  have "lane_vals \<rho> (nodes h) = lane_vals \<rho> (nodes k)" for \<rho> by (rule lane_vals_cong) (simp_all add: nth)
  moreover have "live_ids (nodes h) = live_ids (nodes k)" unfolding live_ids_def nth(1) by (rule filter_cong) (simp_all add: nth)
  moreover have "interface (nodes h) = interface (nodes k)" by (simp add: h_def interface_with_outputs)
  moreover have "nodes_wf (nodes h) = nodes_wf (nodes k)" by (simp add: nodes_wf_def node_wf_def nth)
  moreover have "valid_slot (nodes h) = valid_slot (nodes k)" by (simp add: fun_eq_iff valid_slot_def nth)
  moreover have "\<forall>n\<in>set (nodes h). core (op n)" if "\<forall>n\<in>set (nodes k). core (op n)" using that by (simp add: all_set_conv_all_nth nth)
  ultimately show ?thesis using k(2) nth by (intro exI [of _ remap] exI [of _ anchor] exI [of _ h]) (simp add: lowered_def)
qed

lemma canonicalize_wf:
  assumes "nodes_wf (nodes g)" "\<forall>n\<in>set (nodes g). recorded n" "nodes g \<noteq> [] \<longrightarrow> op (nodes g ! 0) = Input"
  shows "\<exists>h. canonicalize_trace_dag_for_codegen g = Inr h \<and> nodes_wf (nodes h)"
proof (cases "list_ex needs_lowering (nodes g)")
  case True
  then show ?thesis using canonicalize_lowered [OF assms] by (auto simp: lowered_def)
qed (use assms(1) in \<open>simp add: canonicalize_trace_dag_for_codegen_def\<close>)

text \<open>
  C15: lowering is well behaved for every recorded graph that starts with an input: \<^verbatim>\<open>canonicalize_trace_dag_for_codegen\<close> returns, with
  no failed lookup and no index out of range, a graph in topological order in which only the operators of the kernel emitters
  are left, which takes the same input buffers with the same devices, types and shapes in the same order, and which writes the
  same buffers in the same order.
\<close>

theorem canonicalize_structure:
  assumes "nodes_wf (nodes g)" "\<forall>n\<in>set (nodes g). recorded n" "nodes g \<noteq> [] \<longrightarrow> op (nodes g ! 0) = Input"
  shows "\<exists>h. canonicalize_trace_dag_for_codegen g = Inr h \<and> nodes_wf (nodes h) \<and> (\<forall>n\<in>set (nodes h). core (op n))
    \<and> interface (nodes h) = interface (nodes g) \<and> live_buffers (nodes h) = live_buffers (nodes g)"
proof (cases "list_ex needs_lowering (nodes g)")
  case True
  then obtain remap anchor h where h: "canonicalize_trace_dag_for_codegen g = Inr h" "lowered (nodes g) remap anchor h"
    using canonicalize_lowered [OF assms] by blast
  moreover have "live_buffers (nodes h) = live_buffers (nodes g)" using h(2) by (simp add: lowered_def live_buffers_def) (simp add: live_ids_def)
  ultimately show ?thesis by (auto simp: lowered_def)
next
  case False
  then have "\<forall>n\<in>set (nodes g). core (op n)" by (auto simp: list_ex_iff needs_lowering_def core_def)
  then show ?thesis using False assms(1) by (simp add: canonicalize_trace_dag_for_codegen_def)
qed

lemma canonicalize_keeps_values:
  assumes "nodes_wf (nodes g)" "\<forall>n\<in>set (nodes g). recorded n \<and> exact_op (op n)" "nodes g \<noteq> [] \<longrightarrow> op (nodes g ! 0) = Input"
  shows "\<exists>h. canonicalize_trace_dag_for_codegen g = Inr h \<and> (\<forall>\<rho>. live_vals \<rho> h = live_vals \<rho> g)"
proof (cases "list_ex needs_lowering (nodes g)")
  case True
  then obtain remap anchor h where h: "canonicalize_trace_dag_for_codegen g = Inr h" "lowered (nodes g) remap anchor h"
    using canonicalize_lowered [OF assms(1) _ assms(3)] assms(2) by blast
  then have "live_vals \<rho> h = live_vals \<rho> g" for \<rho>
    using assms(2) by (simp add: lowered_def live_vals_def) (simp add: live_ids_def)
  then show ?thesis using h(1) by blast
qed (simp add: canonicalize_trace_dag_for_codegen_def)

text \<open>
  C13: lowering preserves the results of every graph built from the operators whose lowering is meant to be exact (all but exponential,
  logarithm, square roots and divisions): in exact arithmetic the lowered graph computes, for all input values, the same
  value for every live node.
\<close>

theorem canonicalize_values:
  assumes "nodes_wf (nodes g)" "elementwise (nodes g)" "\<forall>n\<in>set (nodes g). recorded n \<and> exact_op (op n)" "nodes g \<noteq> [] \<longrightarrow> op (nodes g ! 0) = Input"
  shows "\<exists>h. canonicalize_trace_dag_for_codegen g = Inr h \<and> (\<forall>\<rho>. live_vals \<rho> h = live_vals \<rho> g)"
  by (rule canonicalize_keeps_values [OF assms(1,3,4)])

section \<open>A graph to lower\<close>

text \<open>\<^verbatim>\<open>y = -x\<close>, one element.\<close>

definition demo_neg :: TraceDAG where
  "demo_neg = \<lparr>nodes = [default_node\<lparr>nid := 0, n_rows := 1, n_cols := 1, outputs := [1]\<rparr>,
     default_node\<lparr>nid := 1, op := Neg, inputs := [0], n_rows := 1, n_cols := 1, is_live_at_end := True\<rparr>], input_ptr_to_slot = Map.empty\<rparr>"

lemma demo_neg_facts:
  "nodes_wf (nodes demo_neg)" "elementwise (nodes demo_neg)" "\<forall>n\<in>set (nodes demo_neg). recorded n \<and> exact_op (op n)"
  "nodes demo_neg \<noteq> [] \<longrightarrow> op (nodes demo_neg ! 0) = Input" "live_vals \<rho> demo_neg = [- \<rho> 0]" "interface (nodes demo_neg) = [(Null, cpu, FP32, 1, 1)]"
proof -
  have v: "lane_vals \<rho> (nodes demo_neg) = [\<rho> 0, - \<rho> 0]"
    by (simp add: lane_vals_def lane_step_def demo_neg_def default_node_def op_val_def)
  have "live_ids (nodes demo_neg) = [1]" by (simp add: live_ids_def demo_neg_def default_node_def upt_rec)
  then show "live_vals \<rho> demo_neg = [- \<rho> 0]" by (simp add: live_vals_def v)
  show "nodes_wf (nodes demo_neg)" by (auto simp: demo_neg_def nodes_wf_def node_wf_def less_Suc_eq default_node_def)
qed (simp_all add: demo_neg_def elementwise_def arity_def default_node_def recorded_def exact_op_def interface_def)

theorem canonicalize_structure_witness:
  "\<exists>h. canonicalize_trace_dag_for_codegen demo_neg = Inr h \<and> nodes_wf (nodes h) \<and> interface (nodes h) = [(Null, cpu, FP32, 1, 1)]"
  using canonicalize_structure [of demo_neg] by (auto simp: demo_neg_facts)

theorem canonicalize_values_witness:
  "\<exists>h. canonicalize_trace_dag_for_codegen demo_neg = Inr h \<and> live_vals (\<lambda>_. 3) h = [- 3]"
  using canonicalize_values [of demo_neg] demo_neg_facts(1-4) by (auto simp: demo_neg_facts(5))

theorem lowered_sqrt_too_big_witness:
  "\<exists>i h. emit_lowered_sqrt 0 0 default_meta demo_neg = Inr (i, h) \<and> 2048 \<le> lane_vals (\<lambda>_. 2 ^ 21) (nodes h) ! nat i \<and> sqrt (2 ^ 21) < (2048 :: real)"
proof -
  have "(0, 2 ^ 21) \<in> facts (\<lambda>_. 2 ^ 21) demo_neg"
    by (simp add: facts_def valid_slot_def lane_vals_def lane_step_def demo_neg_def default_node_def)
  from lowered_sqrt_too_big [OF demo_neg_facts(1) this this, of default_meta] show ?thesis by simp
qed

end
