(* ===== verification/LoweredDivs.thy ===== *)
theory LoweredDivs
  imports Lowering
begin

text \<open>
  The divisions of a lowered graph: every denominator is \<^verbatim>\<open>ReLU(x) + eps\<close> with a positive literal, which is what the emitters of
  \<^verbatim>\<open>src/jit/trace_autodiff.cpp\<close> promise the kernel verifier.
\<close>

definition guarded_slot :: "TraceDAG \<Rightarrow> int \<Rightarrow> bool" where
  "guarded_slot g d \<longleftrightarrow> guarded_denom d g = Inr True"

definition divs_ok :: "TraceDAG \<Rightarrow> bool" where
  "divs_ok g \<longleftrightarrow> (\<forall>n\<in>set (nodes g). op n = Div \<longrightarrow> (\<exists>a d. inputs n = [a, d] \<and> guarded_slot g d))"

lemma guard_iff: "guarded_slot g d \<longleftrightarrow> valid_slot (nodes g) d \<and> (let n = nodes g ! nat d in op n = AddScalar \<and> f32_pos (scalar n) \<and> inputs n \<noteq> []
    \<and> valid_slot (nodes g) (hd (inputs n)) \<and> op (nodes g ! nat (hd (inputs n))) = ReLU)"
  by (auto simp: guarded_slot_def guarded_denom_def node_at_def Let_def)

lemma guard_append: "guarded_slot g d \<Longrightarrow> nodes g' = nodes g @ ms \<Longrightarrow> guarded_slot g' d"
  by (auto simp: guard_iff Let_def valid_slot_def nth_append)

lemma divs_ok_append:
  assumes "divs_ok g" "nodes g' = nodes g @ [n]" "op n = Div \<Longrightarrow> \<exists>a d. inputs n = [a, d] \<and> guarded_slot g d"
  shows "divs_ok g'"
proof -
  have "\<exists>a d. inputs m = [a, d] \<and> guarded_slot g d" if "m \<in> set (nodes g')" "op m = Div" for m using that assms by (auto simp: divs_ok_def)
  then show ?thesis unfolding divs_ok_def using guard_append [OF _ assms(2)] by meson
qed

text \<open>
  What an emitter keeps: the graph only grows, guarded slots stay guarded, and only guarded slots are divided by; with \<open>R\<close>, the slot
  returned is guarded.
\<close>

definition guards :: "int set \<Rightarrow> int emit \<Rightarrow> bool \<Rightarrow> bool" where
  "guards G m R \<longleftrightarrow> (\<forall>g x g'. m g = Inr (x, g') \<and> divs_ok g \<and> (\<forall>d\<in>G. guarded_slot g d) \<longrightarrow>
     divs_ok g' \<and> (\<exists>ms. nodes g' = nodes g @ ms) \<and> (R \<longrightarrow> guarded_slot g' x))"

lemma guards_put:
  assumes "k = Div \<Longrightarrow> \<exists>a d. ins = [a, d] \<and> d \<in> G"
  shows "guards G (put m k ins s s2) False"
  unfolding guards_def
proof (intro allI impI, elim conjE)
  fix g x g' assume a: "put m k ins s s2 g = Inr (x, g')" "divs_ok g" "\<forall>d\<in>G. guarded_slot g d"
  obtain n where n: "nodes g' = nodes g @ [n]" "op n = k" "inputs n = ins" using a(1) by (auto simp: put_eq)
  then have "divs_ok g'" using assms a(2,3) by (intro divs_ok_append [OF _ n(1)]) auto
  then show "divs_ok g' \<and> (\<exists>ms. nodes g' = nodes g @ ms) \<and> (False \<longrightarrow> guarded_slot g' x)" using n(1) by simp
qed

lemma guards_put_other: "k \<noteq> Div \<Longrightarrow> guards G (put m k ins s s2) False"
  by (rule guards_put) simp

lemma guards_put_div: "d \<in> G \<Longrightarrow> guards G (put m Div [a, d] s s2) False"
  by (rule guards_put) simp

lemma guards_bind_gen:
  assumes "guards G m Q" "\<And>x. guards (if Q then insert x G else G) (f x) R"
  shows "guards G (ebnd m f) R"
  unfolding guards_def
proof (intro allI impI, elim conjE)
  fix g x g' assume a: "ebnd m f g = Inr (x, g')" "divs_ok g" "\<forall>d\<in>G. guarded_slot g d"
  then obtain y h where y: "m g = Inr (y, h)" "f y h = Inr (x, g')" by (auto simp: ebnd_def)
  then have h: "divs_ok h" "Q \<longrightarrow> guarded_slot h y" and "\<exists>ms. nodes h = nodes g @ ms" using assms(1) a unfolding guards_def by blast+
  then obtain ms where ms: "nodes h = nodes g @ ms" by blast
  have "\<forall>d\<in>if Q then insert y G else G. guarded_slot h d" using h(2) guard_append [OF _ ms] a(3) by auto
  then have "divs_ok g' \<and> (\<exists>ms. nodes g' = nodes h @ ms) \<and> (R \<longrightarrow> guarded_slot g' x)" using assms(2) [of y] y(2) h(1) unfolding guards_def by blast
  then show "divs_ok g' \<and> (\<exists>ms. nodes g' = nodes g @ ms) \<and> (R \<longrightarrow> guarded_slot g' x)" using ms by auto
qed

lemma guards_bind: "guards G m False \<Longrightarrow> (\<And>x. guards G (f x) R) \<Longrightarrow> guards G (ebnd m f) R"
  by (rule guards_bind_gen [where Q = False]) auto

lemma guards_bind_guarded: "guards G m True \<Longrightarrow> (\<And>x. guards (insert x G) (f x) R) \<Longrightarrow> guards G (ebnd m f) R"
  by (rule guards_bind_gen [where Q = True]) auto

lemma guards_ret: "guards G (eret x) False"
  by (simp add: guards_def eret_def)

lemma guards_lift: "guards G (elift r) False"
  by (auto simp: guards_def elift_def)

lemma guards_arg: "guards G (arg ins k) False"
  by (simp add: arg_def guards_lift)

lemma guards_repeat: "(\<And>e. guards G (f e) False) \<Longrightarrow> guards G (erepeat n f e) False"
  by (induction n arbitrary: e) (auto intro: guards_ret guards_bind)

lemma f32_pos_literals: "f32_pos kSafeEps" "f32_pos f32_one"
  by (simp_all add: f32_literals f32_pos_def f32_is_zero_def is_nan32_def)

lemma guards_pos_denom: "f32_pos e \<Longrightarrow> guards G (emit_pos_denom x e m) True"
proof -
  assume e: "f32_pos e"
  have ok: "guards G (emit_pos_denom x e m) False"
    unfolding emit_pos_denom_def by (intro guards_bind guards_put_other) simp_all
  have nat1: "nat (1 + int n) = Suc n" for n by simp
  have "guarded_slot g' i" if "emit_pos_denom x e m g = Inr (i, g')" for g i g'
    using that e by (auto simp: nat1 emit_pos_denom_def ebnd_def put_eq guard_iff Let_def valid_slot_def nth_append default_node_def)
  then show ?thesis using ok by (auto simp: guards_def)
qed

lemma guards_const: "guards G (emit_const a v m) False"
  unfolding emit_const_def by (auto intro!: guards_bind guards_ret guards_put_other)

lemmas guards_rules = guards_bind_guarded [OF guards_pos_denom] guards_bind guards_put_div guards_put_other guards_const guards_ret guards_lift guards_arg

lemma guards_emitters:
  "guards G (emit_neg x m) False" "guards G (emit_abs x m) False" "guards G (emit_horner y c m x) False" "guards G (lower_gelu m x) False"
  unfolding emit_neg_def emit_abs_def emit_horner_def lower_gelu_def by (intro guards_rules; simp)+

lemma guards_newton: "guards G (emit_newton xs m y) False"
  unfolding emit_newton_def
  by (intro guards_rules guards_put_div insertI1 guards_put_other f32_pos_literals; simp)

lemma guards_signed_div: "guards G (emit_signed_div a x y m) False"
  unfolding emit_signed_div_def
  by (rule guards_bind_guarded [OF guards_pos_denom] f32_pos_literals guards_bind guards_put_div guards_const guards_emitters insertI1 | rule guards_put_other, simp)+

lemma guards_safe_div: "guards G (emit_safe_div_signed a x y m) False"
proof -
  have "divs_ok g' \<and> (\<exists>ms. nodes g' = nodes g @ ms)"
    if r: "emit_safe_div_signed a x y m g = Inr (i, g')" "divs_ok g" for g i g'
  proof -
    obtain b where b: "guarded_denom y g = Inr b" using r(1) by (auto simp: emit_safe_div_signed_def)
    show ?thesis
    proof (cases b)
      case True
      then have "guarded_slot g y" using b by (simp add: guarded_slot_def)
      then show ?thesis using r b True guards_put_div [of y "{y}" m x 0 0] by (auto simp: emit_safe_div_signed_def guards_def)
    next
      case False
      then show ?thesis using r b guards_signed_div [of "{}" a x y m] by (auto simp: emit_safe_div_signed_def guards_def)
    qed
  qed
  then show ?thesis by (auto simp: guards_def)
qed

lemma guards_exp: "guards G (emit_lowered_exp x m) False"
  unfolding emit_lowered_exp_def
  by (intro guards_repeat guards_rules f32_pos_literals insertI1; simp)

lemma guards_sqrt: "guards G (emit_lowered_sqrt a x m) False"
  unfolding emit_lowered_sqrt_def
  by (intro guards_repeat guards_newton guards_rules f32_pos_literals insertI1; simp)

lemma guards_rsqrt_log: "guards G (emit_lowered_rsqrt a x m) False" "guards G (emit_lowered_log a x m) False"
  unfolding emit_lowered_rsqrt_def emit_lowered_log_def
  by (intro guards_sqrt guards_emitters guards_rules f32_pos_literals insertI1; simp)+

lemma push_node_divs:
  assumes "push_node n g = (x, g')" "op n \<noteq> Div" "divs_ok g"
  shows "divs_ok g' \<and> (\<exists>ms. nodes g' = nodes g @ ms)"
proof -
  have "nodes g' = nodes g @ [n\<lparr>nid := int (length (nodes g))\<rparr>]" using assms(1) by (auto simp: push_node_def Let_def)
  then show ?thesis using divs_ok_append [OF assms(3), of g' "n\<lparr>nid := int (length (nodes g))\<rparr>"] assms(2) by simp
qed

lemma guards_add_node: "op n \<noteq> Div \<Longrightarrow> guards G (\<lambda>g. Inr (push_node n g)) False"
  using push_node_divs [of n] unfolding guards_def by blast

lemma guards_add_inplace:
  assumes "k \<noteq> Div"
  shows "guards G (add_inplace_node k t a b s s2) False"
proof -
  have "divs_ok g' \<and> (\<exists>ms. nodes g' = nodes g @ ms)" if r: "add_inplace_node k t a b s s2 g = Inr (x, g')" "divs_ok g" for g x g'
  proof -
    obtain n where "push_node n g = (x, g')" "op n = k" using r(1) by (auto simp: add_inplace_node_def Let_def split: if_splits)
    then show ?thesis using push_node_divs r(2) assms by blast
  qed
  then show ?thesis unfolding guards_def by blast
qed

lemma guards_lower_op: "guards {} (lower_op remap anchor n ins) False"
proof -
  note r = guards_rules guards_emitters guards_exp guards_sqrt guards_rsqrt_log guards_safe_div
  have d: "guards {} (if is_inplace n
        then ebnd (elift (at_map remap (inplace_target_slot n))) (\<lambda>target. ebnd (if 1 < length (inputs n) then arg ins 1 else eret (- 1)) (\<lambda>x.
          add_inplace_node (op n) target x (buffer n) (scalar n) (scalar2 n)))
        else put (node_meta n) (op n) ins (scalar n) (scalar2 n)) False" if "op n \<noteq> Div"
    using that by (auto intro!: guards_bind guards_add_inplace guards_lift guards_arg guards_ret guards_put_other)
  have i: "guards {} (\<lambda>g. Inr (add_node Input [] 0 (buffer n) (n_device n) (n_dtype n) (n_rows n) (n_cols n) 0 g)) False"
    unfolding add_node_def by (rule guards_add_node) simp
  show ?thesis using d i unfolding lower_op_def Let_def by (cases "op n"; simp; (intro r; simp)?)
qed

lemma guards_mark_created: "divs_ok g \<Longrightarrow> divs_ok (mark_created n x g)"
proof -
  assume ok: "divs_ok g"
  let ?h = "mark_created n x g"
  have same: "op (nodes ?h ! i) = op (nodes g ! i)" "inputs (nodes ?h ! i) = inputs (nodes g ! i)" "scalar (nodes ?h ! i) = scalar (nodes g ! i)"
    if "i < length (nodes g)" for i using that by (cases "i = nat x"; simp add: mark_created_def)+
  have len: "length (nodes ?h) = length (nodes g)" by (simp add: mark_created_def)
  have "guarded_slot ?h d" if "guarded_slot g d" for d using that by (auto simp: guard_iff Let_def valid_slot_def len same)
  then show ?thesis using ok by (fastforce simp: divs_ok_def all_set_conv_all_nth len same)
qed

lemma lower_nodes_divs: "lower_nodes ns ra g = Inr (ra', g') \<Longrightarrow> divs_ok g \<Longrightarrow> divs_ok g'"
proof (induction ns arbitrary: ra g)
  case (Cons n ns)
  then obtain rb h where h: "lower_step n ra g = Inr (rb, h)" "lower_nodes ns rb h = Inr (ra', g')" by (auto simp: ebnd_def)
  then obtain remap anchor ins x k where "lower_op remap anchor n ins g = Inr (x, k)" "h = mark_created n x k"
    by (cases ra) (auto simp: lower_step_def ebnd_def elift_def)
  then have "divs_ok h" using guards_lower_op [of remap anchor n ins] guards_mark_created Cons.prems(2) unfolding guards_def by auto
  then show ?case using Cons.IH h(2) by blast
qed (simp add: eret_def)

lemma canonicalize_divs_ok: "canonicalize_trace_dag_for_codegen g = Inr h \<Longrightarrow> divs_ok h"
proof (cases "list_ex needs_lowering (nodes g)")
  case True
  assume "canonicalize_trace_dag_for_codegen g = Inr h"
  then obtain ra k where k: "lower_nodes (nodes g) (Map.empty, - 1) empty_dag = Inr (ra, k)"
    and h: "nodes h = with_outputs (users (with_outputs (\<lambda>_. []) (nodes k))) (nodes k)"
    using True by (auto simp: canonicalize_trace_dag_for_codegen_def cleared_outputs foldl_push_uses)
  have ok: "divs_ok k" by (rule lower_nodes_divs [OF k]) (simp add: divs_ok_def empty_dag_def)
  have "guarded_slot h d" if "guarded_slot k d" for d using that h by (auto simp: guard_iff Let_def valid_slot_def)
  then show ?thesis using ok h by (fastforce simp: divs_ok_def all_set_conv_all_nth)
next
  case False
  assume "canonicalize_trace_dag_for_codegen g = Inr h"
  then show ?thesis using False by (auto simp: canonicalize_trace_dag_for_codegen_def divs_ok_def list_ex_iff needs_lowering_def)
qed

lemma f32_pos_value: "f32_pos x \<Longrightarrow> 0 < f32 x"
proof -
  assume x: "f32_pos x"
  let ?y = "x AND 0x7FFFFFFF"
  have "?y \<le> 0x7FFFFFFF" by (rule word_and_le1)
  then have "unat ?y \<le> unat (0x7FFFFFFF :: 32 word)" by (simp only: word_le_nat_alt)
  then have "unat ?y div 2 ^ 23 < 256" by simp
  moreover have "unat ?y \<noteq> 0" using x by (simp add: f32_pos_def f32_is_zero_def unat_eq_0)
  ultimately have "0 < fp32_abs ?y" unfolding fp32_abs_def Let_def by (cases "unat ?y div 2 ^ 23 = 0") (auto simp: div_eq_0_iff)
  then show ?thesis using x by (simp add: f32_def f32_pos_def)
qed

lemma guard_positive:
  assumes wf: "nodes_wf (nodes g)" and d: "guarded_slot g d"
  shows "0 < lane_vals \<rho> (nodes g) ! nat d"
proof -
  let ?n = "nodes g ! nat d"
  have n: "nat d < length (nodes g)" "op ?n = AddScalar" "f32_pos (scalar ?n)" using d by (auto simp: guard_iff Let_def valid_slot_def)
  obtain r rs where r: "inputs ?n = r # rs" "op (nodes g ! nat r) = ReLU" "nat r < length (nodes g)"
    using d by (cases "inputs ?n") (auto simp: guard_iff Let_def valid_slot_def)
  have "0 \<le> lane_vals \<rho> (nodes g) ! nat r" using lane_vals_op [OF wf r(3)] r(2) by (simp add: op_val_def)
  moreover have "lane_vals \<rho> (nodes g) ! nat d = lane_vals \<rho> (nodes g) ! nat r + f32 (scalar ?n)"
    using lane_vals_op [OF wf n(1)] n(2) r(1) by (simp add: op_val_def operand_vals_def)
  ultimately show ?thesis using f32_pos_value [OF n(3)] by linarith
qed

text \<open>
  C14: no lowered kernel divides by zero. In the graph that lowering returns, every division has two operands, and for all input values
  the denominator is positive in exact arithmetic.
\<close>

theorem canonicalize_divisions_safe:
  assumes "nodes_wf (nodes g)" "\<forall>n\<in>set (nodes g). recorded n" "nodes g \<noteq> [] \<longrightarrow> op (nodes g ! 0) = Input"
  shows "\<exists>h. canonicalize_trace_dag_for_codegen g = Inr h \<and>
    (\<forall>n\<in>set (nodes h). op n = Div \<longrightarrow> (\<exists>a d. inputs n = [a, d] \<and> (\<forall>\<rho>. 0 < lane_vals \<rho> (nodes h) ! nat d)))"
proof -
  obtain h where h: "canonicalize_trace_dag_for_codegen g = Inr h" "nodes_wf (nodes h)" using canonicalize_wf [OF assms] by blast
  then show ?thesis using canonicalize_divs_ok [OF h(1)] guard_positive [OF h(2)] unfolding divs_ok_def by blast
qed

definition demo_div :: TraceDAG where
  "demo_div = \<lparr>nodes = [default_node\<lparr>nid := 0, n_rows := 1, n_cols := 1, outputs := [1, 1]\<rparr>,
     default_node\<lparr>nid := 1, op := Div, inputs := [0, 0], n_rows := 1, n_cols := 1, is_live_at_end := True\<rparr>], input_ptr_to_slot = Map.empty\<rparr>"

lemma demo_div_facts:
  "nodes_wf (nodes demo_div)" "\<forall>n\<in>set (nodes demo_div). recorded n" "nodes demo_div \<noteq> [] \<longrightarrow> op (nodes demo_div ! 0) = Input"
proof -
  show "nodes_wf (nodes demo_div)" by (auto simp: demo_div_def nodes_wf_def node_wf_def less_Suc_eq default_node_def)
qed (simp_all add: demo_div_def arity_def default_node_def recorded_def)

theorem canonicalize_divisions_safe_witness:
  "\<exists>h. canonicalize_trace_dag_for_codegen demo_div = Inr h \<and>
     Ball (set (filter (\<lambda>n. op n = Div) (nodes h))) (\<lambda>n. 0 < lane_vals (\<lambda>_. 0) (nodes h) ! nat (inputs n ! 1))"
  using canonicalize_divisions_safe [OF demo_div_facts] by fastforce

end
