(* ===== verification/BackwardLowered.thy ===== *)
theory BackwardLowered
  imports Lowering
begin

text \<open>
  Differentiation followed by lowering, as \<^verbatim>\<open>build_verified_backward_trace\<close> of \<^verbatim>\<open>src/jit/trace_autodiff.cpp\<close> composes them: for a forward
  graph of exactly lowered operators the lowered backward graph still computes the gradient.
\<close>

section \<open>The entry point\<close>








section \<open>What differentiation emits\<close>




















section \<open>What pruning keeps\<close>








section \<open>The composition\<close>





end
