(* ===== verification/TraceCompile.thy ===== *)
theory TraceCompile
  imports Lowering CacheThreads TraceProps
begin

text \<open>
  Compiling a finished trace (\<^verbatim>\<open>TraceCompiler\<close> of \<^verbatim>\<open>src/jit/trace_compiler_cpu.cpp\<close> and \<^verbatim>\<open>src/jit/trace_compiler.h\<close>): lowering, the signature, the cache of
  compiled kernels, and the choice of the compiler. The compilers themselves (brass, PTX, SPIR-V, the eager replay) are parameters;
  an effect \<open>'e\<close> stands for one call of a bound kernel, and the state keeps the effects in the order they happen. Durations are
  left out.
\<close>

section \<open>Handles and compilers\<close>

datatype FusionPattern = Elementwise | ResidualRMSNorm | LayerNormModulate

datatype 'e TraceHandleImpl = TraceHandleImpl
  (signature_hash: "64 word")
  (h_is_cuda: bool)
  (node_count: nat)
  (is_cache_hit: bool)
  (launch_count: nat)
  (fusion_name: string)
  (execute_fn: "'e option")
  (rebind_fn: "(ptr list \<Rightarrow> ptr list \<Rightarrow> 'e TraceHandleImpl) option")

text \<open>A compiler returns a handle, or null, or throws.\<close>

type_synonym 'e compiler = "TraceDAG \<Rightarrow> FusionPattern \<Rightarrow> 'e TraceHandleImpl option res"

record 'e compilers =
  compile_cpu :: "'e compiler"
  compile_eager :: "TraceDAG \<Rightarrow> 'e TraceHandleImpl option res"

record 'e jit =
  jit_cache :: "'e TraceHandleImpl TraceCache"
  cuda_hook :: "'e compiler option"
  vulkan_hook :: "'e compiler option"
  executed :: "'e list"

definition register_cuda_trace_compiler :: "'e compiler option \<Rightarrow> 'e jit \<Rightarrow> 'e jit" where
  "register_cuda_trace_compiler fn st = st\<lparr>cuda_hook := fn\<rparr>"

definition register_vulkan_trace_compiler :: "'e compiler option \<Rightarrow> 'e jit \<Rightarrow> 'e jit" where
  "register_vulkan_trace_compiler fn st = st\<lparr>vulkan_hook := fn\<rparr>"

text \<open>\<^verbatim>\<open>TraceHandleImpl::execute\<close>.\<close>

definition execute_handle :: "'e TraceHandleImpl \<Rightarrow> 'e jit \<Rightarrow> 'e TraceHandleImpl res \<times> 'e jit" where
  "execute_handle h st = (case execute_fn h of
      None \<Rightarrow> (Inl (Throw ''brotensor::jit: TraceHandle has no executable function bound''), st)
    | Some e \<Rightarrow> (Inr h, st\<lparr>executed := executed st @ [e]\<rparr>))"

section \<open>Classification\<close>

definition fused_residual :: "TraceNode list \<Rightarrow> TraceNode \<Rightarrow> bool" where
  "fused_residual ns n \<longleftrightarrow> op n = RMSNorm \<and> inputs n \<noteq> [] \<and> valid_slot ns (hd (inputs n))
     \<and> op (ns ! nat (hd (inputs n))) = Add \<and> is_inplace (ns ! nat (hd (inputs n)))"

definition fused_modulate :: "TraceNode list \<Rightarrow> TraceNode \<Rightarrow> bool" where
  "fused_modulate ns n \<longleftrightarrow> op n = LayerNorm \<and> list_ex (\<lambda>i. valid_slot ns i \<and> op (ns ! nat i) \<in> {Modulate, Mul}) (outputs n)"

definition classify_dag :: "TraceDAG \<Rightarrow> FusionPattern" where
  "classify_dag g = (if list_ex (fused_residual (nodes g)) (nodes g) then ResidualRMSNorm
     else if list_ex (fused_modulate (nodes g)) (nodes g) then LayerNormModulate else Elementwise)"

section \<open>Compiling\<close>

definition has_ext_ops :: "TraceDAG \<Rightarrow> bool" where
  "has_ext_ops g \<longleftrightarrow> list_ex (\<lambda>n. op n \<in> {Const, Neg, Abs, Exp, Log, Sqrt, Rsqrt}) (nodes g)"

definition codegen_dag :: "TraceDAG \<Rightarrow> TraceDAG res" where
  "codegen_dag raw = (if has_ext_ops raw then canonicalize_trace_dag_for_codegen raw else Inr raw)"

definition input_ptrs :: "TraceDAG \<Rightarrow> ptr list" where
  "input_ptrs g = map buffer (filter (\<lambda>n. op n = Input) (nodes g))"

definition output_ptrs :: "TraceDAG \<Rightarrow> ptr list" where
  "output_ptrs g = map buffer (filter is_live_at_end (nodes g))"

text \<open>CUDA first, then Vulkan, whose compiler may decline; the CPU compiler gets everything else.\<close>

definition on_cuda :: "TraceDAG \<Rightarrow> bool" where
  "on_cuda g \<longleftrightarrow> list_ex (\<lambda>n. is_cuda (n_device n)) (nodes g)"

definition on_vulkan :: "TraceDAG \<Rightarrow> bool" where
  "on_vulkan g \<longleftrightarrow> list_ex (\<lambda>n. is_vulkan (n_device n)) (nodes g)"

definition compile_dag :: "'e compilers \<Rightarrow> 'e jit \<Rightarrow> TraceDAG \<Rightarrow> 'e TraceHandleImpl option res" where
  "compile_dag cs st g = (let pattern = classify_dag g in
     if on_cuda g then case cuda_hook st of
         None \<Rightarrow> Inl (Throw ''brotensor::jit: CUDA JIT compiler hook is not registered or CUDA is unavailable'')
       | Some f \<Rightarrow> f g pattern
     else if on_vulkan g then bnd (case vulkan_hook st of None \<Rightarrow> Inr None | Some f \<Rightarrow> f g pattern)
         (\<lambda>h. case h of None \<Rightarrow> compile_eager cs g | Some h \<Rightarrow> Inr (Some h))
     else compile_cpu cs g pattern)"

definition stamp_hit :: "64 word \<Rightarrow> TraceDAG \<Rightarrow> 'e TraceHandleImpl \<Rightarrow> 'e TraceHandleImpl" where
  "stamp_hit hash g h = TraceHandleImpl hash (h_is_cuda h) (length (nodes g)) True (launch_count h) (fusion_name h) (execute_fn h) (rebind_fn h)"

definition stamp_new :: "64 word \<Rightarrow> TraceDAG \<Rightarrow> 'e TraceHandleImpl \<Rightarrow> 'e TraceHandleImpl" where
  "stamp_new hash g h = TraceHandleImpl hash (on_cuda g) (length (nodes g)) False (if launch_count h = 0 then 1 else launch_count h)
     (if \<not> on_cuda g \<and> \<not> on_vulkan g \<and> fusion_name h = [] then ''cpu-avx2-fused'' else fusion_name h) (execute_fn h) (rebind_fn h)"

definition compile_new :: "'e compilers \<Rightarrow> TraceDAG \<Rightarrow> 'e jit \<Rightarrow> 'e TraceHandleImpl res \<times> 'e jit" where
  "compile_new cs g st = (case compile_dag cs st g of
      Inl e \<Rightarrow> (Inl e, st)
    | Inr None \<Rightarrow> (Inl (UB ''null handle''), st)
    | Inr (Some h) \<Rightarrow> let hash = compute_hash g; h' = stamp_new hash g h in
        execute_handle h' (st\<lparr>jit_cache := cache_insert hash (Some h') (jit_cache st)\<rparr>))"

definition compile_and_cache :: "'e compilers \<Rightarrow> TraceDAG \<Rightarrow> 'e jit \<Rightarrow> 'e TraceHandleImpl res \<times> 'e jit" where
  "compile_and_cache cs raw st = (case codegen_dag raw of
      Inl e \<Rightarrow> (Inl e, st)
    | Inr g \<Rightarrow> let hash = compute_hash g; (cached, c) = cache_lookup hash (jit_cache st); st = st\<lparr>jit_cache := c\<rparr> in
        case Option.bind cached rebind_fn of
          Some f \<Rightarrow> execute_handle (stamp_hit hash g (f (input_ptrs g) (output_ptrs g))) st
        | None \<Rightarrow> compile_new cs g st)"

section \<open>The cache as a client sees it\<close>

text \<open>What holds of every entry.\<close>

definition every :: "('k \<Rightarrow> 'h \<Rightarrow> bool) \<Rightarrow> ('k \<rightharpoonup> 'h) \<Rightarrow> bool" where
  "every P m \<longleftrightarrow> (\<forall>k h. m k = Some h \<longrightarrow> P k h)"

locale handle_cache =
  fixes look :: "64 word \<Rightarrow> 'c \<Rightarrow> 'h option \<times> 'c"
    and ins :: "64 word \<Rightarrow> 'h option \<Rightarrow> 'c \<Rightarrow> 'c"
    and ok :: "'c \<Rightarrow> bool"
    and contents :: "'c \<Rightarrow> 64 word \<rightharpoonup> 'h"
    and sig :: "64 word \<Rightarrow> 64 word"
  assumes look_value: "ok c \<Longrightarrow> fst (look k c) = contents c (sig k)"
    and look_keeps: "ok c \<Longrightarrow> ok (snd (look k c)) \<and> contents (snd (look k c)) = contents c"
    and ins_ok: "ok c \<Longrightarrow> ok (ins k (Some h) c)"
    and ins_entry: "ok c \<Longrightarrow> contents (ins k (Some h) c) k' = Some x \<Longrightarrow> contents c k' = Some x \<or> k' = sig k \<and> x = h"
begin

lemma every_look: "ok c \<Longrightarrow> every P (contents c) \<Longrightarrow> fst (look k c) = Some h \<Longrightarrow> P (sig k) h"
  by (simp add: look_value every_def)

lemma every_keeps: "ok c \<Longrightarrow> every P (contents c) \<Longrightarrow> ok (snd (look k c)) \<and> every P (contents (snd (look k c)))"
  by (simp add: look_keeps)

lemma every_ins: "ok c \<Longrightarrow> every P (contents c) \<Longrightarrow> P (sig k) h \<Longrightarrow> ok (ins k (Some h) c) \<and> every P (contents (ins k (Some h) c))"
  using ins_ok ins_entry by (fastforce simp: every_def)

end

interpretation tc: handle_cache cache_lookup cache_insert "\<lambda>c. cache_ok (table c)" "\<lambda>c. cache_map (table c)" normalize
proof unfold_locales
  fix k k' :: "64 word" and h x :: 'a and c :: "'a TraceCache"
  assume ok: "cache_ok (table c)"
  note l = lookup_from_correct [OF ok normalize_pos [of k]] and i = insert_from_correct [OF ok normalize_pos [of k], of h]
  show "fst (cache_lookup k c) = cache_map (table c) (normalize k)"
    using l by (simp add: cache_lookup_def Let_def split: option.split)
  show "cache_ok (table (snd (cache_lookup k c))) \<and> cache_map (table (snd (cache_lookup k c))) = cache_map (table c)"
    using ok by (simp add: cache_lookup_def Let_def split: option.split)
  show "cache_ok (table (cache_insert k (Some h) c))" using i by (simp add: cache_insert_def Let_def)
  assume "cache_map (table (cache_insert k (Some h) c)) k' = Some x"
  then show "cache_map (table c) k' = Some x \<or> k' = normalize k \<and> x = h"
    using i by (auto simp: cache_insert_def Let_def bounded_insert_def split: if_splits)
qed

section \<open>What the compilers promise\<close>

text \<open>
  A kernel is determined by the graph without its buffers; a handle calls it on the inputs and the live nodes of the graph it was
  compiled from, in node order, and rebinding calls it on other buffers. No compiler but Vulkan's returns null.
\<close>

definition shape :: "TraceDAG \<Rightarrow> TraceNode list" where
  "shape g = map (\<lambda>n. n\<lparr>buffer := Null\<rparr>) (nodes g)"

definition made :: "(TraceNode list \<Rightarrow> ptr list \<Rightarrow> ptr list \<Rightarrow> 'e) \<Rightarrow> TraceDAG \<Rightarrow> 'e TraceHandleImpl \<Rightarrow> bool" where
  "made kern g h \<longleftrightarrow> execute_fn h = Some (kern (shape g) (input_ptrs g) (output_ptrs g))
     \<and> (\<exists>f. rebind_fn h = Some f \<and> (\<forall>i out. execute_fn (f i out) = Some (kern (shape g) i out)))"

definition sound :: "(TraceNode list \<Rightarrow> ptr list \<Rightarrow> ptr list \<Rightarrow> 'e) \<Rightarrow> (TraceDAG \<Rightarrow> 'e TraceHandleImpl option res) \<Rightarrow> bool" where
  "sound kern f \<longleftrightarrow> (\<forall>g h. f g = Inr (Some h) \<longrightarrow> made kern g h)"

definition never_null :: "(TraceDAG \<Rightarrow> 'e TraceHandleImpl option res) \<Rightarrow> bool" where
  "never_null f \<longleftrightarrow> (\<forall>g. f g \<noteq> Inr None)"

definition compilers_ok :: "(TraceNode list \<Rightarrow> ptr list \<Rightarrow> ptr list \<Rightarrow> 'e) \<Rightarrow> 'e compilers \<Rightarrow> 'e jit \<Rightarrow> bool" where
  "compilers_ok kern cs st \<longleftrightarrow>
     (\<forall>p. sound kern (\<lambda>g. compile_cpu cs g p) \<and> never_null (\<lambda>g. compile_cpu cs g p))
     \<and> sound kern (compile_eager cs) \<and> never_null (compile_eager cs)
     \<and> (\<forall>f p. cuda_hook st = Some f \<longrightarrow> sound kern (\<lambda>g. f g p) \<and> never_null (\<lambda>g. f g p))
     \<and> (\<forall>f p. vulkan_hook st = Some f \<longrightarrow> sound kern (\<lambda>g. f g p))"

lemma compile_dag_sound:
  assumes "compilers_ok kern cs st"
  shows "compile_dag cs st g \<noteq> Inr None" "compile_dag cs st g = Inr (Some h) \<Longrightarrow> made kern g h"
  using assms by (auto simp: compile_dag_def compilers_ok_def sound_def never_null_def Let_def split: option.splits if_splits)

text \<open>Host code is never compiled for a graph with a Vulkan node.\<close>

lemma vulkan_never_cpu: "on_vulkan g \<Longrightarrow> compile_dag (cs\<lparr>compile_cpu := f\<rparr>) st g = compile_dag cs st g"
  by (simp add: compile_dag_def Let_def)

lemma compile_dag_hooks:
  assumes "cuda_hook st' = cuda_hook st" "vulkan_hook st' = vulkan_hook st"
  shows "compile_dag cs st' = compile_dag cs st"
  by (rule ext) (simp only: compile_dag_def assms)


lemma made_stamp [simp]: "made kern g (stamp_new hash g' h) = made kern g h" "execute_fn (stamp_hit hash g' h) = execute_fn h"
  "signature_hash (stamp_new hash g' h) = hash" "signature_hash (stamp_hit hash g' h) = hash"
  by (simp_all add: made_def stamp_new_def stamp_hit_def)

section \<open>One call\<close>

text \<open>Every cached handle was compiled from a graph of \<open>G\<close> with that signature.\<close>

definition entry_of :: "(TraceNode list \<Rightarrow> ptr list \<Rightarrow> ptr list \<Rightarrow> 'e) \<Rightarrow> TraceDAG set \<Rightarrow> 64 word \<Rightarrow> 'e TraceHandleImpl \<Rightarrow> bool" where
  "entry_of kern G k h \<longleftrightarrow> (\<exists>g\<in>G. normalize (compute_hash g) = k \<and> made kern g h)"

definition jit_ok :: "(TraceNode list \<Rightarrow> ptr list \<Rightarrow> ptr list \<Rightarrow> 'e) \<Rightarrow> TraceDAG set \<Rightarrow> 'e jit \<Rightarrow> bool" where
  "jit_ok kern G st \<longleftrightarrow> cache_ok (table (jit_cache st)) \<and> every (entry_of kern G) (cache_map (table (jit_cache st)))"

lemma jit_ok_mono: "jit_ok kern G st \<Longrightarrow> G \<subseteq> H \<Longrightarrow> jit_ok kern H st"
  unfolding jit_ok_def every_def entry_of_def by blast





section \<open>Sequences of traces\<close>

fun compile_all :: "'e compilers \<Rightarrow> TraceDAG list \<Rightarrow> 'e jit \<Rightarrow> 'e TraceHandleImpl res list \<times> 'e jit" where
  "compile_all cs [] st = ([], st)"
| "compile_all cs (raw # raws) st = (case compile_and_cache cs raw st of (r, st') \<Rightarrow>
     case compile_all cs raws st' of (rs, st'') \<Rightarrow> (r # rs, st''))"






section \<open>A collision\<close>

lemma clamp_dag_codegen: "codegen_dag (clamp_dag t lo hi) = Inr (clamp_dag t lo hi)"
  by (simp add: codegen_dag_def has_ext_ops_def clamp_dag_nodes default_node_def)

text \<open>
  C26: a colliding trace runs the wrong kernel. On an empty cache, tracing \<^verbatim>\<open>clamp(x, lo, hi)\<close> of a CPU tensor of shape (1, 8) for the bounds
  -88 and about -7.6e-6 and then for the bounds about 1.3e-6 and 2 gives one signature for the two graphs, so the second call returns
  as a cache hit and runs the first kernel again, with the wrong bounds, although its own kernel could have been compiled.
\<close>

theorem clamp_collision_wrong_kernel:
  assumes "device t = cpu" "dtype t = FP32" "rows t = 1" "cols t = 8" "compilers_ok kern cs st" "jit_cache st = new_cache"
    and "compile_dag cs st (clamp_dag t 0xc2b00000 0xb700027d) = Inr (Some h)"
  shows "\<exists>r1 r2 st'. compile_all cs [clamp_dag t 0xc2b00000 0xb700027d, clamp_dag t 0x35b0000f 0x40000000] st = ([Inr r1, Inr r2], st') \<and> is_cache_hit r2
    \<and> executed st' = executed st @ [kern (shape (clamp_dag t 0xc2b00000 0xb700027d)) [data t] [Null], kern (shape (clamp_dag t 0xc2b00000 0xb700027d)) [data t] [Null]]
    \<and> shape (clamp_dag t 0xc2b00000 0xb700027d) \<noteq> shape (clamp_dag t 0x35b0000f 0x40000000)"
proof -
  define a where "a = clamp_dag t 0xc2b00000 0xb700027d"
  define b where "b = clamp_dag t 0x35b0000f 0x40000000"
  define hash where "hash = compute_hash a"
  have hb: "compute_hash b = hash" using clamp_collision [OF assms(1-4)] by (simp add: hash_def a_def b_def)
  have p: "input_ptrs a = [data t]" "output_ptrs a = [Null]" "input_ptrs b = [data t]" "output_ptrs b = [Null]"
    by (simp_all add: a_def b_def input_ptrs_def output_ptrs_def clamp_dag_nodes default_node_def)
  have cd: "codegen_dag a = Inr a" "codegen_dag b = Inr b" by (simp_all add: a_def b_def clamp_dag_codegen)
  have m: "made kern a h" using compile_dag_sound(2) [OF assms(5)] assms(7) by (simp add: a_def)
  let ?h = "stamp_new hash a h" and ?K = "kern (shape a) [data t] [Null]"
  have ok: "cache_ok (table (jit_cache st))" "cache_map (table (jit_cache st)) = Map.empty" using assms(6) by (simp_all add: new_cache_ok)
  obtain x c where x: "cache_lookup hash (jit_cache st) = (x, c)" by force
  have "x = None" using tc.look_value [OF ok(1), of hash] ok(2) x by simp
  moreover have "cache_ok (table c) \<and> cache_map (table c) = Map.empty" using tc.look_keeps [OF ok(1), of hash] ok(2) x by simp
  ultimately have c: "cache_lookup hash (jit_cache st) = (None, c)" "cache_ok (table c) \<and> cache_map (table c) = Map.empty" using x by simp_all
  let ?s = "st\<lparr>jit_cache := cache_insert hash (Some ?h) c, executed := executed st @ [?K]\<rparr>"
  have "compile_dag cs (st\<lparr>jit_cache := c\<rparr>) a = Inr (Some h)" using assms(7) compile_dag_hooks [of "st\<lparr>jit_cache := c\<rparr>" st] by (simp add: a_def)
  then have first: "compile_and_cache cs a st = (Inr ?h, ?s)"
    using m cd(1) c(1) p by (simp add: compile_and_cache_def compile_new_def execute_handle_def Let_def made_def stamp_new_def hash_def [symmetric])
  obtain f where f: "rebind_fn ?h = Some f" "\<And>i out. execute_fn (f i out) = Some (kern (shape a) i out)" using m by (auto simp: made_def stamp_new_def)
  have "cache_map (table (cache_insert hash (Some ?h) c)) = [normalize hash \<mapsto> ?h]" "cache_ok (table (cache_insert hash (Some ?h) c))"
    using c(2) insert_from_correct [of "table c" "normalize hash" ?h] by (auto simp: cache_insert_def Let_def bounded_insert_def kCapacity_def)
  then obtain d where d: "cache_lookup hash (cache_insert hash (Some ?h) c) = (Some ?h, d)"
    using tc.look_value [of "cache_insert hash (Some ?h) c" hash] by (cases "cache_lookup hash (cache_insert hash (Some ?h) c)") simp
  let ?r = "stamp_hit hash b (f [data t] [Null])"
  have second: "compile_and_cache cs b ?s = (Inr ?r, ?s\<lparr>jit_cache := d, executed := executed st @ [?K, ?K]\<rparr>)"
    using cd(2) hb d f p by (simp add: compile_and_cache_def execute_handle_def Let_def)
  have "shape a \<noteq> shape b" by (simp add: a_def b_def shape_def clamp_dag_nodes default_node_def)
  moreover have "is_cache_hit ?r" by (simp add: stamp_hit_def)
  moreover have "compile_all cs [a, b] st = ([Inr ?h, Inr ?r], ?s\<lparr>jit_cache := d, executed := executed st @ [?K, ?K]\<rparr>)" by (simp add: first second)
  ultimately show ?thesis unfolding a_def [symmetric] b_def [symmetric] by auto
qed

text \<open>A compiler that keeps the contract: the effect is the kernel and its buffers.\<close>

definition demo_handle :: "TraceNode list \<Rightarrow> ptr list \<Rightarrow> ptr list \<Rightarrow> (TraceNode list \<times> ptr list \<times> ptr list) TraceHandleImpl" where
  "demo_handle s i out = TraceHandleImpl 0 False 0 False 1 ''demo'' (Some (s, i, out))
     (Some (\<lambda>i out. TraceHandleImpl 0 False 0 False 1 ''demo'' (Some (s, i, out)) None))"

definition demo_compilers :: "(TraceNode list \<times> ptr list \<times> ptr list) compilers" where
  "demo_compilers = \<lparr>compile_cpu = (\<lambda>g p. Inr (Some (demo_handle (shape g) (input_ptrs g) (output_ptrs g)))),
     compile_eager = (\<lambda>g. Inr (Some (demo_handle (shape g) (input_ptrs g) (output_ptrs g))))\<rparr>"

definition demo_jit :: "(TraceNode list \<times> ptr list \<times> ptr list) jit" where
  "demo_jit = \<lparr>jit_cache = new_cache, cuda_hook = None, vulkan_hook = None, executed = []\<rparr>"

definition demo_row :: Tensor where
  "demo_row = empty_tensor\<lparr>device := cpu, dtype := FP32, rows := 1, cols := 8\<rparr>"

lemma demo_compilers_ok: "compilers_ok (\<lambda>s i out. (s, i, out)) demo_compilers demo_jit"
  by (auto simp: compilers_ok_def sound_def never_null_def demo_compilers_def demo_jit_def made_def demo_handle_def)

theorem clamp_collision_wrong_kernel_witness:
  "\<exists>r1 r2 st'. compile_all demo_compilers [clamp_dag demo_row 0xc2b00000 0xb700027d, clamp_dag demo_row 0x35b0000f 0x40000000] demo_jit = ([Inr r1, Inr r2], st')
    \<and> is_cache_hit r2"
proof -
  have "\<exists>h. compile_dag demo_compilers demo_jit (clamp_dag demo_row 0xc2b00000 0xb700027d) = Inr (Some h)"
    by (simp add: compile_dag_def demo_compilers_def on_cuda_def on_vulkan_def clamp_dag_nodes default_node_def demo_row_def is_cuda_def is_vulkan_def Let_def)
  then show ?thesis using clamp_collision_wrong_kernel [OF _ _ _ _ demo_compilers_ok, of demo_row] by (auto simp: demo_row_def demo_jit_def)
qed


end
