(* ===== verification/BackwardRun.thy ===== *)
theory BackwardRun
  imports BackwardLowered TraceCompile
begin

text \<open>
  Running a differentiated trace (\<^verbatim>\<open>bind_and_run_dag\<close> of \<^verbatim>\<open>src/jit/trace_autodiff.cpp\<close>): the buffers of the call are written into a copy of the
  lowered backward graph, which then goes through the compiler and its cache.
\<close>

section \<open>Binding\<close>




section \<open>What is bound\<close>








end
