(* ===== verification/Spec2Isabelle.thy ===== *)
theory Spec2Isabelle
  imports TensorProps GgufProps StUpload JsonGrammar TraceProps CacheThreads TracePlan LoweredDivs BackwardRun
begin

text \<open>
  A verification library for brotensor, a C++ tensor library with CPU, CUDA, Metal and Vulkan backends and a tracing jit.

  \<^bold>\<open>The program.\<close> A \<^verbatim>\<open>Tensor\<close> owns storage on a device. Storage comes from the allocation table of the backend registered for that device, and an
  operation is dispatched to the op table of the one device its operands are on. Model files (GGUF, safetensors) are mapped into memory,
  indexed, and uploaded as tensors; \<^verbatim>\<open>json.h\<close> parses configuration files. Between \<^verbatim>\<open>begin_trace\<close> and \<^verbatim>\<open>end_trace\<close> the traced operators compute
  nothing: they append nodes to a graph and return symbolic tensors. The end of a trace allocates storage for the results still held,
  lowers the graph to the operators the kernel emitters know, looks its signature up in a cache of compiled kernels, compiles it on a
  miss and runs it. A graph can also be differentiated, which gives another graph.

  \<^bold>\<open>Conventions\<close> (theory \<open>Prelude\<close>). An operation that can fail returns \<open>err + 'a\<close>: \<open>Throw\<close> for a C++ exception, \<open>UB\<close> where the C++ would be undefined.
  Undefined behaviour is a value of the model, so that safety theorems can say it is not reached. State is passed explicitly, and an
  operation that throws also returns the state it leaves. Machine integers are words, or integers with the wrap-around or the range
  check written out; a \<^verbatim>\<open>float\<close> is its bit pattern. Definitions keep the names of the code.

  \<^bold>\<open>Theories and sources\<close> (paths under \<^verbatim>\<open>src/\<close> of the repository).

  \<^item> \<open>Prelude\<close>, \<open>Bits\<close>, \<open>Text\<close>: results, bit fields and rounding to nearest even, scanning and printing text.
  \<^item> \<open>Dtypes\<close>, \<open>Floats\<close>: \<^verbatim>\<open>include/brotensor/tensor.h\<close> and \<^verbatim>\<open>src/tensor.cpp\<close>, the dtypes, devices, storage sizes, and the FP16 and BF16 conversions; the
    encoders round to a nearest value with ties to even, and decoding followed by encoding is the identity.
  \<^item> \<open>Memory\<close>: blocks of bytes behind pointers, and \<^verbatim>\<open>AllocVTable\<close> with the CPU table of \<^verbatim>\<open>src/cpu/alloc.cpp\<close>. The locale \<open>alloc_backend\<close> states what the
    tensors need of an allocation table; the CPU table is an interpretation.
  \<^item> \<open>Runtime\<close>: \<^verbatim>\<open>src/dispatch.cpp\<close>, \<^verbatim>\<open>src/init.cpp\<close>, \<^verbatim>\<open>src/graph.cpp\<close>: backend slots, device aliases, operand dispatch, initialisation, default device,
    graph capture. GPU probes and graph recorders are parameters.
  \<^item> \<open>Tensors\<close>, \<open>TensorInv\<close>, \<open>TensorProps\<close>: the operations of \<^verbatim>\<open>Tensor\<close> over a world of objects, memory and runtime; the ownership invariant; memory
    safety of every program over tensors, contents across devices, moves, resizing, host access.
  \<^item> \<open>Gguf\<close>, \<open>GgufProps\<close>: \<^verbatim>\<open>src/gguf.cpp\<close>: parsing, placement, lookup and upload. No byte string makes the reader leave the mapping, an opened file is
    consistent, and a written file is read back.
  \<^item> \<open>Safetensors\<close>, \<open>SafetensorsProps\<close>, \<open>StUpload\<close>: \<^verbatim>\<open>src/safetensors.cpp\<close>, reader, uploads and writer, with the same three kinds of theorem.
  \<^item> \<open>Json\<close>, \<open>JsonProps\<close>, \<open>JsonGrammar\<close>: \<^verbatim>\<open>include/brotensor/json.h\<close>; the parser accepts exactly the texts of a grammar, up to the nesting limit, and
    returns the value the grammar gives.
  \<^item> \<open>TraceDag\<close>, \<open>TraceCtx\<close>, \<open>TraceInv\<close>, \<open>TraceEnd\<close>, \<open>TracePrograms\<close>, \<open>TraceProps\<close>: \<^verbatim>\<open>src/jit/trace_dag.cpp\<close> and the traced branch of every operator of
    \<^verbatim>\<open>src/jit/trace_ops.cpp\<close>, on top of the tensor world: any program of tensor operations and tracing calls keeps the graph in topological
    order and the table of symbolic tensors exact, and \<^verbatim>\<open>end_trace\<close> settles every tensor.
  \<^item> \<open>TraceEmit\<close>, \<open>Autodiff\<close>, \<open>AutodiffProps\<close>, \<open>Gradient\<close>: \<^verbatim>\<open>TraceDAG::backward\<close> and the emitters of \<^verbatim>\<open>src/jit/trace_autodiff.cpp\<close>. A graph is given its
    meaning over the reals, one lane at a time; the calculus \<open>emits\<close> proves what an emitter computes. The graph that \<^verbatim>\<open>backward\<close> returns transposes
    the linear map of the operators' factors, and where these are derivatives it computes the gradient.
  \<^item> \<open>Lowering\<close>, \<open>LoweredDivs\<close>, \<open>BackwardLowered\<close>: \<^verbatim>\<open>canonicalize_trace_dag_for_codegen\<close> and \<^verbatim>\<open>build_verified_backward_trace\<close>. Lowering returns, leaves only
    core operators, keeps inputs and outputs, and keeps the values of exactly lowered operators; every denominator left is positive;
    differentiation followed by lowering still computes the gradient. The lowered square root is wrong for large arguments.
  \<^item> \<open>TraceCache\<close>, \<open>CacheThreads\<close>: \<^verbatim>\<open>src/jit/trace_cache.cpp\<close>, for one thread (a bounded map) and as the atomic steps of several: lookups return only what
    was inserted for the signature, entries are written once, and every call is wait-free.
  \<^item> \<open>TraceCompile\<close>: \<^verbatim>\<open>TraceCompiler\<close> of \<^verbatim>\<open>src/jit/trace_compiler_cpu.cpp\<close>. The locale \<open>handle_cache\<close> states what compiling relies on of the cache; the table
    of \<open>TraceCache\<close> is an interpretation. Without colliding signatures caching is transparent; two \<^verbatim>\<open>clamp\<close> traces collide.
  \<^item> \<open>BackwardRun\<close>: \<^verbatim>\<open>bind_and_run_dag\<close>, which runs a lowered backward graph on the tensors of a call.
  \<^item> \<open>MagicDiv\<close>, \<open>TracePlan\<close>: \<^verbatim>\<open>src/jit/ptx_emit_detail.h\<close>, \<^verbatim>\<open>src/jit/spirv_emit_common.cpp\<close>, \<^verbatim>\<open>src/jit/trace_plan.cpp\<close>, and the addressing of
    \<^verbatim>\<open>src/jit/spirv_emit_elementwise.cpp\<close>: division by constants is exact in both emitters, and every lane of an elementwise kernel reads the
    element its broadcast kind prescribes.

  \<^bold>\<open>Bounds and termination.\<close> No definition uses fuel. The loops of the code are structural recursions or functions with a measure; \<open>while\<close> appears
  for the normalisation loop of the FP16 decoder, with a proof that it ends. The JSON and safetensors parsers consume the text they are
  given; the pruning walk of \<^verbatim>\<open>backward\<close> marks a node at most once. Graphs are assumed to have fewer than \<open>2 ^ 31\<close> nodes, the range of a
  node id.

  \<^bold>\<open>Parameters and their contracts.\<close> \<^verbatim>\<open>std::stod\<close> and the conversions of doubles; the GPU probes, graph recorders and environment; the device
  cast of an upload; the compilers behind \<^verbatim>\<open>compile_and_cache\<close>, whose kernels may depend on a graph only up to its buffers. Each theorem that
  needs a contract states it, with an instance that satisfies it.

  \<^bold>\<open>Exact arithmetic.\<close> The theorems about differentiation and lowering are over the reals: they show that the graphs are the right expressions,
  not how far the rounding of a kernel takes them.

  \<^bold>\<open>Not modelled.\<close> The kernels of the CPU, CUDA, Metal and Vulkan backends and the op front ends that forward to them, which are floating-point loops
  and driver calls; the bodies of the PTX and SPIR-V emitters apart from division and addressing, and the host code generator, which
  drive the brass library; the eager replay, which calls the op kernels; the proofs that brass attempts on a backward trace (the model
  is the configuration without brass); the kernel disk cache and the mapping of files, which are operating-system calls; the FP8
  conversions; the JavaScript bindings.
\<close>

end
